(* ===== verification/Prelude.thy ===== *)
theory Prelude
  imports Main "HOL-Library.Char_ord" "HOL-Library.List_Lexorder" "HOL-Library.Product_Lexorder"
begin

text \<open>
  Shared vocabulary of the development: the Python string operations the source uses
  (\<^verbatim>\<open>strip\<close>, \<^verbatim>\<open>lower\<close>, \<^verbatim>\<open>upper\<close>, \<^verbatim>\<open>title\<close>, \<^verbatim>\<open>join\<close>, integer formatting), the
  \<^verbatim>\<open>x or default\<close> idiom, and lemmas on lists and maps that several components use.

  Strings are lists of characters; the operations are those of Python restricted to ASCII
  text, which is what the identifiers, plan names and county names of this program are.
  The collection \<open>py_simps\<close> gathers the equations that evaluate these operations.
\<close>

named_theorems py_simps

subsection \<open>The or-default idiom\<close>

text \<open>\<^verbatim>\<open>x or d\<close> where \<open>x\<close> may be None: the default replaces None.\<close>

definition opt_or :: "'a option \<Rightarrow> 'a \<Rightarrow> 'a" where
  "opt_or x d = (case x of None \<Rightarrow> d | Some v \<Rightarrow> v)"

lemma opt_or_simps [simp, py_simps]:
  "opt_or None d = d" "opt_or (Some v) d = v"
  by (simp_all add: opt_or_def)

text \<open>
  \<^verbatim>\<open>s or d\<close> for a string: None and the empty string are both falsy.
\<close>

definition str_or :: "string option \<Rightarrow> string \<Rightarrow> string" where
  "str_or x d = (case x of None \<Rightarrow> d | Some v \<Rightarrow> if v = [] then d else v)"

lemma str_or_simps [simp, py_simps]:
  "str_or None d = d" "str_or (Some []) d = d" "v \<noteq> [] \<Longrightarrow> str_or (Some v) d = v"
  by (simp_all add: str_or_def)

lemma str_or_empty: "str_or x [] = (case x of None \<Rightarrow> [] | Some v \<Rightarrow> v)"
  by (simp add: str_or_def split: option.split)

subsection \<open>Characters and case\<close>

definition py_space :: "char \<Rightarrow> bool" where
  "py_space c = (let n = of_char c :: nat in (9 \<le> n \<and> n \<le> 13) \<or> (28 \<le> n \<and> n \<le> 32))"

definition ascii_upper_letter :: "char \<Rightarrow> bool" where
  "ascii_upper_letter c = (let n = of_char c :: nat in 65 \<le> n \<and> n \<le> 90)"

definition ascii_lower_letter :: "char \<Rightarrow> bool" where
  "ascii_lower_letter c = (let n = of_char c :: nat in 97 \<le> n \<and> n \<le> 122)"

definition lower_char :: "char \<Rightarrow> char" where
  "lower_char c = (if ascii_upper_letter c then char_of (of_char c + 32 :: nat) else c)"

definition upper_char :: "char \<Rightarrow> char" where
  "upper_char c = (if ascii_lower_letter c then char_of (of_char c - 32 :: nat) else c)"

definition py_lower :: "string \<Rightarrow> string" where
  "py_lower s = map lower_char s"

definition py_upper :: "string \<Rightarrow> string" where
  "py_upper s = map upper_char s"

definition py_strip :: "string \<Rightarrow> string" where
  "py_strip s = rev (dropWhile py_space (rev (dropWhile py_space s)))"

text \<open>
  \<^verbatim>\<open>str.title\<close>: a letter that follows a letter is lowered, any other letter is raised.
\<close>

fun title_from :: "bool \<Rightarrow> string \<Rightarrow> string" where
  "title_from _ [] = []"
| "title_from prev (c # cs) =
     (let letter = ascii_upper_letter c \<or> ascii_lower_letter c
      in (if prev then lower_char c else upper_char c) # title_from letter cs)"

definition py_title :: "string \<Rightarrow> string" where
  "py_title s = title_from False s"

lemma of_char_lower:
  "(of_char (lower_char c) :: nat) = (if ascii_upper_letter c then of_char c + 32 else of_char c)"
proof -
  have "ascii_upper_letter c \<Longrightarrow> (of_char c :: nat) + 32 < 256"
    by (simp add: ascii_upper_letter_def Let_def)
  then show ?thesis by (simp add: lower_char_def)
qed

lemma lower_char_idem [simp]: "lower_char (lower_char c) = lower_char c"
proof (cases "ascii_upper_letter c")
  case True
  then have "\<not> ascii_upper_letter (lower_char c)"
    by (simp add: ascii_upper_letter_def of_char_lower Let_def)
  then show ?thesis by (simp add: lower_char_def [of "lower_char c"])
next
  case False
  then show ?thesis by (simp add: lower_char_def)
qed

lemma py_space_lower [simp]: "py_space (lower_char c) = py_space c"
proof (cases "ascii_upper_letter c")
  case True
  then show ?thesis
    by (auto simp add: py_space_def of_char_lower ascii_upper_letter_def Let_def)
next
  case False
  then show ?thesis by (simp add: lower_char_def)
qed

lemma py_lower_idem [simp]: "py_lower (py_lower s) = py_lower s"
  by (simp add: py_lower_def)

lemma dropWhile_space_lower: "dropWhile py_space (py_lower s) = py_lower (dropWhile py_space s)"
  by (induction s) (simp_all add: py_lower_def)

lemma rev_lower: "rev (py_lower s) = py_lower (rev s)"
  by (simp add: py_lower_def rev_map)

lemma strip_lower: "py_strip (py_lower s) = py_lower (py_strip s)"
  by (simp add: py_strip_def dropWhile_space_lower rev_lower)

lemma dropWhile_idem: "dropWhile P (dropWhile P xs) = dropWhile P xs"
  by (induction xs) simp_all

lemma dropWhile_snoc: "\<not> P a \<Longrightarrow> dropWhile P (xs @ [a]) = dropWhile P xs @ [a]"
  by (induction xs) simp_all

lemma dropWhile_rev_dropWhile:
  "dropWhile P (rev (dropWhile P (rev (dropWhile P xs)))) = rev (dropWhile P (rev (dropWhile P xs)))"
proof (cases "dropWhile P xs")
  case Nil
  then show ?thesis by (simp only: Nil) simp
next
  case (Cons a as)
  then have "\<not> P a" using hd_dropWhile [of P xs] by simp
  then show ?thesis by (simp only: Cons) (simp add: dropWhile_snoc)
qed

lemma py_strip_idem [simp]: "py_strip (py_strip s) = py_strip s"
  by (simp add: py_strip_def dropWhile_rev_dropWhile dropWhile_idem)

subsection \<open>Formatting\<close>

fun show_nat :: "nat \<Rightarrow> string" where
  "show_nat n = (if n < 10 then [char_of (48 + n)] else show_nat (n div 10) @ [char_of (48 + n mod 10)])"

declare show_nat.simps [simp del]

definition show_int :: "int \<Rightarrow> string" where
  "show_int i = (if i < 0 then CHR ''-'' # show_nat (nat (- i)) else show_nat (nat i))"

text \<open>Zero padding on the left, as in \<^verbatim>\<open>f"{n:02d}"\<close> for a non-negative number.\<close>

definition pad_left :: "nat \<Rightarrow> char \<Rightarrow> string \<Rightarrow> string" where
  "pad_left w c s = replicate (w - length s) c @ s"

text \<open>Thousands separators, as in \<^verbatim>\<open>f"{n:,}"\<close>.\<close>

fun group_rev :: "string \<Rightarrow> string" where
  "group_rev (a # b # c # d # cs) = a # b # c # CHR '','' # group_rev (d # cs)"
| "group_rev cs = cs"

definition show_commas :: "int \<Rightarrow> string" where
  "show_commas i =
     (if i < 0 then CHR ''-'' # rev (group_rev (rev (show_nat (nat (- i)))))
      else rev (group_rev (rev (show_nat (nat i)))))"

fun str_join :: "string \<Rightarrow> string list \<Rightarrow> string" where
  "str_join _ [] = []"
| "str_join _ [x] = x"
| "str_join sep (x # y # ys) = x @ sep @ str_join sep (y # ys)"

lemma show_nat_nonempty [simp]: "show_nat n \<noteq> []"
  by (subst show_nat.simps) simp

subsection \<open>Lists\<close>

text \<open>\<^verbatim>\<open>sorted(set(xs))\<close>: the distinct elements in increasing order.\<close>

definition sorted_distinct :: "'a::linorder list \<Rightarrow> 'a list" where
  "sorted_distinct xs = sort (remdups xs)"

lemma set_sorted_distinct [simp]: "set (sorted_distinct xs) = set xs"
  by (simp add: sorted_distinct_def)

lemma distinct_sorted_distinct [simp]: "distinct (sorted_distinct xs)"
  by (simp add: sorted_distinct_def)

lemma sorted_sorted_distinct [simp]: "sorted (sorted_distinct xs)"
  by (simp add: sorted_distinct_def)

lemma sum_list_filter_le:
  fixes f :: "'a \<Rightarrow> nat"
  shows "sum_list (map f (filter P xs)) \<le> sum_list (map f xs)"
  by (induction xs) auto

lemma sum_list_filter_split:
  fixes f :: "'a \<Rightarrow> int"
  shows "sum_list (map f xs)
       = sum_list (map f (filter P xs)) + sum_list (map f (filter (\<lambda>x. \<not> P x) xs))"
  by (induction xs) auto

end
