(* ===== verification/Calendar.thy ===== *)
theory Calendar
  imports Prelude
begin

text \<open>
  UTC datetimes with the arithmetic of Python's \<^verbatim>\<open>datetime\<close> and \<^verbatim>\<open>calendar\<close> modules, as far as the
  quota code uses it: the proleptic Gregorian month length (\<^verbatim>\<open>calendar.monthrange\<close>), the
  field-wise comparison of two datetimes, their difference through the day ordinal, and the
  dates printed by \<^verbatim>\<open>isoformat\<close>. The time of day is one number of microseconds. Every datetime
  here is aware and UTC (\<^verbatim>\<open>as_utc\<close> has been applied), and the year range check of
  \<^verbatim>\<open>datetime\<close> (1 to 9999) is left out.

  The lemmas show that on valid dates the field order is the order of instants, and that the
  first days of consecutive months are a month's length apart: the facts every window proof
  of the quota components rests on.
\<close>

datatype datetime = DateTime (dt_year: int) (dt_month: int) (dt_day: int) (dt_tod: int)

text \<open>Python compares two UTC datetimes by their fields, most significant first.\<close>

definition dt_key :: "datetime \<Rightarrow> int \<times> int \<times> int \<times> int" where
  "dt_key d = (dt_year d, dt_month d, dt_day d, dt_tod d)"

lemma dt_key_inject [simp]: "dt_key a = dt_key b \<longleftrightarrow> a = b"
  by (cases a; cases b) (simp add: dt_key_def)

instantiation datetime :: linorder
begin

definition less_eq_datetime :: "datetime \<Rightarrow> datetime \<Rightarrow> bool" where
  "less_eq_datetime a b \<longleftrightarrow> dt_key a \<le> dt_key b"

definition less_datetime :: "datetime \<Rightarrow> datetime \<Rightarrow> bool" where
  "less_datetime a b \<longleftrightarrow> dt_key a < dt_key b"

instance
  by standard (auto simp: less_eq_datetime_def less_datetime_def less_le_not_le
      intro: order_trans dest: order_antisym)

end

subsection \<open>Months and days\<close>

definition is_leap :: "int \<Rightarrow> bool" where
  "is_leap y = (y mod 4 = 0 \<and> (y mod 100 \<noteq> 0 \<or> y mod 400 = 0))"

definition days_in_month :: "int \<Rightarrow> int \<Rightarrow> int" where
  "days_in_month y m =
     (if m = 2 then (if is_leap y then 29 else 28)
      else if m = 4 \<or> m = 6 \<or> m = 9 \<or> m = 11 then 30 else 31)"

definition days_before_year :: "int \<Rightarrow> int" where
  "days_before_year y = (y - 1) * 365 + (y - 1) div 4 - (y - 1) div 100 + (y - 1) div 400"

definition days_before_month :: "int \<Rightarrow> int \<Rightarrow> int" where
  "days_before_month y m =
     (if m \<le> 1 then 0 else if m = 2 then 31 else
        (if m = 3 then 59 else if m = 4 then 90 else if m = 5 then 120 else if m = 6 then 151
         else if m = 7 then 181 else if m = 8 then 212 else if m = 9 then 243
         else if m = 10 then 273 else if m = 11 then 304 else 334)
        + (if is_leap y then 1 else 0))"

definition ymd2ord :: "int \<Rightarrow> int \<Rightarrow> int \<Rightarrow> int" where
  "ymd2ord y m d = days_before_year y + days_before_month y m + d"

definition usec_per_day :: int where
  "usec_per_day = 86400000000"

text \<open>
  Microseconds from the start of the ordinal calendar: the difference of two datetimes is
  the difference of their instants.
\<close>

definition instant :: "datetime \<Rightarrow> int" where
  "instant d = ymd2ord (dt_year d) (dt_month d) (dt_day d) * usec_per_day + dt_tod d"

definition dt_diff :: "datetime \<Rightarrow> datetime \<Rightarrow> int" where
  "dt_diff a b = instant a - instant b"

definition valid_dt :: "datetime \<Rightarrow> bool" where
  "valid_dt d \<longleftrightarrow> 1 \<le> dt_month d \<and> dt_month d \<le> 12 \<and> 1 \<le> dt_day d \<and>
     dt_day d \<le> days_in_month (dt_year d) (dt_month d) \<and>
     0 \<le> dt_tod d \<and> dt_tod d < usec_per_day"

text \<open>Months are counted on one line: \<open>12 * year + (month - 1)\<close>.\<close>

definition month_index :: "datetime \<Rightarrow> int" where
  "month_index d = dt_year d * 12 + (dt_month d - 1)"

definition month_len :: "int \<Rightarrow> int" where
  "month_len n = days_in_month (n div 12) (n mod 12 + 1)"

definition month_start :: "int \<Rightarrow> int" where
  "month_start n = ymd2ord (n div 12) (n mod 12 + 1) 1"

lemma month_len_bounds: "28 \<le> month_len n \<and> month_len n \<le> 31"
  by (simp add: month_len_def days_in_month_def)

lemma days_in_month_bounds: "28 \<le> days_in_month y m \<and> days_in_month y m \<le> 31"
  by (simp add: days_in_month_def)

lemma div_le_less:
  fixes n d y :: int
  assumes "0 < d" "n div d \<le> y"
  shows "n < d * (y + 1)"
proof -
  have "n mod d < d" by (rule pos_mod_bound [OF assms(1)])
  moreover have "d * (n div d) + n mod d = n" by (rule mult_div_mod_eq)
  ultimately have "n < d * (n div d) + d" by linarith
  also have "\<dots> \<le> d * y + d" using mult_left_mono [OF assms(2), of d] assms(1) by simp
  finally show ?thesis by (simp add: distrib_left)
qed

lemma div_pred_step: "0 < k \<Longrightarrow> (y::int) div k = (y - 1) div k + (if y mod k = 0 then 1 else 0)"
proof -
  assume k: "0 < k"
  show ?thesis
  proof (cases "y mod k = 0")
    case True
    then obtain q where q: "y = k * q" by auto
    have "(k * q - 1) div k = q - 1"
      by (rule int_div_pos_eq [where r = "k - 1"]) (use k in \<open>auto simp: algebra_simps\<close>)
    with q k True show ?thesis by simp
  next
    case False
    let ?q = "y div k" and ?r = "y mod k"
    have r: "0 < ?r" "?r < k"
      using False k pos_mod_bound [OF k, of y] pos_mod_sign [OF k, of y] by linarith+
    have "(y - 1) div k = ?q"
      by (rule int_div_pos_eq [where r = "?r - 1"]) (use r in \<open>simp_all add: algebra_simps\<close>)
    with False show ?thesis by simp
  qed
qed

lemma leap_count:
  "(B \<Longrightarrow> A) \<Longrightarrow> (C \<Longrightarrow> B) \<Longrightarrow>
    (if A \<and> (\<not> B \<or> C) then 1 else 0) = (if A then 1 else (0::int)) - (if B then 1 else 0) + (if C then 1 else 0)"
  by (cases A; cases B; cases C) simp_all

lemma days_before_year_Suc: "days_before_year (y + 1) = days_before_year y + (if is_leap y then 366 else 365)"
proof -
  have m: "y mod 100 = 0 \<Longrightarrow> y mod 4 = 0" "y mod 400 = 0 \<Longrightarrow> y mod 100 = 0"
    using dvd_trans [of "4::int" 100 y] dvd_trans [of "100::int" 400 y]
    by (simp_all add: mod_eq_0_iff_dvd)
  have e: "days_before_year (y + 1) = y * 365 + y div 4 - y div 100 + y div 400"
    by (simp add: days_before_year_def)
  have pos: "0 < (4::int)" "0 < (100::int)" "0 < (400::int)" by simp_all
  note d = div_pred_step [OF pos(1), of y] div_pred_step [OF pos(2), of y]
    div_pred_step [OF pos(3), of y]
  have l: "(if is_leap y then 1 else 0) = (if y mod 4 = 0 then 1 else (0::int))
      - (if y mod 100 = 0 then 1 else 0) + (if y mod 400 = 0 then 1 else 0)"
    unfolding is_leap_def by (rule leap_count [OF m])
  have sum: "e = (y - 1) * 365 + p4 - p100 + p400 + (365 + (i4 - i100 + i400))"
    if "e = y * 365 + q4 - q100 + q400" "q4 = p4 + i4" "q100 = p100 + i100" "q400 = p400 + i400"
    for e q4 q100 q400 p4 p100 p400 i4 i100 i400 :: int
    using that by (simp add: algebra_simps)
  have s: "(if is_leap y then 366 else 365) = 365 + (if is_leap y then 1 else (0::int))" by simp
  show ?thesis unfolding s l
    unfolding days_before_year_def [of y] by (rule sum [OF e d])
qed

lemma month_div_mod_step:
  fixes q r :: int
  assumes "0 \<le> r" "r < 12"
  shows "r = 11 \<Longrightarrow> (12 * q + r + 1) div 12 = q + 1 \<and> (12 * q + r + 1) mod 12 = 0"
    and "r \<noteq> 11 \<Longrightarrow> (12 * q + r + 1) div 12 = q \<and> (12 * q + r + 1) mod 12 = r + 1"
proof -
  assume "r = 11"
  then have e: "12 * q + r + 1 = 12 * (q + 1)" by simp
  show "(12 * q + r + 1) div 12 = q + 1 \<and> (12 * q + r + 1) mod 12 = 0" unfolding e by simp
next
  assume "r \<noteq> 11"
  with assms have e: "12 * q + r + 1 = 12 * q + (r + 1)" "0 \<le> r + 1" "r + 1 < 12" by linarith+
  show "(12 * q + r + 1) div 12 = q \<and> (12 * q + r + 1) mod 12 = r + 1"
    using int_div_pos_eq [OF e] int_mod_pos_eq [OF e] by blast
qed

lemma month_cases:
  fixes n :: int
  obtains "n mod 12 = 11" "(n + 1) div 12 = n div 12 + 1" "(n + 1) mod 12 = 0"
  | "0 \<le> n mod 12" "n mod 12 < 11" "(n + 1) div 12 = n div 12" "(n + 1) mod 12 = n mod 12 + 1"
proof -
  have r: "0 \<le> n mod 12" "n mod 12 < 12" by simp_all
  have n: "12 * (n div 12) + n mod 12 = n" by (rule mult_div_mod_eq)
  note step = month_div_mod_step [OF r, of "n div 12", unfolded n]
  show thesis
  proof (cases "n mod 12 = 11")
    case True
    then show thesis using step(1) [OF True] by (intro that(1)) auto
  next
    case False
    then have "n mod 12 < 11" using r(2) by (simp add: order_less_le)
    then show thesis using step(2) [OF False] r(1) by (intro that(2)) auto
  qed
qed

lemma days_before_month_step:
  assumes "1 \<le> m" "m < 12"
  shows "days_before_month y (m + 1) = days_before_month y m + days_in_month y m"
proof -
  have "m = 1 \<or> m = 2 \<or> m = 3 \<or> m = 4 \<or> m = 5 \<or> m = 6 \<or> m = 7 \<or> m = 8 \<or> m = 9 \<or> m = 10 \<or> m = 11"
    using assms by presburger
  then show ?thesis
    by (elim disjE) (simp_all add: days_before_month_def days_in_month_def)
qed

lemma month_start_Suc: "month_start (n + 1) = month_start n + month_len n"
proof (cases n rule: month_cases)
  case 1
  then show ?thesis
    by (simp add: month_start_def month_len_def ymd2ord_def days_before_year_Suc
        days_before_month_def days_in_month_def)
next
  case 2
  then show ?thesis
    using days_before_month_step [of "n mod 12 + 1" "n div 12"]
    by (simp add: month_start_def month_len_def ymd2ord_def)
qed

lemma month_start_mono_nat: "month_start n + 28 * int k \<le> month_start (n + int k)"
proof (induction k)
  case 0
  then show ?case by simp
next
  case (Suc k)
  have "month_start (n + int (Suc k)) = month_start (n + int k) + month_len (n + int k)"
    using month_start_Suc [of "n + int k"] by (simp add: algebra_simps)
  with Suc month_len_bounds [of "n + int k"] show ?case by simp
qed

lemma month_start_less: "n < m \<Longrightarrow> month_start (n + 1) \<le> month_start m"
  using month_start_mono_nat [of "n + 1" "nat (m - (n + 1))"] by simp

subsection \<open>Field order is instant order\<close>

lemma month_index_div_mod:
  assumes "valid_dt d"
  shows "month_index d div 12 = dt_year d" "month_index d mod 12 + 1 = dt_month d"
proof -
  have "1 \<le> dt_month d" "dt_month d \<le> 12" using assms by (simp_all add: valid_dt_def)
  then show "month_index d div 12 = dt_year d" "month_index d mod 12 + 1 = dt_month d"
    by (simp_all add: month_index_def)
qed

lemma instant_month:
  assumes "valid_dt d"
  shows "instant d = (month_start (month_index d) + (dt_day d - 1)) * usec_per_day + dt_tod d"
  using month_index_div_mod [OF assms] by (simp add: instant_def month_start_def ymd2ord_def)

lemma valid_day_len: "valid_dt d \<Longrightarrow> 1 \<le> dt_day d \<and> dt_day d \<le> month_len (month_index d)"
  using month_index_div_mod [of d] by (simp add: valid_dt_def month_len_def)

text \<open>Comparing by (day number, time of day) is comparing instants.\<close>

lemma day_tod_less:
  assumes "0 \<le> s" "s < usec_per_day" "0 \<le> t" "t < usec_per_day"
  shows "a * usec_per_day + s < b * usec_per_day + t \<longleftrightarrow> a < b \<or> (a = b \<and> s < t)"
proof -
  have u: "usec_per_day = 86400000000" by (simp add: usec_per_day_def)
  show ?thesis
  proof (cases "a < b")
    case True
    then have "a + 1 \<le> b" by simp
    with assms show ?thesis by (simp add: u)
  next
    case False
    then show ?thesis using assms by (auto simp: u)
  qed
qed

lemma instant_month_less:
  assumes "valid_dt a" "valid_dt b" "month_index a < month_index b"
  shows "instant a < instant b"
proof -
  from assms(3) have "month_start (month_index a) + month_len (month_index a) \<le> month_start (month_index b)"
    using month_start_less [of "month_index a" "month_index b"] month_start_Suc by simp
  with valid_day_len [OF assms(1)] valid_day_len [OF assms(2)]
  have "month_start (month_index a) + (dt_day a - 1) < month_start (month_index b) + (dt_day b - 1)"
    by linarith
  with assms(1,2) show ?thesis
    by (simp add: instant_month valid_dt_def day_tod_less)
qed

lemma dt_less_iff_month:
  assumes "valid_dt a" "valid_dt b"
  shows "a < b \<longleftrightarrow> month_index a < month_index b \<or>
    (month_index a = month_index b \<and> (dt_day a < dt_day b \<or> (dt_day a = dt_day b \<and> dt_tod a < dt_tod b)))"
  using assms by (auto simp: less_datetime_def dt_key_def valid_dt_def month_index_def)

lemma dt_less_iff_instant:
  assumes "valid_dt a" "valid_dt b"
  shows "a < b \<longleftrightarrow> instant a < instant b"
proof -
  consider "month_index a < month_index b" | "month_index b < month_index a"
    | "month_index a = month_index b" by linarith
  then show ?thesis
  proof cases
    case 1
    with assms show ?thesis by (simp add: dt_less_iff_month instant_month_less)
  next
    case 2
    with assms instant_month_less [of b a] show ?thesis by (simp add: dt_less_iff_month)
  next
    case 3
    with assms show ?thesis
      by (simp add: dt_less_iff_month instant_month day_tod_less valid_dt_def)
  qed
qed

lemma dt_le_iff_instant:
  assumes "valid_dt a" "valid_dt b"
  shows "a \<le> b \<longleftrightarrow> instant a \<le> instant b"
  using dt_less_iff_instant [OF assms(2,1)] by (auto simp: not_less [symmetric])

subsection \<open>Dates as text\<close>

definition iso_date :: "datetime \<Rightarrow> string" where
  "iso_date d = pad_left 4 (CHR ''0'') (show_int (dt_year d)) @ ''-'' @
     pad_left 2 (CHR ''0'') (show_int (dt_month d)) @ ''-'' @
     pad_left 2 (CHR ''0'') (show_int (dt_day d))"

definition month_first :: "datetime \<Rightarrow> datetime" where
  "month_first d = DateTime (dt_year d) (dt_month d) 1 0"

end
