(* ===== verification/QuotaWindow.thy ===== *)
theory QuotaWindow
  imports Calendar
begin

text \<open>
  The entitlement window of \<^verbatim>\<open>src/api/quota_window.py\<close>: a monthly grid anchored at
  \<^verbatim>\<open>users.quota_anchor_at\<close>, the cell of the grid that contains an instant, the window that
  follows an ended one, and the two lifecycle predicates \<^verbatim>\<open>is_frozen\<close> and \<^verbatim>\<open>should_roll\<close>. The
  second half is the SQL twin of the same rule, the \<^verbatim>\<open>public.quota_*\<close> functions of migration
  088, which the charging statements call.

  The locale \<open>boundary_grid\<close> states what the callers rely on (boundaries strictly increase)
  and proves that the cell containing an instant is unique; it is interpreted on
  \<open>add_months\<close>. Both the Python search and the SQL search return that cell, which is how
  the two are shown equal.
\<close>

subsection \<open>The users row\<close>

text \<open>The columns of \<^verbatim>\<open>users\<close> that quota, lookup access and billing read or write.\<close>

record user_row =
  u_id :: string
  u_plan :: "string"
  records_used :: int
  records_limit :: int
  records_period_start :: datetime
  stripe_customer_id :: "string option"
  stripe_subscription_id :: "string option"
  subscription_status :: "string option"
  trial_ends_at :: "datetime option"
  quota_anchor_at :: datetime
  quota_period_start :: datetime
  quota_period_end :: datetime
  entitlement_ends_at :: "datetime option"
  entitlement_grace_ends_at :: "datetime option"
  trial_consumed_at :: "datetime option"
  first_paid_at :: "datetime option"
  paid_entitlement_ended_at :: "datetime option"
  pending_plan :: "string option"
  pending_records_limit :: "int option"
  skip_trace_used_this_month :: int
  skip_trace_period_start :: "datetime option"
  deletion_state :: "string option"
  is_admin :: bool
  u_created_at :: datetime

subsection \<open>The monthly grid\<close>

definition add_months :: "datetime \<Rightarrow> int \<Rightarrow> datetime" where
  "add_months anchor k =
     (let total = dt_month anchor - 1 + k;
          year = dt_year anchor + total div 12;
          month = total mod 12 + 1;
          day = min (dt_day anchor) (days_in_month year month)
      in DateTime year month day (dt_tod anchor))"

text \<open>The two correction loops of \<^verbatim>\<open>grid_index\<close>.\<close>

function index_down :: "datetime \<Rightarrow> datetime \<Rightarrow> int \<Rightarrow> int" where
  "index_down anchor at k =
     (if 0 < k \<and> add_months anchor k > at then index_down anchor at (k - 1) else k)"
  by pat_completeness auto
termination
  by (relation "measure (\<lambda>(anchor, at, k). nat k)") auto

lemma add_months_year:
  "dt_year (add_months anchor k) = (month_index anchor + k) div 12"
proof -
  have "dt_year anchor + (dt_month anchor - 1 + k) div 12
      = (dt_year anchor * 12 + (dt_month anchor - 1 + k)) div 12"
    by simp
  then show ?thesis by (simp add: add_months_def month_index_def Let_def algebra_simps)
qed

lemma add_months_le_year:
  "add_months anchor k \<le> at \<Longrightarrow> month_index anchor + k < 12 * (dt_year at + 1)"
proof -
  assume "add_months anchor k \<le> at"
  then have "(month_index anchor + k) div 12 \<le> dt_year at"
    unfolding add_months_year [symmetric] by (auto simp: less_eq_datetime_def dt_key_def)
  then show ?thesis by (intro div_le_less) simp_all
qed

function index_up :: "datetime \<Rightarrow> datetime \<Rightarrow> int \<Rightarrow> int" where
  "index_up anchor at k =
     (if add_months anchor (k + 1) \<le> at then index_up anchor at (k + 1) else k)"
  by pat_completeness auto
termination
proof (relation "measure (\<lambda>(anchor, at, k). nat (12 * (dt_year at + 1) - (month_index anchor + k)))")
  fix anchor at k
  assume "add_months anchor (k + 1) \<le> at"
  then have "month_index anchor + (k + 1) < 12 * (dt_year at + 1)" by (rule add_months_le_year)
  then show "((anchor, at, k + 1), anchor, at, k)
    \<in> measure (\<lambda>(anchor, at, k). nat (12 * (dt_year at + 1) - (month_index anchor + k)))"
    by simp
qed simp

declare index_down.simps [simp del] index_up.simps [simp del]

definition grid_index :: "datetime \<Rightarrow> datetime \<Rightarrow> int" where
  "grid_index anchor at =
     (if at \<le> anchor then 0
      else let k = max 0 ((dt_year at - dt_year anchor) * 12 + (dt_month at - dt_month anchor))
           in index_up anchor at (index_down anchor at k))"

definition window_containing :: "datetime \<Rightarrow> datetime \<Rightarrow> datetime \<times> datetime" where
  "window_containing anchor at =
     (let k = grid_index anchor at in (add_months anchor k, add_months anchor (k + 1)))"

definition transitional_end :: "datetime \<Rightarrow> datetime \<Rightarrow> datetime" where
  "transitional_end anchor old_end =
     (let target = add_months old_end 1;
          k = grid_index anchor target;
          b_lo = add_months anchor k;
          b_hi = add_months anchor (k + 1);
          fin = (if dt_diff b_hi target \<le> dt_diff target b_lo then b_hi else b_lo)
      in if fin > old_end then fin else b_hi)"

definition next_window :: "datetime \<Rightarrow> datetime \<Rightarrow> datetime \<Rightarrow> datetime \<times> datetime" where
  "next_window anchor old_end at =
     (let fin = transitional_end anchor old_end
      in if at < fin then (old_end, fin) else window_containing anchor at)"

subsection \<open>Lifecycle predicates\<close>

definition FROZEN_STATUSES :: "string list" where
  "FROZEN_STATUSES = [''unpaid'', ''incomplete'', ''incomplete_expired'', ''paused'']"

definition is_frozen :: "user_row \<Rightarrow> datetime \<Rightarrow> bool" where
  "is_frozen user now =
     (let status = py_strip (str_or (subscription_status user) [])
      in if status \<in> set FROZEN_STATUSES then True
         else if status = ''past_due'' then
           (case entitlement_grace_ends_at user of
              None \<Rightarrow> False
            | Some grace \<Rightarrow> grace \<le> now)
         else False)"

definition should_roll :: "user_row \<Rightarrow> datetime \<Rightarrow> bool" where
  "should_roll user now =
     (let fin = quota_period_end user
      in if fin > now then False
         else if is_frozen user now then False
         else case entitlement_ends_at user of
             None \<Rightarrow> True
           | Some ends_at \<Rightarrow> \<not> ends_at \<le> fin)"

definition effective_window :: "user_row \<Rightarrow> datetime \<Rightarrow> datetime \<times> datetime" where
  "effective_window user now =
     (if \<not> should_roll user now then (quota_period_start user, quota_period_end user)
      else next_window (quota_anchor_at user) (quota_period_end user) now)"

subsection \<open>The SQL twin (migration 088)\<close>

text \<open>
  \<^verbatim>\<open>age_months at anchor\<close> stands for
  \<^verbatim>\<open>EXTRACT(YEAR FROM age(at, anchor)) * 12 + EXTRACT(MONTH FROM age(at, anchor))\<close>, which
  PostgreSQL computes. The search bound uses it; the laws it needs are hypotheses of the
  equivalence theorem.
\<close>

definition quota_add_months :: "datetime \<Rightarrow> int \<Rightarrow> datetime" where
  "quota_add_months anchor k = add_months anchor k"

definition quota_grid_index :: "(datetime \<Rightarrow> datetime \<Rightarrow> int) \<Rightarrow> datetime \<Rightarrow> datetime \<Rightarrow> int" where
  "quota_grid_index age_months anchor at =
     (let ks = filter (\<lambda>k. quota_add_months anchor k \<le> at) [0..max 0 (age_months at anchor + 2)]
      in case ks of [] \<Rightarrow> 0 | _ \<Rightarrow> last ks)"

definition quota_transitional_end ::
    "(datetime \<Rightarrow> datetime \<Rightarrow> int) \<Rightarrow> datetime \<Rightarrow> datetime \<Rightarrow> datetime" where
  "quota_transitional_end age_months anchor old_end =
     (let target = quota_add_months old_end 1;
          b_lo = quota_add_months anchor (quota_grid_index age_months anchor target);
          b_hi = quota_add_months anchor (quota_grid_index age_months anchor target + 1);
          e1 = (if dt_diff b_hi target \<le> dt_diff target b_lo then b_hi else b_lo)
      in if e1 > old_end then e1 else b_hi)"

definition quota_next_start ::
    "(datetime \<Rightarrow> datetime \<Rightarrow> int) \<Rightarrow> datetime \<Rightarrow> datetime \<Rightarrow> datetime \<Rightarrow> datetime" where
  "quota_next_start age_months anchor old_end at =
     (if at < quota_transitional_end age_months anchor old_end then old_end
      else quota_add_months anchor (quota_grid_index age_months anchor at))"

definition quota_next_end ::
    "(datetime \<Rightarrow> datetime \<Rightarrow> int) \<Rightarrow> datetime \<Rightarrow> datetime \<Rightarrow> datetime \<Rightarrow> datetime" where
  "quota_next_end age_months anchor old_end at =
     (if at < quota_transitional_end age_months anchor old_end
      then quota_transitional_end age_months anchor old_end
      else quota_add_months anchor (quota_grid_index age_months anchor at + 1))"

definition quota_should_roll ::
    "datetime \<Rightarrow> string option \<Rightarrow> datetime option \<Rightarrow> datetime option \<Rightarrow> datetime \<Rightarrow> bool" where
  "quota_should_roll period_end status grace_ends_at ends_at at =
     (period_end \<le> at \<and>
      opt_or status [] \<notin> {''unpaid'', ''incomplete'', ''incomplete_expired'', ''paused''} \<and>
      \<not> (opt_or status [] = ''past_due'' \<and>
          (case grace_ends_at of None \<Rightarrow> False | Some g \<Rightarrow> g \<le> at)) \<and>
      (case ends_at of None \<Rightarrow> True | Some e \<Rightarrow> period_end < e))"

subsection \<open>The shared charging projection\<close>

text \<open>
  \<^verbatim>\<open>window_cte_sql\<close> and \<^verbatim>\<open>window_set_sql\<close>: what every charging statement computes from the locked
  users row, and what it writes back.
\<close>

record projection =
  w_rolling :: bool
  w_base :: int
  w_eff_limit :: int
  w_new_start :: datetime
  w_new_end :: datetime

definition roll_predicate :: "user_row \<Rightarrow> datetime \<Rightarrow> bool" where
  "roll_predicate u at =
     quota_should_roll (quota_period_end u) (subscription_status u)
       (entitlement_grace_ends_at u) (entitlement_ends_at u) at"

definition window_cte :: "(datetime \<Rightarrow> datetime \<Rightarrow> int) \<Rightarrow> user_row \<Rightarrow> datetime \<Rightarrow> projection" where
  "window_cte age_months u at =
     (let roll = roll_predicate u at
      in \<lparr> w_rolling = roll,
           w_base = (if roll then 0 else records_used u),
           w_eff_limit = (if roll then opt_or (pending_records_limit u) (records_limit u)
                          else records_limit u),
           w_new_start = (if roll then quota_next_start age_months (quota_anchor_at u) (quota_period_end u) at
                          else quota_period_start u),
           w_new_end = (if roll then quota_next_end age_months (quota_anchor_at u) (quota_period_end u) at
                        else quota_period_end u) \<rparr>)"

definition window_set :: "projection \<Rightarrow> user_row \<Rightarrow> user_row" where
  "window_set w u =
     u\<lparr> records_limit := w_eff_limit w,
        u_plan := (if w_rolling w then opt_or (pending_plan u) (u_plan u) else u_plan u),
        pending_plan := (if w_rolling w then None else pending_plan u),
        pending_records_limit := (if w_rolling w then None else pending_records_limit u),
        quota_period_start := w_new_start w,
        quota_period_end := w_new_end w,
        records_period_start := w_new_start w \<rparr>"

text \<open>
  \<^verbatim>\<open>reservation_is_current_sql\<close>: does a job's reservation belong to the live window? A job
  without a recorded window compares calendar months, which is NULL (not true) when the
  job never reserved.
\<close>

definition same_month :: "datetime \<Rightarrow> datetime \<Rightarrow> bool" where
  "same_month a b \<longleftrightarrow> month_first a = month_first b"

definition reservation_is_current ::
    "datetime option \<Rightarrow> datetime option \<Rightarrow> datetime \<Rightarrow> datetime \<Rightarrow> bool \<Rightarrow> bool" where
  "reservation_is_current job_window job_reserved_at user_window user_records_period_start rolling =
     (case job_window of
        Some w \<Rightarrow> w = user_window \<and> \<not> rolling
      | None \<Rightarrow> (case job_reserved_at of
                   None \<Rightarrow> False
                 | Some r \<Rightarrow> same_month user_records_period_start r))"

subsection \<open>The grid as an interface\<close>

text \<open>
  What the callers need of the boundaries: they strictly increase. Every instant then lies in at
  most one cell.
\<close>

definition is_cell :: "(int \<Rightarrow> datetime) \<Rightarrow> int \<Rightarrow> datetime \<Rightarrow> bool" where
  "is_cell b k at \<longleftrightarrow> b k \<le> at \<and> at < b (k + 1)"

locale boundary_grid =
  fixes b :: "int \<Rightarrow> datetime"
  assumes strict: "j < k \<Longrightarrow> b j < b k"
begin

lemma le_iff: "b j \<le> b k \<longleftrightarrow> j \<le> k"
  using strict [of j k] strict [of k j] by (cases "j = k") (auto simp: not_le [symmetric])

lemma less_iff: "b j < b k \<longleftrightarrow> j < k"
  using le_iff [of k j] by (simp add: not_le [symmetric])

lemma cell_le_iff: "is_cell b k at \<Longrightarrow> b j \<le> at \<longleftrightarrow> j \<le> k"
  unfolding is_cell_def using le_iff [of j k] le_iff [of "k + 1" j] by force

lemma cell_unique: "is_cell b j at \<Longrightarrow> is_cell b k at \<Longrightarrow> j = k"
  using cell_le_iff [of j at k] cell_le_iff [of k at j] by (auto simp: is_cell_def)

end

lemma month_index_add_months [simp]: "month_index (add_months a k) = month_index a + k"
proof -
  have "(t div 12) * 12 + t mod 12 = t" for t :: int by simp
  from this [of "dt_month a - 1 + k"] show ?thesis
    by (simp add: add_months_def month_index_def Let_def algebra_simps)
qed

lemma add_months_month: "1 \<le> dt_month (add_months a k) \<and> dt_month (add_months a k) \<le> 12"
proof -
  have "0 \<le> t mod 12 \<and> t mod 12 < 12" for t :: int by simp
  from this [of "dt_month a - 1 + k"] show ?thesis by (simp add: add_months_def Let_def)
qed

lemma add_months_tod [simp]: "dt_tod (add_months a k) = dt_tod a"
  by (simp add: add_months_def Let_def)

lemma less_by_month_index:
  assumes "1 \<le> dt_month a" "dt_month a \<le> 12" "1 \<le> dt_month b" "dt_month b \<le> 12"
    "month_index a < month_index b"
  shows "a < b"
  using assms by (auto simp: less_datetime_def dt_key_def month_index_def)

lemma add_months_strict: "j < k \<Longrightarrow> add_months a j < add_months a k"
  by (rule less_by_month_index) (simp_all add: add_months_month)

interpretation grid: boundary_grid "add_months a" for a
  by unfold_locales (rule add_months_strict)

lemma add_months_0 [simp]: "valid_dt a \<Longrightarrow> add_months a 0 = a"
  by (cases a) (simp add: add_months_def valid_dt_def)

lemma valid_add_months: "valid_dt a \<Longrightarrow> valid_dt (add_months a k)"
  using add_months_month [of a k]
    days_in_month_bounds [of "dt_year (add_months a k)" "dt_month (add_months a k)"]
  by (auto simp: valid_dt_def add_months_def Let_def)

lemma add_months_day:
  "dt_day (add_months a k) = min (dt_day a) (month_len (month_index a + k))"
proof -
  have y: "dt_year a + (dt_month a - 1 + k) div 12 = (month_index a + k) div 12"
    using add_months_year [of a k] by (simp add: add_months_def Let_def)
  have "(dt_month a - 1 + k) mod 12 = (12 * dt_year a + (dt_month a - 1 + k)) mod 12"
    by simp
  also have "12 * dt_year a + (dt_month a - 1 + k) = month_index a + k"
    by (simp add: month_index_def)
  finally show ?thesis
    by (simp only: add_months_def Let_def month_len_def datetime.sel y)
qed

subsection \<open>The search\<close>

lemma index_down_le: "index_down a at k \<le> k"
  by (induction a at k rule: index_down.induct) (subst index_down.simps, force)

lemma index_down_nonneg: "0 \<le> k \<Longrightarrow> 0 \<le> index_down a at k"
  by (induction a at k rule: index_down.induct) (subst index_down.simps, force)

lemma index_down_stop:
  "0 \<le> k \<Longrightarrow> add_months a 0 \<le> at \<Longrightarrow> add_months a (index_down a at k) \<le> at"
proof (induction a at k rule: index_down.induct)
  case (1 a at k)
  then show ?case by (subst index_down.simps) (cases "k = 0"; auto simp: not_less)
qed

lemma index_up_ge: "k \<le> index_up a at k"
  by (induction a at k rule: index_up.induct) (subst index_up.simps, force)

lemma index_up_cell: "add_months a k \<le> at \<Longrightarrow> is_cell (add_months a) (index_up a at k) at"
proof (induction a at k rule: index_up.induct)
  case (1 a at k)
  then show ?case by (subst index_up.simps) (auto simp: is_cell_def not_le)
qed

lemma grid_index_cell:
  assumes "valid_dt a" "a \<le> at"
  shows "is_cell (add_months a) (grid_index a at) at" "0 \<le> grid_index a at"
proof -
  let ?k = "max 0 ((dt_year at - dt_year a) * 12 + (dt_month at - dt_month a))"
  have a0: "add_months a 0 \<le> at" using assms by simp
  have d: "add_months a (index_down a at ?k) \<le> at" by (rule index_down_stop) (use a0 in auto)
  have d0: "0 \<le> index_down a at ?k" by (rule index_down_nonneg) simp
  have c: "is_cell (add_months a) (index_up a at (index_down a at ?k)) at"
    by (rule index_up_cell [OF d])
  show "is_cell (add_months a) (grid_index a at) at"
  proof (cases "at = a")
    case True
    then show ?thesis using assms(1) add_months_strict [of 0 1 a]
      by (simp add: grid_index_def is_cell_def)
  next
    case False
    then show ?thesis using c assms(2) by (auto simp add: grid_index_def Let_def)
  qed
  show "0 \<le> grid_index a at"
    using d0 index_up_ge [of "index_down a at ?k" a at]
    by (auto simp add: grid_index_def Let_def)
qed

lemma grid_index_eqI: "valid_dt a \<Longrightarrow> a \<le> at \<Longrightarrow> is_cell (add_months a) k at \<Longrightarrow> grid_index a at = k"
  using grid_index_cell(1) grid.cell_unique by blast

lemma grid_index_before: "at \<le> a \<Longrightarrow> grid_index a at = 0"
  by (simp add: grid_index_def)

lemma grid_index_boundary: "valid_dt a \<Longrightarrow> 0 \<le> k \<Longrightarrow> grid_index a (add_months a k) = k"
  using grid.le_iff [of a 0 k] by (intro grid_index_eqI) (auto simp: is_cell_def grid.less_iff)

subsection \<open>Distances between boundaries\<close>

lemma instant_add_months:
  assumes "valid_dt a"
  shows "instant (add_months a k) =
    (month_start (month_index a + k) + (min (dt_day a) (month_len (month_index a + k)) - 1))
      * usec_per_day + dt_tod a"
  using instant_month [OF valid_add_months [OF assms], of k] by (simp add: add_months_day)

lemma boundary_gap_days:
  fixes n d :: int
  assumes "1 \<le> d" "d \<le> 31"
  shows "28 \<le> (month_start (n + 1) + (min d (month_len (n + 1)) - 1))
           - (month_start n + (min d (month_len n) - 1))"
    and "(month_start (n + 1) + (min d (month_len (n + 1)) - 1))
           - (month_start n + (min d (month_len n) - 1)) \<le> 31"
  using assms month_len_bounds [of n] month_len_bounds [of "n + 1"]
  by (auto simp: month_start_Suc min_def)

lemma boundary_gap:
  assumes "valid_dt a"
  shows "28 * usec_per_day \<le> instant (add_months a (k + 1)) - instant (add_months a k)"
    and "instant (add_months a (k + 1)) - instant (add_months a k) \<le> 31 * usec_per_day"
proof -
  have d: "1 \<le> dt_day a" "dt_day a \<le> 31"
    using assms days_in_month_bounds [of "dt_year a" "dt_month a"] by (auto simp: valid_dt_def)
  note g = boundary_gap_days [OF d, of "month_index a + k"]
  have u: "0 \<le> usec_per_day" by (simp add: usec_per_day_def)
  have e: "instant (add_months a (k + 1)) - instant (add_months a k)
      = ((month_start (month_index a + k + 1) + (min (dt_day a) (month_len (month_index a + k + 1)) - 1))
         - (month_start (month_index a + k) + (min (dt_day a) (month_len (month_index a + k)) - 1)))
        * usec_per_day"
    by (simp add: instant_add_months [OF assms] algebra_simps)
  show "28 * usec_per_day \<le> instant (add_months a (k + 1)) - instant (add_months a k)"
    unfolding e by (rule mult_right_mono [OF g(1) u])
  show "instant (add_months a (k + 1)) - instant (add_months a k) \<le> 31 * usec_per_day"
    unfolding e by (rule mult_right_mono [OF g(2) u])
qed

lemmas month_gap = boundary_gap [where k = 0, simplified]

lemma add_months_instant_less: "valid_dt a \<Longrightarrow> j < k \<Longrightarrow> instant (add_months a j) < instant (add_months a k)"
  by (simp add: dt_less_iff_instant [symmetric] valid_add_months add_months_strict)

subsection \<open>The window that follows an ended one\<close>

lemma transitional_end_boundary:
  assumes "valid_dt a"
  obtains k where "0 \<le> k" "transitional_end a old = add_months a k"
proof -
  have "0 \<le> grid_index a at" for at
    using grid_index_cell(2) [OF assms, of at] grid_index_before [of at a] by (cases "a \<le> at") auto
  from this [of "add_months old 1"] show thesis
    by (intro that [of "grid_index a (add_months old 1)
          + (if transitional_end a old = add_months a (grid_index a (add_months old 1)) then 0 else 1)"])
      (auto simp: transitional_end_def Let_def)
qed

lemma transitional_end_before:
  assumes "valid_dt a" "valid_dt old" "add_months old 1 < a"
  shows "transitional_end a old = a"
proof -
  let ?t = "add_months old 1"
  have t: "valid_dt ?t" by (rule valid_add_months [OF assms(2)])
  have "instant ?t < instant a" using assms t by (simp add: dt_less_iff_instant)
  moreover have "instant a < instant (add_months a 1)"
    using add_months_instant_less [of a 0 1] assms(1) by simp
  moreover have "old < a"
    using add_months_strict [of 0 1 old] assms(2,3) by (simp add: order_less_trans)
  ultimately show ?thesis
    using assms by (simp add: transitional_end_def Let_def grid_index_before dt_diff_def)
qed

lemma transitional_end_after:
  assumes "valid_dt a" "valid_dt old" "a \<le> add_months old 1"
  shows "2 * \<bar>dt_diff (transitional_end a old) (add_months old 1)\<bar> \<le> 31 * usec_per_day"
    and "old < transitional_end a old"
proof -
  let ?t = "add_months old 1"
  let ?k = "grid_index a ?t"
  let ?lo = "add_months a ?k" and ?hi = "add_months a (?k + 1)"
  have v: "valid_dt ?t" "valid_dt ?lo" "valid_dt ?hi"
    using assms by (auto intro: valid_add_months)
  have c: "?lo \<le> ?t" "?t < ?hi" using grid_index_cell(1) [OF assms(1,3)] by (simp_all add: is_cell_def)
  then have ci: "instant ?lo \<le> instant ?t" "instant ?t < instant ?hi"
    using v by (simp_all add: dt_le_iff_instant dt_less_iff_instant)
  note gap = boundary_gap(2) [OF assms(1), of ?k]
  have old_gap: "28 * usec_per_day \<le> instant ?t - instant old"
    using month_gap(1) [OF assms(2)] assms(2) by simp
  have u: "0 < usec_per_day" by (simp add: usec_per_day_def)
  have ot: "old < ?t" using add_months_strict [of 0 1 old] assms(2) by simp
  have lo_old: "old < ?lo" if "\<not> dt_diff ?hi ?t \<le> dt_diff ?t ?lo"
  proof -
    have "instant old < instant ?lo" using that gap old_gap ci u by (simp add: dt_diff_def)
    then show ?thesis using v assms by (simp add: dt_less_iff_instant)
  qed
  have e: "transitional_end a old = (if dt_diff ?hi ?t \<le> dt_diff ?t ?lo then ?hi else ?lo)"
    using lo_old ot c by (auto simp: transitional_end_def Let_def)
  show "2 * \<bar>dt_diff (transitional_end a old) ?t\<bar> \<le> 31 * usec_per_day"
    unfolding e using gap ci by (auto simp: dt_diff_def)
  show "old < transitional_end a old"
    unfolding e using lo_old ot c by auto
qed

lemma transitional_end_later:
  assumes "valid_dt a" "valid_dt old"
  shows "old < transitional_end a old"
proof (cases "a \<le> add_months old 1")
  case True
  then show ?thesis by (rule transitional_end_after(2) [OF assms])
next
  case False
  moreover have "old < add_months old 1" using add_months_strict [of 0 1 old] assms(2) by simp
  ultimately show ?thesis using assms by (simp add: transitional_end_before)
qed

lemma next_window_cases:
  assumes "valid_dt a" "valid_dt old" "old \<le> at"
  obtains "at < transitional_end a old" "next_window a old at = (old, transitional_end a old)"
  | k where "transitional_end a old \<le> at" "transitional_end a old \<le> add_months a k"
      "is_cell (add_months a) k at" "next_window a old at = (add_months a k, add_months a (k + 1))"
proof (cases "at < transitional_end a old")
  case True
  then show thesis using that(1) by (simp add: next_window_def)
next
  case False
  then have le: "transitional_end a old \<le> at" by simp
  obtain j where j: "0 \<le> j" "transitional_end a old = add_months a j"
    by (rule transitional_end_boundary [OF assms(1)])
  have "a \<le> add_months a j" using grid.le_iff [of a 0 j] j(1) assms(1) by simp
  with le j have "a \<le> at" by simp
  note c = grid_index_cell(1) [OF assms(1) this]
  with le j have "j \<le> grid_index a at" using grid.cell_le_iff by metis
  then show thesis using le c j False
    by (intro that(2) [of "grid_index a at"])
      (auto simp: next_window_def window_containing_def Let_def grid.le_iff)
qed

subsection \<open>Steady state\<close>

lemma add_months_twice_day:
  "dt_day (add_months (add_months a k) 1)
     = min (min (dt_day a) (month_len (month_index a + k))) (month_len (month_index a + k + 1))"
  by (simp add: add_months_day add.assoc)

lemma dt_eqI:
  assumes "valid_dt a" "valid_dt b" "month_index a = month_index b" "dt_day a = dt_day b" "dt_tod a = dt_tod b"
  shows "a = b"
  using assms by (metis dt_less_iff_month linorder_neqE order_less_irrefl)

text \<open>
  A month after a boundary is the next boundary or, when the shorter month clamped the day, up to
  three days before it.
\<close>

lemma steady_target:
  assumes "valid_dt a"
  obtains "add_months (add_months a k) 1 = add_months a (k + 1)"
  | "add_months a k < add_months (add_months a k) 1"
    "add_months (add_months a k) 1 < add_months a (k + 1)"
    "dt_diff (add_months a (k + 1)) (add_months (add_months a k) 1) \<le> 3 * usec_per_day"
proof -
  let ?t = "add_months (add_months a k) 1" and ?n = "add_months a (k + 1)"
  have v: "valid_dt ?t" "valid_dt ?n" "valid_dt (add_months a k)"
    using assms by (auto intro: valid_add_months)
  have mi: "month_index ?t = month_index ?n" by simp
  have d: "dt_day ?t \<le> dt_day ?n" "dt_day ?n - dt_day ?t \<le> 3"
    using month_len_bounds [of "month_index a + k"] month_len_bounds [of "month_index a + k + 1"]
    by (auto simp: add_months_twice_day add_months_day add.assoc min_def)
  show thesis
  proof (cases "dt_day ?t = dt_day ?n")
    case True
    then have "?t = ?n" using v mi by (intro dt_eqI) auto
    then show thesis by (rule that(1))
  next
    case False
    have "?t < ?n" using d(1) False v mi by (auto simp: dt_less_iff_month)
    moreover have "add_months a k < ?t"
      using add_months_strict [of 0 1 "add_months a k"] v(3) by simp
    moreover have "dt_diff ?n ?t = (dt_day ?n - dt_day ?t) * usec_per_day"
      using v mi by (simp add: dt_diff_def instant_month algebra_simps)
    moreover have "\<dots> \<le> 3 * usec_per_day"
      by (rule mult_right_mono [OF d(2)]) (simp add: usec_per_day_def)
    ultimately show thesis using that(2) by simp
  qed
qed

lemma transitional_end_steady:
  assumes a: "valid_dt a" and k: "0 \<le> k"
  shows "transitional_end a (add_months a k) = add_months a (k + 1)"
proof -
  have u: "0 < usec_per_day" by (simp add: usec_per_day_def)
  have ab: "a \<le> add_months a (k + 1)" "a \<le> add_months a k"
    using grid.le_iff [of a 0] a k by (metis add_months_0 add_increasing2 zero_le_one)+
  show ?thesis
  proof (rule steady_target [OF a, of k])
    assume 1: "add_months (add_months a k) 1 = add_months a (k + 1)"
    have "grid_index a (add_months a (k + 1)) = k + 1"
      using grid_index_boundary [OF a, of "k + 1"] k by simp
    moreover have "instant (add_months a (k + 1)) < instant (add_months a (k + 1 + 1))"
      by (rule add_months_instant_less [OF a]) simp
    ultimately show ?thesis using add_months_strict [of k "k + 1" a]
      by (simp add: transitional_end_def 1 Let_def dt_diff_def)
  next
    assume 2: "add_months a k < add_months (add_months a k) 1"
      "add_months (add_months a k) 1 < add_months a (k + 1)"
      "dt_diff (add_months a (k + 1)) (add_months (add_months a k) 1) \<le> 3 * usec_per_day"
    let ?t = "add_months (add_months a k) 1"
    have "a \<le> ?t" using ab(2) 2(1) by simp
    then have i: "grid_index a ?t = k"
      using 2 by (intro grid_index_eqI [OF a]) (auto simp: is_cell_def)
    have "dt_diff (add_months a (k + 1)) ?t \<le> dt_diff ?t (add_months a k)"
      using 2(3) boundary_gap(1) [OF a, of k] u by (simp add: dt_diff_def)
    then show ?thesis using add_months_strict [of k "k + 1" a]
      by (simp add: transitional_end_def Let_def i)
  qed
qed

subsection \<open>The SQL search returns the same cell\<close>

lemma filter_upto_prefix:
  assumes "\<And>j. P j \<longleftrightarrow> j \<le> k" "0 \<le> k" "k \<le> n"
  shows "filter P [0..n] = [0..k]"
proof -
  have "[0..n] = [0..k] @ [k + 1..n]"
    using upto_split2 [of 0 k n] assms(2,3) by simp
  moreover have "filter P [k + 1..n] = []" using assms(1) by (auto simp: filter_empty_conv)
  moreover have "filter P [0..k] = [0..k]" using assms(1) by (auto simp: filter_id_conv)
  ultimately show ?thesis by simp
qed

definition age_covers :: "(datetime \<Rightarrow> datetime \<Rightarrow> int) \<Rightarrow> bool" where
  "age_covers age_months \<longleftrightarrow>
     (\<forall>at anchor. valid_dt at \<and> valid_dt anchor \<and> anchor \<le> at \<longrightarrow>
        month_index at - month_index anchor - 1 \<le> age_months at anchor)"

lemma boundary_month_le:
  assumes "valid_dt at" "add_months a k \<le> at"
  shows "k \<le> month_index at - month_index a"
proof (rule ccontr)
  assume "\<not> k \<le> month_index at - month_index a"
  then have "at < add_months a k"
    using assms(1) add_months_month [of a k] by (intro less_by_month_index) (auto simp: valid_dt_def)
  with assms(2) show False by simp
qed

lemma quota_grid_index_eq:
  assumes "age_covers age" "valid_dt a" "valid_dt at"
  shows "quota_grid_index age a at = grid_index a at"
proof (cases "a \<le> at")
  case True
  note c = grid_index_cell [OF assms(2) True]
  have "month_index at - month_index a - 1 \<le> age at a"
    using assms True by (simp add: age_covers_def)
  moreover have "grid_index a at \<le> month_index at - month_index a"
    by (rule boundary_month_le [OF assms(3)]) (use c(1) in \<open>simp add: is_cell_def\<close>)
  ultimately have le: "grid_index a at \<le> max 0 (age at a + 2)" by simp
  have "filter (\<lambda>k. quota_add_months a k \<le> at) [0..max 0 (age at a + 2)] = [0..grid_index a at]"
    by (rule filter_upto_prefix [OF _ c(2) le])
      (simp add: quota_add_months_def grid.cell_le_iff [OF c(1)])
  moreover have "[0..grid_index a at] = [0..grid_index a at - 1] @ [grid_index a at]"
    using upto_rec2 c(2) by simp
  ultimately have "filter (\<lambda>k. quota_add_months a k \<le> at) [0..max 0 (age at a + 2)]
      = [0..grid_index a at - 1] @ [grid_index a at]" by simp
  moreover have "(case xs @ [x] of [] \<Rightarrow> 0 | _ \<Rightarrow> last (xs @ [x])) = x" for xs and x :: int
    by (cases xs) simp_all
  ultimately show ?thesis by (simp only: quota_grid_index_def Let_def)
next
  case False
  have "filter (\<lambda>k. quota_add_months a k \<le> at) [0..max 0 (age at a + 2)] = []"
  proof (rule filter_False, rule ballI)
    fix k assume "k \<in> set [0..max 0 (age at a + 2)]"
    then have "a \<le> add_months a k" using grid.le_iff [of a 0 k] assms(2) by auto
    with False show "\<not> quota_add_months a k \<le> at" by (auto simp: quota_add_months_def)
  qed
  with False show ?thesis
    unfolding quota_grid_index_def by (simp only: Let_def) (simp add: grid_index_before)
qed

lemma quota_next_eq:
  assumes "age_covers age" "valid_dt a" "valid_dt old" "valid_dt at"
  shows "(quota_next_start age a old at, quota_next_end age a old at) = next_window a old at"
proof -
  have "valid_dt (add_months old 1)" using assms(3) by (rule valid_add_months)
  then have te: "quota_transitional_end age a old = transitional_end a old"
    using assms by (simp add: quota_transitional_end_def transitional_end_def Let_def
        quota_grid_index_eq quota_add_months_def)
  show ?thesis
    using assms by (simp add: quota_next_start_def quota_next_end_def next_window_def te Let_def
        window_containing_def quota_grid_index_eq quota_add_months_def)
qed

lemma quota_should_roll_eq:
  assumes "py_strip (opt_or (subscription_status u) []) = opt_or (subscription_status u) []"
  shows "roll_predicate u at = should_roll u at"
proof -
  have "str_or (subscription_status u) [] = opt_or (subscription_status u) []"
    by (simp add: str_or_empty opt_or_def split: option.split)
  with assms show ?thesis
    by (auto simp: roll_predicate_def quota_should_roll_def should_roll_def is_frozen_def
        FROZEN_STATUSES_def Let_def split: option.split)
qed

subsection \<open>Properties\<close>

text \<open>
  \<^verbatim>\<open>grid_index(anchor, at)\<close> is the largest month count whose boundary is at or before \<open>at\<close>,
  whatever the anchor's day: the two correction loops repair the calendar estimate exactly, and
  boundary \<open>j\<close> has passed if and only if \<open>j\<close> is at most the index.
\<close>

theorem grid_index_largest:
  assumes "valid_dt a" "a \<le> at"
  shows "0 \<le> grid_index a at \<and> (\<forall>j. add_months a j \<le> at \<longleftrightarrow> j \<le> grid_index a at)"
  using grid_index_cell [OF assms] grid.cell_le_iff by blast

theorem grid_index_largest_witness:
  "grid_index (DateTime 2026 1 31 0) (DateTime 2026 3 1 0) \<ge> 0 \<and>
   \<not> add_months (DateTime 2026 1 31 0) 2 \<le> DateTime 2026 3 1 0 \<and>
   add_months (DateTime 2026 1 31 0) 1 \<le> DateTime 2026 3 1 0"
proof -
  have v: "valid_dt (DateTime 2026 1 31 0)" "DateTime 2026 1 31 0 \<le> DateTime 2026 3 1 0"
    "add_months (DateTime 2026 1 31 0) 1 \<le> DateTime 2026 3 1 0"
    "\<not> add_months (DateTime 2026 1 31 0) 2 \<le> DateTime 2026 3 1 0" by code_simp+
  show ?thesis using grid_index_largest [OF v(1,2)] v(3,4) by blast
qed

text \<open>
  The window an account moves to contains the instant of the move, never starts before the old
  window ended, and is either the contiguous one starting there or starts at or after its end:
  entitlement never overlaps and an absent customer lands in the current cell.
\<close>

theorem next_window_covers:
  assumes "valid_dt a" "valid_dt old" "old \<le> at"
  shows "old \<le> fst (next_window a old at) \<and> fst (next_window a old at) \<le> at \<and>
         at < snd (next_window a old at) \<and>
         (fst (next_window a old at) = old \<or> transitional_end a old \<le> fst (next_window a old at))"
  using transitional_end_later [OF assms(1,2)] assms(3)
  by (rule_tac next_window_cases [OF assms]) (auto simp: is_cell_def)

theorem next_window_covers_witness:
  "fst (next_window (DateTime 2026 1 31 0) (DateTime 2026 2 28 0) (DateTime 2026 6 1 0))
     \<le> DateTime 2026 6 1 0 \<and>
   DateTime 2026 6 1 0
     < snd (next_window (DateTime 2026 1 31 0) (DateTime 2026 2 28 0) (DateTime 2026 6 1 0))"
proof -
  have v: "valid_dt (DateTime 2026 1 31 0)" "valid_dt (DateTime 2026 2 28 0)"
    "DateTime 2026 2 28 0 \<le> DateTime 2026 6 1 0" by code_simp+
  show ?thesis using next_window_covers [OF v] by blast
qed

text \<open>
  A transitional window (the first one after the anchor moved) ends within fifteen and a half
  days of a month after the old end, so it is between 12.5 and 46.5 days long and never empty: two
  buckets cannot be minted in quick succession.
\<close>

theorem transitional_window_bounds:
  assumes "valid_dt a" "valid_dt old" "a \<le> add_months old 1"
  shows "2 * \<bar>dt_diff (transitional_end a old) (add_months old 1)\<bar> \<le> 31 * usec_per_day \<and>
         25 * usec_per_day \<le> 2 * dt_diff (transitional_end a old) old \<and>
         2 * dt_diff (transitional_end a old) old \<le> 93 * usec_per_day"
proof -
  note b = transitional_end_after(1) [OF assms]
  have g: "28 * usec_per_day \<le> instant (add_months old 1) - instant old"
    "instant (add_months old 1) - instant old \<le> 31 * usec_per_day"
    using month_gap [OF assms(2)] assms(2) by simp_all
  have "\<lbrakk>2 * \<bar>e - t\<bar> \<le> 31 * w; 28 * w \<le> t - s; t - s \<le> 31 * w\<rbrakk>
      \<Longrightarrow> 25 * w \<le> 2 * (e - s) \<and> 2 * (e - s) \<le> 93 * w" for e t s w :: int
    by (cases "0 \<le> e - t") simp_all
  from this [OF b [unfolded dt_diff_def] g] b show ?thesis
    unfolding dt_diff_def by blast
qed

theorem transitional_window_bounds_witness:
  "25 * usec_per_day
     \<le> 2 * dt_diff (transitional_end (DateTime 2026 9 2 0) (DateTime 2026 10 1 0)) (DateTime 2026 10 1 0)"
proof -
  have v: "valid_dt (DateTime 2026 9 2 0)" "valid_dt (DateTime 2026 10 1 0)"
    "DateTime 2026 9 2 0 \<le> add_months (DateTime 2026 10 1 0) 1" by code_simp+
  show ?thesis using transitional_window_bounds [OF v] by blast
qed

text \<open>
  In steady state there is no drift: the window that follows boundary \<open>k\<close> ends exactly at
  boundary \<open>k + 1\<close>, also for anchors on the 29th to the 31st, where a month after the clamped
  boundary is not a boundary.
\<close>

theorem steady_state_no_drift:
  assumes "valid_dt a" "0 \<le> k"
  shows "transitional_end a (add_months a k) = add_months a (k + 1)"
  by (rule transitional_end_steady [OF assms])

theorem steady_state_no_drift_witness:
  "transitional_end (DateTime 2026 1 31 0) (add_months (DateTime 2026 1 31 0) 1)
     = add_months (DateTime 2026 1 31 0) 2 \<and>
   add_months (add_months (DateTime 2026 1 31 0) 1) 1 \<noteq> add_months (DateTime 2026 1 31 0) 2"
proof -
  have v: "valid_dt (DateTime 2026 1 31 0)" "(0::int) \<le> 1"
    "add_months (add_months (DateTime 2026 1 31 0) 1) 1 \<noteq> add_months (DateTime 2026 1 31 0) 2"
    by code_simp+
  show ?thesis using steady_state_no_drift [OF v(1,2)] v(3) by simp
qed

text \<open>
  C32: The SQL projection that the charging statements evaluate gives the window and the rollover
  decision of the Python rule, for every row whose status has no surrounding whitespace, given that
  PostgreSQL's \<^verbatim>\<open>age\<close> is at most one month short of the difference of the month fields.
\<close>

theorem sql_projection_is_python_window:
  assumes "age_covers age" "valid_dt (quota_anchor_at u)" "valid_dt (quota_period_end u)" "valid_dt at"
    and "py_strip (opt_or (subscription_status u) []) = opt_or (subscription_status u) []"
  shows "(w_new_start (window_cte age u at), w_new_end (window_cte age u at)) = effective_window u at \<and>
         w_rolling (window_cte age u at) = should_roll u at"
  using quota_should_roll_eq [OF assms(5), of at] quota_next_eq [OF assms(1-4)]
  by (auto simp: window_cte_def effective_window_def Let_def)

definition sample_user :: user_row where
  "sample_user =
     \<lparr> u_id = ''u1'', u_plan = ''pro'', records_used = 900, records_limit = 1000,
       records_period_start = DateTime 2026 2 28 0, stripe_customer_id = Some ''cus'',
       stripe_subscription_id = Some ''sub'', subscription_status = Some ''active'',
       trial_ends_at = None, quota_anchor_at = DateTime 2026 1 31 0,
       quota_period_start = DateTime 2026 2 28 0, quota_period_end = DateTime 2026 3 31 0,
       entitlement_ends_at = None, entitlement_grace_ends_at = None, trial_consumed_at = None,
       first_paid_at = Some (DateTime 2026 1 31 0), paid_entitlement_ended_at = None,
       pending_plan = Some ''starter'', pending_records_limit = Some 50,
       skip_trace_used_this_month = 10, skip_trace_period_start = Some (DateTime 2026 3 1 0),
       deletion_state = None, is_admin = False, u_created_at = DateTime 2026 1 31 0 \<rparr>"

definition sample_age :: "datetime \<Rightarrow> datetime \<Rightarrow> int" where
  "sample_age at anchor = month_index at - month_index anchor
     - (if dt_day at < dt_day anchor then 1 else 0)"

lemma sample_age_covers: "age_covers sample_age"
  by (simp add: age_covers_def sample_age_def)

theorem sql_projection_is_python_window_witness:
  "(w_new_start (window_cte sample_age sample_user (DateTime 2026 4 2 0)),
    w_new_end (window_cte sample_age sample_user (DateTime 2026 4 2 0)))
     = effective_window sample_user (DateTime 2026 4 2 0) \<and>
   should_roll sample_user (DateTime 2026 4 2 0)"
proof -
  have v: "valid_dt (quota_anchor_at sample_user)" "valid_dt (quota_period_end sample_user)"
    "valid_dt (DateTime 2026 4 2 0)"
    "py_strip (opt_or (subscription_status sample_user) []) = opt_or (subscription_status sample_user) []"
    "should_roll sample_user (DateTime 2026 4 2 0)"
    by code_simp+
  show ?thesis using sql_projection_is_python_window [OF sample_age_covers v(1-4)] v(5) by blast
qed

text \<open>
  Writing the projection back rolls a window once: until the new window ends no later charging
  statement rolls it again, so the counter is zeroed at most once per window, and a parked downgrade
  has been applied and cleared.
\<close>

theorem window_rolls_once:
  assumes "age_covers age" "valid_dt (quota_anchor_at u)" "valid_dt (quota_period_end u)" "valid_dt at"
    and "roll_predicate u at"
  shows "at < quota_period_end (window_set (window_cte age u at) u) \<and>
    quota_period_end u \<le> quota_period_start (window_set (window_cte age u at) u) \<and>
    pending_records_limit (window_set (window_cte age u at) u) = None \<and>
    records_limit (window_set (window_cte age u at) u) = opt_or (pending_records_limit u) (records_limit u) \<and>
    (\<forall>t. t < quota_period_end (window_set (window_cte age u at) u)
        \<longrightarrow> \<not> roll_predicate (window_set (window_cte age u at) u) t)"
proof -
  have le: "quota_period_end u \<le> at"
    using assms(5) by (simp add: roll_predicate_def quota_should_roll_def)
  note q = quota_next_eq [OF assms(1-4)]
  show ?thesis
    using next_window_cases [OF assms(2,3) le] transitional_end_later [OF assms(2,3)] le
    by (rule_tac next_window_cases [OF assms(2,3) le])
      (use q [symmetric] assms(5) in \<open>auto simp: window_set_def window_cte_def Let_def is_cell_def
          roll_predicate_def quota_should_roll_def\<close>)
qed

theorem window_rolls_once_witness:
  "DateTime 2026 4 2 0
     < quota_period_end (window_set (window_cte sample_age sample_user (DateTime 2026 4 2 0)) sample_user)"
proof -
  have v: "valid_dt (quota_anchor_at sample_user)" "valid_dt (quota_period_end sample_user)"
    "valid_dt (DateTime 2026 4 2 0)" "roll_predicate sample_user (DateTime 2026 4 2 0)"
    by code_simp+
  show ?thesis using window_rolls_once [OF sample_age_covers v] by blast
qed

end
