(* ===== verification/QuotaPolicy.thy ===== *)
theory QuotaPolicy
  imports QuotaWindow
begin

text \<open>
  The read-side quota policy of \<^verbatim>\<open>src/api/quota.py\<close>: what the enqueue gates and the usage page
  conclude from a users row. \<^verbatim>\<open>run_eligibility\<close> is the one statement of the account rule; its
  result is None here when the Python code would dereference a missing \<^verbatim>\<open>entitlement_ends_at\<close>.
\<close>

definition FROZEN_MESSAGE :: string where
  "FROZEN_MESSAGE =
     ''Your subscription payment could not be completed, so new scrapes are '' @
     ''paused. Update your payment method to resume. Your data and past exports '' @
     ''are untouched.''"

definition ENDED_MESSAGE :: string where
  "ENDED_MESSAGE =
     ''Your subscription has ended, so new scrapes are paused. Resubscribe to '' @
     ''continue. Your data and past exports are untouched.''"

definition current_period_start :: "datetime \<Rightarrow> datetime" where
  "current_period_start now = DateTime (dt_year now) (dt_month now) 1 0"

definition effective_records_used :: "user_row \<Rightarrow> datetime \<Rightarrow> int" where
  "effective_records_used user now = (if should_roll user now then 0 else records_used user)"

definition effective_records_limit :: "user_row \<Rightarrow> datetime \<Rightarrow> int" where
  "effective_records_limit user now =
     (if should_roll user now then
        (case pending_records_limit user of
           Some pending \<Rightarrow> pending
         | None \<Rightarrow> records_limit user)
      else records_limit user)"

definition is_over_record_limit :: "user_row \<Rightarrow> datetime \<Rightarrow> bool" where
  "is_over_record_limit user now =
     (let limit = effective_records_limit user now
      in if limit = -1 then False else effective_records_used user now \<ge> limit)"

definition next_quota_reset :: "user_row \<Rightarrow> datetime \<Rightarrow> datetime option" where
  "next_quota_reset user now =
     (if is_frozen user now then None
      else let fin = snd (effective_window user now)
           in case entitlement_ends_at user of
                None \<Rightarrow> Some fin
              | Some ends_at \<Rightarrow> if ends_at \<le> fin then None else Some fin)"

datatype block_code = Frozen | Ended | Over_limit

record run_eligibility_result =
  can_run :: bool
  block_code :: "block_code option"
  block_message :: "string option"
  resumes_at :: "datetime option"

definition usage_prefix :: "user_row \<Rightarrow> datetime \<Rightarrow> string" where
  "usage_prefix user now =
     ''Record limit reached ('' @ show_int (effective_records_used user now) @ ''/'' @
     show_int (effective_records_limit user now) @ ''). ''"

definition run_eligibility :: "user_row \<Rightarrow> datetime \<Rightarrow> run_eligibility_result option" where
  "run_eligibility user now =
     (if is_frozen user now then
        Some \<lparr> can_run = False, block_code = Some Frozen, block_message = Some FROZEN_MESSAGE,
               resumes_at = None \<rparr>
      else if (case entitlement_ends_at user of None \<Rightarrow> False | Some e \<Rightarrow> e \<le> now) then
        Some \<lparr> can_run = False, block_code = Some Ended, block_message = Some ENDED_MESSAGE,
               resumes_at = None \<rparr>
      else if is_over_record_limit user now then
        (case next_quota_reset user now of
           None \<Rightarrow>
             (case entitlement_ends_at user of
                None \<Rightarrow> None
              | Some e \<Rightarrow>
                  Some \<lparr> can_run = False, block_code = Some Over_limit,
                    block_message = Some (usage_prefix user now @ ''Your subscription ends '' @
                      iso_date e @ '' (UTC), so this quota will '' @
                      ''not reset. Renew or upgrade your plan to continue.''),
                    resumes_at = None \<rparr>)
         | Some reset \<Rightarrow>
             Some \<lparr> can_run = False, block_code = Some Over_limit,
               block_message = Some (usage_prefix user now @ ''Your quota resets '' @
                 iso_date reset @ '' (UTC). '' @ ''Upgrade your plan to continue now.''),
               resumes_at = Some reset \<rparr>)
      else Some \<lparr> can_run = True, block_code = None, block_message = None, resumes_at = None \<rparr>)"

definition DELETION_MESSAGE :: string where
  "DELETION_MESSAGE = ''This account is scheduled for deletion.''"

text \<open>The outer option is the crash of \<open>run_eligibility\<close>, the inner one the reason.\<close>

definition quota_block_reason :: "user_row \<Rightarrow> datetime \<Rightarrow> string option option" where
  "quota_block_reason user now =
     (if deletion_state user \<noteq> None then Some (Some DELETION_MESSAGE)
      else case run_eligibility user now of
             None \<Rightarrow> None
           | Some r \<Rightarrow> Some (if can_run r then None else block_message r))"

subsection \<open>Lemmas\<close>

lemma not_frozen_not_rolling:
  assumes "\<not> is_frozen u now" "\<not> should_roll u now"
  shows "now < quota_period_end u \<or> (\<exists>e. entitlement_ends_at u = Some e \<and> e \<le> quota_period_end u)"
  using assms by (auto simp: should_roll_def Let_def split: if_splits option.splits)

lemma should_roll_period_end:
  "should_roll u now \<Longrightarrow> quota_period_end u \<le> now"
  by (simp add: should_roll_def Let_def split: if_splits)

lemma should_roll_mono:
  assumes "should_roll u now" "now \<le> later" "\<not> is_frozen u later"
  shows "should_roll u later"
  using assms by (auto simp: should_roll_def Let_def split: if_splits option.splits)

lemma effective_end_future:
  assumes "valid_dt (quota_anchor_at u)" "valid_dt (quota_period_end u)" "should_roll u now"
  shows "now < snd (effective_window u now)"
  using assms(3)
  by (rule_tac next_window_cases [OF assms(1,2) should_roll_period_end [OF assms(3)]])
    (simp_all add: effective_window_def is_cell_def)

lemma next_quota_reset_future:
  assumes "valid_dt (quota_anchor_at u)" "valid_dt (quota_period_end u)"
    and "next_quota_reset u now = Some r"
  shows "now < r"
proof (cases "should_roll u now")
  case True
  then show ?thesis using effective_end_future [OF assms(1,2) True] assms(3)
    by (auto simp: next_quota_reset_def Let_def split: if_splits option.splits)
next
  case False
  then have "r = quota_period_end u" "\<not> is_frozen u now"
    "\<forall>e. entitlement_ends_at u = Some e \<longrightarrow> \<not> e \<le> quota_period_end u"
    using assms(3) by (auto simp: next_quota_reset_def effective_window_def Let_def
        split: if_splits option.splits)
  with not_frozen_not_rolling [OF _ False] show ?thesis by auto
qed

lemma next_quota_reset_rolls:
  assumes "valid_dt (quota_anchor_at u)" "valid_dt (quota_period_end u)"
    and "next_quota_reset u now = Some r" "\<not> is_frozen u r"
  shows "should_roll u r"
proof (cases "should_roll u now")
  case True
  then show ?thesis
    using should_roll_mono [OF True] next_quota_reset_future [OF assms(1-3)] assms(4) by simp
next
  case False
  then have "r = quota_period_end u"
    "\<forall>e. entitlement_ends_at u = Some e \<longrightarrow> \<not> e \<le> quota_period_end u"
    using assms(3) by (auto simp: next_quota_reset_def effective_window_def Let_def
        split: if_splits option.splits)
  with assms(4) show ?thesis
    by (auto simp: should_roll_def Let_def split: option.split)
qed

lemma run_eligibility_total: "run_eligibility u now \<noteq> None"
  by (auto simp: run_eligibility_def next_quota_reset_def Let_def split: option.splits)

lemma can_run_iff:
  "run_eligibility u now = Some r \<Longrightarrow> can_run r \<longleftrightarrow>
     \<not> is_frozen u now \<and> (case entitlement_ends_at u of None \<Rightarrow> True | Some e \<Rightarrow> now < e) \<and>
     \<not> is_over_record_limit u now"
  by (auto simp: run_eligibility_def not_le split: if_splits option.splits)

lemma run_eligibility_resumes:
  "run_eligibility u now = Some r \<Longrightarrow> resumes_at r = Some t \<Longrightarrow>
     block_code r = Some Over_limit \<and> next_quota_reset u now = Some t"
  by (auto simp: run_eligibility_def split: if_splits option.splits)

lemma run_eligibility_message:
  "run_eligibility u now = Some r \<Longrightarrow> \<not> can_run r \<Longrightarrow> block_message r \<noteq> None"
  by (auto simp: run_eligibility_def split: if_splits option.splits)

subsection \<open>Properties\<close>

text \<open>
  The account rule is total and exact: \<^verbatim>\<open>run_eligibility\<close> never fails (the branch that prints
  \<^verbatim>\<open>entitlement_ends_at\<close> is reached only when it is set), it allows a run exactly when the account
  is not frozen, its paid access has not ended and its window has room, and every refusal carries a
  message.
\<close>

theorem run_eligibility_exact:
  "\<exists>r. run_eligibility u now = Some r \<and>
     (can_run r = (\<not> is_frozen u now \<and>
        (case entitlement_ends_at u of None \<Rightarrow> True | Some e \<Rightarrow> now < e) \<and>
        \<not> is_over_record_limit u now)) \<and>
     (can_run r = (block_message r = None))"
proof -
  obtain r where r: "run_eligibility u now = Some r" using run_eligibility_total by auto
  have "can_run r \<Longrightarrow> block_message r = None"
    using r by (auto simp: run_eligibility_def split: if_splits option.splits)
  then have "can_run r = (block_message r = None)" using run_eligibility_message [OF r]
    by (cases "can_run r") simp_all
  with r can_run_iff [OF r] show ?thesis by (intro exI [of _ r] conjI)
qed

text \<open>
  The enqueue gate measures the quantity the worker charges: for every row whose status has no
  surrounding whitespace, an account is over its limit exactly when the charging projection of the
  same instant has a finite limit and no room under it.
\<close>

theorem gate_matches_charging:
  assumes "py_strip (opt_or (subscription_status u) []) = opt_or (subscription_status u) []"
  shows "is_over_record_limit u at \<longleftrightarrow>
    w_eff_limit (window_cte age u at) \<noteq> -1 \<and> w_eff_limit (window_cte age u at) \<le> w_base (window_cte age u at)"
  using quota_should_roll_eq [OF assms, of at]
  by (auto simp: is_over_record_limit_def window_cte_def effective_records_used_def
      effective_records_limit_def Let_def opt_or_def split: option.splits)

theorem gate_matches_charging_witness:
  "is_over_record_limit sample_user (DateTime 2026 3 5 0) \<longleftrightarrow>
    w_eff_limit (window_cte sample_age sample_user (DateTime 2026 3 5 0)) \<noteq> -1 \<and>
    w_eff_limit (window_cte sample_age sample_user (DateTime 2026 3 5 0))
      \<le> w_base (window_cte sample_age sample_user (DateTime 2026 3 5 0))"
proof -
  have v: "py_strip (opt_or (subscription_status sample_user) []) = opt_or (subscription_status sample_user) []"
    by code_simp
  show ?thesis by (rule gate_matches_charging [OF v])
qed

text \<open>
  A promised resume time is honest: when \<^verbatim>\<open>run_eligibility\<close> names one, the block is the record
  limit, the time lies in the future, and at that time the account counts as having used nothing,
  unless it has meanwhile been frozen for non-payment.
\<close>

theorem resume_time_is_honest:
  assumes "valid_dt (quota_anchor_at u)" "valid_dt (quota_period_end u)"
    and "run_eligibility u now = Some r" "resumes_at r = Some t"
  shows "block_code r = Some Over_limit \<and> now < t \<and>
    (is_frozen u t \<or> (should_roll u t \<and> effective_records_used u t = 0))"
proof -
  note n = run_eligibility_resumes [OF assms(3,4)]
  then show ?thesis
    using next_quota_reset_future [OF assms(1,2)] next_quota_reset_rolls [OF assms(1,2)]
    by (auto simp: effective_records_used_def)
qed

theorem resume_time_is_honest_witness:
  "\<exists>r t. run_eligibility (sample_user\<lparr>records_used := 1000\<rparr>) (DateTime 2026 3 5 0) = Some r \<and>
     resumes_at r = Some t \<and> DateTime 2026 3 5 0 < t"
proof -
  let ?u = "sample_user\<lparr>records_used := 1000\<rparr>"
  have v: "valid_dt (quota_anchor_at ?u)" "valid_dt (quota_period_end ?u)" by code_simp+
  obtain r where r: "run_eligibility ?u (DateTime 2026 3 5 0) = Some r"
    using run_eligibility_total by auto
  have "map_option resumes_at (run_eligibility ?u (DateTime 2026 3 5 0)) = Some (Some (DateTime 2026 3 31 0))"
    by code_simp
  with r have t: "resumes_at r = Some (DateTime 2026 3 31 0)" by simp
  show ?thesis using resume_time_is_honest [OF v r t] r t by blast
qed

end
