(* ===== verification/Plans.thy ===== *)
theory Plans
  imports QuotaWindow
begin

text \<open>
  Plans and their entitlement tables: \<^verbatim>\<open>src/config/constants.py\<close> (job statuses, plan slugs,
  per-plan counties, record types, export formats, schedule frequencies, labels),
  \<^verbatim>\<open>src/config/plans.py\<close> (the catalog) and \<^verbatim>\<open>src/config/lookup_pricing.py\<close>.
  A Python \<^verbatim>\<open>dict\<close> constant is an association list read by \<open>map_of\<close>; a \<^verbatim>\<open>frozenset\<close> constant is
  the list of its elements, used through membership only.
\<close>

subsection \<open>Job statuses\<close>

datatype job_status =
  PENDING | QUEUED | PROBING | SCRAPING | ENRICHING | DONE | FAILED | CANCELLED

fun status_value :: "job_status \<Rightarrow> string" where
  "status_value PENDING = ''pending''"
| "status_value QUEUED = ''queued''"
| "status_value PROBING = ''probing''"
| "status_value SCRAPING = ''scraping''"
| "status_value ENRICHING = ''enriching''"
| "status_value DONE = ''done''"
| "status_value FAILED = ''failed''"
| "status_value CANCELLED = ''cancelled''"

definition CANCELLABLE_STATUSES :: "job_status list" where
  "CANCELLABLE_STATUSES = [PENDING, QUEUED, PROBING, SCRAPING, ENRICHING]"

definition ACTIVE_STATUSES :: "job_status list" where
  "ACTIVE_STATUSES = CANCELLABLE_STATUSES"

definition STUCK_CHECK_STATUSES :: "job_status list" where
  "STUCK_CHECK_STATUSES = [QUEUED, PROBING, SCRAPING, ENRICHING]"

subsection \<open>Plans\<close>

datatype plan = STARTER | PRO | BUSINESS | AGENCY

fun plan_value :: "plan \<Rightarrow> string" where
  "plan_value STARTER = ''starter''"
| "plan_value PRO = ''pro''"
| "plan_value BUSINESS = ''business''"
| "plan_value AGENCY = ''agency''"

definition PRIORITY_QUEUE_PLANS :: "string list" where
  "PRIORITY_QUEUE_PLANS = [plan_value BUSINESS, plan_value AGENCY]"

definition SCRAPE_QUEUE_PRIORITY :: string where
  "SCRAPE_QUEUE_PRIORITY = ''scrape-priority''"

definition SCRAPE_QUEUE_DEFAULT :: string where
  "SCRAPE_QUEUE_DEFAULT = ''scrape''"

definition normalize_plan :: "string option \<Rightarrow> string" where
  "normalize_plan p = py_lower (py_strip (str_or p ''starter''))"

definition scrape_queue_for_plan :: "string option \<Rightarrow> string" where
  "scrape_queue_for_plan p =
     (if normalize_plan p \<in> set PRIORITY_QUEUE_PLANS then SCRAPE_QUEUE_PRIORITY
      else SCRAPE_QUEUE_DEFAULT)"

definition SCRAPE_TRANSIENT_MAX_RETRIES :: int where
  "SCRAPE_TRANSIENT_MAX_RETRIES = 2"

definition SCRAPE_TRANSIENT_BACKOFF_SECONDS :: "int list" where
  "SCRAPE_TRANSIENT_BACKOFF_SECONDS = [300, 1200]"

definition BUSINESS_FEATURES_PLANS :: "string list" where
  "BUSINESS_FEATURES_PLANS = [plan_value BUSINESS, plan_value AGENCY]"

definition SKIP_TRACE_ADDON_PLANS :: "string list" where
  "SKIP_TRACE_ADDON_PLANS = [plan_value PRO, plan_value BUSINESS, plan_value AGENCY]"

definition BATCH_PLANS :: "string list" where
  "BATCH_PLANS = [plan_value PRO, plan_value BUSINESS, plan_value AGENCY]"

definition COUNTY_LIMIT_BY_PLAN :: "(string \<times> int) list" where
  "COUNTY_LIMIT_BY_PLAN =
     [(plan_value STARTER, 1), (plan_value PRO, 3), (plan_value BUSINESS, 10), (plan_value AGENCY, -1)]"

definition ALL_RECORD_TYPES :: "string list" where
  "ALL_RECORD_TYPES =
     [''probate'', ''pre_foreclosure'', ''tax_delinquent'', ''code_violation'', ''divorce'',
      ''death_certificate'', ''trustee_sale'']"

definition RECORD_TYPES_BY_PLAN :: "(string \<times> string list) list" where
  "RECORD_TYPES_BY_PLAN =
     [(plan_value STARTER, [''probate'']),
      (plan_value PRO, [''probate'', ''pre_foreclosure'', ''tax_delinquent'', ''trustee_sale'']),
      (plan_value BUSINESS, ALL_RECORD_TYPES),
      (plan_value AGENCY, ALL_RECORD_TYPES)]"

subsection \<open>Labels\<close>

definition RECORD_TYPE_LABELS :: "(string \<times> string) list" where
  "RECORD_TYPE_LABELS =
     [(''probate'', ''Probate''), (''pre_foreclosure'', ''Pre-Foreclosure''),
      (''tax_delinquent'', ''Tax Delinquent''), (''code_violation'', ''Code Violation''),
      (''divorce'', ''Divorce''), (''death_certificate'', ''Death Certificate''),
      (''trustee_sale'', ''Trustee Sale''), (''eviction'', ''Eviction'')]"

definition record_type_label :: "string option \<Rightarrow> string" where
  "record_type_label slug =
     (let key = py_lower (py_strip (str_or slug []))
      in case map_of RECORD_TYPE_LABELS key of
           Some l \<Rightarrow> l
         | None \<Rightarrow> py_title (map (\<lambda>c. if c = CHR ''_'' then CHR '' '' else c) key))"

definition count_label :: "int \<Rightarrow> string \<Rightarrow> string \<Rightarrow> string" where
  "count_label n singular plural = show_int n @ '' '' @ (if n = 1 then singular else plural)"

definition SUPPORTED_EXPORT_FORMATS :: "string list" where
  "SUPPORTED_EXPORT_FORMATS = [''csv'', ''json'', ''excel'', ''xlsx'']"

definition EXPORT_FORMATS_BY_PLAN :: "(string \<times> string list) list" where
  "EXPORT_FORMATS_BY_PLAN =
     [(plan_value STARTER, [''csv'']),
      (plan_value PRO, [''csv'', ''excel'', ''xlsx'']),
      (plan_value BUSINESS, SUPPORTED_EXPORT_FORMATS),
      (plan_value AGENCY, SUPPORTED_EXPORT_FORMATS)]"

definition ALL_SCHEDULE_FREQUENCIES :: "string list" where
  "ALL_SCHEDULE_FREQUENCIES = [''manual'', ''daily'', ''weekly'', ''monthly'']"

definition SCHEDULE_FREQUENCIES_BY_PLAN :: "(string \<times> string list) list" where
  "SCHEDULE_FREQUENCIES_BY_PLAN =
     [(plan_value STARTER, [''manual'']),
      (plan_value PRO, [''manual'', ''daily'', ''weekly'']),
      (plan_value BUSINESS, ALL_SCHEDULE_FREQUENCIES),
      (plan_value AGENCY, ALL_SCHEDULE_FREQUENCIES)]"

definition OVERLAP_PLANS :: "string list" where
  "OVERLAP_PLANS = [plan_value BUSINESS, plan_value AGENCY]"

definition EXPORT_FORMAT_LABELS :: "(string \<times> string) list" where
  "EXPORT_FORMAT_LABELS =
     [(''csv'', ''CSV''), (''excel'', ''Excel''), (''xlsx'', ''Excel''), (''json'', ''JSON'')]"

definition export_format_label :: "string option \<Rightarrow> string" where
  "export_format_label fmt =
     (let key = py_lower (py_strip (str_or fmt []))
      in case map_of EXPORT_FORMAT_LABELS key of Some l \<Rightarrow> l | None \<Rightarrow> py_upper key)"

definition allowed_export_formats :: "string option \<Rightarrow> string list" where
  "allowed_export_formats p =
     opt_or (map_of EXPORT_FORMATS_BY_PLAN (normalize_plan p))
       (the (map_of EXPORT_FORMATS_BY_PLAN (plan_value STARTER)))"

definition allowed_schedule_frequencies :: "string option \<Rightarrow> string list" where
  "allowed_schedule_frequencies p =
     opt_or (map_of SCHEDULE_FREQUENCIES_BY_PLAN (normalize_plan p))
       (the (map_of SCHEDULE_FREQUENCIES_BY_PLAN (plan_value STARTER)))"

subsection \<open>The catalog\<close>

record catalog_entry =
  cat_id :: string
  cat_name :: string
  price_monthly :: int
  price_annual :: "int option"
  cat_records_limit :: int
  features :: "string list"

definition PLAN_CATALOG :: "catalog_entry list" where
  "PLAN_CATALOG =
     [\<lparr> cat_id = ''starter'', cat_name = ''Starter'', price_monthly = 0, price_annual = None,
        cat_records_limit = 50,
        features = [''50 records/month'', ''1 county'', ''CSV export'', ''Manual runs''] \<rparr>,
      \<lparr> cat_id = ''pro'', cat_name = ''Pro'', price_monthly = 199, price_annual = Some 1910,
        cat_records_limit = 1000,
        features = [''1,000 records/month'', ''3 counties (your choice)'',
          ''Probate, pre-foreclosure, tax-delinquent & auction lists'',
          ''Skip tracing (250 included, then $0.08/lookup)'', ''CSV + Excel export'',
          ''Daily/weekly schedule'', ''Email delivery'', ''Batch scraping''] \<rparr>,
      \<lparr> cat_id = ''business'', cat_name = ''Business'', price_monthly = 499, price_annual = Some 4790,
        cat_records_limit = 5000,
        features = [''5,000 records/month'', ''10 counties (your choice)'',
          ''All record types + overlap/intersection'', ''All export formats'', ''All schedules'',
          ''Email + Webhook + dialer delivery'', ''Skip tracing (1,000 included)'', ''API access''] \<rparr>,
      \<lparr> cat_id = ''agency'', cat_name = ''Agency'', price_monthly = 1499, price_annual = Some 14390,
        cat_records_limit = -1,
        features = [''Unlimited counties + records'', ''All record types + overlap/intersection'',
          ''Skip tracing (2,000 included)'', ''White-label (coming soon)'',
          ''Priority queue + support'', ''Dedicated account manager''] \<rparr>]"

definition BY_ID :: "(string \<times> catalog_entry) list" where
  "BY_ID = map (\<lambda>p. (cat_id p, p)) PLAN_CATALOG"

text \<open>\<^verbatim>\<open>get_plan\<close> raises KeyError for an unknown id: None.\<close>

definition get_plan :: "string \<Rightarrow> catalog_entry option" where
  "get_plan plan_id = map_of BY_ID plan_id"

definition plan_label :: "string option \<Rightarrow> string" where
  "plan_label plan_id =
     cat_name (opt_or (map_of BY_ID (normalize_plan plan_id)) (the (map_of BY_ID ''starter'')))"

definition plan_price_monthly :: "string \<Rightarrow> int option" where
  "plan_price_monthly plan_id = map_option price_monthly (get_plan plan_id)"

definition plan_records_limit :: "string \<Rightarrow> int option" where
  "plan_records_limit plan_id = map_option cat_records_limit (get_plan plan_id)"

definition format_price_monthly :: "string \<Rightarrow> string option" where
  "format_price_monthly plan_id =
     map_option (\<lambda>price. if price \<le> 0 then ''Free'' else ''$'' @ show_commas price @ ''/month'')
       (plan_price_monthly plan_id)"

definition format_records_limit :: "string \<Rightarrow> string option" where
  "format_records_limit plan_id =
     map_option (\<lambda>limit. if limit < 0 then ''Unlimited records''
                         else show_commas limit @ '' records per month'')
       (plan_records_limit plan_id)"

subsection \<open>Settings and lookup prices\<close>

definition SKIP_TRACE_BUNDLED_QUOTAS :: "(string \<times> int) list" where
  "SKIP_TRACE_BUNDLED_QUOTAS =
     [(''starter'', 0), (''pro'', 250), (''business'', 1000), (''agency'', 2000)]"

definition PLAN_LIMITS :: "(string \<times> int) list" where
  "PLAN_LIMITS = [(''starter'', 50), (''pro'', 1000), (''business'', 5000), (''agency'', -1)]"

definition UNIT_PRICE_CENTS :: "(string \<times> int) list" where
  "UNIT_PRICE_CENTS = [(''pro'', 8), (''business'', 8), (''agency'', 5)]"

definition unit_price_cents :: "string option \<Rightarrow> int option" where
  "unit_price_cents p = map_of UNIT_PRICE_CENTS (normalize_plan p)"

definition included_lookups_remaining :: "user_row \<Rightarrow> datetime \<Rightarrow> int" where
  "included_lookups_remaining user now =
     (let quota = opt_or (map_of SKIP_TRACE_BUNDLED_QUOTAS (normalize_plan (Some (u_plan user)))) 0;
          window_start = fst (effective_window user now);
          used = (case skip_trace_period_start user of
                    None \<Rightarrow> 0
                  | Some ps \<Rightarrow> if ps < window_start then 0 else skip_trace_used_this_month user)
      in max 0 (quota - used))"

subsection \<open>Lemmas\<close>

lemma normalize_plan_idem: "normalize_plan p \<noteq> [] \<Longrightarrow> normalize_plan (Some (normalize_plan p)) = normalize_plan p"
  by (simp add: normalize_plan_def strip_lower)

lemma normalize_plan_value [simp]: "normalize_plan (Some (plan_value p)) = plan_value p"
proof -
  have "normalize_plan (Some (plan_value STARTER)) = plan_value STARTER"
    "normalize_plan (Some (plan_value PRO)) = plan_value PRO"
    "normalize_plan (Some (plan_value BUSINESS)) = plan_value BUSINESS"
    "normalize_plan (Some (plan_value AGENCY)) = plan_value AGENCY"
    by code_simp+
  then show ?thesis by (cases p) simp_all
qed

lemma PLAN_CATALOG_limits: "map_option cat_records_limit (map_of BY_ID p) = map_of PLAN_LIMITS p"
  by (simp add: BY_ID_def PLAN_CATALOG_def PLAN_LIMITS_def)

end
