(* ===== verification/Entitlements.thy ===== *)
theory Entitlements
  imports Plans
begin

text \<open>
  Plan entitlements, \<^verbatim>\<open>src/api/entitlements.py\<close>: violations and their messages, the county cap and the
  record-type gate at create time, the deterministic choice of the counties a plan covers, the check
  before a run, and the reconciliation that pauses and revives scraper configs when a plan changes.

  The configs a user owns are a list of rows. \<open>county_slots\<close> is the abstract contract of the choice:
  never more counties than the cap, active configs before paused ones, and no free slot left while
  a config wants one. The reconciliation theorems follow from the contract alone.
\<close>

subsection \<open>Violations\<close>

datatype violation_code =
  COUNTY_LIMIT | RECORD_TYPE | PLAN_LIMIT | EXPORT_FORMAT | SCHEDULE | OVERLAP | DELIVERY | SKIP_TRACE

fun code_value :: "violation_code \<Rightarrow> string" where
  "code_value COUNTY_LIMIT = ''county_limit''"
| "code_value RECORD_TYPE = ''record_type''"
| "code_value PLAN_LIMIT = ''plan_limit''"
| "code_value EXPORT_FORMAT = ''export_format''"
| "code_value SCHEDULE = ''schedule''"
| "code_value OVERLAP = ''overlap''"
| "code_value DELIVERY = ''delivery''"
| "code_value SKIP_TRACE = ''skip_trace''"

record violation =
  v_code :: violation_code
  v_title :: string
  v_message :: string

definition join_english :: "string list \<Rightarrow> string" where
  "join_english items =
     (if items = [] then []
      else if length items = 1 then hd items
      else str_join '', '' (butlast items) @ '' and '' @ last items)"

definition county_word :: "int \<Rightarrow> string" where
  "county_word n = count_label n ''county'' ''counties''"

definition county_cap_violation :: "string \<Rightarrow> int \<Rightarrow> int \<Rightarrow> violation" where
  "county_cap_violation plan projected cap =
     \<lparr> v_code = COUNTY_LIMIT, v_title = ''County limit reached'',
       v_message = ''Your '' @ plan_label (Some plan) @ '' plan includes '' @ county_word cap @ ''. '' @
         ''This would put your account at '' @ county_word projected @ ''.'' \<rparr>"

definition county_outside_plan_violation :: "string \<Rightarrow> string \<Rightarrow> string \<Rightarrow> int \<Rightarrow> violation" where
  "county_outside_plan_violation plan state county cap =
     \<lparr> v_code = COUNTY_LIMIT, v_title = ''County limit reached'',
       v_message = ''Your '' @ plan_label (Some plan) @ '' plan includes '' @ county_word cap @ ''. '' @
         py_title (py_strip county) @ '', '' @ py_upper (py_strip state) @
         '' is outside that limit.'' \<rparr>"

definition record_type_violation :: "string \<Rightarrow> string list \<Rightarrow> violation" where
  "record_type_violation plan record_types =
     (let labels = sorted_distinct (map (\<lambda>rt. record_type_label (Some rt)) record_types);
          subj = join_english labels;
          verb = (if length labels = 1 then ''is'' else ''are'')
      in \<lparr> v_code = RECORD_TYPE, v_title = ''Record type not in your plan'',
           v_message = subj @ '' '' @ verb @ '' not included in your '' @ plan_label (Some plan) @ '' plan.'' \<rparr>)"

definition export_format_violation :: "string \<Rightarrow> string list \<Rightarrow> violation" where
  "export_format_violation plan formats =
     (let labels = sorted_distinct (map (\<lambda>f. export_format_label (Some f)) formats);
          subj = join_english labels;
          verb = (if length labels = 1 then ''is'' else ''are'')
      in \<lparr> v_code = EXPORT_FORMAT, v_title = ''Export format not in your plan'',
           v_message = subj @ '' export '' @ verb @ '' not included in your '' @ plan_label (Some plan) @ '' plan.'' \<rparr>)"

definition schedule_frequency_violation :: "string \<Rightarrow> string option \<Rightarrow> violation" where
  "schedule_frequency_violation plan frequency =
     (let label = plan_label (Some plan)
      in \<lparr> v_code = SCHEDULE, v_title = ''Scheduling not in your plan'',
           v_message =
             (if set (allowed_schedule_frequencies (Some plan)) = {''manual''}
              then ''Your '' @ label @ '' plan runs scrapes when you start them. '' @
                ''Scheduled runs are not included.''
              else py_title (py_strip (str_or frequency [])) @ '' scheduling is not included in '' @
                ''your '' @ label @ '' plan.'') \<rparr>)"

definition overlap_violation :: "string \<Rightarrow> violation" where
  "overlap_violation plan =
     \<lparr> v_code = OVERLAP, v_title = ''Overlap lists not in your plan'',
       v_message = ''Overlap and intersection lists are not included in your '' @
         plan_label (Some plan) @ '' plan.'' \<rparr>"

definition delivery_violation :: "string \<Rightarrow> string \<Rightarrow> violation" where
  "delivery_violation plan what =
     \<lparr> v_code = DELIVERY, v_title = ''Delivery method not in your plan'',
       v_message = what @ '' is not included in your '' @ plan_label (Some plan) @ '' plan.'' \<rparr>"

definition skip_trace_violation :: "string \<Rightarrow> violation" where
  "skip_trace_violation plan =
     \<lparr> v_code = SKIP_TRACE, v_title = ''Skip tracing not in your plan'',
       v_message = ''Skip tracing is not included in your '' @ plan_label (Some plan) @ '' plan.'' \<rparr>"

definition disallowed_export_formats :: "string \<Rightarrow> string list \<Rightarrow> string list" where
  "disallowed_export_formats plan formats =
     filter (\<lambda>f. f \<notin> set (allowed_export_formats (Some plan)))
       (remdups (map (\<lambda>f. py_lower (py_strip f)) (filter (\<lambda>f. f \<noteq> []) formats)))"

definition schedule_frequency_allowed :: "string \<Rightarrow> string option \<Rightarrow> bool" where
  "schedule_frequency_allowed plan frequency \<longleftrightarrow>
     py_lower (py_strip (str_or frequency ''manual'')) \<in> set (allowed_schedule_frequencies (Some plan))"

definition overlap_allowed :: "string \<Rightarrow> bool" where
  "overlap_allowed plan \<longleftrightarrow> normalize_plan (Some plan) \<in> set OVERLAP_PLANS"

definition combine_violations :: "violation list \<Rightarrow> violation" where
  "combine_violations vs =
     (if length vs = 1 then hd vs
      else \<lparr> v_code = PLAN_LIMIT, v_title = ''Plan limit reached'',
             v_message = str_join '' '' (map v_message vs) \<rparr>)"

text \<open>An HTTP error with the structured body of a plan notice.\<close>

record http_error =
  http_status :: int
  err_code :: string
  err_title :: string
  err_message :: string

definition UPGRADE_SENTENCE :: string where
  "UPGRADE_SENTENCE = ''Upgrade your plan to continue.''"

definition plan_limit_http :: "violation \<Rightarrow> http_error" where
  "plan_limit_http v =
     \<lparr> http_status = 402, err_code = code_value (v_code v), err_title = v_title v,
       err_message = v_message v @ '' '' @ UPGRADE_SENTENCE \<rparr>"

definition raise_plan_features :: "violation list \<Rightarrow> http_error + unit" where
  "raise_plan_features vs = (if vs = [] then Inr () else Inl (plan_limit_http (combine_violations vs)))"

subsection \<open>Create-time checks\<close>

text \<open>The plan tables fail closed: an unknown plan reads as Starter.\<close>

definition plan_types :: "string \<Rightarrow> string list" where
  "plan_types plan = opt_or (map_of RECORD_TYPES_BY_PLAN plan) (the (map_of RECORD_TYPES_BY_PLAN ''starter''))"

definition plan_cap :: "string \<Rightarrow> int" where
  "plan_cap plan = opt_or (map_of COUNTY_LIMIT_BY_PLAN plan) (the (map_of COUNTY_LIMIT_BY_PLAN ''starter''))"

definition disallowed_record_types :: "string \<Rightarrow> string list \<Rightarrow> string list" where
  "disallowed_record_types plan record_types =
     filter (\<lambda>rt. rt \<notin> set (plan_types plan)) (remdups (map py_lower record_types))"

definition norm_county :: "string \<Rightarrow> string \<Rightarrow> string \<times> string" where
  "norm_county state county = (py_upper (py_strip state), py_lower (py_strip county))"

record config_row =
  cfg_id :: string
  cfg_state :: string
  cfg_county :: string
  cfg_record_type :: string
  cfg_created_at :: datetime
  cfg_active :: bool
  cfg_paused_reason :: "string option"

text \<open>SQL \<^verbatim>\<open>trim\<close> removes spaces only.\<close>

definition sql_trim :: "string \<Rightarrow> string" where
  "sql_trim s = rev (dropWhile (\<lambda>c. c = CHR '' '') (rev (dropWhile (\<lambda>c. c = CHR '' '') s)))"

definition projected_county_overage ::
    "config_row list \<Rightarrow> string \<Rightarrow> string \<Rightarrow> string list \<Rightarrow> (int \<times> int) option" where
  "projected_county_overage configs plan state new_counties =
     (let cap = plan_cap plan
      in if cap < 0 then None
         else let incoming = map (norm_county state) new_counties;
                  existing = map (\<lambda>c. (py_upper (sql_trim (cfg_state c)), py_lower (sql_trim (cfg_county c))))
                               (filter cfg_active configs);
                  projected = int (length (remdups (existing @ incoming)))
              in if projected > cap then Some (projected, cap) else None)"

text \<open>
  \<open>enforcing\<close> is \<^verbatim>\<open>settings.ENTITLEMENT_ENFORCEMENT\<close>; in audit mode the violation is only logged.
\<close>

definition create_violations ::
    "config_row list \<Rightarrow> string \<Rightarrow> string \<Rightarrow> string list \<Rightarrow> string list \<Rightarrow> violation list" where
  "create_violations configs plan state counties record_types =
     (let bad = disallowed_record_types plan record_types
      in (if bad \<noteq> [] then [record_type_violation plan bad] else []) @
         (case projected_county_overage configs plan state counties of
            None \<Rightarrow> []
          | Some (projected, cap) \<Rightarrow> [county_cap_violation plan projected cap]))"

definition enforce_entitlements ::
    "bool \<Rightarrow> config_row list \<Rightarrow> string \<Rightarrow> string \<Rightarrow> string list \<Rightarrow> string list \<Rightarrow> http_error + unit" where
  "enforce_entitlements enforcing configs user_plan state counties record_types =
     (let problems = create_violations configs (normalize_plan (Some user_plan)) state counties record_types
      in if problems = [] then Inr ()
         else if enforcing then Inl (plan_limit_http (combine_violations problems))
         else Inr ())"

subsection \<open>The counties a plan covers\<close>

definition PAUSED_REASON_ENTITLEMENT :: string where
  "PAUSED_REASON_ENTITLEMENT = ''entitlement''"

definition current_batch_child :: "config_row \<Rightarrow> bool" where
  "current_batch_child c \<longleftrightarrow> cfg_active c \<or> cfg_paused_reason c = Some PAUSED_REASON_ENTITLEMENT"

text \<open>
  A dict from county to the earliest creation time, kept in insertion order.
\<close>

type_synonym county = "string \<times> string"

definition put_earliest :: "county \<Rightarrow> datetime \<Rightarrow> (county \<times> datetime) list \<Rightarrow> (county \<times> datetime) list" where
  "put_earliest key t d =
     (case map_of d key of
        None \<Rightarrow> d @ [(key, t)]
      | Some t0 \<Rightarrow> if t < t0 then map (\<lambda>(k, v). if k = key then (k, t) else (k, v)) d else d)"

definition row_key :: "config_row \<Rightarrow> county" where
  "row_key r = norm_county (cfg_state r) (cfg_county r)"

definition type_allowed :: "string \<Rightarrow> config_row \<Rightarrow> bool" where
  "type_allowed plan r \<longleftrightarrow> py_lower (cfg_record_type r) \<in> set (plan_types plan)"

definition county_step ::
    "string \<Rightarrow> config_row \<Rightarrow> (county \<times> datetime) list \<times> (county \<times> datetime) list
       \<Rightarrow> (county \<times> datetime) list \<times> (county \<times> datetime) list" where
  "county_step plan r d =
     (let (act, pau) = d
      in if \<not> type_allowed plan r then (act, pau)
         else if cfg_active r then (put_earliest (row_key r) (cfg_created_at r) act, pau)
         else if cfg_paused_reason r = Some PAUSED_REASON_ENTITLEMENT
           then (act, put_earliest (row_key r) (cfg_created_at r) pau)
         else (act, pau))"

definition rank_counties :: "(county \<times> datetime) list \<Rightarrow> county list" where
  "rank_counties d = map fst (sort_key (\<lambda>kv. (snd kv, fst kv)) d)"

definition allowed_county_list :: "config_row list \<Rightarrow> string \<Rightarrow> county list option" where
  "allowed_county_list rows user_plan =
     (let plan = normalize_plan (Some user_plan);
          cap = plan_cap plan
      in if cap < 0 then None
         else let (act, pau) = fold (county_step plan) rows ([], []);
                  chosen = take (nat cap) (rank_counties act);
                  remaining = cap - int (length chosen)
              in if remaining > 0
                 then Some (chosen @ take (nat remaining)
                        (rank_counties (filter (\<lambda>kt. fst kt \<notin> set chosen) pau)))
                 else Some chosen)"

definition allowed_county_set :: "config_row list \<Rightarrow> string \<Rightarrow> county set option" where
  "allowed_county_set rows plan = map_option set (allowed_county_list rows plan)"

definition config_run_violation ::
    "string \<Rightarrow> string \<Rightarrow> string \<Rightarrow> string option \<Rightarrow> config_row list \<Rightarrow> violation option" where
  "config_run_violation user_plan state county record_type active_rows =
     (let plan = normalize_plan (Some user_plan);
          rt = py_lower (str_or record_type [])
      in if rt \<notin> set (plan_types plan) then Some (record_type_violation plan [rt])
         else case allowed_county_set active_rows plan of
                None \<Rightarrow> None
              | Some allowed \<Rightarrow>
                  if norm_county state county \<notin> allowed
                  then Some (county_outside_plan_violation plan state county (plan_cap plan))
                  else None)"

definition enforce_runnable_http :: "bool \<Rightarrow> violation option \<Rightarrow> http_error + unit" where
  "enforce_runnable_http enforcing v =
     (case v of None \<Rightarrow> Inr ()
      | Some w \<Rightarrow> if enforcing then Inl (plan_limit_http w) else Inr ())"

definition should_block_run :: "bool \<Rightarrow> violation option \<Rightarrow> bool" where
  "should_block_run enforcing v = (case v of None \<Rightarrow> False | Some _ \<Rightarrow> enforcing)"

subsection \<open>Reconciliation\<close>

definition permitted :: "config_row list \<Rightarrow> string \<Rightarrow> config_row \<Rightarrow> bool" where
  "permitted rows plan r =
     (if \<not> type_allowed plan r then False
      else case allowed_county_set rows plan of
             None \<Rightarrow> True
           | Some allowed \<Rightarrow> row_key r \<in> allowed)"

definition plan_reconciliation :: "config_row list \<Rightarrow> string \<Rightarrow> string set \<times> string set" where
  "plan_reconciliation rows user_plan =
     (let plan = normalize_plan (Some user_plan)
      in (set (map cfg_id (filter (\<lambda>r. cfg_active r \<and> \<not> permitted rows plan r) rows)),
          set (map cfg_id (filter (\<lambda>r. \<not> (cfg_active r \<and> \<not> permitted rows plan r) \<and> \<not> cfg_active r \<and>
             cfg_paused_reason r = Some PAUSED_REASON_ENTITLEMENT \<and> permitted rows plan r) rows))))"

text \<open>
  \<^verbatim>\<open>apply_reconciliation_async\<close> and its synchronous twin load the rows, decide, and set the two
  columns: first the pauses, then the revivals.
\<close>

definition pause_row :: "string set \<Rightarrow> config_row \<Rightarrow> config_row" where
  "pause_row ids r = (if cfg_id r \<in> ids
     then r\<lparr> cfg_active := False, cfg_paused_reason := Some PAUSED_REASON_ENTITLEMENT \<rparr> else r)"

definition revive_row :: "string set \<Rightarrow> config_row \<Rightarrow> config_row" where
  "revive_row ids r = (if cfg_id r \<in> ids then r\<lparr> cfg_active := True, cfg_paused_reason := None \<rparr> else r)"

definition apply_reconciliation ::
    "bool \<Rightarrow> config_row list \<Rightarrow> string \<Rightarrow> config_row list \<times> (nat \<times> nat)" where
  "apply_reconciliation enforcing configs plan =
     (let (pause_ids, revive_ids) = plan_reconciliation configs plan
      in if \<not> enforcing then (configs, (0, 0))
         else (map (revive_row revive_ids) (map (pause_row pause_ids) configs),
               (card pause_ids, card revive_ids)))"

subsection \<open>The contract of the choice\<close>

definition county_slots :: "'a set \<Rightarrow> 'a set \<Rightarrow> nat \<Rightarrow> 'a set \<Rightarrow> bool" where
  "county_slots A P cap C \<longleftrightarrow>
     finite C \<and> card C \<le> cap \<and> C \<subseteq> A \<union> P \<and> (A \<subseteq> C \<or> (C \<subseteq> A \<and> card C = cap)) \<and>
     (card C = cap \<or> A \<union> P \<subseteq> C)"

definition dict_keys :: "('k \<times> 'v) list \<Rightarrow> 'k set" where
  "dict_keys d = set (map fst d)"

lemma map_fst_replace: "map fst (map (\<lambda>(x, v). if x = k then (x, t) else (x, v)) d) = map fst d"
  by (induction d) auto

lemma keys_put_earliest [simp]: "dict_keys (put_earliest k t d) = insert k (dict_keys d)"
proof (cases "map_of d k")
  case None
  then show ?thesis by (simp add: put_earliest_def dict_keys_def)
next
  case (Some t0)
  then have "k \<in> dict_keys d" by (force simp: dict_keys_def dest: map_of_SomeD)
  then show ?thesis using Some
    by (simp only: put_earliest_def dict_keys_def map_fst_replace option.case if_distrib [of "map fst"]
        insert_absorb if_cancel)
qed

lemma distinct_put_earliest:
  "distinct (map fst d) \<Longrightarrow> distinct (map fst (put_earliest k t d))"
  using map_fst_replace [of k t d]
  by (simp add: put_earliest_def map_of_eq_None_iff del: map_map split: option.split)

definition active_keys :: "string \<Rightarrow> config_row list \<Rightarrow> county set" where
  "active_keys plan rows = {row_key r |r. r \<in> set rows \<and> type_allowed plan r \<and> cfg_active r}"

definition paused_keys :: "string \<Rightarrow> config_row list \<Rightarrow> county set" where
  "paused_keys plan rows = {row_key r |r. r \<in> set rows \<and> type_allowed plan r \<and> \<not> cfg_active r \<and>
     cfg_paused_reason r = Some PAUSED_REASON_ENTITLEMENT}"

lemma keys_Cons:
  "active_keys plan (r # rows) = active_keys plan [r] \<union> active_keys plan rows"
  "paused_keys plan (r # rows) = paused_keys plan [r] \<union> paused_keys plan rows"
  by (auto simp: active_keys_def paused_keys_def)

lemma county_step_keys:
  assumes "county_step plan r (a0, p0) = (a1, p1)"
  shows "dict_keys a1 = dict_keys a0 \<union> active_keys plan [r]"
    "dict_keys p1 = dict_keys p0 \<union> paused_keys plan [r]"
    "distinct (map fst a0) \<Longrightarrow> distinct (map fst a1)"
    "distinct (map fst p0) \<Longrightarrow> distinct (map fst p1)"
  using assms by (auto simp: county_step_def active_keys_def paused_keys_def
      intro: distinct_put_earliest split: if_splits)

lemma fold_county_step:
  assumes "fold (county_step plan) rows (a0, p0) = (a, p)"
  shows "dict_keys a = dict_keys a0 \<union> active_keys plan rows \<and>
    dict_keys p = dict_keys p0 \<union> paused_keys plan rows \<and>
    (distinct (map fst a0) \<longrightarrow> distinct (map fst a)) \<and>
    (distinct (map fst p0) \<longrightarrow> distinct (map fst p))"
  using assms
proof (induction rows arbitrary: a0 p0)
  case Nil
  then show ?case by (simp add: active_keys_def paused_keys_def)
next
  case (Cons r rows)
  obtain a1 p1 where s: "county_step plan r (a0, p0) = (a1, p1)" by (cases "county_step plan r (a0, p0)")
  then have "fold (county_step plan) rows (a1, p1) = (a, p)" using Cons.prems by simp
  from Cons.IH [OF this] county_step_keys [OF s] show ?case
    by (auto simp: keys_Cons [of plan r rows])
qed

lemma set_rank [simp]: "set (rank_counties d) = dict_keys d"
  by (simp add: rank_counties_def dict_keys_def)

lemma distinct_rank: "distinct (map fst d) \<Longrightarrow> distinct (rank_counties d)"
  by (simp add: rank_counties_def distinct_map)

lemma county_slots_pick:
  assumes "distinct as" "distinct ps" "set ps = P - set (take n as)" "set as = A"
  shows "county_slots A P n (set (take n as) \<union> set (take (n - length (take n as)) ps))"
proof -
  let ?c = "take n as" and ?r = "n - length (take n as)"
  have dj: "set ?c \<inter> set (take ?r ps) = {}"
    using assms(3) by (auto dest: in_set_takeD)
  have cc: "card (set ?c) = min (length as) n" "card (set (take ?r ps)) = min (length ps) ?r"
    using assms(1,2) by (simp_all add: distinct_card)
  have card: "card (set ?c \<union> set (take ?r ps)) = min (length as) n + min (length ps) ?r"
    using card_Un_disjoint [OF _ _ dj] cc by simp
  show ?thesis
  proof (cases "length as \<le> n")
    case True
    then have c: "set ?c = A" using assms(4) by simp
    show ?thesis
    proof (cases "length ps \<le> ?r")
      case True
      then have "set (take ?r ps) = P - A" using assms(3) c by simp
      moreover have "finite P"
        by (rule finite_subset [of P "set (take n as) \<union> set ps"]) (use assms(3) in blast, simp)
      ultimately show ?thesis using c card True \<open>length as \<le> n\<close>
        by (auto simp: county_slots_def)
    next
      case False
      then show ?thesis using c card \<open>length as \<le> n\<close> assms(3)
        by (auto simp: county_slots_def dest: in_set_takeD)
    qed
  next
    case False
    then show ?thesis using card assms(4)
      by (auto simp: county_slots_def dest: in_set_takeD)
  qed
qed

lemma normalize_plan_fix: "normalize_plan (Some (normalize_plan p)) = normalize_plan p \<or> normalize_plan p = []"
  using normalize_plan_idem by blast

lemma allowed_county_set_slots:
  assumes "allowed_county_set rows user_plan = Some C"
  shows "county_slots (active_keys (normalize_plan (Some user_plan)) rows)
           (paused_keys (normalize_plan (Some user_plan)) rows)
           (nat (plan_cap (normalize_plan (Some user_plan)))) C"
proof -
  let ?plan = "normalize_plan (Some user_plan)"
  obtain a p where f: "fold (county_step ?plan) rows ([], []) = (a, p)"
    by (cases "fold (county_step ?plan) rows ([], [])")
  note k = fold_county_step [OF f, THEN conjunct1]
    fold_county_step [OF f, THEN conjunct2, THEN conjunct1]
    fold_county_step [OF f, THEN conjunct2, THEN conjunct2, THEN conjunct1]
    fold_county_step [OF f, THEN conjunct2, THEN conjunct2, THEN conjunct2]
  define as where "as = rank_counties a"
  define n where "n = nat (plan_cap ?plan)"
  define ps where "ps = rank_counties (filter (\<lambda>kt. fst kt \<notin> set (take n as)) p)"
  have da: "distinct as" unfolding as_def by (rule distinct_rank) (use k(3) in simp)
  have dp: "distinct ps" unfolding ps_def
    by (rule distinct_rank) (use k(4) in \<open>auto simp: distinct_map intro: inj_on_subset\<close>)
  have sa: "set as = active_keys ?plan rows" using k(1) by (simp add: as_def dict_keys_def)
  have sp: "set ps = paused_keys ?plan rows - set (take n as)"
    using k(2) by (force simp: ps_def dict_keys_def)
  have cap: "0 \<le> plan_cap ?plan"
    using assms by (auto simp: allowed_county_set_def allowed_county_list_def Let_def split: if_splits)
  have len: "plan_cap ?plan - int (length (take n as)) > 0 \<longleftrightarrow> 0 < n - length (take n as)"
    "nat (plan_cap ?plan - int (length (take n as))) = n - length (take n as)"
    using cap by (auto simp: n_def)
  have "C = set (take n as) \<union> set (take (n - length (take n as)) ps)"
  proof -
    have "allowed_county_list rows user_plan =
        (if 0 < n - length (take n as) then Some (take n as @ take (n - length (take n as)) ps)
         else Some (take n as))"
      using cap unfolding allowed_county_list_def Let_def f prod.case as_def [symmetric]
          n_def [symmetric] ps_def [symmetric] len by simp
    with assms show ?thesis by (auto simp: allowed_county_set_def split: if_splits)
  qed
  then show ?thesis using county_slots_pick [OF da dp sp sa] by (simp add: n_def)
qed

lemma county_slots_stable:
  assumes C: "county_slots A P n C" and D: "county_slots C P' n D" and P': "P' \<subseteq> A \<union> P"
  shows "D = C"
proof (cases "C \<subseteq> D")
  case True
  have f: "finite D" "card D \<le> n" using D by (simp_all add: county_slots_def)
  show ?thesis
  proof (cases "card C = n")
    case True
    then have "card D \<le> card C" using f by simp
    then show ?thesis using card_seteq [OF f(1) \<open>C \<subseteq> D\<close>] by simp
  next
    case False
    then have "A \<union> P \<subseteq> C" using C by (auto simp: county_slots_def)
    then show ?thesis using D P' \<open>C \<subseteq> D\<close> by (auto simp: county_slots_def)
  qed
next
  case False
  then have "D \<subseteq> C" "card D = n" using D by (auto simp: county_slots_def)
  moreover have "finite C" "card C \<le> n" using C by (simp_all add: county_slots_def)
  ultimately show ?thesis using card_seteq by metis
qed

subsection \<open>Reconciliation reaches a fixed point\<close>

lemma plan_tables_normal:
  assumes "q = normalize_plan p"
  shows "plan_types (normalize_plan (Some q)) = plan_types q" "plan_cap (normalize_plan (Some q)) = plan_cap q"
proof -
  have n: "normalize_plan (Some []) = ''starter''" by code_simp
  have e: "plan_types [] = plan_types ''starter''" "plan_cap [] = plan_cap ''starter''" by code_simp+
  show "plan_types (normalize_plan (Some q)) = plan_types q" "plan_cap (normalize_plan (Some q)) = plan_cap q"
    using normalize_plan_idem [of p] assms n e by (cases "q = []"; simp)+
qed

lemma keys_normal:
  assumes "q = normalize_plan p"
  shows "active_keys (normalize_plan (Some q)) rows = active_keys q rows"
    "paused_keys (normalize_plan (Some q)) rows = paused_keys q rows"
  using plan_tables_normal [OF assms] by (simp_all add: active_keys_def paused_keys_def type_allowed_def)

lemma permitted_slots:
  assumes "q = normalize_plan p" "allowed_county_set rows q = Some C"
  shows "county_slots (active_keys q rows) (paused_keys q rows) (nat (plan_cap q)) C"
  using allowed_county_set_slots [OF assms(2)] plan_tables_normal [OF assms(1)] keys_normal [OF assms(1)]
  by simp

lemma allowed_county_set_None:
  "allowed_county_set rows q = None \<longleftrightarrow> plan_cap (normalize_plan (Some q)) < 0"
  by (auto simp: allowed_county_set_def allowed_county_list_def Let_def split: prod.split)

definition reconcile_row :: "(config_row \<Rightarrow> bool) \<Rightarrow> config_row \<Rightarrow> config_row" where
  "reconcile_row perm r =
     (if cfg_active r \<and> \<not> perm r
      then r\<lparr> cfg_active := False, cfg_paused_reason := Some PAUSED_REASON_ENTITLEMENT \<rparr>
      else if \<not> cfg_active r \<and> cfg_paused_reason r = Some PAUSED_REASON_ENTITLEMENT \<and> perm r
      then r\<lparr> cfg_active := True, cfg_paused_reason := None \<rparr>
      else r)"

lemma reconcile_row_fields [simp]:
  "cfg_id (reconcile_row perm r) = cfg_id r" "row_key (reconcile_row perm r) = row_key r"
  "type_allowed plan (reconcile_row perm r) = type_allowed plan r"
  "cfg_state (reconcile_row perm r) = cfg_state r" "cfg_county (reconcile_row perm r) = cfg_county r"
  "cfg_record_type (reconcile_row perm r) = cfg_record_type r"
  by (simp_all add: reconcile_row_def row_key_def type_allowed_def)

lemma reconcile_row_active:
  "cfg_active (reconcile_row perm r) \<longleftrightarrow>
     perm r \<and> (cfg_active r \<or> cfg_paused_reason r = Some PAUSED_REASON_ENTITLEMENT)"
  by (auto simp: reconcile_row_def)

lemma reconcile_row_paused:
  "\<not> cfg_active (reconcile_row perm r) \<and>
     cfg_paused_reason (reconcile_row perm r) = Some PAUSED_REASON_ENTITLEMENT \<longleftrightarrow>
   \<not> perm r \<and> (cfg_active r \<or> cfg_paused_reason r = Some PAUSED_REASON_ENTITLEMENT)"
  by (auto simp: reconcile_row_def)

lemma mem_ids_iff:
  "distinct (map f xs) \<Longrightarrow> x \<in> set xs \<Longrightarrow> f x \<in> set (map f (filter Q xs)) \<longleftrightarrow> Q x"
  by (auto simp: distinct_map inj_on_def)

lemma apply_reconciliation_rows:
  assumes "distinct (map cfg_id rows)"
  shows "fst (apply_reconciliation True rows p)
       = map (reconcile_row (permitted rows (normalize_plan (Some p)))) rows"
proof -
  let ?perm = "permitted rows (normalize_plan (Some p))"
  obtain P R where pr: "plan_reconciliation rows p = (P, R)" by (cases "plan_reconciliation rows p")
  have P: "cfg_id r \<in> P \<longleftrightarrow> cfg_active r \<and> \<not> ?perm r" if "r \<in> set rows" for r
  proof -
    have "P = set (map cfg_id (filter (\<lambda>r. cfg_active r \<and> \<not> ?perm r) rows))"
      using pr unfolding plan_reconciliation_def Let_def by (rule prod.inject [THEN iffD1, THEN conjunct1, symmetric])
    then show ?thesis using mem_ids_iff [OF assms that] by (simp only:)
  qed
  have R: "cfg_id r \<in> R \<longleftrightarrow> \<not> (cfg_active r \<and> \<not> ?perm r) \<and> \<not> cfg_active r \<and>
      cfg_paused_reason r = Some PAUSED_REASON_ENTITLEMENT \<and> ?perm r" if "r \<in> set rows" for r
  proof -
    have "R = set (map cfg_id (filter (\<lambda>r. \<not> (cfg_active r \<and> \<not> ?perm r) \<and> \<not> cfg_active r \<and>
        cfg_paused_reason r = Some PAUSED_REASON_ENTITLEMENT \<and> ?perm r) rows))"
      using pr unfolding plan_reconciliation_def Let_def by (rule prod.inject [THEN iffD1, THEN conjunct2, symmetric])
    then show ?thesis using mem_ids_iff [OF assms that] by (simp only:)
  qed
  have "revive_row R (pause_row P r) = reconcile_row ?perm r" if "r \<in> set rows" for r
    using P [OF that] R [OF that]
    by (simp add: pause_row_def revive_row_def reconcile_row_def)
  then have "map (\<lambda>r. revive_row R (pause_row P r)) rows = map (reconcile_row ?perm) rows"
    by (intro map_cong refl)
  then show ?thesis by (simp add: apply_reconciliation_def pr comp_def)
qed

lemma keys_union:
  "active_keys plan rows \<union> paused_keys plan rows
     = row_key ` {r \<in> set rows. type_allowed plan r \<and>
         (cfg_active r \<or> cfg_paused_reason r = Some PAUSED_REASON_ENTITLEMENT)}"
  by (auto simp: active_keys_def paused_keys_def image_iff)

lemma image_map_filter:
  "(\<And>x. f (g x) = f x) \<Longrightarrow> f ` {y \<in> set (map g xs). Q y} = f ` {x \<in> set xs. Q (g x)}"
proof -
  assume f: "\<And>x. f (g x) = f x"
  have "{y \<in> set (map g xs). Q y} = g ` {x \<in> set xs. Q (g x)}" by auto
  then show ?thesis by (simp add: image_image f)
qed

lemma active_keys_reconciled:
  "active_keys plan (map (reconcile_row perm) rows)
     = row_key ` {r \<in> set rows. type_allowed plan r \<and> perm r \<and>
         (cfg_active r \<or> cfg_paused_reason r = Some PAUSED_REASON_ENTITLEMENT)}"
proof -
  have "active_keys plan xs = row_key ` {r \<in> set xs. type_allowed plan r \<and> cfg_active r}" for xs
    by (auto simp: active_keys_def image_iff)
  then show ?thesis
    by (simp only: image_map_filter reconcile_row_fields reconcile_row_active)
qed

lemma paused_keys_reconciled:
  "paused_keys plan (map (reconcile_row perm) rows)
     = row_key ` {r \<in> set rows. type_allowed plan r \<and> \<not> perm r \<and>
         (cfg_active r \<or> cfg_paused_reason r = Some PAUSED_REASON_ENTITLEMENT)}"
proof -
  have "paused_keys plan xs = row_key ` {r \<in> set xs. type_allowed plan r \<and>
      (\<not> cfg_active r \<and> cfg_paused_reason r = Some PAUSED_REASON_ENTITLEMENT)}" for xs
    by (auto simp: paused_keys_def image_iff)
  then show ?thesis
    by (simp only: image_map_filter reconcile_row_fields reconcile_row_paused)
qed

lemma permitted_reconciled:
  assumes q: "q = normalize_plan p" and rows': "rows' = map (reconcile_row (permitted rows q)) rows"
  shows "permitted rows' q r \<longleftrightarrow> permitted rows q r"
proof (cases "allowed_county_set rows q")
  case None
  then have "allowed_county_set rows' q = None" by (simp add: allowed_county_set_None)
  with None show ?thesis by (simp add: permitted_def)
next
  case (Some C)
  then have "allowed_county_set rows' q \<noteq> None" by (metis allowed_county_set_None option.distinct(1))
  then obtain D where D: "allowed_county_set rows' q = Some D" by auto
  note sC = permitted_slots [OF q Some] and sD = permitted_slots [OF q D]
  have perm: "permitted rows q r \<longleftrightarrow> type_allowed q r \<and> row_key r \<in> C" for r
    by (simp add: permitted_def Some)
  have "active_keys q rows' = (active_keys q rows \<union> paused_keys q rows) \<inter> C"
    unfolding rows' active_keys_reconciled keys_union perm by auto
  then have "active_keys q rows' = C" using sC by (auto simp: county_slots_def)
  moreover have "paused_keys q rows' \<subseteq> active_keys q rows \<union> paused_keys q rows"
    unfolding rows' paused_keys_reconciled keys_union by auto
  ultimately have "D = C" using county_slots_stable [OF sC] sD by simp
  with Some D show ?thesis by (simp add: permitted_def)
qed

lemma permitted_reconcile_row [simp]: "permitted rows q (reconcile_row perm r) = permitted rows q r"
  by (simp add: permitted_def split: option.split)

lemma reconciled_active_permitted:
  assumes "distinct (map cfg_id rows)" "r \<in> set (fst (apply_reconciliation True rows p))" "cfg_active r"
  shows "permitted (fst (apply_reconciliation True rows p)) (normalize_plan (Some p)) r"
proof -
  let ?q = "normalize_plan (Some p)"
  note e = apply_reconciliation_rows [OF assms(1), of p]
  from assms(2) e obtain r0 where r0: "r = reconcile_row (permitted rows ?q) r0" by auto
  with assms(3) have "permitted rows ?q r0" by (simp add: reconcile_row_active)
  then have "permitted rows ?q r" unfolding r0 by simp
  then show ?thesis using permitted_reconciled [OF refl e] by simp
qed

lemma reconcile_row_other:
  "\<not> cfg_active r \<Longrightarrow> cfg_paused_reason r \<noteq> Some PAUSED_REASON_ENTITLEMENT \<Longrightarrow> reconcile_row perm r = r"
  by (simp add: reconcile_row_def)

lemma permitted_runs:
  assumes "permitted rows (normalize_plan (Some p)) r"
  shows "config_run_violation p (cfg_state r) (cfg_county r) (Some (cfg_record_type r)) rows = None"
  using assms by (auto simp: config_run_violation_def permitted_def type_allowed_def Let_def
      str_or_empty row_key_def split: option.splits if_splits)

subsection \<open>Properties\<close>

text \<open>
  The counties a finite plan covers are a deterministic choice that respects the cap: at most
  \<open>cap\<close> of them, each wanted by an allowed-type config, every active county is kept unless the active
  ones alone fill the cap (then none of the paused ones displaces one), and no slot is left free while
  a config wants one.
\<close>

theorem allowed_counties_contract:
  assumes "allowed_county_set rows p = Some C"
  shows "county_slots (active_keys (normalize_plan (Some p)) rows) (paused_keys (normalize_plan (Some p)) rows)
           (nat (plan_cap (normalize_plan (Some p)))) C"
  by (rule allowed_county_set_slots [OF assms])

definition sample_config :: "string \<Rightarrow> string \<Rightarrow> int \<Rightarrow> bool \<Rightarrow> string option \<Rightarrow> config_row" where
  "sample_config i county day act reason =
     \<lparr> cfg_id = i, cfg_state = ''wa'', cfg_county = county, cfg_record_type = ''Probate'',
       cfg_created_at = DateTime 2026 1 day 0, cfg_active = act, cfg_paused_reason = reason \<rparr>"

definition sample_configs :: "config_row list" where
  "sample_configs =
     [sample_config ''a'' ''King'' 5 True None, sample_config ''b'' ''Pierce'' 2 True None,
      sample_config ''c'' ''king '' 1 False (Some ''entitlement''), sample_config ''d'' ''Clark'' 3 False None]"

lemma sample_county_set: "allowed_county_set sample_configs ''starter'' = Some {(''WA'', ''pierce'')}"
proof -
  have "allowed_county_list sample_configs ''starter'' = Some [(''WA'', ''pierce'')]" by code_simp
  then show ?thesis by (simp add: allowed_county_set_def)
qed

theorem allowed_counties_contract_witness:
  "county_slots (active_keys (normalize_plan (Some ''starter'')) sample_configs)
     (paused_keys (normalize_plan (Some ''starter'')) sample_configs)
     (nat (plan_cap (normalize_plan (Some ''starter'')))) {(''WA'', ''pierce'')}"
  by (rule allowed_counties_contract [OF sample_county_set])

text \<open>
  Reconciling a plan change reaches a fixed point in one pass: after the pauses and revivals are
  written, a second reconciliation under the same plan has nothing to pause and nothing to revive.
\<close>

theorem reconciliation_idempotent:
  assumes "distinct (map cfg_id rows)"
  shows "plan_reconciliation (fst (apply_reconciliation True rows p)) p = ({}, {})"
proof -
  let ?q = "normalize_plan (Some p)"
  let ?rows' = "fst (apply_reconciliation True rows p)"
  note e = apply_reconciliation_rows [OF assms, of p]
  have perm: "permitted ?rows' ?q (reconcile_row (permitted rows ?q) r) = permitted rows ?q r" for r
    using permitted_reconciled [OF refl e, of "reconcile_row (permitted rows ?q) r"] by simp
  have "\<not> (cfg_active r \<and> \<not> permitted ?rows' ?q r)"
    "\<not> (\<not> cfg_active r \<and> cfg_paused_reason r = Some PAUSED_REASON_ENTITLEMENT \<and> permitted ?rows' ?q r)"
    if "r \<in> set ?rows'" for r
  proof -
    from that e obtain x where x: "r = reconcile_row (permitted rows ?q) x" by auto
    show "\<not> (cfg_active r \<and> \<not> permitted ?rows' ?q r)"
      unfolding x perm by (simp add: reconcile_row_active)
    show "\<not> (\<not> cfg_active r \<and> cfg_paused_reason r = Some PAUSED_REASON_ENTITLEMENT
        \<and> permitted ?rows' ?q r)"
      unfolding x perm using reconcile_row_paused [of "permitted rows ?q" x] by blast
  qed
  then have "filter (\<lambda>r. cfg_active r \<and> \<not> permitted ?rows' ?q r) ?rows' = []"
    "filter (\<lambda>r. \<not> (cfg_active r \<and> \<not> permitted ?rows' ?q r) \<and> \<not> cfg_active r \<and>
        cfg_paused_reason r = Some PAUSED_REASON_ENTITLEMENT \<and> permitted ?rows' ?q r) ?rows' = []"
    by (auto intro!: filter_False)
  then show ?thesis by (simp only: plan_reconciliation_def Let_def list.map list.set)
qed

lemma sample_ids: "distinct (map cfg_id sample_configs)"
  by code_simp

theorem reconciliation_idempotent_witness:
  "plan_reconciliation (fst (apply_reconciliation True sample_configs ''starter'')) ''starter'' = ({}, {}) \<and>
   ''a'' \<in> fst (plan_reconciliation sample_configs ''starter'')"
proof -
  have "''a'' \<in> fst (plan_reconciliation sample_configs ''starter'')" by code_simp
  then show ?thesis using reconciliation_idempotent [OF sample_ids] by simp
qed

text \<open>
  After reconciliation every active config may run: the check before a run finds no violation for
  it, so a plan change never leaves a config active that the scheduler then refuses.
\<close>

theorem reconciled_configs_run:
  assumes "distinct (map cfg_id rows)"
    and "r \<in> set (fst (apply_reconciliation True rows p))" "cfg_active r"
  shows "config_run_violation p (cfg_state r) (cfg_county r) (Some (cfg_record_type r))
           (fst (apply_reconciliation True rows p)) = None"
  by (rule permitted_runs [OF reconciled_active_permitted [OF assms]])

theorem reconciled_configs_run_witness:
  "config_run_violation ''starter'' ''wa'' ''Pierce'' (Some ''Probate'')
     (fst (apply_reconciliation True sample_configs ''starter'')) = None"
proof -
  let ?r = "sample_config ''b'' ''Pierce'' 2 True None"
  have "List.member (fst (apply_reconciliation True sample_configs ''starter'')) ?r" by code_simp
  then have m: "?r \<in> set (fst (apply_reconciliation True sample_configs ''starter''))"
    by (simp add: List.member_iff)
  have "cfg_active ?r" by (simp add: sample_config_def)
  from reconciled_configs_run [OF sample_ids m this] show ?thesis by (simp add: sample_config_def)
qed

text \<open>
  Reconciliation never touches a config its owner paused: such a row is unchanged in place, and
  in audit mode no row changes at all.
\<close>

theorem user_pause_untouched:
  assumes "distinct (map cfg_id rows)" "i < length rows"
    and "\<not> cfg_active (rows ! i)" "cfg_paused_reason (rows ! i) \<noteq> Some PAUSED_REASON_ENTITLEMENT"
  shows "fst (apply_reconciliation True rows p) ! i = rows ! i \<and>
         apply_reconciliation False rows p = (rows, (0, 0))"
  using assms(2-4) by (simp add: apply_reconciliation_rows [OF assms(1)] reconcile_row_other)
    (simp add: apply_reconciliation_def split: prod.split)

theorem user_pause_untouched_witness:
  "fst (apply_reconciliation True sample_configs ''agency'') ! 3 = sample_configs ! 3"
proof -
  have "3 < length sample_configs" "\<not> cfg_active (sample_configs ! 3)"
    "cfg_paused_reason (sample_configs ! 3) \<noteq> Some PAUSED_REASON_ENTITLEMENT" by code_simp+
  then show ?thesis using user_pause_untouched [OF sample_ids] by blast
qed

end
