(* ===== verification/SseLeases.thy ===== *)
theory SseLeases
  imports Prelude "HOL-Library.Finite_Map"
begin

text \<open>
  The per-user cap on live event streams, \<^verbatim>\<open>src/api/sse_leases.py\<close>: leases in a Redis sorted set,
  admitted and renewed by two Lua scripts. Redis is not part of the program: its commands are the
  operations of the record \<open>zset_ops\<close>, a parameter of every definition, and the locale \<open>redis_zset\<close>
  states their documented behaviour on the map from members to scores and on the deadline set by
  EXPIRE. The scripts run at the server clock \<open>clk\<close>, while \<open>now\<close> was read by the caller one round trip
  earlier. Times are microseconds.

  The step relation interleaves any number of streams; its invariant is that the streams which hold
  an unexpired lease never exceed the cap, although the clock readings are stale and the key itself
  expires.
\<close>

definition LEASE_HEARTBEAT_SECONDS :: int where
  "LEASE_HEARTBEAT_SECONDS = 20"

definition LEASE_TTL_SECONDS :: int where
  "LEASE_TTL_SECONDS = 60"

definition SSE_MAX_STREAMS_PER_USER :: int where
  "SSE_MAX_STREAMS_PER_USER = 5"

definition usec :: "int \<Rightarrow> int" where
  "usec seconds = seconds * 1000000"

text \<open>The Redis commands the scripts use, on the one key of a user.\<close>

record 'z zset_ops =
  z_live :: "int \<Rightarrow> 'z \<Rightarrow> 'z"
  z_remrange :: "int \<Rightarrow> 'z \<Rightarrow> 'z"
  z_card :: "'z \<Rightarrow> int"
  z_first :: "'z \<Rightarrow> int option"
  z_add :: "int \<Rightarrow> string \<Rightarrow> 'z \<Rightarrow> 'z"
  z_add_xx :: "int \<Rightarrow> string \<Rightarrow> 'z \<Rightarrow> 'z"
  z_expire :: "int \<Rightarrow> int \<Rightarrow> 'z \<Rightarrow> 'z"
  z_score :: "'z \<Rightarrow> string \<Rightarrow> int option"
  z_rem :: "string \<Rightarrow> 'z \<Rightarrow> 'z"
  z_count :: "int \<Rightarrow> 'z \<Rightarrow> int"

definition admit_lua ::
    "'z zset_ops \<Rightarrow> int \<Rightarrow> int \<Rightarrow> int \<Rightarrow> int \<Rightarrow> string \<Rightarrow> int \<Rightarrow> 'z \<Rightarrow> (bool \<times> int \<times> int) \<times> 'z" where
  "admit_lua ops clk now expiry cap lease ttl z0 =
     (let z = z_remrange ops now (z_live ops clk z0);
          active = z_card ops z
      in if active \<ge> cap then ((False, active, opt_or (z_first ops z) 0), z)
         else ((True, active + 1, 0), z_expire ops clk ttl (z_add ops expiry lease z)))"

definition renew_lua :: "'z zset_ops \<Rightarrow> int \<Rightarrow> int \<Rightarrow> int \<Rightarrow> string \<Rightarrow> int \<Rightarrow> 'z \<Rightarrow> bool \<times> 'z" where
  "renew_lua ops clk now expiry lease ttl z0 =
     (let z = z_live ops clk z0
      in case z_score ops z lease of
           None \<Rightarrow> (False, z)
         | Some score \<Rightarrow>
             if score > now then (True, z_expire ops clk ttl (z_add_xx ops expiry lease z))
             else (False, z_rem ops lease z))"

record admission =
  lease_id :: "string option"
  active :: int
  retry_after_seconds :: int

definition admitted :: "admission \<Rightarrow> bool" where
  "admitted a \<longleftrightarrow> lease_id a \<noteq> None"

text \<open>\<^verbatim>\<open>math.ceil\<close> of a number of microseconds in seconds.\<close>

definition ceil_seconds :: "int \<Rightarrow> int" where
  "ceil_seconds d = - ((- d) div 1000000)"

definition acquire :: "'z zset_ops \<Rightarrow> int \<Rightarrow> int \<Rightarrow> int \<Rightarrow> string \<Rightarrow> 'z \<Rightarrow> admission \<times> 'z" where
  "acquire ops cap clk now lease z =
     (let ((ok, act, earliest), z') =
            admit_lua ops clk now (now + usec LEASE_TTL_SECONDS) cap lease (usec (LEASE_TTL_SECONDS * 2)) z
      in if ok then (\<lparr> lease_id = Some lease, active = act, retry_after_seconds = 0 \<rparr>, z')
         else (\<lparr> lease_id = None, active = act,
                 retry_after_seconds = (if earliest \<noteq> 0 then max 1 (ceil_seconds (earliest - now))
                                        else LEASE_TTL_SECONDS) \<rparr>, z'))"

definition renew :: "'z zset_ops \<Rightarrow> int \<Rightarrow> int \<Rightarrow> string \<Rightarrow> 'z \<Rightarrow> bool \<times> 'z" where
  "renew ops clk now lease z =
     renew_lua ops clk now (now + usec LEASE_TTL_SECONDS) lease (usec (LEASE_TTL_SECONDS * 2)) z"

text \<open>\<open>reached\<close>: the ZREM was executed; a failed or timed out call is only logged.\<close>

definition release :: "'z zset_ops \<Rightarrow> bool \<Rightarrow> int \<Rightarrow> string \<Rightarrow> 'z \<Rightarrow> 'z" where
  "release ops reached clk lease z = (if reached then z_rem ops lease (z_live ops clk z) else z)"

definition active_count :: "'z zset_ops \<Rightarrow> int \<Rightarrow> int \<Rightarrow> 'z \<Rightarrow> int" where
  "active_count ops clk now z = z_count ops now (z_live ops clk z)"

subsection \<open>Streams over one key\<close>

text \<open>
  \<open>held\<close> is what the streams believe: the expiry of the last lease each was granted or renewed.
\<close>

record 'z lease_state =
  clk :: int
  zkey :: 'z
  held :: "string \<rightharpoonup> int"

inductive lease_step :: "'z zset_ops \<Rightarrow> int \<Rightarrow> 'z lease_state \<Rightarrow> 'z lease_state \<Rightarrow> bool"
  for ops cap where
  tick: "clk s \<le> t \<Longrightarrow> lease_step ops cap s (s\<lparr> clk := t \<rparr>)"
| acquired: "now \<le> clk s \<Longrightarrow> acquire ops cap (clk s) now l (zkey s) = (a, z') \<Longrightarrow>
    lease_step ops cap s (s\<lparr> zkey := z',
      held := (if admitted a then (held s)(l \<mapsto> now + usec LEASE_TTL_SECONDS) else held s) \<rparr>)"
| renewed: "now \<le> clk s \<Longrightarrow> renew ops (clk s) now l (zkey s) = (ok, z') \<Longrightarrow>
    lease_step ops cap s (s\<lparr> zkey := z',
      held := (if ok then (held s)(l \<mapsto> now + usec LEASE_TTL_SECONDS) else held s) \<rparr>)"
| released: "lease_step ops cap s (s\<lparr> zkey := release ops reached (clk s) l (zkey s),
      held := (held s)(l := None) \<rparr>)"

inductive lease_reach :: "'z zset_ops \<Rightarrow> int \<Rightarrow> 'z lease_state \<Rightarrow> 'z lease_state \<Rightarrow> bool"
  for ops cap where
  refl: "lease_reach ops cap s s"
| step: "lease_reach ops cap s t \<Longrightarrow> lease_step ops cap t u \<Longrightarrow> lease_reach ops cap s u"

definition live_streams :: "'z lease_state \<Rightarrow> string set" where
  "live_streams s = {l. \<exists>e. held s l = Some e \<and> clk s < e}"

subsection \<open>The documented behaviour of the commands\<close>

locale redis_zset =
  fixes ops :: "'z zset_ops" and entries :: "'z \<Rightarrow> string \<rightharpoonup> int" and deadline :: "'z \<Rightarrow> int option"
  assumes finite_entries: "finite (dom (entries z))"
    and live: "entries (z_live ops t z)
      = (case deadline z of None \<Rightarrow> entries z | Some d \<Rightarrow> if d \<le> t then Map.empty else entries z)"
    and live_deadline: "deadline (z_live ops t z) = deadline z \<or> deadline (z_live ops t z) = None"
    and remrange: "entries (z_remrange ops t z)
      = (\<lambda>k. case entries z k of None \<Rightarrow> None | Some s \<Rightarrow> if s \<le> t then None else Some s)"
    and remrange_deadline: "deadline (z_remrange ops t z) \<in> {deadline z, None}"
    and card: "z_card ops z = int (card (dom (entries z)))"
    and first: "z_first ops z = (if dom (entries z) = {} then None else Some (Min (ran (entries z))))"
    and add: "entries (z_add ops s k z) = (entries z)(k \<mapsto> s)"
    and add_xx: "entries (z_add_xx ops s k z) = (if k \<in> dom (entries z) then (entries z)(k \<mapsto> s) else entries z)"
    and expire: "entries (z_expire ops t ttl z) = entries z" "deadline (z_expire ops t ttl z) = Some (t + ttl)"
    and score: "z_score ops z k = entries z k"
    and rem: "entries (z_rem ops k z) = (entries z)(k := None)"
    and rem_deadline: "deadline (z_rem ops k z) \<in> {deadline z, None}"
    and count: "z_count ops t z = int (card {k. \<exists>s. entries z k = Some s \<and> t \<le> s})"
begin

definition safe :: "int \<Rightarrow> 'z lease_state \<Rightarrow> bool" where
  "safe cap s \<longleftrightarrow>
     (\<forall>l e. held s l = Some e \<and> clk s < e \<longrightarrow> entries (zkey s) l = Some e) \<and>
     int (card (dom (entries (zkey s)))) \<le> cap \<and>
     (\<forall>l e d. entries (zkey s) l = Some e \<and> deadline (zkey s) = Some d \<longrightarrow> e \<le> d) \<and>
     (\<forall>l e. entries (zkey s) l = Some e \<longrightarrow> e \<le> clk s + usec LEASE_TTL_SECONDS)"

lemma usec_ttl: "usec LEASE_TTL_SECONDS = 60000000" "usec (LEASE_TTL_SECONDS * 2) = 120000000"
  by (simp_all add: usec_def LEASE_TTL_SECONDS_def)

lemma card_dom_le: "(\<And>k. m k \<noteq> None \<Longrightarrow> entries z k \<noteq> None) \<Longrightarrow> card (dom m) \<le> card (dom (entries z))"
  by (rule card_mono [OF finite_entries]) (auto simp: dom_def)

text \<open>The key as a command sees it: unexpired scores are all there, nothing else is new.\<close>

lemma live_keeps:
  assumes "safe cap s" "entries (zkey s) l = Some e" "clk s < e"
  shows "entries (z_live ops (clk s) (zkey s)) l = Some e"
proof -
  have "e \<le> d" if "deadline (zkey s) = Some d" for d using assms(1,2) that by (auto simp: safe_def)
  then show ?thesis using assms(2,3) by (auto simp: live split: option.split)
qed

lemma live_sub: "entries (z_live ops t z) l = Some e \<Longrightarrow> entries z l = Some e"
  by (auto simp: live split: option.splits if_splits)

lemma live_safe:
  assumes "safe cap s"
  shows "safe cap (s\<lparr>zkey := z_live ops (clk s) (zkey s)\<rparr>)"
proof -
  have "card (dom (entries (z_live ops (clk s) (zkey s)))) \<le> card (dom (entries (zkey s)))"
    by (rule card_dom_le) (metis live_sub not_None_eq)
  then have c: "int (card (dom (entries (z_live ops (clk s) (zkey s))))) \<le> cap"
    using assms by (simp add: safe_def)
  have k: "entries (z_live ops (clk s) (zkey s)) l = Some e" if "held s l = Some e" "clk s < e" for l e
    using live_keeps [OF assms _ that(2)] assms that by (simp add: safe_def)
  have d: "e \<le> d" if "entries (z_live ops (clk s) (zkey s)) l = Some e"
    "deadline (z_live ops (clk s) (zkey s)) = Some d" for l e d
    using live_sub [OF that(1)] live_deadline [of "clk s" "zkey s"] that(2) assms
    by (simp add: safe_def)
  have b: "e \<le> clk s + usec LEASE_TTL_SECONDS" if "entries (z_live ops (clk s) (zkey s)) l = Some e" for l e
    using live_sub [OF that] assms by (simp add: safe_def)
  show ?thesis unfolding safe_def using c k b by (intro conjI) (auto intro: d)
qed

lemma remrange_safe:
  assumes "safe cap s" "now \<le> clk s"
  shows "safe cap (s\<lparr>zkey := z_remrange ops now (zkey s)\<rparr>)"
proof -
  have sub: "entries (z_remrange ops now z) l = Some e \<longleftrightarrow> entries z l = Some e \<and> now < e" for z l e
    by (auto simp: remrange split: option.split)
  have "card (dom (entries (z_remrange ops now (zkey s)))) \<le> card (dom (entries (zkey s)))"
    by (rule card_dom_le) (metis sub not_None_eq)
  then show ?thesis using assms remrange_deadline [of now "zkey s"]
    by (auto simp: safe_def sub)
qed

lemma rem_safe:
  assumes "safe cap s" "\<And>e. held s l = Some e \<Longrightarrow> e \<le> clk s"
  shows "safe cap (s\<lparr>zkey := z_rem ops l (zkey s)\<rparr>)"
proof -
  have "card (dom (entries (z_rem ops l (zkey s)))) \<le> card (dom (entries (zkey s)))"
    by (rule card_dom_le) (auto simp: rem split: if_splits)
  then show ?thesis using assms rem_deadline [of l "zkey s"] by (fastforce simp: safe_def rem)
qed

lemma write_safe:
  assumes "safe cap s" "now \<le> clk s" "entries z' = (entries (zkey s))(l \<mapsto> now + usec LEASE_TTL_SECONDS)"
    "deadline z' = Some (clk s + usec (LEASE_TTL_SECONDS * 2))" "int (card (dom (entries z'))) \<le> cap"
  shows "safe cap (s\<lparr>zkey := z', held := (held s)(l \<mapsto> now + usec LEASE_TTL_SECONDS)\<rparr>)"
proof -
  have "e \<le> clk s + 60000000" if "entries (zkey s) k = Some e" for k e
    using assms(1) that by (auto simp: safe_def usec_ttl)
  then have "e \<le> clk s + 120000000" if "entries (zkey s) k = Some e" for k e using that by fastforce
  then show ?thesis using assms by (auto simp: safe_def usec_ttl)
qed

lemma admit_safe:
  assumes "safe cap s" "now \<le> clk s" "acquire ops cap (clk s) now l (zkey s) = (a, z')"
  shows "safe cap (s\<lparr>zkey := z',
    held := (if admitted a then (held s)(l \<mapsto> now + usec LEASE_TTL_SECONDS) else held s)\<rparr>)"
proof -
  let ?z = "z_remrange ops now (z_live ops (clk s) (zkey s))"
  have sz: "safe cap (s\<lparr>zkey := ?z\<rparr>)"
    using remrange_safe [OF live_safe [OF assms(1)]] assms(2) by simp
  show ?thesis
  proof (cases "z_card ops ?z \<ge> cap")
    case True
    then have "z' = ?z" "\<not> admitted a"
      using assms(3) by (auto simp: acquire_def admit_lua_def admitted_def Let_def)
    with sz show ?thesis by simp
  next
    case False
    let ?w = "z_add ops (now + usec LEASE_TTL_SECONDS) l ?z"
    have z': "z' = z_expire ops (clk s) (usec (LEASE_TTL_SECONDS * 2)) ?w" "admitted a"
      using assms(3) False by (auto simp: acquire_def admit_lua_def admitted_def Let_def)
    have "card (insert l (dom (entries ?z))) \<le> Suc (card (dom (entries ?z)))"
      by (rule card_insert_le_m1) simp_all
    then have c: "int (card (dom (entries z'))) \<le> cap"
      using False by (simp add: z' expire add card)
    show ?thesis
      using write_safe [OF sz, of now z' l] assms(2) c by (simp add: z' expire add)
  qed
qed

lemma renew_safe:
  assumes "safe cap s" "now \<le> clk s" "renew ops (clk s) now l (zkey s) = (ok, z')"
  shows "safe cap (s\<lparr>zkey := z',
    held := (if ok then (held s)(l \<mapsto> now + usec LEASE_TTL_SECONDS) else held s)\<rparr>)"
proof -
  let ?z = "z_live ops (clk s) (zkey s)"
  have sz: "safe cap (s\<lparr>zkey := ?z\<rparr>)" by (rule live_safe [OF assms(1)])
  show ?thesis
  proof (cases "entries ?z l")
    case None
    then have "z' = ?z" "\<not> ok" using assms(3) by (auto simp: renew_def renew_lua_def score Let_def)
    with sz show ?thesis by simp
  next
    case (Some e)
    show ?thesis
    proof (cases "now < e")
      case True
      let ?w = "z_add_xx ops (now + usec LEASE_TTL_SECONDS) l ?z"
      have z': "z' = z_expire ops (clk s) (usec (LEASE_TTL_SECONDS * 2)) ?w" "ok"
        using assms(3) Some True by (auto simp: renew_def renew_lua_def score Let_def)
      have w: "entries ?w = (entries ?z)(l \<mapsto> now + usec LEASE_TTL_SECONDS)"
        using Some by (auto simp: add_xx)
      have "dom (entries ?w) = dom (entries ?z)" using Some by (auto simp: w)
      then have c: "int (card (dom (entries z'))) \<le> cap"
        using sz by (simp add: z' expire safe_def)
      show ?thesis using write_safe [OF sz, of now z' l] assms(2) c by (simp add: z' expire w)
    next
      case False
      then have z': "z' = z_rem ops l ?z" "\<not> ok"
        using assms(3) Some by (auto simp: renew_def renew_lua_def score Let_def)
      have "h \<le> clk s" if "held s l = Some h" for h
        using that sz Some False assms(2) by (force simp: safe_def)
      then show ?thesis using rem_safe [OF sz, of l] by (simp add: z')
    qed
  qed
qed

lemma release_safe:
  assumes "safe cap s"
  shows "safe cap (s\<lparr>zkey := release ops reached (clk s) l (zkey s), held := (held s)(l := None)\<rparr>)"
proof -
  have h: "safe cap (s\<lparr>held := (held s)(l := None)\<rparr>)" using assms by (auto simp: safe_def)
  have e: "s\<lparr>held := x, zkey := y\<rparr> = s\<lparr>zkey := y, held := x\<rparr>" for x y by (cases s) simp
  show ?thesis using rem_safe [OF live_safe [OF h], of l] h
    by (cases reached) (simp_all add: release_def e)
qed

lemma step_safe: "lease_step ops cap s t \<Longrightarrow> safe cap s \<Longrightarrow> safe cap t"
proof (induction rule: lease_step.induct)
  case (tick s t)
  then show ?case unfolding safe_def by (auto, fastforce+)
next
  case (acquired now s l a z')
  then show ?case using admit_safe by blast
next
  case (renewed now s l ok z')
  then show ?case using renew_safe by blast
next
  case (released s reached l)
  then show ?case by (rule release_safe)
qed

lemma reach_safe: "lease_reach ops cap s t \<Longrightarrow> safe cap s \<Longrightarrow> safe cap t"
  by (induction rule: lease_reach.induct) (auto intro: step_safe)

lemma safe_live_streams: "safe cap s \<Longrightarrow> int (card (live_streams s)) \<le> cap"
proof -
  assume s: "safe cap s"
  then have "live_streams s \<subseteq> dom (entries (zkey s))" by (auto simp: live_streams_def safe_def)
  then have "card (live_streams s) \<le> card (dom (entries (zkey s)))" by (rule card_mono [OF finite_entries])
  with s show ?thesis by (simp add: safe_def)
qed

lemma renew_expired:
  assumes "entries z l = Some e" "e \<le> now"
  shows "\<not> fst (renew ops t now l z) \<and> entries (snd (renew ops t now l z)) l = None"
  using assms live_sub [of t z l]
  by (auto simp: renew_def renew_lua_def score rem Let_def split: option.split)

end

subsection \<open>A key as a finite map\<close>

text \<open>The commands on a finite map of scores and the deadline of the key satisfy the locale.\<close>

type_synonym fm_key = "(string, int) fmap \<times> int option"

definition fm_ops :: "fm_key zset_ops" where
  "fm_ops =
     \<lparr> z_live = (\<lambda>t z. case snd z of None \<Rightarrow> z | Some d \<Rightarrow> if d \<le> t then (fmempty, None) else z),
       z_remrange = (\<lambda>t z. (fmfilter (\<lambda>k. case fmlookup (fst z) k of None \<Rightarrow> False | Some s \<Rightarrow> t < s) (fst z), snd z)),
       z_card = (\<lambda>z. int (fcard (fmdom (fst z)))),
       z_first = (\<lambda>z. if fmdom (fst z) = {||} then None else Some (Min (fset (fmran (fst z))))),
       z_add = (\<lambda>s k z. (fmupd k s (fst z), snd z)),
       z_add_xx = (\<lambda>s k z. if fmlookup (fst z) k = None then z else (fmupd k s (fst z), snd z)),
       z_expire = (\<lambda>t ttl z. (fst z, Some (t + ttl))),
       z_score = (\<lambda>z k. fmlookup (fst z) k),
       z_rem = (\<lambda>k z. (fmdrop k (fst z), snd z)),
       z_count = (\<lambda>t z. int (fcard (fmdom (fmfilter
          (\<lambda>k. case fmlookup (fst z) k of None \<Rightarrow> False | Some s \<Rightarrow> t \<le> s) (fst z))))) \<rparr>"

interpretation fm: redis_zset fm_ops "\<lambda>z. fmlookup (fst z)" snd
proof unfold_locales
  fix t and z :: fm_key
  have "{k. case fmlookup (fst z) k of None \<Rightarrow> False | Some s \<Rightarrow> t \<le> s} \<inter> fset (fmdom (fst z))
      = {k. \<exists>s. fmlookup (fst z) k = Some s \<and> t \<le> s}"
    by (auto simp: fmlookup_dom_iff split: option.splits)
  then show "z_count fm_ops t z = int (card {k. \<exists>s. fmlookup (fst z) k = Some s \<and> t \<le> s})"
    by (simp add: fm_ops_def fcard.rep_eq)
qed (auto simp: fm_ops_def fun_eq_iff fcard.rep_eq fmdom'_alt_def fmlookup_dom_iff fmran.rep_eq split: option.splits)

subsection \<open>Properties\<close>

definition empty_key :: "'z lease_state \<Rightarrow> ('z \<Rightarrow> string \<rightharpoonup> int) \<Rightarrow> bool" where
  "empty_key s entries \<longleftrightarrow> entries (zkey s) = Map.empty \<and> held s = Map.empty"

text \<open>
  C37: However streams start, renew, end, fail to release, and read the clock late, the streams of a
  user that hold an unexpired lease never exceed the cap: for every store with the documented sorted-set
  behaviour, in every state reachable from an empty key.
\<close>

theorem live_streams_capped:
  assumes "redis_zset ops entries deadline" "0 \<le> cap" "empty_key s entries" "lease_reach ops cap s t"
  shows "int (card (live_streams t)) \<le> cap"
proof -
  have "redis_zset.safe entries deadline cap s"
    using assms(2,3) by (simp add: redis_zset.safe_def [OF assms(1)] empty_key_def)
  then show ?thesis
    using redis_zset.reach_safe [OF assms(1,4)] redis_zset.safe_live_streams [OF assms(1)] by blast
qed

definition start_state :: "fm_key lease_state" where
  "start_state = \<lparr> clk = 0, zkey = (fmempty, None), held = Map.empty \<rparr>"

lemma one_stream:
  "lease_step fm_ops 5 start_state
     \<lparr> clk = 0, zkey = (fmupd ''s1'' 60000000 fmempty, Some 120000000),
       held = Map.empty(''s1'' \<mapsto> 60000000) \<rparr>"
  using lease_step.acquired [of 0 start_state fm_ops 5 "''s1''"
      "\<lparr> lease_id = Some ''s1'', active = 1, retry_after_seconds = 0 \<rparr>"
      "(fmupd ''s1'' 60000000 fmempty, Some 120000000)"]
  by (simp add: start_state_def acquire_def admit_lua_def fm_ops_def usec_def LEASE_TTL_SECONDS_def
      admitted_def Let_def fcard.rep_eq)

theorem live_streams_capped_witness:
  "\<exists>t. lease_reach fm_ops 5 start_state t \<and> ''s1'' \<in> live_streams t \<and> int (card (live_streams t)) \<le> 5"
proof -
  let ?t = "\<lparr> clk = 0, zkey = (fmupd ''s1'' 60000000 fmempty, Some 120000000),
    held = Map.empty(''s1'' \<mapsto> 60000000) \<rparr> :: fm_key lease_state"
  have r: "lease_reach fm_ops 5 start_state ?t"
    using lease_reach.step [OF lease_reach.refl one_stream] .
  have "empty_key start_state (\<lambda>z. fmlookup (fst z))"
    by (simp add: empty_key_def start_state_def fun_eq_iff)
  from live_streams_capped [OF fm.redis_zset_axioms _ this r] r
  show ?thesis by (intro exI [of _ ?t]) (simp add: live_streams_def)
qed

text \<open>
  An expired lease is never revived: renewing it fails, whether or not an admission has purged it
  yet, and takes it out of the set.
\<close>

theorem expired_lease_not_renewed:
  assumes "redis_zset ops entries deadline" "entries z l = Some e" "e \<le> now"
  shows "\<not> fst (renew ops t now l z) \<and> entries (snd (renew ops t now l z)) l = None"
  by (rule redis_zset.renew_expired [OF assms])

theorem expired_lease_not_renewed_witness:
  "\<not> fst (renew fm_ops 70000000 70000000 ''s1'' (fmupd ''s1'' 60000000 fmempty, Some 120000000))"
  using expired_lease_not_renewed [OF fm.redis_zset_axioms, where
      z = "(fmupd ''s1'' 60000000 fmempty, Some 120000000)" and l = "''s1''" and e = 60000000
      and now = 70000000 and t = 70000000]
  by simp

end
