(* ===== verification/SkipTables.thy ===== *)
theory SkipTables
  imports Plans
begin

text \<open>
  The tables of the skip-trace subsystem (\<^verbatim>\<open>src/db/models.py\<close>), as far as the claim, the dispatcher's
  capacity rules and billing read or write them: the work queue, the provider batches, the meter
  outbox, and the columns of \<^verbatim>\<open>results\<close> and \<^verbatim>\<open>jobs\<close> that the claim joins. A table keyed by an id that
  other rows reference is a map; a table read by scans is a list of rows.
\<close>

datatype pending_status =
  P_queued | P_submitting | P_submitted | P_completed | P_unmatched | P_errored | P_cancelled | P_reused

record pending_row =
  p_id :: string
  p_job :: string
  p_result :: string
  p_user :: string
  p_fields :: "(string \<times> string option) list"
  p_trace_type :: string
  p_status :: pending_status
  p_queue :: "int option"
  p_enqueued_at :: datetime
  p_submitted_at :: "datetime option"
  p_action :: "string option"

datatype queue_status = Q_pending | Q_completed | Q_billed | Q_errored

record queue_row =
  q_trace_type :: string
  q_status :: queue_status
  q_rows_uploaded :: int
  q_rows_sent :: "int option"
  q_credits :: int
  q_download_url :: "string option"
  q_unmatched_billed :: "bool option"
  q_provider_submitted_at :: "datetime option"

datatype disposition =
  D_pending | D_reported | D_non_billable | D_needs_review | D_written_off_manual | D_settled_manual

record meter_row =
  m_queue :: int
  m_user :: string
  m_units :: int
  m_customer :: "string option"
  m_plan :: string
  m_usage_at :: "datetime option"
  m_created :: datetime
  m_reported_at :: "datetime option"
  m_disposition :: disposition
  m_disposition_at :: "datetime option"
  m_reason :: "string option"

text \<open>The contact columns of a result; \<open>ct_phones\<close> pairs a number with its type.\<close>

record contact =
  ct_phone :: "string option"
  ct_phone_type :: "string option"
  ct_dnc :: "bool option"
  ct_email :: "string option"
  ct_phones :: "(string \<times> string option) list"
  ct_emails :: "string list"

definition no_contact :: contact where
  "no_contact = \<lparr> ct_phone = None, ct_phone_type = None, ct_dnc = None, ct_email = None, ct_phones = [], ct_emails = [] \<rparr>"

record result_row =
  r_user :: string
  r_job :: string
  r_skip_trace_status :: string
  r_contact :: contact
  r_attempted_at :: "datetime option"
  r_source :: "string option"
  r_subject :: "string option"

record skip_db =
  users :: "string \<rightharpoonup> user_row"
  queues :: "int \<rightharpoonup> queue_row"
  pending :: "pending_row list"
  outbox :: "meter_row list"
  results :: "string \<rightharpoonup> result_row"
  job_owner :: "string \<rightharpoonup> string"
  actions :: "string \<rightharpoonup> string \<times> string"

subsection \<open>Prices in credits\<close>

text \<open>\<^verbatim>\<open>credits_for\<close> raises ValueError for an unknown type: None.\<close>

definition CREDITS_PER_ROW :: "(string \<times> int) list" where
  "CREDITS_PER_ROW = [(''normal'', 1), (''advanced'', 2)]"

definition credits_for :: "string \<Rightarrow> int option" where
  "credits_for trace_type = map_of CREDITS_PER_ROW trace_type"

lemma credits_for_bounds: "credits_for t = Some c \<Longrightarrow> 1 \<le> c \<and> c \<le> 2"
  by (auto simp: credits_for_def CREDITS_PER_ROW_def split: if_splits)

end
