(* ===== verification/SkipTraceUsage.thy ===== *)
theory SkipTraceUsage
  imports SkipTables
begin

text \<open>
  Usage billing of contact lookups, \<^verbatim>\<open>src/api/billing/skip_trace_usage.py\<close>: the per-window counter and
  its overage, the gate \<^verbatim>\<open>assert_billable\<close> that stands before every Stripe meter event, and the
  webhook step that counts a batch and writes the outbox. Stripe is a parameter (\<open>list_subs\<close>: the
  subscriptions of a customer, None when the call raises; \<open>create_event\<close>: the returned identifier,
  None when it raises). One SQL transaction is one function on the tables; nothing here commits.
\<close>

subsection \<open>Configuration\<close>

record billing_config =
  stripe_secret_key :: string
  stripe_product_skip_trace :: string
  stripe_meter_skip_trace :: string
  metered_prices :: "string list"
  meter_event_name :: string

definition stripe_enabled :: "billing_config \<Rightarrow> bool" where
  "stripe_enabled cfg \<longleftrightarrow>
     stripe_secret_key cfg \<noteq> [] \<and> stripe_product_skip_trace cfg \<noteq> [] \<and> stripe_meter_skip_trace cfg \<noteq> []"

text \<open>\<open>metered_prices\<close> holds the six \<^verbatim>\<open>STRIPE_PRICE_SKIP_TRACE_*\<close> settings, empty when unset.\<close>

definition configured_metered_price_ids :: "billing_config \<Rightarrow> string list" where
  "configured_metered_price_ids cfg =
     filter (\<lambda>p. p \<noteq> [] \<and> take 6 p = ''price_'') (metered_prices cfg)"

subsection \<open>The counter\<close>

record usage_result =
  us_plan :: string
  us_quota :: int
  used_before :: int
  used_after :: int
  billable_units :: int
  us_customer :: "string option"
  counted_window_start :: "datetime option"
  us_error :: "string option"

definition no_usage :: "string option \<Rightarrow> usage_result" where
  "no_usage err =
     \<lparr> us_plan = [], us_quota = 0, used_before = 0, used_after = 0, billable_units = 0,
       us_customer = None, counted_window_start = None, us_error = err \<rparr>"

definition bundled_quota :: "user_row \<Rightarrow> int" where
  "bundled_quota u = opt_or (map_of SKIP_TRACE_BUNDLED_QUOTAS (normalize_plan (Some (u_plan u)))) 0"

definition allowance_rolled :: "user_row \<Rightarrow> datetime \<Rightarrow> bool" where
  "allowance_rolled u now =
     (case skip_trace_period_start u of
        None \<Rightarrow> True
      | Some ps \<Rightarrow> ps < fst (effective_window u now))"

definition report_lookups_for_row :: "user_row \<Rightarrow> int \<Rightarrow> datetime \<Rightarrow> usage_result \<times> user_row" where
  "report_lookups_for_row u n now =
     (let window_start = fst (effective_window u now);
          quota = bundled_quota u;
          rolled = allowance_rolled u now;
          before = (if rolled then 0 else skip_trace_used_this_month u);
          after = before + n;
          u1 = (if rolled then u\<lparr> skip_trace_period_start := Some window_start \<rparr> else u);
          before_above = max 0 (before - quota);
          after_above = max 0 (after - quota)
      in (\<lparr> us_plan = normalize_plan (Some (u_plan u)), us_quota = quota, used_before = before,
            used_after = after, billable_units = after_above - before_above,
            us_customer = stripe_customer_id u, counted_window_start = Some window_start,
            us_error = None \<rparr>,
          u1\<lparr> skip_trace_used_this_month := after \<rparr>))"

definition report_lookups_for_user :: "skip_db \<Rightarrow> string \<Rightarrow> int \<Rightarrow> datetime \<Rightarrow> usage_result \<times> skip_db" where
  "report_lookups_for_user db uid n now =
     (if n \<le> 0 then (no_usage None, db)
      else case users db uid of
             None \<Rightarrow> (no_usage (Some ''user_not_found''), db)
           | Some u \<Rightarrow>
               let (r, u') = report_lookups_for_row u n now
               in (r, db\<lparr> users := (users db)(uid \<mapsto> u') \<rparr>))"

subsection \<open>Is this usage billable at all?\<close>

record sub_item =
  item_price :: "string option"
  item_created :: "int option"

record subscription =
  sub_status :: "string option"
  sub_items :: "sub_item list"
  period_start :: "int option"
  period_end :: "int option"
  start_date :: "int option"

datatype billing_error =
  NotBillable string | StripeError | StripeNotConfigured | MissingCustomer

definition BACKDATE_LIMIT_DAYS :: int where
  "BACKDATE_LIMIT_DAYS = 34"

definition USAGE_PROVENANCE_IS_TRUSTWORTHY :: bool where
  "USAGE_PROVENANCE_IS_TRUSTWORTHY = True"

text \<open>\<^verbatim>\<open>int(dt.timestamp())\<close>: seconds since 1970, truncated toward zero.\<close>

definition unix_seconds :: "datetime \<Rightarrow> int" where
  "unix_seconds d =
     (let us = instant d - instant (DateTime 1970 1 1 0)
      in if us \<ge> 0 then us div 1000000 else - ((- us) div 1000000))"

definition has_metered_item :: "string list \<Rightarrow> int \<Rightarrow> subscription \<Rightarrow> bool" where
  "has_metered_item metered ts sub =
     list_ex (\<lambda>i. (case item_price i of None \<Rightarrow> False | Some p \<Rightarrow> p \<in> set metered) \<and>
                  (case item_created i of None \<Rightarrow> True | Some c \<Rightarrow> c \<le> ts)) (sub_items sub)"

text \<open>The loop over the subscriptions: the covering one, or whether a closed period covered it.\<close>

fun scan_subs :: "string list \<Rightarrow> int \<Rightarrow> subscription list \<Rightarrow> bool \<Rightarrow> subscription + bool" where
  "scan_subs metered ts [] closed = Inr closed"
| "scan_subs metered ts (sub # subs) closed =
     (if sub_status sub \<noteq> Some ''active'' then scan_subs metered ts subs closed
      else if \<not> has_metered_item metered ts sub then scan_subs metered ts subs closed
      else case (period_start sub, period_end sub) of
             (Some start, Some fin) \<Rightarrow>
               if start \<le> ts \<and> ts < fin then Inl sub
               else scan_subs metered ts subs
                      (closed \<or> (case start_date sub of None \<Rightarrow> False | Some st \<Rightarrow> st \<le> ts \<and> ts < start))
           | _ \<Rightarrow> scan_subs metered ts subs closed)"

definition assert_billable ::
    "billing_config \<Rightarrow> (string \<Rightarrow> subscription list option) \<Rightarrow> string option \<Rightarrow> datetime option \<Rightarrow>
     datetime \<Rightarrow> billing_error + subscription" where
  "assert_billable cfg list_subs customer usage_at now =
     (if \<not> USAGE_PROVENANCE_IS_TRUSTWORTHY then Inl (NotBillable ''usage_at_unknown'')
      else case usage_at of
        None \<Rightarrow> Inl (NotBillable ''usage_at_unknown'')
      | Some at \<Rightarrow>
          if dt_diff at now > 5 * 60 * 1000000 then Inl (NotBillable ''usage_at_in_future'')
          else if dt_diff at now < - (BACKDATE_LIMIT_DAYS * usec_per_day)
            then Inl (NotBillable ''timestamp_expired'')
          else if str_or customer [] = [] then Inl (NotBillable ''no_customer_id'')
          else let metered = configured_metered_price_ids cfg
            in if metered = [] then Inl (NotBillable ''no_metered_price_configured'')
               else case list_subs (str_or customer []) of
                 None \<Rightarrow> Inl StripeError
               | Some subs \<Rightarrow>
                   (case scan_subs metered (unix_seconds at) subs False of
                      Inl sub \<Rightarrow> Inr sub
                    | Inr closed \<Rightarrow>
                        if closed then Inl (NotBillable ''closed_billing_period'')
                        else if subs = [] then Inl (NotBillable ''no_subscription_ever'')
                        else Inl (NotBillable ''coverage_unproven'')))"

subsection \<open>The meter event\<close>

record stripe_event =
  ev_name :: string
  ev_value :: string
  ev_customer :: string
  ev_identifier :: string
  ev_timestamp :: int

definition stable_identifier :: "int \<Rightarrow> string \<Rightarrow> string" where
  "stable_identifier queue_id user_id = ''skip_trace_q'' @ show_int queue_id @ ''_u'' @ user_id"

text \<open>
  Returns the event that was sent (None: nothing to bill) or the error that is raised;
  \<open>accepted\<close> is the answer of \<^verbatim>\<open>MeterEvent.create\<close>.
\<close>

definition report_meter_event_to_stripe ::
    "billing_config \<Rightarrow> (string \<Rightarrow> subscription list option) \<Rightarrow> (stripe_event \<Rightarrow> bool) \<Rightarrow>
     string \<Rightarrow> int \<Rightarrow> int \<Rightarrow> string option \<Rightarrow> datetime option \<Rightarrow> datetime \<Rightarrow>
     billing_error + stripe_event option" where
  "report_meter_event_to_stripe cfg list_subs create_event user_id queue_id units customer usage_at now =
     (if units \<le> 0 then Inr None
      else case assert_billable cfg list_subs customer usage_at now of
        Inl e \<Rightarrow> Inl e
      | Inr _ \<Rightarrow>
          if \<not> stripe_enabled cfg then Inl StripeNotConfigured
          else (case customer of
            None \<Rightarrow> Inl MissingCustomer
          | Some c \<Rightarrow>
              if c = [] then Inl MissingCustomer
              else let ev = \<lparr> ev_name = meter_event_name cfg, ev_value = show_int units, ev_customer = c,
                      ev_identifier = stable_identifier queue_id user_id,
                      ev_timestamp = (case usage_at of None \<Rightarrow> 0 | Some at \<Rightarrow> unix_seconds at) \<rparr>
                   in if create_event ev then Inr (Some ev) else Inl StripeError))"

subsection \<open>The webhook step\<close>

definition queue_accepted_all :: "skip_db \<Rightarrow> int \<Rightarrow> bool" where
  "queue_accepted_all db qid =
     (case queues db qid of
        None \<Rightarrow> False
      | Some q \<Rightarrow> (case q_rows_sent q of
                     None \<Rightarrow> False
                   | Some sent \<Rightarrow> sent > 0 \<and> q_rows_uploaded q \<ge> sent))"

text \<open>The decision is stored once and read back; without a queue row it is False.\<close>

definition decide_unmatched :: "skip_db \<Rightarrow> int \<Rightarrow> bool \<times> skip_db" where
  "decide_unmatched db qid =
     (case queues db qid of
        None \<Rightarrow> (False, db)
      | Some q \<Rightarrow>
          let d = opt_or (q_unmatched_billed q) (queue_accepted_all db qid)
          in (d, db\<lparr> queues := (queues db)(qid \<mapsto> q\<lparr> q_unmatched_billed := Some d \<rparr>) \<rparr>))"

definition billable_rows :: "skip_db \<Rightarrow> int \<Rightarrow> bool \<Rightarrow> pending_row list" where
  "billable_rows db qid accepted_all =
     filter (\<lambda>p. p_queue p = Some qid \<and>
        (p_status p = P_completed \<or> (accepted_all \<and> p_status p = P_unmatched))) (pending db)"

text \<open>\<^verbatim>\<open>GROUP BY user_id ORDER BY user_id\<close>.\<close>

definition usage_by_user :: "pending_row list \<Rightarrow> (string \<times> int) list" where
  "usage_by_user rows =
     map (\<lambda>u. (u, int (length (filter (\<lambda>p. p_user p = u) rows)))) (sorted_distinct (map p_user rows))"

definition outside_counted_window :: "datetime option \<Rightarrow> datetime option \<Rightarrow> bool" where
  "outside_counted_window usage_at counted_from =
     (case usage_at of
        None \<Rightarrow> False
      | Some at \<Rightarrow> (case counted_from of None \<Rightarrow> True | Some w \<Rightarrow> at < w))"

text \<open>\<^verbatim>\<open>ON CONFLICT (tracerfy_queue_id, user_id) DO NOTHING\<close>.\<close>

definition insert_meter_row :: "meter_row \<Rightarrow> meter_row list \<Rightarrow> meter_row list" where
  "insert_meter_row m rows =
     (if list_ex (\<lambda>r. m_queue r = m_queue m \<and> m_user r = m_user m) rows then rows else rows @ [m])"

definition bill_user ::
    "int \<Rightarrow> datetime option \<Rightarrow> datetime \<Rightarrow> string \<times> int \<Rightarrow> skip_db \<times> usage_result list
       \<Rightarrow> skip_db \<times> usage_result list" where
  "bill_user qid usage_at now un acc =
     (let (uid, n) = un; (db, summary) = acc;
          (r, db1) = report_lookups_for_user db uid n now
      in if billable_units r > 0 then
           let outside = outside_counted_window usage_at (counted_window_start r);
               m = \<lparr> m_queue = qid, m_user = uid, m_units = billable_units r,
                     m_customer = us_customer r, m_plan = us_plan r, m_usage_at = usage_at,
                     m_created = now, m_reported_at = None,
                     m_disposition = (if outside then D_needs_review else D_pending),
                     m_disposition_at = (if outside then Some now else None),
                     m_reason = (if outside then Some ''usage_outside_counted_window'' else None) \<rparr>
           in (db1\<lparr> outbox := insert_meter_row m (outbox db1) \<rparr>, summary @ [r])
         else (db1, summary @ [r]))"

record webhook_summary =
  ws_users :: "usage_result list"
  ws_outbox :: "(int \<times> string) list"

definition report_usage_from_webhook :: "skip_db \<Rightarrow> int \<Rightarrow> datetime \<Rightarrow> webhook_summary \<times> skip_db" where
  "report_usage_from_webhook db qid now =
     (let (accepted_all, db1) = decide_unmatched db qid;
          groups = usage_by_user (billable_rows db1 qid accepted_all);
          usage_at = (case queues db1 qid of None \<Rightarrow> None | Some q \<Rightarrow> q_provider_submitted_at q);
          (db2, summary) = fold (bill_user qid usage_at now) groups (db1, [])
      in (\<lparr> ws_users = summary,
            ws_outbox = map (\<lambda>m. (m_queue m, m_user m))
              (filter (\<lambda>m. m_queue m = qid \<and> m_disposition m = D_pending) (outbox db2)) \<rparr>, db2))"

subsection \<open>The counter over a window\<close>

text \<open>The units billed by a sequence of batches of one user.\<close>

fun bill_batches :: "user_row \<Rightarrow> (int \<times> datetime) list \<Rightarrow> int" where
  "bill_batches u [] = 0"
| "bill_batches u ((n, t) # bs) =
     (let (r, u') = report_lookups_for_row u n t in billable_units r + bill_batches u' bs)"

lemma should_roll_skip [simp]:
  "should_roll (u\<lparr>skip_trace_used_this_month := x\<rparr>) t = should_roll u t"
  "should_roll (u\<lparr>skip_trace_period_start := y\<rparr>) t = should_roll u t"
  by (simp_all add: should_roll_def is_frozen_def Let_def cong: option.case_cong)

lemma effective_window_skip [simp]:
  "effective_window (u\<lparr>skip_trace_used_this_month := x\<rparr>) t = effective_window u t"
  "effective_window (u\<lparr>skip_trace_period_start := y\<rparr>) t = effective_window u t"
  by (simp_all add: effective_window_def)

lemma bundled_quota_skip [simp]:
  "bundled_quota (u\<lparr>skip_trace_used_this_month := x\<rparr>) = bundled_quota u"
  "bundled_quota (u\<lparr>skip_trace_period_start := y\<rparr>) = bundled_quota u"
  by (simp_all add: bundled_quota_def)

lemma bundled_quota_nonneg: "0 \<le> bundled_quota u"
  by (auto simp: bundled_quota_def SKIP_TRACE_BUNDLED_QUOTAS_def opt_or_def)

lemma bill_batches_window:
  assumes "skip_trace_period_start u = Some ps"
    and "\<forall>(n, t) \<in> set bs. fst (effective_window u t) \<le> ps"
  shows "bill_batches u bs
    = max 0 (skip_trace_used_this_month u + sum_list (map fst bs) - bundled_quota u)
      - max 0 (skip_trace_used_this_month u - bundled_quota u)"
  using assms
proof (induction bs arbitrary: u)
  case Nil
  then show ?case by simp
next
  case (Cons b bs)
  obtain n t where b: "b = (n, t)" by (cases b)
  let ?u' = "u\<lparr>skip_trace_used_this_month := skip_trace_used_this_month u + n\<rparr>"
  have "\<not> allowance_rolled u t" using Cons.prems b by (auto simp: allowance_rolled_def)
  moreover have "bill_batches ?u' bs
      = max 0 (skip_trace_used_this_month ?u' + sum_list (map fst bs) - bundled_quota ?u')
        - max 0 (skip_trace_used_this_month ?u' - bundled_quota ?u')"
    by (rule Cons.IH) (use Cons.prems in auto)
  ultimately show ?case by (simp add: b report_lookups_for_row_def Let_def)
qed

subsection \<open>The gate\<close>

lemma scan_subs_Inl:
  "scan_subs metered ts subs closed = Inl sub \<Longrightarrow>
     sub \<in> set subs \<and> sub_status sub = Some ''active'' \<and> has_metered_item metered ts sub \<and>
     (\<exists>a b. period_start sub = Some a \<and> period_end sub = Some b \<and> a \<le> ts \<and> ts < b)"
  by (induction metered ts subs closed rule: scan_subs.induct)
    (auto split: if_splits option.splits)

lemma assert_billable_Inr:
  assumes "assert_billable cfg list_subs customer usage_at now = Inr sub"
  obtains at c subs where "usage_at = Some at" "customer = Some c" "c \<noteq> []" "list_subs c = Some subs"
    "dt_diff at now \<le> 300000000" "- (34 * usec_per_day) \<le> dt_diff at now"
    "scan_subs (configured_metered_price_ids cfg) (unix_seconds at) subs False = Inl sub"
  using assms
  by (auto simp: assert_billable_def USAGE_PROVENANCE_IS_TRUSTWORTHY_def BACKDATE_LIMIT_DAYS_def
      Let_def str_or_def split: option.splits if_splits sum.splits)

lemma report_meter_event_sent:
  assumes "report_meter_event_to_stripe cfg list_subs create uid qid units customer usage_at now = Inr (Some ev)"
  obtains sub where "assert_billable cfg list_subs customer usage_at now = Inr sub"
    "customer = Some (ev_customer ev)" "ev_identifier ev = stable_identifier qid uid"
    "ev_value ev = show_int units" "0 < units" "create ev"
    "ev_timestamp ev = (case usage_at of None \<Rightarrow> 0 | Some at \<Rightarrow> unix_seconds at)"
  using assms
  by (auto simp: report_meter_event_to_stripe_def Let_def split: if_splits sum.splits option.splits)

subsection \<open>Identifiers\<close>

lemma show_nat_digits: "c \<in> set (show_nat n) \<Longrightarrow> 48 \<le> (of_char c :: nat) \<and> (of_char c :: nat) \<le> 57"
proof (induction n rule: show_nat.induct)
  case (1 n)
  show ?case
  proof (cases "n < 10")
    case True
    then show ?thesis using "1.prems" by (subst (asm) show_nat.simps) simp
  next
    case False
    have m: "n mod 10 < 10" by simp
    from False "1.prems" have "c \<in> set (show_nat (n div 10)) \<or> c = char_of (48 + n mod 10)"
      by (subst (asm) show_nat.simps) auto
    then show ?thesis using "1.IH" [OF False] m by auto
  qed
qed

definition digits_value :: "string \<Rightarrow> nat" where
  "digits_value s = foldl (\<lambda>a c. a * 10 + (of_char c - 48)) 0 s"

lemma digits_value_show: "digits_value (show_nat n) = n"
proof (induction n rule: show_nat.induct)
  case (1 n)
  show ?case
  proof (cases "n < 10")
    case True
    then show ?thesis by (subst show_nat.simps) (simp add: digits_value_def)
  next
    case False
    have m: "n mod 10 < 10" by simp
    have "digits_value (show_nat n) = n div 10 * 10 + n mod 10"
      using False "1.IH" [OF False] m by (subst show_nat.simps) (simp add: digits_value_def)
    then show ?thesis by simp
  qed
qed

lemma show_nat_inject: "show_nat m = show_nat n \<Longrightarrow> m = n"
  by (metis digits_value_show)

lemma show_int_inject: "show_int i = show_int j \<Longrightarrow> i = j"
proof -
  have h: "hd (show_nat n) \<noteq> CHR ''-''" for n
  proof
    assume "hd (show_nat n) = CHR ''-''"
    then have "CHR ''-'' \<in> set (show_nat n)" using hd_in_set [of "show_nat n"] by simp
    then show False using show_nat_digits [of "CHR ''-''" n] by simp
  qed
  assume e: "show_int i = show_int j"
  show "i = j"
  proof (cases "i < 0"; cases "j < 0")
    assume "i < 0" "j < 0"
    with e have "nat (- i) = nat (- j)" by (intro show_nat_inject) (simp add: show_int_def)
    with \<open>i < 0\<close> \<open>j < 0\<close> show ?thesis by simp
  next
    assume "\<not> i < 0" "\<not> j < 0"
    with e have "nat i = nat j" by (intro show_nat_inject) (simp add: show_int_def)
    with \<open>\<not> i < 0\<close> \<open>\<not> j < 0\<close> show ?thesis by simp
  qed (use e h in \<open>auto simp: show_int_def\<close>, metis list.sel(1) h)+
qed

lemma show_int_no_underscore: "CHR ''_'' \<notin> set (show_int i)"
proof -
  have "CHR ''_'' \<notin> set (show_nat n)" for n
    using show_nat_digits [of "CHR ''_''" n] by (cases "CHR ''_'' \<in> set (show_nat n)") simp_all
  then show ?thesis by (simp add: show_int_def)
qed

lemma append_sep_inject:
  "xs @ s # ys = xs' @ s # ys' \<Longrightarrow> s \<notin> set xs \<Longrightarrow> s \<notin> set xs' \<Longrightarrow> xs = xs' \<and> ys = ys'"
  by (induction xs arbitrary: xs') (auto simp: Cons_eq_append_conv append_eq_Cons_conv)

lemma stable_identifier_inject:
  "stable_identifier q u = stable_identifier q' u' \<longleftrightarrow> q = q' \<and> u = u'"
proof
  assume "stable_identifier q u = stable_identifier q' u'"
  then have "show_int q @ CHR ''_'' # CHR ''u'' # u = show_int q' @ CHR ''_'' # CHR ''u'' # u'"
    by (simp add: stable_identifier_def)
  from append_sep_inject [OF this show_int_no_underscore show_int_no_underscore]
  show "q = q' \<and> u = u'" using show_int_inject by auto
qed simp

subsection \<open>The webhook counts every user once\<close>

definition meter_key :: "meter_row \<Rightarrow> int \<times> string" where
  "meter_key m = (m_queue m, m_user m)"

lemma insert_meter_row_keys:
  "distinct (map meter_key rows) \<Longrightarrow> distinct (map meter_key (insert_meter_row m rows))"
  by (auto simp: insert_meter_row_def list_ex_iff meter_key_def)

lemma insert_meter_row_append: "\<exists>new. insert_meter_row m rows = rows @ new \<and> set new \<subseteq> {m}"
  by (simp add: insert_meter_row_def)

text \<open>What a new outbox row says: its batch, a positive quantity, and why it is held if it is.\<close>

definition good_meter :: "int \<Rightarrow> datetime option \<Rightarrow> meter_row \<Rightarrow> bool" where
  "good_meter qid usage_at m \<longleftrightarrow>
     m_queue m = qid \<and> 0 < m_units m \<and> m_usage_at m = usage_at \<and>
     (m_disposition m = D_pending \<or> m_disposition m = D_needs_review) \<and> m_reported_at m = None \<and>
     (m_disposition m = D_needs_review) = (m_reason m = Some ''usage_outside_counted_window'')"

lemma bill_user_users:
  "users (fst (bill_user qid ua now (uid, n) (db, s))) =
     (if n \<le> 0 then users db
      else (users db)(uid := map_option (\<lambda>u. snd (report_lookups_for_row u n now)) (users db uid)))"
  by (auto simp: bill_user_def report_lookups_for_user_def Let_def no_usage_def fun_upd_idem
      split: option.split prod.split)

lemma bill_user_outbox:
  "\<exists>new. outbox (fst (bill_user qid ua now un (db, s))) = outbox db @ new \<and>
      (\<forall>m \<in> set new. good_meter qid ua m)"
proof -
  obtain uid n where un: "un = (uid, n)" by (cases un)
  obtain r db1 where r: "report_lookups_for_user db uid n now = (r, db1)"
    by (cases "report_lookups_for_user db uid n now")
  have o: "outbox db1 = outbox db"
    using r by (auto simp: report_lookups_for_user_def Let_def split: option.splits prod.splits if_splits)
  show ?thesis
  proof (cases "billable_units r > 0")
    case False
    then show ?thesis by (simp add: bill_user_def un r o)
  next
    case True
    then show ?thesis
      by (auto simp: bill_user_def un r o Let_def insert_meter_row_def good_meter_def)
  qed
qed

lemma bill_user_keys:
  "distinct (map meter_key (outbox db)) \<Longrightarrow>
     distinct (map meter_key (outbox (fst (bill_user qid ua now un (db, s)))))"
  by (cases un) (auto simp: bill_user_def Let_def report_lookups_for_user_def insert_meter_row_keys
      split: option.split prod.split)

lemma fold_bill_user_users:
  assumes "distinct (map fst groups)" "\<forall>(u, n) \<in> set groups. 0 < n"
  shows "users (fst (fold (bill_user qid ua now) groups (db, s))) uid =
      (case map_of groups uid of
         None \<Rightarrow> users db uid
       | Some n \<Rightarrow> map_option (\<lambda>u. snd (report_lookups_for_row u n now)) (users db uid))"
  using assms
proof (induction groups arbitrary: db s)
  case (Cons g groups)
  obtain u n where g: "g = (u, n)" by (cases g)
  obtain db1 s1 where b: "bill_user qid ua now g (db, s) = (db1, s1)"
    by (cases "bill_user qid ua now g (db, s)")
  have m: "map_of groups u = None" using Cons.prems g by (simp add: map_of_eq_None_iff)
  have u1: "users db1 = (users db)(u := map_option (\<lambda>u. snd (report_lookups_for_row u n now)) (users db u))"
    using bill_user_users [of qid ua now u n db s] b Cons.prems g by simp
  have "users (fst (fold (bill_user qid ua now) groups (db1, s1))) uid =
      (case map_of groups uid of
         None \<Rightarrow> users db1 uid
       | Some n \<Rightarrow> map_option (\<lambda>u. snd (report_lookups_for_row u n now)) (users db1 uid))"
    by (rule Cons.IH) (use Cons.prems in auto)
  with m u1 show ?case
    by (cases "uid = u") (simp_all only: fold.simps comp_apply b, simp_all add: g split: option.split)
qed simp

lemma fold_bill_user_outbox:
  "\<exists>new. outbox (fst (fold (bill_user qid ua now) groups (db, s))) = outbox db @ new \<and>
      (\<forall>m \<in> set new. good_meter qid ua m)"
proof (induction groups arbitrary: db s)
  case (Cons g groups)
  obtain db1 s1 where b: "bill_user qid ua now g (db, s) = (db1, s1)"
    by (cases "bill_user qid ua now g (db, s)")
  obtain new1 where 1: "outbox db1 = outbox db @ new1" "\<forall>m \<in> set new1. good_meter qid ua m"
    using bill_user_outbox [of qid ua now g db s] b by auto
  obtain new2 where 2: "outbox (fst (fold (bill_user qid ua now) groups (db1, s1))) = outbox db1 @ new2"
      "\<forall>m \<in> set new2. good_meter qid ua m"
    using Cons.IH [of db1 s1] by auto
  show ?case
    by (rule exI [of _ "new1 @ new2"]) (use 1 2 b in auto)
qed simp

lemma fold_bill_user_keys:
  "distinct (map meter_key (outbox db)) \<Longrightarrow>
      distinct (map meter_key (outbox (fst (fold (bill_user qid ua now) groups (db, s)))))"
proof (induction groups arbitrary: db s)
  case (Cons g groups)
  obtain db1 s1 where b: "bill_user qid ua now g (db, s) = (db1, s1)"
    by (cases "bill_user qid ua now g (db, s)")
  with Cons.IH [of db1 s1] bill_user_keys [OF Cons.prems, of qid ua now g s] show ?case by simp
qed simp

lemma usage_by_user_groups:
  "distinct (map fst (usage_by_user rows))" "\<forall>(u, n) \<in> set (usage_by_user rows). 0 < n"
  "map_of (usage_by_user rows) u =
     (if u \<in> p_user ` set rows then Some (int (length (filter (\<lambda>p. p_user p = u) rows))) else None)"
proof -
  show "distinct (map fst (usage_by_user rows))" by (simp add: usage_by_user_def comp_def)
  show "\<forall>(u, n) \<in> set (usage_by_user rows). 0 < n"
    by (auto simp: usage_by_user_def filter_empty_conv)
  have "map_of (map (\<lambda>u. (u, f u)) xs) u = (if u \<in> set xs then Some (f u) else None)" for f :: "string \<Rightarrow> int" and xs
    by (induction xs) auto
  then show "map_of (usage_by_user rows) u =
     (if u \<in> p_user ` set rows then Some (int (length (filter (\<lambda>p. p_user p = u) rows))) else None)"
    by (simp add: usage_by_user_def)
qed

lemma decide_unmatched_frame:
  "users (snd (decide_unmatched db qid)) = users db" "pending (snd (decide_unmatched db qid)) = pending db"
  "outbox (snd (decide_unmatched db qid)) = outbox db"
  by (simp_all add: decide_unmatched_def Let_def split: option.split)

lemma webhook_db:
  "snd (report_usage_from_webhook db qid now) =
     fst (fold (bill_user qid (case queues (snd (decide_unmatched db qid)) qid of
                                 None \<Rightarrow> None | Some q \<Rightarrow> q_provider_submitted_at q) now)
       (usage_by_user (billable_rows db qid (fst (decide_unmatched db qid))))
       (snd (decide_unmatched db qid), []))"
  using decide_unmatched_frame(2) [of db qid]
  by (auto simp: report_usage_from_webhook_def Let_def billable_rows_def split: prod.split)

subsection \<open>Properties\<close>

text \<open>
  C30: Inside one entitlement window the units billed are exactly the lookups above the bundled
  allowance, however they were split into batches: if the first batch opens the window and the others
  are counted in it, their sum is \<open>max 0 (total - quota)\<close>.
\<close>

theorem overage_is_exact:
  assumes "allowance_rolled u t0" "0 \<le> n0"
    and "\<forall>(n, t) \<in> set bs. fst (effective_window u t) \<le> fst (effective_window u t0)"
  shows "bill_batches u ((n0, t0) # bs)
    = max 0 (n0 + sum_list (map fst bs) - bundled_quota u)"
proof -
  let ?u' = "u\<lparr>skip_trace_period_start := Some (fst (effective_window u t0)),
               skip_trace_used_this_month := n0\<rparr>"
  have "bill_batches ?u' bs = max 0 (n0 + sum_list (map fst bs) - bundled_quota u)
      - max 0 (n0 - bundled_quota u)"
    using bill_batches_window [of ?u' "fst (effective_window u t0)" bs] assms(3) by simp
  moreover obtain r where "report_lookups_for_row u n0 t0 = (r, ?u')"
      "billable_units r = max 0 (n0 - bundled_quota u)"
    using assms(1) bundled_quota_nonneg [of u] by (simp add: report_lookups_for_row_def Let_def)
  ultimately show ?thesis by simp
qed

theorem overage_is_exact_witness:
  "bill_batches (sample_user\<lparr>skip_trace_period_start := None\<rparr>)
     [(200, DateTime 2026 3 1 0), (100, DateTime 2026 3 2 0), (7, DateTime 2026 3 30 0)] = 57"
proof -
  let ?u = "sample_user\<lparr>skip_trace_period_start := None\<rparr>"
  have "list_all (\<lambda>(n, t). fst (effective_window ?u t) \<le> fst (effective_window ?u (DateTime 2026 3 1 0)))
      [(100, DateTime 2026 3 2 0), (7::int, DateTime 2026 3 30 0)]"
    "allowance_rolled ?u (DateTime 2026 3 1 0)" "bundled_quota ?u = 250" by code_simp+
  then show ?thesis
    using overage_is_exact [of ?u "DateTime 2026 3 1 0" 200 "[(100, DateTime 2026 3 2 0), (7, DateTime 2026 3 30 0)]"]
    by (simp only: list_all_iff) simp
qed

text \<open>
  C31: The billing gate is sound: it passes only for a recent usage time of a customer who has an
  active subscription that carried a configured metered item when the lookups ran and whose current
  period contains them; everything else is an error.
\<close>

theorem billing_gate_sound:
  assumes "assert_billable cfg list_subs customer usage_at now = Inr sub"
  shows "\<exists>at c subs. usage_at = Some at \<and> customer = Some c \<and> list_subs c = Some subs \<and> sub \<in> set subs \<and>
    sub_status sub = Some ''active'' \<and>
    has_metered_item (configured_metered_price_ids cfg) (unix_seconds at) sub \<and>
    (\<exists>a b. period_start sub = Some a \<and> period_end sub = Some b \<and>
       a \<le> unix_seconds at \<and> unix_seconds at < b) \<and>
    - (34 * usec_per_day) \<le> dt_diff at now \<and> dt_diff at now \<le> 300000000"
proof -
  obtain at c subs where g: "usage_at = Some at" "customer = Some c" "list_subs c = Some subs"
    "dt_diff at now \<le> 300000000" "- (34 * usec_per_day) \<le> dt_diff at now"
    "scan_subs (configured_metered_price_ids cfg) (unix_seconds at) subs False = Inl sub"
    by (rule assert_billable_Inr [OF assms])
  show ?thesis
    using g(1-5) scan_subs_Inl [OF g(6)]
    by (intro exI [of _ at] exI [of _ c] exI [of _ subs]) (elim conjE, intro conjI, assumption+)
qed

definition sample_sub :: subscription where
  "sample_sub =
     \<lparr> sub_status = Some ''active'',
       sub_items = [\<lparr> item_price = Some ''price_x'', item_created = Some 0 \<rparr>],
       period_start = Some 1772323200, period_end = Some 1775001600, start_date = Some 0 \<rparr>"

definition sample_billing :: billing_config where
  "sample_billing =
     \<lparr> stripe_secret_key = ''sk'', stripe_product_skip_trace = ''prod'', stripe_meter_skip_trace = ''m'',
       metered_prices = [''price_x'', []], meter_event_name = ''skip_trace'' \<rparr>"

lemma sample_gate:
  "assert_billable sample_billing (\<lambda>_. Some [sample_sub]) (Some ''cus'') (Some (DateTime 2026 3 5 0))
     (DateTime 2026 3 6 0) = Inr sample_sub"
  by code_simp

theorem billing_gate_sound_witness:
  "\<exists>a b. period_start sample_sub = Some a \<and> period_end sample_sub = Some b \<and>
     a \<le> unix_seconds (DateTime 2026 3 5 0) \<and> unix_seconds (DateTime 2026 3 5 0) < b"
  using billing_gate_sound [OF sample_gate] by blast

text \<open>
  A meter event is sent only under the gate, for the same customer and usage time that the gate
  checked, dated with that time, and its identifier is stable and injective in the batch and the user:
  a retry is recognised by Stripe and two different usages are never merged.
\<close>

theorem meter_event_bound_to_gate:
  assumes "report_meter_event_to_stripe cfg list_subs create uid qid units customer usage_at now = Inr (Some ev)"
  shows "(\<exists>sub. assert_billable cfg list_subs (Some (ev_customer ev)) usage_at now = Inr sub) \<and>
    usage_at \<noteq> None \<and> ev_timestamp ev = unix_seconds (the usage_at) \<and> 0 < units \<and>
    (\<forall>q u. stable_identifier q u = ev_identifier ev \<longleftrightarrow> q = qid \<and> u = uid)"
proof -
  obtain sub where s: "assert_billable cfg list_subs customer usage_at now = Inr sub"
    "customer = Some (ev_customer ev)" "ev_identifier ev = stable_identifier qid uid"
    "0 < units" "ev_timestamp ev = (case usage_at of None \<Rightarrow> 0 | Some at \<Rightarrow> unix_seconds at)"
    by (rule report_meter_event_sent [OF assms])
  obtain at where "usage_at = Some at" using assert_billable_Inr [OF s(1)] by metis
  then show ?thesis using s by (auto simp: stable_identifier_inject)
qed

theorem meter_event_bound_to_gate_witness:
  "\<exists>ev. report_meter_event_to_stripe sample_billing (\<lambda>_. Some [sample_sub]) (\<lambda>_. True) ''u1'' 7 57
      (Some ''cus'') (Some (DateTime 2026 3 5 0)) (DateTime 2026 3 6 0) = Inr (Some ev) \<and>
    ev_timestamp ev = unix_seconds (DateTime 2026 3 5 0)"
proof -
  let ?ev = "\<lparr> ev_name = ''skip_trace'', ev_value = ''57'', ev_customer = ''cus'',
    ev_identifier = ''skip_trace_q7_uu1'', ev_timestamp = 1772668800 \<rparr>"
  have r: "report_meter_event_to_stripe sample_billing (\<lambda>_. Some [sample_sub]) (\<lambda>_. True) ''u1'' 7 57
      (Some ''cus'') (Some (DateTime 2026 3 5 0)) (DateTime 2026 3 6 0) = Inr (Some ?ev)"
    by code_simp
  show ?thesis using meter_event_bound_to_gate [OF r] r by auto
qed

text \<open>
  The webhook step counts every user of the batch exactly once: a user's row becomes the row after
  their own number of billable lookups (completed rows, and unmatched ones only under the stored
  decision), and every other user's row is unchanged.
\<close>

theorem webhook_counts_each_user:
  "users (snd (report_usage_from_webhook db qid now)) uid =
     (let rows = billable_rows db qid (fst (decide_unmatched db qid));
          n = int (length (filter (\<lambda>p. p_user p = uid) rows))
      in if n = 0 then users db uid
         else map_option (\<lambda>u. snd (report_lookups_for_row u n now)) (users db uid))"
proof -
  let ?rows = "billable_rows db qid (fst (decide_unmatched db qid))"
  have "uid \<in> p_user ` set ?rows \<longleftrightarrow> filter (\<lambda>p. p_user p = uid) ?rows \<noteq> []"
    by (auto simp: filter_empty_conv)
  then show ?thesis
    unfolding webhook_db fold_bill_user_users [OF usage_by_user_groups(1,2)] usage_by_user_groups(3)
    by (simp add: decide_unmatched_frame Let_def)
qed

text \<open>
  The outbox is append-only and has at most one row per batch and user: a replay never duplicates
  or rewrites one, every new row carries the batch, a positive quantity and the provider's time, and
  the decision on unmatched rows, once stored, is kept whatever the queue says later.
\<close>

theorem outbox_append_only:
  assumes "distinct (map meter_key (outbox db))"
  shows "distinct (map meter_key (outbox (snd (report_usage_from_webhook db qid now)))) \<and>
    (\<exists>new ua. outbox (snd (report_usage_from_webhook db qid now)) = outbox db @ new \<and>
       list_all (good_meter qid ua) new) \<and>
    (\<forall>d. q_unmatched_billed (the (queues db qid)) = Some d \<and> queues db qid \<noteq> None \<longrightarrow>
       fst (decide_unmatched db qid) = d)"
proof (intro conjI)
  show "distinct (map meter_key (outbox (snd (report_usage_from_webhook db qid now))))"
    unfolding webhook_db by (rule fold_bill_user_keys) (simp add: assms decide_unmatched_frame)
  show "\<exists>new ua. outbox (snd (report_usage_from_webhook db qid now)) = outbox db @ new \<and>
       list_all (good_meter qid ua) new"
    unfolding webhook_db using fold_bill_user_outbox [where db = "snd (decide_unmatched db qid)" and s = "[]"]
    by (simp add: decide_unmatched_frame list_all_iff) blast
  show "\<forall>d. q_unmatched_billed (the (queues db qid)) = Some d \<and> queues db qid \<noteq> None \<longrightarrow>
       fst (decide_unmatched db qid) = d"
    by (auto simp: decide_unmatched_def)
qed

definition sample_skip_db :: skip_db where
  "sample_skip_db =
     \<lparr> users = [''u1'' \<mapsto> sample_user], queues = Map.empty, pending = [], outbox = [],
       results = Map.empty, job_owner = Map.empty, actions = Map.empty \<rparr>"

theorem outbox_append_only_witness:
  "distinct (map meter_key (outbox (snd (report_usage_from_webhook sample_skip_db 7 (DateTime 2026 3 6 0)))))"
proof -
  have "distinct (map meter_key (outbox sample_skip_db))" by (simp add: sample_skip_db_def)
  then show ?thesis using outbox_append_only by blast
qed

end
