(* ===== verification/SkipTraceCapacity.thy ===== *)
theory SkipTraceCapacity
  imports SkipTables "HOL-Library.Sublist" "HOL-Library.Multiset"
begin

text \<open>
  The spending caps of the lookup dispatcher, \<^verbatim>\<open>src/workers/skip_trace_capacity.py\<close>: credits spent in a
  rolling day, when a binding cap lets lookups run again, the per-round limits, the fair allocation
  over accounts and the final cut to the caps. A moment is its instant in microseconds. The SQL
  queries are functions on the rows of \<^verbatim>\<open>pending_skip_trace_rows\<close>; \<open>candidates_for\<close>, the eligibility walk
  that the dispatcher supplies, is a parameter.
\<close>

definition SPEND_WINDOW :: int where
  "SPEND_WINDOW = usec_per_day"

definition RESUME_MARGIN :: int where
  "RESUME_MARGIN = 1000000"

definition BATCH_ROW_LIMIT :: int where
  "BATCH_ROW_LIMIT = 5000"

record caps =
  global_cap :: int
  account_cap :: int
  global_source :: string

text \<open>The three settings; None is unset. \<^verbatim>\<open>x or 0\<close> reads an unset account cap as 0.\<close>

definition resolve_caps :: "int option \<Rightarrow> int option \<Rightarrow> int option \<Rightarrow> caps" where
  "resolve_caps daily_credit_cap account_daily_credit_cap daily_row_cap =
     (let acct = opt_or account_daily_credit_cap 0
      in case daily_credit_cap of
           Some c \<Rightarrow> \<lparr> global_cap = c, account_cap = acct, global_source = ''SKIP_TRACE_DAILY_CREDIT_CAP'' \<rparr>
         | None \<Rightarrow>
             (case daily_row_cap of
                None \<Rightarrow> \<lparr> global_cap = 0, account_cap = acct, global_source = ''unset'' \<rparr>
              | Some legacy \<Rightarrow>
                  \<lparr> global_cap = legacy, account_cap = acct, global_source = ''SKIP_TRACE_DAILY_ROW_CAP'' \<rparr>))"

subsection \<open>Spent credits\<close>

definition weight :: "pending_row \<Rightarrow> int" where
  "weight p = opt_or (credits_for (p_trace_type p)) 0"

definition submitted_instant :: "pending_row \<Rightarrow> int" where
  "submitted_instant p = (case p_submitted_at p of None \<Rightarrow> 0 | Some d \<Rightarrow> instant d)"

definition spent_rows :: "pending_row list \<Rightarrow> int \<Rightarrow> pending_row list" where
  "spent_rows rows since = filter (\<lambda>p. p_submitted_at p \<noteq> None \<and> submitted_instant p \<ge> since) rows"

definition user_rows :: "string \<Rightarrow> pending_row list \<Rightarrow> pending_row list" where
  "user_rows u rows = filter (\<lambda>p. p_user p = u) rows"

definition credits :: "pending_row list \<Rightarrow> int" where
  "credits rows = sum_list (map weight rows)"

definition spent_credits :: "pending_row list \<Rightarrow> int \<Rightarrow> int \<times> (string \<times> int) list" where
  "spent_credits rows since =
     (let by_user = map (\<lambda>u. (u, credits (user_rows u (spent_rows rows since))))
                      (remdups (map p_user (spent_rows rows since)))
      in (sum_list (map snd by_user), by_user))"

definition row_allowance :: "int \<Rightarrow> int \<Rightarrow> int \<Rightarrow> int option" where
  "row_allowance cap spent cost = (if cap = 0 then None else Some (max 0 ((cap - spent) div cost)))"

definition batch_rows :: "int \<Rightarrow> int \<Rightarrow> int \<Rightarrow> int" where
  "batch_rows gcap spent cost =
     (case row_allowance gcap spent cost of
        None \<Rightarrow> BATCH_ROW_LIMIT
      | Some allowed \<Rightarrow> min BATCH_ROW_LIMIT allowed)"

subsection \<open>When a binding cap lets lookups run again\<close>

datatype resume = Not_binding | Never | At int

record scope_resume_times =
  normal_resume :: resume
  advanced_resume :: resume

text \<open>One cost; None is the ValueError.\<close>

definition resume_one :: "int \<Rightarrow> int \<Rightarrow> (int \<Rightarrow> int option) \<Rightarrow> int \<Rightarrow> resume option" where
  "resume_one cap spent first_at c =
     (if cap = 0 then Some Not_binding
      else if cap < c then Some Never
      else if spent + c \<le> cap then Some Not_binding
      else case first_at c of
             None \<Rightarrow> None
           | Some at \<Rightarrow> Some (At (at + SPEND_WINDOW + RESUME_MARGIN)))"

definition scope_resume :: "int \<Rightarrow> int \<Rightarrow> (int \<Rightarrow> int option) \<Rightarrow> scope_resume_times option" where
  "scope_resume cap spent first_at =
     (case (resume_one cap spent first_at 1, resume_one cap spent first_at 2) of
        (Some a, Some b) \<Rightarrow> Some \<lparr> normal_resume = a, advanced_resume = b \<rparr>
      | _ \<Rightarrow> None)"

text \<open>The window function: running credit sums over the rows in submission order.\<close>

fun running :: "int \<Rightarrow> pending_row list \<Rightarrow> (int \<times> int) list" where
  "running acc [] = []"
| "running acc (p # ps) = (submitted_instant p, acc + weight p) # running (acc + weight p) ps"

definition threshold_walk :: "pending_row list \<Rightarrow> int \<Rightarrow> int \<Rightarrow> (int \<times> int) list" where
  "threshold_walk rows since need =
     take 2 (filter (\<lambda>(at, run). run \<ge> need) (running 0 (sort_key submitted_instant (spent_rows rows since))))"

definition firsts :: "int \<Rightarrow> int \<Rightarrow> (int \<times> int) list \<Rightarrow> int \<Rightarrow> int option" where
  "firsts spent cap walk0 c =
     (let walk = sort_key snd walk0; need = spent - cap + 1
      in if c = 1 then (case walk of [] \<Rightarrow> None | w # _ \<Rightarrow> Some (fst w))
         else if c = 2 then map_option fst (find (\<lambda>(at, run). run \<ge> need + 1) walk)
         else None)"

record pause_snapshot =
  global_scope :: scope_resume_times
  account_default :: scope_resume_times
  account_scopes :: "(string \<times> scope_resume_times) list"

definition NOT_BINDING :: scope_resume_times where
  "NOT_BINDING = \<lparr> normal_resume = Not_binding, advanced_resume = Not_binding \<rparr>"

text \<open>
  One scope of \<^verbatim>\<open>_resume_statement\<close>: the rows it walks (all, or an account's), its total, and its walk,
  which runs only when an advanced lookup does not fit.
\<close>

definition scope_times :: "pending_row list \<Rightarrow> int \<Rightarrow> int \<Rightarrow> scope_resume_times option" where
  "scope_times rows since cap =
     (let spent = credits (spent_rows rows since);
          walk = (if spent + 2 > cap then threshold_walk rows since (spent - cap + 1) else [])
      in scope_resume cap spent (firsts spent cap walk))"

fun collect :: "(string \<times> scope_resume_times option) list \<Rightarrow> (string \<times> scope_resume_times) list option" where
  "collect [] = Some []"
| "collect ((u, None) # xs) = None"
| "collect ((u, Some s) # xs) = map_option (\<lambda>ys. (u, s) # ys) (collect xs)"

text \<open>\<^verbatim>\<open>paused JOIN LATERAL walk\<close>: an account without a walk row gives no row.\<close>

definition paused_accounts :: "pending_row list \<Rightarrow> int \<Rightarrow> int \<Rightarrow> string list" where
  "paused_accounts rows since cap =
     map fst (filter (\<lambda>(u, spent). spent + 2 > cap \<and>
         threshold_walk (user_rows u rows) since (spent - cap + 1) \<noteq> [])
       (snd (spent_credits rows since)))"

definition resume_times :: "pending_row list \<Rightarrow> int \<Rightarrow> caps \<Rightarrow> pause_snapshot option" where
  "resume_times rows now c =
     (let since = now - SPEND_WINDOW
      in case scope_resume (account_cap c) 0 (\<lambda>_. None) of
           None \<Rightarrow> None
         | Some dflt \<Rightarrow>
             if global_cap c = 0 \<and> account_cap c = 0 then
               Some \<lparr> global_scope = NOT_BINDING, account_default = dflt, account_scopes = [] \<rparr>
             else
               case (if account_cap c = 0 then Some []
                     else collect (map (\<lambda>u. (u, scope_times (user_rows u rows) since (account_cap c)))
                            (paused_accounts rows since (account_cap c))),
                     if global_cap c = 0 then Some NOT_BINDING
                     else scope_times rows since (global_cap c)) of
                 (Some accts, Some g) \<Rightarrow>
                   Some \<lparr> global_scope = g, account_default = dflt, account_scopes = accts \<rparr>
               | _ \<Rightarrow> None)"

subsection \<open>Running sums\<close>

definition known :: "pending_row list \<Rightarrow> bool" where
  "known rows \<longleftrightarrow> list_all (\<lambda>p. credits_for (p_trace_type p) \<noteq> None) rows"

lemma weight_known: "credits_for (p_trace_type p) \<noteq> None \<Longrightarrow> 1 \<le> weight p"
  using credits_for_bounds by (auto simp: weight_def)

lemma weight_nonneg: "0 \<le> weight p"
  by (cases "credits_for (p_trace_type p)") (auto simp: weight_def dest: credits_for_bounds)

lemma credits_nonneg: "0 \<le> credits rows"
  by (induction rows) (simp_all add: credits_def weight_nonneg)

lemma credits_simps [simp]:
  "credits [] = 0" "credits (p # ps) = weight p + credits ps" "credits (xs @ ys) = credits xs + credits ys"
  by (simp_all add: credits_def)

definition first_reach :: "int \<Rightarrow> int \<Rightarrow> pending_row list \<Rightarrow> int option" where
  "first_reach n acc ps = map_option fst (find (\<lambda>(at, run). run \<ge> n) (running acc ps))"

lemma first_reach_split:
  assumes "first_reach n acc ps = Some at"
  obtains xs p ys where "ps = xs @ p # ys" "at = submitted_instant p"
    "n \<le> acc + credits xs + weight p" "xs = [] \<or> acc + credits xs < n"
  using assms
proof (induction acc ps arbitrary: thesis rule: running.induct)
  case (2 acc p ps)
  show ?case
  proof (cases "acc + weight p \<ge> n")
    case True
    then show ?thesis using "2.prems" by (intro "2.prems"(1) [of "[]" p ps]) (auto simp: first_reach_def)
  next
    case False
    then have "first_reach n (acc + weight p) ps = Some at"
      using "2.prems"(2) by (simp add: first_reach_def)
    then obtain xs q ys where "ps = xs @ q # ys" "at = submitted_instant q"
      "n \<le> acc + weight p + credits xs + weight q" "xs = [] \<or> acc + weight p + credits xs < n"
      using "2.IH" by blast
    then show ?thesis using False by (intro "2.prems"(1) [of "p # xs" q ys]) auto
  qed
qed (simp add: first_reach_def)

lemma first_reach_exists: "acc < n \<Longrightarrow> n \<le> acc + credits ps \<Longrightarrow> first_reach n acc ps \<noteq> None"
proof (induction acc ps rule: running.induct)
  case (2 acc p ps)
  then show ?case by (cases "acc + weight p \<ge> n") (simp_all add: first_reach_def)
qed simp

lemma running_less:
  assumes "known ps" "(at, run) \<in> set (running acc ps)"
  shows "acc < run"
  using assms
proof (induction acc ps rule: running.induct)
  case (2 acc p ps)
  then show ?case using weight_known [of p] by (force simp: known_def)
qed simp

lemma sorted_running: "known ps \<Longrightarrow> sorted_wrt (\<lambda>x y. snd x < snd y) (running acc ps)"
proof (induction acc ps rule: running.induct)
  case (2 acc p ps)
  then show ?case using running_less [of ps _ _ "acc + weight p"] by (auto simp: known_def)
qed simp

lemma find_filter_weaker:
  "(\<And>x. P x \<Longrightarrow> Q x) \<Longrightarrow> find P (filter Q xs) = find P xs"
  by (induction xs) auto

lemma find_take2:
  assumes "sorted_wrt (\<lambda>x y. snd x < (snd y :: int)) xs" "\<forall>x \<in> set xs. need \<le> snd x"
  shows "find (\<lambda>x. need + 1 \<le> snd x) (take 2 xs) = find (\<lambda>x. need + 1 \<le> snd x) xs"
proof (cases xs)
  case (Cons x ys)
  then show ?thesis using assms by (cases ys) (auto simp: numeral_2_eq_2)
qed simp

lemma sort_key_sorted: "sorted_wrt (\<lambda>x y. snd x < (snd y :: int)) xs \<Longrightarrow> sort_key snd xs = xs"
  by (rule sort_key_id_if_sorted) (auto simp: sorted_map intro: sorted_wrt_mono_rel [rotated])

lemma firsts_reach:
  fixes rows since spent cap
  defines "ps \<equiv> sort_key submitted_instant (spent_rows rows since)"
  assumes k: "known rows"
  shows "firsts spent cap (threshold_walk rows since (spent - cap + 1)) 1 = first_reach (spent - cap + 1) 0 ps"
    and "firsts spent cap (threshold_walk rows since (spent - cap + 1)) 2 = first_reach (spent - cap + 2) 0 ps"
proof -
  let ?n = "spent - cap + 1"
  let ?f = "filter (\<lambda>(at, run). run \<ge> ?n) (running 0 ps)"
  have "known ps" using k by (auto simp: known_def ps_def spent_rows_def list_all_iff)
  then have s: "sorted_wrt (\<lambda>x y. snd x < snd y) ?f"
    by (intro sorted_wrt_filter sorted_running)
  then have st: "sorted_wrt (\<lambda>x y. snd x < snd y) (take 2 ?f)" by (rule sorted_wrt_take)
  have w: "sort_key snd (threshold_walk rows since ?n) = take 2 ?f"
    using sort_key_sorted [OF st] by (simp add: threshold_walk_def ps_def)
  have hd: "(case take 2 xs of [] \<Rightarrow> None | w # _ \<Rightarrow> Some (fst w)) = map_option fst (find (\<lambda>_. True) xs)"
    for xs :: "(int \<times> int) list" by (cases xs) simp_all
  have ff: "find (\<lambda>_. True) (filter P xs) = find P xs" for P and xs :: "(int \<times> int) list"
    by (induction xs) auto
  show "firsts spent cap (threshold_walk rows since ?n) 1 = first_reach ?n 0 ps"
    by (simp add: firsts_def Let_def w hd ff first_reach_def)
  have "find (\<lambda>x. ?n + 1 \<le> snd x) (take 2 ?f) = find (\<lambda>x. ?n + 1 \<le> snd x) ?f"
    by (rule find_take2 [OF s]) auto
  also have "\<dots> = find (\<lambda>x. ?n + 1 \<le> snd x) (running 0 ps)"
    by (rule find_filter_weaker) auto
  finally have "find (\<lambda>(at, run). ?n + 1 \<le> run) (take 2 ?f) = find (\<lambda>(at, run). ?n + 1 \<le> run) (running 0 ps)"
    by (simp add: case_prod_beta')
  then have "first_reach (?n + 1) 0 ps
      = map_option fst (find (\<lambda>(at, run). ?n + 1 \<le> run) (sort_key snd (threshold_walk rows since ?n)))"
    by (simp only: w first_reach_def)
  also have "\<dots> = firsts spent cap (threshold_walk rows since ?n) 2"
    by (simp add: firsts_def Let_def)
  finally show "firsts spent cap (threshold_walk rows since ?n) 2 = first_reach (spent - cap + 2) 0 ps"
    by (simp add: add.assoc)
qed

subsection \<open>The resume time is exact\<close>

lemma credits_sort [simp]: "credits (sort_key k rows) = credits rows"
  unfolding credits_def by (metis mset_map mset_sort sum_mset_sum_list)

lemma credits_filter_le: "credits (filter P rows) \<le> credits rows"
  by (induction rows) (simp_all add: weight_nonneg add_increasing)

lemma credits_filter_sort: "credits (filter P (sort_key k rows)) = credits (filter P rows)"
  by (simp add: filter_sort)

lemma reach_bounds:
  assumes "first_reach n 0 ps = Some at" "sorted (map submitted_instant ps)" "0 < n"
  shows "credits (filter (\<lambda>p. at < submitted_instant p) ps) \<le> credits ps - n"
    and "credits ps - n < credits (filter (\<lambda>p. at \<le> submitted_instant p) ps)"
proof -
  obtain xs p ys where s: "ps = xs @ p # ys" "at = submitted_instant p"
    "n \<le> credits xs + weight p" "xs = [] \<or> credits xs < n"
    using first_reach_split [OF assms(1)] by auto
  have "filter (\<lambda>q. at < submitted_instant q) (xs @ [p]) = []"
    using assms(2) by (auto simp: s sorted_append filter_empty_conv)
  then have "credits (filter (\<lambda>q. at < submitted_instant q) ps) = credits (filter (\<lambda>q. at < submitted_instant q) ys)"
    by (simp add: s)
  then show "credits (filter (\<lambda>p. at < submitted_instant p) ps) \<le> credits ps - n"
    using credits_filter_le [of "\<lambda>q. at < submitted_instant q" ys] s by simp
  have "filter (\<lambda>q. at \<le> submitted_instant q) (p # ys) = p # ys"
    using assms(2) by (intro filter_True) (auto simp: s sorted_append)
  then have "credits (p # ys) \<le> credits (filter (\<lambda>q. at \<le> submitted_instant q) ps)"
    by (simp add: s credits_nonneg)
  then show "credits ps - n < credits (filter (\<lambda>p. at \<le> submitted_instant p) ps)"
    using s assms(3) by auto
qed

lemma spent_rows_later:
  "since \<le> t \<Longrightarrow> credits (spent_rows rows t)
     = credits (filter (\<lambda>p. t \<le> submitted_instant p) (sort_key submitted_instant (spent_rows rows since)))"
  by (simp add: credits_filter_sort spent_rows_def) (metis (mono_tags, lifting) order_trans)

definition resume_for :: "int \<Rightarrow> scope_resume_times \<Rightarrow> resume" where
  "resume_for c s = (if c = 1 then normal_resume s else advanced_resume s)"

lemma scope_times_reach:
  assumes "known rows" "c = 1 \<or> c = 2" "c \<le> cap" "cap < credits (spent_rows rows since) + c"
  shows "resume_one cap (credits (spent_rows rows since))
      (firsts (credits (spent_rows rows since)) cap
         (if credits (spent_rows rows since) + 2 > cap
          then threshold_walk rows since (credits (spent_rows rows since) - cap + 1) else [])) c
    = map_option (\<lambda>at. At (at + SPEND_WINDOW + RESUME_MARGIN))
        (first_reach (credits (spent_rows rows since) - cap + c) 0 (sort_key submitted_instant (spent_rows rows since)))"
proof -
  have one: "resume_one cap spent f c = map_option (\<lambda>at. At (at + SPEND_WINDOW + RESUME_MARGIN)) (f c)"
    if "cap < spent + c" for spent f
    using assms(2,3) that by (auto simp: resume_one_def split: option.split)
  have "cap < credits (spent_rows rows since) + 2" using assms(2,4) by auto
  then show ?thesis
    using one [OF assms(4)] assms(2) firsts_reach [OF assms(1), of "credits (spent_rows rows since)" cap since]
    by auto
qed

lemma scope_times_total:
  assumes "known rows"
  shows "scope_times rows since cap \<noteq> None"
proof -
  let ?S = "credits (spent_rows rows since)"
  let ?w = "if ?S + 2 > cap then threshold_walk rows since (?S - cap + 1) else []"
  have "resume_one cap ?S (firsts ?S cap ?w) c \<noteq> None" if c: "c = 1 \<or> c = 2" for c
  proof (cases "c \<le> cap \<and> cap < ?S + c")
    case True
    then have "first_reach (?S - cap + c) 0 (sort_key submitted_instant (spent_rows rows since)) \<noteq> None"
      by (intro first_reach_exists) (use c in auto)
    then show ?thesis using scope_times_reach [OF assms c] True by simp
  next
    case False
    then show ?thesis by (auto simp: resume_one_def)
  qed
  from this [of 1] this [of 2] obtain a b where "resume_one cap ?S (firsts ?S cap ?w) 1 = Some a"
    "resume_one cap ?S (firsts ?S cap ?w) 2 = Some b" by auto
  then show ?thesis unfolding scope_times_def scope_resume_def Let_def by simp
qed

lemma scope_times_cost:
  assumes "scope_times rows since cap = Some s" "c = 1 \<or> c = 2"
  shows "resume_one cap (credits (spent_rows rows since))
      (firsts (credits (spent_rows rows since)) cap
         (if credits (spent_rows rows since) + 2 > cap
          then threshold_walk rows since (credits (spent_rows rows since) - cap + 1) else [])) c
    = Some (resume_for c s)"
proof -
  let ?r = "resume_one cap (credits (spent_rows rows since))
      (firsts (credits (spent_rows rows since)) cap
         (if credits (spent_rows rows since) + 2 > cap
          then threshold_walk rows since (credits (spent_rows rows since) - cap + 1) else []))"
  obtain a b where "?r 1 = Some a" "?r 2 = Some b" "s = \<lparr>normal_resume = a, advanced_resume = b\<rparr>"
    using assms(1) unfolding scope_times_def scope_resume_def Let_def
    by (cases "?r 1"; cases "?r 2") simp_all
  then show ?thesis using assms(2) by (auto simp: resume_for_def)
qed

lemma scope_times_exact:
  assumes "known rows" "c = 1 \<or> c = 2"
  shows "\<exists>s. scope_times rows since cap = Some s \<and>
    (case resume_for c s of
       Not_binding \<Rightarrow> cap = 0 \<or> credits (spent_rows rows since) + c \<le> cap
     | Never \<Rightarrow> cap \<noteq> 0 \<and> cap < c
     | At t \<Rightarrow> credits (spent_rows rows (t - SPEND_WINDOW)) + c \<le> cap \<and>
         cap < credits (spent_rows rows (t - RESUME_MARGIN - SPEND_WINDOW)) + c)"
proof -
  let ?S = "credits (spent_rows rows since)"
  let ?ps = "sort_key submitted_instant (spent_rows rows since)"
  obtain s where s: "scope_times rows since cap = Some s" using scope_times_total [OF assms(1)] by blast
  note r = scope_times_cost [OF s assms(2)]
  have "case resume_for c s of
       Not_binding \<Rightarrow> cap = 0 \<or> ?S + c \<le> cap
     | Never \<Rightarrow> cap \<noteq> 0 \<and> cap < c
     | At t \<Rightarrow> credits (spent_rows rows (t - SPEND_WINDOW)) + c \<le> cap \<and>
         cap < credits (spent_rows rows (t - RESUME_MARGIN - SPEND_WINDOW)) + c"
  proof (cases "c \<le> cap \<and> cap < ?S + c")
    case False
    then show ?thesis using r assms(2) by (auto simp: resume_one_def split: resume.splits if_splits)
  next
    case True
    then obtain at where at: "first_reach (?S - cap + c) 0 ?ps = Some at"
      "resume_for c s = At (at + SPEND_WINDOW + RESUME_MARGIN)"
      using scope_times_reach [OF assms, of cap since] r True
      by (cases "first_reach (?S - cap + c) 0 ?ps") auto
    have n: "0 < ?S - cap + c" using True by simp
    note b = reach_bounds [OF at(1) sorted_sort_key n]
    obtain xs p ys where "?ps = xs @ p # ys" "at = submitted_instant p"
      using first_reach_split [OF at(1)] by metis
    then have "p \<in> set ?ps" "at = submitted_instant p" by auto
    then have since: "since \<le> at" by (auto simp: spent_rows_def)
    have m: "0 < RESUME_MARGIN" by (simp add: RESUME_MARGIN_def)
    have "credits (spent_rows rows (at + RESUME_MARGIN))
        = credits (filter (\<lambda>p. at + RESUME_MARGIN \<le> submitted_instant p) ?ps)"
      by (rule spent_rows_later) (use since m in simp)
    also have "\<dots> = credits (filter (\<lambda>p. at + RESUME_MARGIN \<le> submitted_instant p)
        (filter (\<lambda>p. at < submitted_instant p) ?ps))"
      using m by (simp add: filter_filter) (rule arg_cong [where f = credits], rule filter_cong, auto)
    also have "\<dots> \<le> credits (filter (\<lambda>p. at < submitted_instant p) ?ps)" by (rule credits_filter_le)
    finally have hi: "credits (spent_rows rows (at + RESUME_MARGIN)) + c \<le> cap" using b(1) by simp
    have lo: "cap < credits (spent_rows rows at) + c"
      using b(2) spent_rows_later [OF since, of rows] by simp
    from hi lo show ?thesis by (simp add: at(2) algebra_simps)
  qed
  with s show ?thesis by blast
qed

subsection \<open>Properties of the resume time\<close>

text \<open>
  A resume time is never missing and is exact: for a scope under a binding cap, at the announced
  moment the credits still inside the rolling day leave room for the lookup, and one margin earlier they
  do not; "not binding" is announced only when the lookup fits now, and "never" only for a binding
  cap smaller than its cost.
\<close>

theorem resume_time_exact:
  assumes "known rows" "c = 1 \<or> c = 2"
  shows "\<exists>s. scope_times rows since cap = Some s \<and>
    (case resume_for c s of
       Not_binding \<Rightarrow> cap = 0 \<or> credits (spent_rows rows since) + c \<le> cap
     | Never \<Rightarrow> cap \<noteq> 0 \<and> cap < c
     | At t \<Rightarrow> credits (spent_rows rows (t - SPEND_WINDOW)) + c \<le> cap \<and>
         cap < credits (spent_rows rows (t - RESUME_MARGIN - SPEND_WINDOW)) + c)"
  using assms by (rule scope_times_exact)

definition sample_sent :: "string \<Rightarrow> int \<Rightarrow> pending_row" where
  "sample_sent t d =
     \<lparr> p_id = ''p'', p_job = ''j'', p_result = ''r'', p_user = ''u1'', p_fields = [], p_trace_type = t,
       p_status = P_submitted, p_queue = None, p_enqueued_at = DateTime 2026 3 1 0,
       p_submitted_at = Some (DateTime 2026 3 1 d), p_action = None \<rparr>"

theorem resume_time_exact_witness:
  "\<exists>s. scope_times [sample_sent ''advanced'' 5, sample_sent ''normal'' 9] 0 3 = Some s \<and>
    resume_for 2 s \<noteq> Never"
proof -
  let ?rows = "[sample_sent ''advanced'' 5, sample_sent ''normal'' 9]"
  have k: "known ?rows" by code_simp
  obtain s where s: "scope_times ?rows 0 3 = Some s"
    "case resume_for 2 s of
       Not_binding \<Rightarrow> 3 = (0::int) \<or> credits (spent_rows ?rows 0) + 2 \<le> 3
     | Never \<Rightarrow> 3 \<noteq> (0::int) \<and> 3 < (2::int)
     | At t \<Rightarrow> credits (spent_rows ?rows (t - SPEND_WINDOW)) + 2 \<le> 3 \<and>
         3 < credits (spent_rows ?rows (t - RESUME_MARGIN - SPEND_WINDOW)) + 2"
    using resume_time_exact [OF k, of 2 0 3] by auto
  then show ?thesis by (auto split: resume.splits)
qed

subsection \<open>Rounds\<close>

text \<open>
  \<^verbatim>\<open>discover_accounts\<close>: the recursive index scan, from each account to the next larger one.
\<close>

definition queued_users :: "pending_row list \<Rightarrow> string \<Rightarrow> datetime \<Rightarrow> string list" where
  "queued_users rows trace_type watermark =
     map p_user (filter (\<lambda>p. p_status p = P_queued \<and> p_trace_type p = trace_type \<and>
       p_enqueued_at p \<le> watermark) rows)"

function next_users :: "string list \<Rightarrow> string list" where
  "next_users us =
     (case sort us of [] \<Rightarrow> [] | u # _ \<Rightarrow> u # next_users (filter (\<lambda>v. u < v) us))"
  by pat_completeness auto
termination
proof (relation "measure length", goal_cases)
  case (2 us u vs)
  then have "u \<in> set us" by (metis list.set_intros(1) set_sort)
  then have "length (filter (\<lambda>v. u < v) us) < length us"
    by (rule length_filter_less) simp
  then show ?case by simp
qed simp

declare next_users.simps [simp del]

definition discover_accounts :: "pending_row list \<Rightarrow> string \<Rightarrow> datetime \<Rightarrow> string list" where
  "discover_accounts rows trace_type watermark = next_users (queued_users rows trace_type watermark)"

definition room_of :: "(string \<rightharpoonup> int) option \<Rightarrow> int option \<Rightarrow> string \<Rightarrow> int option" where
  "room_of room_left default_rows u =
     (case room_left of
        None \<Rightarrow> None
      | Some m \<Rightarrow> (case m u of Some r \<Rightarrow> Some r | None \<Rightarrow> default_rows))"

definition round_limits ::
    "string list \<Rightarrow> (string \<rightharpoonup> int) option \<Rightarrow> int option \<Rightarrow> int \<Rightarrow> nat \<Rightarrow> (string \<times> int) list \<times> int" where
  "round_limits active room_left default_rows global_left round_no =
     (let grow = 2 ^ round_no;
          round_limit = min BATCH_ROW_LIMIT (global_left * grow);
          room = room_of room_left default_rows;
          with_room = filter (\<lambda>u. case room u of None \<Rightarrow> True | Some r \<Rightarrow> r > 0) active
      in if with_room = [] \<or> round_limit \<le> 0 then ([], round_limit)
         else let share = - ((- global_left) div int (length with_room))
              in (map (\<lambda>u. (u, let lim = min (share * grow) round_limit
                               in case room u of None \<Rightarrow> lim | Some r \<Rightarrow> min lim (r * grow))) with_room,
                  round_limit))"

record candidate =
  c_id :: string
  c_user :: string
  c_enqueued :: datetime

type_synonym frontier = "string \<rightharpoonup> datetime \<times> string"

definition c_key :: "candidate \<Rightarrow> datetime \<times> string" where
  "c_key c = (c_enqueued c, c_id c)"

text \<open>\<^verbatim>\<open>row_number() over (partition by user_id order by enqueued_at, id)\<close>, from 0.\<close>

definition rank :: "candidate list \<Rightarrow> candidate \<Rightarrow> nat" where
  "rank walked c = length (filter (\<lambda>d. c_user d = c_user c \<and> c_key d < c_key c) walked)"

definition walked_rows ::
    "(string \<Rightarrow> (datetime \<times> string) option \<Rightarrow> int \<Rightarrow> candidate list) \<Rightarrow> frontier \<Rightarrow>
     (string \<times> int) list \<Rightarrow> datetime \<Rightarrow> candidate list" where
  "walked_rows candidates_for frontier limits watermark =
     filter (\<lambda>c. c_enqueued c \<le> watermark)
       (concat (map (\<lambda>(u, lim). candidates_for u (frontier u) lim) limits))"

definition allocate ::
    "(string \<Rightarrow> (datetime \<times> string) option \<Rightarrow> int \<Rightarrow> candidate list) \<Rightarrow> frontier \<Rightarrow>
     (string \<times> int) list \<Rightarrow> int \<Rightarrow> datetime \<Rightarrow> candidate list" where
  "allocate candidates_for frontier limits round_limit watermark =
     (if limits = [] then []
      else let walked = walked_rows candidates_for frontier limits watermark
           in take (nat round_limit) (sort_key (\<lambda>c. (rank walked c, c_key c)) walked))"

definition advance :: "frontier \<Rightarrow> candidate list \<Rightarrow> frontier \<times> (string \<rightharpoonup> int)" where
  "advance frontier got =
     fold (\<lambda>c (f, counts). (f(c_user c \<mapsto> c_key c), counts(c_user c \<mapsto> opt_or (counts (c_user c)) 0 + 1)))
       got (frontier, Map.empty)"

text \<open>\<open>held\<close>: the rows another transaction has locked, which SKIP LOCKED passes over.\<close>

definition lock_allocated ::
    "pending_row list \<Rightarrow> (string \<Rightarrow> bool) \<Rightarrow> string list \<Rightarrow> string \<Rightarrow> pending_row list" where
  "lock_allocated rows held ids trace_type =
     List.map_filter (\<lambda>i. find (\<lambda>p. p_id p = i \<and> p_status p = P_queued \<and>
        p_trace_type p = trace_type \<and> \<not> held i) rows) ids"

fun take_rows ::
    "pending_row list \<Rightarrow> (string \<rightharpoonup> int) option \<Rightarrow> int option \<Rightarrow> int \<Rightarrow> (string \<Rightarrow> int) \<Rightarrow>
     pending_row list \<Rightarrow> pending_row list" where
  "take_rows [] account_room default_rows global_rows per_user taken = taken"
| "take_rows (row # rows) account_room default_rows global_rows per_user taken =
     (if int (length taken) \<ge> global_rows then taken
      else let u = p_user row;
               full = (case default_rows of
                         None \<Rightarrow> False
                       | Some d \<Rightarrow> per_user u \<ge> opt_or (opt_or account_room Map.empty u) d)
           in if full then take_rows rows account_room default_rows global_rows per_user taken
              else take_rows rows account_room default_rows global_rows
                     (per_user(u := per_user u + 1)) (taken @ [row]))"

definition take_within_caps ::
    "pending_row list \<Rightarrow> (string \<rightharpoonup> int) option \<Rightarrow> int option \<Rightarrow> int \<Rightarrow> pending_row list" where
  "take_within_caps rows account_room default_rows global_rows =
     take_rows rows account_room default_rows global_rows (\<lambda>_. 0) []"

text \<open>The dispatcher's room for one pass: batch, accounts without spend, accounts with spend.\<close>

definition pass_room ::
    "pending_row list \<Rightarrow> int \<Rightarrow> caps \<Rightarrow> int \<Rightarrow> int \<times> int option \<times> (string \<rightharpoonup> int) option" where
  "pass_room rows now c cost =
     (let (spent, by_user) = spent_credits rows (now - SPEND_WINDOW);
          default_rows = row_allowance (account_cap c) 0 cost
      in (batch_rows (global_cap c) spent cost, default_rows,
          case default_rows of
            None \<Rightarrow> None
          | Some _ \<Rightarrow> Some (\<lambda>u. case map_of by_user u of
                               None \<Rightarrow> None | Some s \<Rightarrow> row_allowance (account_cap c) s cost)))"

subsection \<open>Lemmas on allocation\<close>

lemma next_users_eq: "next_users us = sorted_distinct us"
proof (induction us rule: next_users.induct)
  case (1 us)
  show ?case
  proof (cases "sort us")
    case Nil
    then have "us = []" by (metis set_empty set_sort)
    then show ?thesis by (subst next_users.simps) (simp add: sorted_distinct_def)
  next
    case (Cons u vs)
    let ?ws = "filter (\<lambda>v. u < v) us"
    have set: "set us = insert u (set vs)" by (metis Cons list.set(2) set_sort)
    have min: "\<forall>v \<in> set us. u \<le> v"
      using sorted_sort [of us] Cons set by simp
    have IH: "next_users ?ws = sorted_distinct ?ws" by (rule "1.IH" [OF Cons])
    have "next_users us = u # sorted_distinct ?ws"
      by (subst next_users.simps) (simp add: Cons IH)
    moreover have "sorted_distinct us = u # sorted_distinct ?ws"
    proof (rule sorted_distinct_set_unique)
      show "sorted (u # sorted_distinct ?ws)" "distinct (u # sorted_distinct ?ws)" by auto
      show "set (sorted_distinct us) = set (u # sorted_distinct ?ws)"
        using min set by (auto simp: order_less_le)
    qed simp_all
    ultimately show ?thesis by simp
  qed
qed

lemma take_sort_key_closed:
  assumes "c \<in> set (take n (sort_key k xs))" "d \<in> set xs" "k d < k c"
  shows "d \<in> set (take n (sort_key k xs))"
proof (rule ccontr)
  assume "d \<notin> set (take n (sort_key k xs))"
  moreover have "d \<in> set (take n (sort_key k xs) @ drop n (sort_key k xs))"
    unfolding append_take_drop_id using assms(2) by simp
  ultimately have "d \<in> set (drop n (sort_key k xs))" unfolding set_append by blast
  moreover have "sorted (map k (take n (sort_key k xs) @ drop n (sort_key k xs)))"
    unfolding append_take_drop_id by simp
  ultimately have "k c \<le> k d" using assms(1) by (simp only: map_append sorted_append) simp
  with assms(3) show False by simp
qed

lemma rank_less:
  assumes "d \<in> set walked" "c_user d = c_user c" "c_key d < c_key c"
  shows "rank walked d < rank walked c"
proof -
  let ?P = "\<lambda>x e. c_user e = c_user x \<and> c_key e < c_key x"
  have "filter (?P d) walked = filter (?P d) (filter (?P c) walked)"
    unfolding filter_filter using assms(2,3) by (intro filter_cong) auto
  moreover have "d \<in> set (filter (?P c) walked)" using assms by simp
  then have "length (filter (?P d) (filter (?P c) walked)) < length (filter (?P c) walked)"
    by (rule length_filter_less) simp
  ultimately show ?thesis by (simp add: rank_def)
qed

lemma advance_frontier:
  "fst (advance f got) u =
     (case rev (filter (\<lambda>c. c_user c = u) got) of [] \<Rightarrow> f u | c # _ \<Rightarrow> Some (c_key c))"
proof -
  have "fst (fold (\<lambda>c (f, n). (f(c_user c \<mapsto> c_key c), n(c_user c \<mapsto> opt_or (n (c_user c)) 0 + 1))) got (f, n)) u
    = (case rev (filter (\<lambda>c. c_user c = u) got) of [] \<Rightarrow> f u | c # _ \<Rightarrow> Some (c_key c))"
    for n :: "string \<rightharpoonup> int"
    by (induction got rule: rev_induct) (auto split: prod.split)
  then show ?thesis by (simp add: advance_def)
qed

lemma take_rows_spec:
  assumes "\<forall>u. per_user u = int (length (filter (\<lambda>p. p_user p = u) taken))"
  shows "\<exists>new. take_rows rows ar dr g per_user taken = taken @ new \<and> subseq new rows \<and>
    int (length (taken @ new)) \<le> max g (int (length taken)) \<and>
    (\<forall>u d. dr = Some d \<longrightarrow> int (length (user_rows u (taken @ new)))
        \<le> max (opt_or (opt_or ar Map.empty u) d) (int (length (user_rows u taken)))) \<and>
    (\<forall>r \<in> set rows. r \<notin> set new \<longrightarrow> g \<le> int (length (taken @ new)) \<or>
        (\<exists>d. dr = Some d \<and> opt_or (opt_or ar Map.empty (p_user r)) d
           \<le> int (length (user_rows (p_user r) (taken @ new)))))"
  using assms
proof (induction rows ar dr g per_user taken rule: take_rows.induct)
  case (1 ar dr g per_user taken)
  then show ?case by simp
next
  case (2 row rows ar dr g per_user taken)
  let ?u = "p_user row"
  let ?full = "case dr of None \<Rightarrow> False | Some d \<Rightarrow> per_user ?u \<ge> opt_or (opt_or ar Map.empty ?u) d"
  show ?case
  proof (cases "int (length taken) \<ge> g")
    case True
    then show ?thesis by simp
  next
    case ng: False
    show ?thesis
    proof (cases ?full)
      case True
      then obtain d where d: "dr = Some d" "opt_or (opt_or ar Map.empty ?u) d \<le> per_user ?u"
        by (auto split: option.splits)
      from "2.IH"(1) [OF ng refl refl] True "2.prems" obtain new where
        n: "take_rows rows ar dr g per_user taken = taken @ new" "subseq new rows"
          "int (length (taken @ new)) \<le> max g (int (length taken))"
          "\<forall>u d. dr = Some d \<longrightarrow> int (length (user_rows u (taken @ new)))
              \<le> max (opt_or (opt_or ar Map.empty u) d) (int (length (user_rows u taken)))"
          "\<forall>r \<in> set rows. r \<notin> set new \<longrightarrow> g \<le> int (length (taken @ new)) \<or>
              (\<exists>d. dr = Some d \<and> opt_or (opt_or ar Map.empty (p_user r)) d
                 \<le> int (length (user_rows (p_user r) (taken @ new))))"
        by blast
      have "per_user ?u \<le> int (length (user_rows ?u (taken @ new)))"
        using "2.prems" by (simp add: user_rows_def)
      with d have "opt_or (opt_or ar Map.empty ?u) d \<le> int (length (user_rows ?u (taken @ new)))" by simp
      then show ?thesis
        using n ng True d(1) by (intro exI [of _ new]) (auto simp: Let_def)
    next
      case False
      have pu: "\<forall>u. (per_user(?u := per_user ?u + 1)) u = int (length (filter (\<lambda>p. p_user p = u) (taken @ [row])))"
        using "2.prems" by simp
      from "2.IH"(2) [OF ng refl refl False pu] obtain new where
        n: "take_rows rows ar dr g (per_user(?u := per_user ?u + 1)) (taken @ [row]) = (taken @ [row]) @ new"
          "subseq new rows"
          "int (length ((taken @ [row]) @ new)) \<le> max g (int (length (taken @ [row])))"
          "\<forall>u d. dr = Some d \<longrightarrow> int (length (user_rows u ((taken @ [row]) @ new)))
              \<le> max (opt_or (opt_or ar Map.empty u) d) (int (length (user_rows u (taken @ [row]))))"
          "\<forall>r \<in> set rows. r \<notin> set new \<longrightarrow> g \<le> int (length ((taken @ [row]) @ new)) \<or>
              (\<exists>d. dr = Some d \<and> opt_or (opt_or ar Map.empty (p_user r)) d
                 \<le> int (length (user_rows (p_user r) ((taken @ [row]) @ new))))"
        by blast
      have room: "int (length (user_rows u (taken @ [row]))) \<le> max (opt_or (opt_or ar Map.empty u) d) (int (length (user_rows u taken)))"
        if "dr = Some d" for u d
        using False that "2.prems" by (auto simp: user_rows_def)
      have "int (length (user_rows u (taken @ row # new))) \<le> max (opt_or (opt_or ar Map.empty u) d) (int (length (user_rows u taken)))"
        if "dr = Some d" for u d
      proof -
        have "int (length (user_rows u ((taken @ [row]) @ new)))
            \<le> max (opt_or (opt_or ar Map.empty u) d) (int (length (user_rows u (taken @ [row]))))"
          using n(4) that by blast
        with room [OF that, of u] show ?thesis by (simp add: max_def split: if_splits)
      qed
      then show ?thesis
        using n(1,2,3,5) ng False by (intro exI [of _ "row # new"]) (auto simp: Let_def)
    qed
  qed
qed

subsection \<open>Properties of allocation\<close>

text \<open>
  C35: Allocation skips nobody: whatever rows an allocation round returns, moving the frontiers past them
  skips no row (every walked row of an account at or before its new frontier was returned), and the
  order is fair (if a row of rank \<open>k\<close> is returned, every account's rows of smaller rank are too).
\<close>

theorem allocation_fair_and_gapless:
  assumes "got = allocate candidates_for f limits n wm" "walked = walked_rows candidates_for f limits wm"
  shows "(\<forall>c d. c \<in> set got \<and> d \<in> set walked \<and> rank walked d < rank walked c \<longrightarrow> d \<in> set got) \<and>
    (\<forall>d k. d \<in> set walked \<and> filter (\<lambda>c. c_user c = c_user d) got \<noteq> [] \<and>
       fst (advance f got) (c_user d) = Some k \<and> c_key d < k \<longrightarrow> d \<in> set got)"
proof (cases "limits = []")
  case True
  then show ?thesis using assms by (simp add: allocate_def walked_rows_def)
next
  case False
  let ?k = "\<lambda>c. (rank walked c, c_key c)"
  have got: "got = take (nat n) (sort_key ?k walked)"
    using assms False by (simp add: allocate_def Let_def)
  have fair: "d \<in> set got" if "c \<in> set got" "d \<in> set walked" "rank walked d < rank walked c" for c d
    unfolding got by (rule take_sort_key_closed [where c = c]) (use that in \<open>simp_all add: got\<close>)
  have "d \<in> set got" if d: "d \<in> set walked" "filter (\<lambda>c. c_user c = c_user d) got \<noteq> []"
    "fst (advance f got) (c_user d) = Some k" "c_key d < k" for d k
  proof -
    have "last (filter (\<lambda>c. c_user c = c_user d) got) \<in> set (filter (\<lambda>c. c_user c = c_user d) got)"
      using d(2) by (rule last_in_set)
    moreover have "k = c_key (last (filter (\<lambda>c. c_user c = c_user d) got))"
      using d(2,3) by (auto simp: advance_frontier hd_rev [symmetric] neq_Nil_conv split: list.splits)
    ultimately obtain c where c: "c \<in> set got" "c_user c = c_user d" "c_key d < c_key c"
      using d(4) by auto
    then show ?thesis using fair [OF c(1) d(1) rank_less [OF d(1)]] by simp
  qed
  then show ?thesis using fair by blast
qed

definition sample_candidates :: "string \<Rightarrow> (datetime \<times> string) option \<Rightarrow> int \<Rightarrow> candidate list" where
  "sample_candidates u after lim =
     take (nat lim) [\<lparr> c_id = u @ ''1'', c_user = u, c_enqueued = DateTime 2026 3 1 0 \<rparr>,
                     \<lparr> c_id = u @ ''2'', c_user = u, c_enqueued = DateTime 2026 3 1 5 \<rparr>]"

definition sample_candidate :: "string \<Rightarrow> nat \<Rightarrow> candidate" where
  "sample_candidate u k = sample_candidates u None 2 ! k"

text \<open>Two accounts of two rows each and room for three: the last place goes to a second row only after both firsts.\<close>

theorem allocation_fair_and_gapless_witness:
  "sample_candidate ''a'' 1 \<in> set (allocate sample_candidates Map.empty [(''a'', 2), (''b'', 2)] 3 (DateTime 2026 3 2 0)) \<and>
   sample_candidate ''b'' 0 \<in> set (allocate sample_candidates Map.empty [(''a'', 2), (''b'', 2)] 3 (DateTime 2026 3 2 0)) \<and>
   sample_candidate ''b'' 1 \<notin> set (allocate sample_candidates Map.empty [(''a'', 2), (''b'', 2)] 3 (DateTime 2026 3 2 0))"
proof -
  have c: "sample_candidate ''a'' 1 \<in> set (allocate sample_candidates Map.empty [(''a'', 2), (''b'', 2)] 3 (DateTime 2026 3 2 0))"
    "sample_candidate ''b'' 1 \<notin> set (allocate sample_candidates Map.empty [(''a'', 2), (''b'', 2)] 3 (DateTime 2026 3 2 0))"
    "sample_candidate ''b'' 0 \<in> set (walked_rows sample_candidates Map.empty [(''a'', 2), (''b'', 2)] (DateTime 2026 3 2 0))"
    "rank (walked_rows sample_candidates Map.empty [(''a'', 2), (''b'', 2)] (DateTime 2026 3 2 0)) (sample_candidate ''b'' 0)
      < rank (walked_rows sample_candidates Map.empty [(''a'', 2), (''b'', 2)] (DateTime 2026 3 2 0)) (sample_candidate ''a'' 1)"
    by code_simp+
  show ?thesis using allocation_fair_and_gapless [OF refl refl] c by blast
qed

lemma spent_by_user:
  "map_of (snd (spent_credits rows since)) u =
     (if u \<in> p_user ` set (spent_rows rows since) then Some (credits (user_rows u (spent_rows rows since))) else None)"
proof -
  have "map_of (map (\<lambda>u. (u, f u)) xs) u = (if u \<in> set xs then Some (f u) else None)"
    for f :: "string \<Rightarrow> int" and xs by (induction xs) auto
  then show ?thesis by (simp add: spent_credits_def Let_def)
qed

lemma user_rows_none: "u \<notin> p_user ` set rows \<Longrightarrow> user_rows u rows = []"
  by (auto simp: user_rows_def filter_empty_conv)

lemma sum_user_credits:
  "distinct us \<Longrightarrow> p_user ` set rows \<subseteq> set us \<Longrightarrow> sum_list (map (\<lambda>u. credits (user_rows u rows)) us) = credits rows"
proof (induction rows)
  case Nil
  then show ?case by (induction us) (simp_all add: user_rows_def)
next
  case (Cons p rows)
  have "distinct us" "p_user p \<in> set us" using Cons.prems by auto
  then have one: "sum_list (map (\<lambda>u. if p_user p = u then weight p else 0) us) = weight p"
  proof (induction us)
    case (Cons v us)
    show ?case
    proof (cases "p_user p = v")
      case True
      then have "map (\<lambda>u. if p_user p = u then weight p else 0) us = map (\<lambda>u. 0) us"
        using Cons.prems(1) by (intro map_cong) auto
      then have "sum_list (map (\<lambda>u. if p_user p = u then weight p else 0) us) = 0"
        by (simp only: sum_list_0)
      with True show ?thesis by simp
    next
      case False
      then have "p_user p \<in> set us" using Cons.prems(2) by auto
      then have "sum_list (map (\<lambda>u. if p_user p = u then weight p else 0) us) = weight p"
        using Cons.IH Cons.prems by simp
      with False show ?thesis by simp
    qed
  qed simp
  have "credits (user_rows u (p # rows)) = (if p_user p = u then weight p else 0) + credits (user_rows u rows)" for u
    by (simp add: user_rows_def)
  then have "sum_list (map (\<lambda>u. credits (user_rows u (p # rows))) us)
      = sum_list (map (\<lambda>u. if p_user p = u then weight p else 0) us) + sum_list (map (\<lambda>u. credits (user_rows u rows)) us)"
    by (simp add: sum_list_addf)
  with one Cons show ?case by simp
qed

lemma spent_total: "fst (spent_credits rows since) = credits (spent_rows rows since)"
  by (simp add: spent_credits_def Let_def comp_def sum_user_credits)

lemma row_allowance_bound:
  assumes "row_allowance cap spent c = Some a" "0 < c" "int n \<le> a"
  shows "spent + c * int n \<le> max spent cap"
proof -
  have "int n \<le> max 0 ((cap - spent) div c)" using assms by (auto simp: row_allowance_def split: if_splits)
  then consider "n = 0" | "int n \<le> (cap - spent) div c" by (cases "n = 0") auto
  then show ?thesis
  proof cases
    case 2
    then have "c * int n \<le> c * ((cap - spent) div c)" using assms(2) by simp
    also have "\<dots> \<le> cap - spent"
      using assms(2) by (metis mult_div_mod_eq pos_mod_sign le_add_same_cancel1 add.commute)
    finally show ?thesis by simp
  qed simp
qed


lemma find_holds: "find P xs = Some x \<Longrightarrow> P x"
  by (induction xs) (auto split: if_splits)

lemma locked_weight:
  assumes "credits_for tt = Some c" "r \<in> set (lock_allocated rows held ids tt)"
  shows "weight r = c"
proof -
  obtain i where "find (\<lambda>p. p_id p = i \<and> p_status p = P_queued \<and> p_trace_type p = tt \<and> \<not> held i) rows = Some r"
    using assms(2) by (auto simp: lock_allocated_def map_filter_def)
  from find_holds [OF this] show ?thesis using assms(1) by (simp add: weight_def opt_or_def)
qed

lemma set_subseq_mono: "subseq xs ys \<Longrightarrow> set xs \<subseteq> set ys"
  by (induction rule: list_emb.induct) auto

lemma take_within_spec:
  assumes "taken = take_within_caps rows ar dr g"
  shows "subseq taken rows" "int (length taken) \<le> max g 0"
    "dr = Some d \<Longrightarrow> int (length (user_rows u taken)) \<le> max (opt_or (opt_or ar Map.empty u) d) 0"
    "\<forall>r \<in> set rows. r \<notin> set taken \<longrightarrow> g \<le> int (length taken) \<or>
       (\<exists>d. dr = Some d \<and> opt_or (opt_or ar Map.empty (p_user r)) d \<le> int (length (user_rows (p_user r) taken)))"
proof -
  have "\<forall>u. (\<lambda>_. 0) u = int (length (filter (\<lambda>p. p_user p = u) []))" by simp
  note s = take_rows_spec [OF this, of rows ar dr g]
  then obtain new where n: "take_rows rows ar dr g (\<lambda>_. 0) [] = [] @ new \<and> subseq new rows \<and>
    int (length ([] @ new)) \<le> max g (int (length ([] :: pending_row list))) \<and>
    (\<forall>u d. dr = Some d \<longrightarrow> int (length (user_rows u ([] @ new)))
        \<le> max (opt_or (opt_or ar Map.empty u) d) (int (length (user_rows u [])))) \<and>
    (\<forall>r \<in> set rows. r \<notin> set new \<longrightarrow> g \<le> int (length ([] @ new)) \<or>
        (\<exists>d. dr = Some d \<and> opt_or (opt_or ar Map.empty (p_user r)) d
           \<le> int (length (user_rows (p_user r) ([] @ new)))))" by (rule exE)
  then have t: "taken = new" using assms by (simp add: take_within_caps_def)
  have u0: "user_rows u [] = []" for u by (simp add: user_rows_def)
  note n' = n [simplified u0 append_Nil list.size of_nat_0]
  show "subseq taken rows" "int (length taken) \<le> max g 0" using n' by (simp_all add: t)
  show "dr = Some d \<Longrightarrow> int (length (user_rows u taken)) \<le> max (opt_or (opt_or ar Map.empty u) d) 0"
    using n' by (simp add: t)
  show "\<forall>r \<in> set rows. r \<notin> set taken \<longrightarrow> g \<le> int (length taken) \<or>
       (\<exists>d. dr = Some d \<and> opt_or (opt_or ar Map.empty (p_user r)) d \<le> int (length (user_rows (p_user r) taken)))"
    using n' unfolding t by blast
qed

lemma credits_const: "\<forall>r \<in> set xs. weight r = c \<Longrightarrow> credits xs = c * int (length xs)"
  by (induction xs) (simp_all add: algebra_simps)

lemma spent_of_user:
  "opt_or (map_of (snd (spent_credits rows since)) u) 0 = credits (user_rows u (spent_rows rows since))"
  by (simp add: spent_by_user user_rows_none opt_or_def)

lemma pass_room_account:
  assumes "pass_room rows now c cost = (g, dr, ar)" "account_cap c \<noteq> 0" "dr = Some d"
  shows "row_allowance (account_cap c) (credits (user_rows u (spent_rows rows (now - SPEND_WINDOW)))) cost
    = Some (opt_or (opt_or ar Map.empty u) d)"
proof -
  have d: "row_allowance (account_cap c) 0 cost = Some d"
    using assms by (auto simp: pass_room_def Let_def split: prod.splits)
  have ar: "ar = Some (\<lambda>u. case map_of (snd (spent_credits rows (now - SPEND_WINDOW))) u of
      None \<Rightarrow> None | Some s \<Rightarrow> row_allowance (account_cap c) s cost)"
    using assms(1) d by (auto simp: pass_room_def Let_def split: prod.splits)
  show ?thesis
  proof (cases "u \<in> p_user ` set (spent_rows rows (now - SPEND_WINDOW))")
    case True
    then show ?thesis using assms(2) by (simp add: ar opt_or_def spent_by_user row_allowance_def)
  next
    case False
    then show ?thesis using d by (simp add: ar opt_or_def spent_by_user user_rows_none)
  qed
qed

lemma pass_room_batch:
  assumes "pass_room rows now c cost = (g, dr, ar)"
  shows "g = batch_rows (global_cap c) (credits (spent_rows rows (now - SPEND_WINDOW))) cost"
  using assms spent_total [of rows "now - SPEND_WINDOW"]
  by (auto simp: pass_room_def Let_def split: prod.splits)

text \<open>
  A pass never takes a cap past its limit: of the rows locked for one pass, the ones kept are a
  subsequence of at most 5,000 and, unless the cap was already exceeded, the credits of the rolling day
  plus the credits of the rows kept stay within the global cap and, for every account, within the account
  cap; a row is left out only because the batch or its account is full.
\<close>

theorem caps_never_exceeded:
  assumes "credits_for tt = Some cost"
    and "pass_room rows now c cost = (g, dr, ar)"
    and "taken = take_within_caps (lock_allocated rows held ids tt) ar dr g"
  shows "subseq taken (lock_allocated rows held ids tt) \<and> int (length taken) \<le> BATCH_ROW_LIMIT \<and>
    (global_cap c \<noteq> 0 \<longrightarrow> credits (spent_rows rows (now - SPEND_WINDOW)) + credits taken
       \<le> max (credits (spent_rows rows (now - SPEND_WINDOW))) (global_cap c)) \<and>
    (account_cap c \<noteq> 0 \<longrightarrow> (\<forall>u.
       credits (user_rows u (spent_rows rows (now - SPEND_WINDOW))) + credits (user_rows u taken)
       \<le> max (credits (user_rows u (spent_rows rows (now - SPEND_WINDOW)))) (account_cap c))) \<and>
    (\<forall>r \<in> set (lock_allocated rows held ids tt). r \<notin> set taken \<longrightarrow> g \<le> int (length taken) \<or>
       (\<exists>d. dr = Some d \<and> opt_or (opt_or ar Map.empty (p_user r)) d \<le> int (length (user_rows (p_user r) taken))))"
proof -
  let ?kept = "lock_allocated rows held ids tt"
  let ?S = "spent_rows rows (now - SPEND_WINDOW)"
  have pos: "0 < cost" using credits_for_bounds [OF assms(1)] by simp
  note n = take_within_spec [OF assms(3)]
  have g: "g = batch_rows (global_cap c) (credits ?S) cost" by (rule pass_room_batch [OF assms(2)])
  have limit: "int (length taken) \<le> BATCH_ROW_LIMIT"
    using n(2) by (auto simp: g batch_rows_def BATCH_ROW_LIMIT_def split: option.splits)
  have w: "\<forall>r \<in> set taken. weight r = cost"
    using locked_weight [OF assms(1)] n(1) set_subseq_mono by blast
  then have ct: "credits taken = cost * int (length taken)"
    and cu: "credits (user_rows u taken) = cost * int (length (user_rows u taken))" for u
    by (simp_all add: credits_const user_rows_def)
  have glob: "credits ?S + credits taken \<le> max (credits ?S) (global_cap c)" if "global_cap c \<noteq> 0"
  proof -
    let ?a = "max 0 ((global_cap c - credits ?S) div cost)"
    have a: "row_allowance (global_cap c) (credits ?S) cost = Some ?a" using that by (simp add: row_allowance_def)
    then have "int (length taken) \<le> ?a" using n(2) by (simp add: g batch_rows_def)
    from row_allowance_bound [OF a pos this] show ?thesis by (simp add: ct)
  qed
  have acct: "credits (user_rows u ?S) + credits (user_rows u taken) \<le> max (credits (user_rows u ?S)) (account_cap c)"
    if "account_cap c \<noteq> 0" for u
  proof -
    have "dr = row_allowance (account_cap c) 0 cost"
      using assms(2) by (auto simp: pass_room_def Let_def split: prod.splits)
    with \<open>account_cap c \<noteq> 0\<close> obtain d where d: "dr = Some d" by (auto simp: row_allowance_def)
    note a = pass_room_account [OF assms(2) that d, of u]
    then have "0 \<le> opt_or (opt_or ar Map.empty u) d" using that by (auto simp: row_allowance_def)
    then have "int (length (user_rows u taken)) \<le> opt_or (opt_or ar Map.empty u) d"
      using n(3) [OF d, of u] by simp
    from row_allowance_bound [OF a pos this] show ?thesis by (simp add: cu)
  qed
  show ?thesis by (intro conjI impI allI n(1) n(4) limit glob acct)
qed

definition sample_queued :: pending_row where
  "sample_queued = (sample_sent ''normal'' 0)\<lparr> p_id := ''q'', p_status := P_queued, p_submitted_at := None \<rparr>"

theorem caps_never_exceeded_witness:
  "let rows = [sample_sent ''advanced'' 5, sample_queued];
       caps = \<lparr> global_cap = 3, account_cap = 3, global_source = ''unset'' \<rparr>
   in credits (spent_rows rows (10 - SPEND_WINDOW))
        + credits (take_within_caps (lock_allocated rows (\<lambda>_. False) [''q''] ''normal'')
            (snd (snd (pass_room rows 10 caps 1))) (fst (snd (pass_room rows 10 caps 1))) (fst (pass_room rows 10 caps 1)))
      \<le> 3"
proof -
  let ?rows = "[sample_sent ''advanced'' 5, sample_queued]"
  let ?c = "\<lparr> global_cap = 3, account_cap = 3, global_source = ''unset'' \<rparr>"
  have "credits_for ''normal'' = Some 1" by code_simp
  from caps_never_exceeded [OF this, of ?rows 10 ?c, OF surjective_pairing [THEN trans, OF arg_cong2 [of _ _ _ _ Pair, OF refl surjective_pairing]] refl]
  have "credits (spent_rows ?rows (10 - SPEND_WINDOW))
        + credits (take_within_caps (lock_allocated ?rows (\<lambda>_. False) [''q''] ''normal'')
            (snd (snd (pass_room ?rows 10 ?c 1))) (fst (snd (pass_room ?rows 10 ?c 1))) (fst (pass_room ?rows 10 ?c 1)))
      \<le> max (credits (spent_rows ?rows (10 - SPEND_WINDOW))) 3" by auto
  moreover have "credits (spent_rows ?rows (10 - SPEND_WINDOW)) \<le> 3" by code_simp
  ultimately show ?thesis by simp
qed

text \<open>
  The index scan of an account round visits every account that has a row queued by the watermark
  exactly once, in ascending order.
\<close>

theorem discover_accounts_exact:
  "discover_accounts rows tt wm = sorted_distinct (queued_users rows tt wm) \<and>
   set (discover_accounts rows tt wm) =
     {u. \<exists>p \<in> set rows. p_user p = u \<and> p_status p = P_queued \<and> p_trace_type p = tt \<and> p_enqueued_at p \<le> wm} \<and>
   distinct (discover_accounts rows tt wm) \<and> sorted (discover_accounts rows tt wm)"
  by (auto simp: discover_accounts_def next_users_eq queued_users_def)

end
