(* ===== verification/PauseState.thy ===== *)
theory PauseState
  imports SkipTraceCapacity
begin

text \<open>
  The pause state that the dispatcher publishes in Redis and the API reads,
  \<^verbatim>\<open>src/utils/skip_trace_pause_state.py\<close> and \<^verbatim>\<open>_publish_pause_state\<close> of the dispatcher. The hash maps
  field names to texts; a text is modelled by what the code makes of it: an ISO time, a JSON scope, or
  other text (the fence). A moment is its instant in microseconds, for the clock of the tick, of Redis and
  of the reader alike. The lemmas show that publishes commute (the newest transaction wins in any order),
  that a reader sees what was published, and that what it tells a customer is true of the queue.
\<close>

definition GRACE :: int where
  "GRACE = 120 * 1000000"

text \<open>A member of a scope's JSON object, and a field's text.\<close>

datatype wire_time = W_null | W_never | W_iso int | W_other

datatype wire = W_text string | W_time int | W_scope wire_time wire_time | W_malformed

type_synonym pause_hash = "string \<rightharpoonup> wire"

text \<open>The key: its hash and the instant at which it expires.\<close>

type_synonym pause_key = "(pause_hash \<times> int) option"

definition live_hash :: "int \<Rightarrow> pause_key \<Rightarrow> pause_hash" where
  "live_hash t k = (case k of None \<Rightarrow> Map.empty | Some (h, expires) \<Rightarrow> if t < expires then h else Map.empty)"

definition digit :: "char \<Rightarrow> bool" where
  "digit c = (let n = of_char c :: nat in 48 \<le> n \<and> n \<le> 57)"

definition is_fence :: "string \<Rightarrow> bool" where
  "is_fence s \<longleftrightarrow> length s = 20 \<and> list_all digit s"

definition stored_fence :: "pause_hash \<Rightarrow> string option" where
  "stored_fence h =
     (case h ''fence'' of Some (W_text s) \<Rightarrow> if is_fence s then Some s else None | _ \<Rightarrow> None)"

definition set_fields :: "(string \<times> wire) list \<Rightarrow> pause_hash" where
  "set_fields fs = fold (\<lambda>(k, v) h. h(k \<mapsto> v)) fs Map.empty"

text \<open>The Lua script at the instant \<open>t\<close>: its result and the key it leaves.\<close>

definition publish_lua :: "int \<Rightarrow> string \<Rightarrow> int \<Rightarrow> (string \<times> wire) list \<Rightarrow> pause_key \<Rightarrow> bool \<times> pause_key" where
  "publish_lua t incoming ttl fs k =
     (case stored_fence (live_hash t k) of
        Some cur \<Rightarrow> if incoming \<le> cur then (False, k)
                    else (True, Some (set_fields fs, t + ttl * 1000000))
      | None \<Rightarrow> (True, Some (set_fields fs, t + ttl * 1000000)))"

definition fence_str :: "int \<Rightarrow> string option" where
  "fence_str xid =
     (let s = pad_left 20 (CHR ''0'') (show_int xid) in if is_fence s then Some s else None)"

fun encode_value :: "resume \<Rightarrow> wire_time" where
  "encode_value Not_binding = W_null"
| "encode_value Never = W_never"
| "encode_value (At t) = W_iso t"

definition encode_scope :: "scope_resume_times \<Rightarrow> wire" where
  "encode_scope s = W_scope (encode_value (normal_resume s)) (encode_value (advanced_resume s))"

definition heartbeat_seconds :: "int \<Rightarrow> int" where
  "heartbeat_seconds interval_s = 2 * interval_s * 1000000 + GRACE"

definition span_with :: "int \<Rightarrow> resume \<Rightarrow> int \<Rightarrow> int" where
  "span_with now v span = (case v of At t \<Rightarrow> max span (t - now + GRACE) | _ \<Rightarrow> span)"

definition ttl_seconds :: "int \<Rightarrow> int \<Rightarrow> scope_resume_times list \<Rightarrow> int" where
  "ttl_seconds now interval_s scopes =
     max 1 (- ((- fold (\<lambda>s span. span_with now (advanced_resume s) (span_with now (normal_resume s) span))
       scopes (heartbeat_seconds interval_s)) div 1000000))"

definition publish_fields :: "string \<Rightarrow> int \<Rightarrow> int \<Rightarrow> pause_snapshot \<Rightarrow> (string \<times> wire) list" where
  "publish_fields fence now interval_s snap =
     [(''fence'', W_text fence), (''published_at'', W_time now),
      (''fresh_until'', W_time (now + heartbeat_seconds interval_s)),
      (''global'', encode_scope (global_scope snap)),
      (''account_default'', encode_scope (account_default snap))] @
     map (\<lambda>(u, s). (u, encode_scope s)) (account_scopes snap)"

definition publish_ttl :: "int \<Rightarrow> int \<Rightarrow> pause_snapshot \<Rightarrow> int" where
  "publish_ttl now interval_s snap =
     ttl_seconds now interval_s (global_scope snap # account_default snap # map snd (account_scopes snap))"

definition publish :: "int \<Rightarrow> string \<Rightarrow> int \<Rightarrow> int \<Rightarrow> pause_snapshot \<Rightarrow> pause_key \<Rightarrow> bool \<times> pause_key" where
  "publish t fence now interval_s snap k =
     publish_lua t fence (publish_ttl now interval_s snap) (publish_fields fence now interval_s snap) k"

definition publish_tombstone :: "int \<Rightarrow> string \<Rightarrow> int \<Rightarrow> pause_key \<Rightarrow> bool \<times> pause_key" where
  "publish_tombstone t fence interval_s k =
     publish_lua t fence (- ((- heartbeat_seconds interval_s) div 1000000))
       [(''fence'', W_text fence), (''state'', W_text ''disabled'')] k"

text \<open>
  \<^verbatim>\<open>_pause_fence\<close>: the transaction id, on the primary and read-write only; None publishes nothing, and
  an id out of range raises, which the publisher also turns into publishing nothing.
\<close>

definition pause_fence :: "int \<Rightarrow> bool \<Rightarrow> bool \<Rightarrow> string option" where
  "pause_fence xid in_recovery read_only = (if in_recovery \<or> read_only then None else fence_str xid)"

definition publish_pause_state ::
    "int \<Rightarrow> bool \<Rightarrow> string option \<Rightarrow> pending_row list \<Rightarrow> caps \<Rightarrow> int \<Rightarrow> int \<Rightarrow> pause_key \<Rightarrow> pause_key" where
  "publish_pause_state t tombstone fence rows c now interval_s k =
     (case fence of
        None \<Rightarrow> k
      | Some f \<Rightarrow>
          if tombstone then snd (publish_tombstone t f interval_s k)
          else (case resume_times rows now c of
                  None \<Rightarrow> k
                | Some snap \<Rightarrow> snd (publish t f now interval_s snap k)))"

subsection \<open>The reader\<close>

datatype pause_state = Paused resume resume | Not_paused | Unknown

definition parse_utc :: "wire option \<Rightarrow> int option" where
  "parse_utc v = (case v of Some (W_time t) \<Rightarrow> Some t | _ \<Rightarrow> None)"

fun parse_normal :: "wire_time \<Rightarrow> resume option" where
  "parse_normal W_null = Some Not_binding"
| "parse_normal (W_iso t) = Some (At t)"
| "parse_normal W_never = None"
| "parse_normal W_other = None"

fun parse_advanced :: "wire_time \<Rightarrow> resume option" where
  "parse_advanced W_null = Some Not_binding"
| "parse_advanced W_never = Some Never"
| "parse_advanced (W_iso t) = Some (At t)"
| "parse_advanced W_other = None"

definition parse_scope :: "wire option \<Rightarrow> scope_resume_times option" where
  "parse_scope raw =
     (case raw of
        Some (W_scope n a) \<Rightarrow>
          (case (parse_normal n, parse_advanced a) of
             (Some rn, Some ra) \<Rightarrow> Some \<lparr> normal_resume = rn, advanced_resume = ra \<rparr>
           | _ \<Rightarrow> None)
      | _ \<Rightarrow> None)"

definition ahead :: "int \<Rightarrow> resume \<Rightarrow> int list" where
  "ahead now r = (case r of At t \<Rightarrow> if t > now then [t] else [] | _ \<Rightarrow> [])"

definition combine :: "resume \<Rightarrow> resume \<Rightarrow> int \<Rightarrow> resume" where
  "combine a b now =
     (if a = Never \<or> b = Never then Never
      else case ahead now a @ ahead now b of
             [] \<Rightarrow> Not_binding
           | t # ts \<Rightarrow> At (fold max ts t))"

text \<open>The values of \<^verbatim>\<open>HMGET\<close>; None is Redis failing.\<close>

definition read_pause_state :: "pause_hash option \<Rightarrow> string \<Rightarrow> int \<Rightarrow> pause_state" where
  "read_pause_state vals user_id now =
     (case vals of
        None \<Rightarrow> Unknown
      | Some h \<Rightarrow>
          if stored_fence h = None then Unknown
          else if parse_utc (h ''published_at'') = None then Unknown
          else case parse_utc (h ''fresh_until'') of
            None \<Rightarrow> Unknown
          | Some fresh_until \<Rightarrow>
              if fresh_until \<le> now then Unknown
              else let own = h user_id; dflt = h ''account_default''
                   in case (parse_scope (h ''global''), parse_scope (if own \<noteq> None then own else dflt)) of
                        (Some g, Some a) \<Rightarrow>
                          if own \<noteq> None \<and> parse_scope dflt = None then Unknown
                          else let normal = combine (normal_resume g) (normal_resume a) now;
                                   adv = combine (advanced_resume g) (advanced_resume a) now
                               in if normal = Not_binding \<and> adv = Not_binding then Not_paused
                                  else Paused normal adv
                      | _ \<Rightarrow> Unknown)"


subsection \<open>Fences are ordered as transaction ids\<close>

fun dval :: "string \<Rightarrow> int" where
  "dval [] = 0"
| "dval (c # cs) = (int (of_char c) - 48) * 10 ^ length cs + dval cs"

lemma dval_bounds: "list_all digit s \<Longrightarrow> 0 \<le> dval s \<and> dval s < 10 ^ length s"
proof (induction s)
  case (Cons c cs)
  then have IH: "0 \<le> dval cs" "dval cs < 10 ^ length cs" by simp_all
  have d: "0 \<le> int (of_char c) - 48" "int (of_char c) - 48 \<le> 9"
    using Cons.prems by (simp_all add: digit_def Let_def)
  have "(int (of_char c) - 48) * 10 ^ length cs \<le> (9 :: int) * 10 ^ length cs"
    using d(2) by (rule mult_right_mono) simp
  then have "(int (of_char c) - 48) * 10 ^ length cs + dval cs < 10 * 10 ^ length cs" using IH by linarith
  moreover have "0 \<le> (int (of_char c) - 48) * 10 ^ length cs" using d(1) by (rule mult_nonneg_nonneg) simp
  ultimately show ?case using IH by simp
qed simp

lemma dval_append: "dval (xs @ ys) = dval xs * 10 ^ length ys + dval ys"
  by (induction xs) (simp_all add: power_add algebra_simps)

lemma dval_less:
  assumes "length s = length t" "list_all digit s" "list_all digit t"
  shows "s < t \<longleftrightarrow> dval s < dval t"
  using assms
proof (induction s t rule: list_induct2)
  case (Cons c cs d ds)
  let ?n = "10 ^ length cs :: int"
  note b = dval_bounds [of cs] dval_bounds [of ds]
  have bc: "0 \<le> dval cs" "dval cs < ?n" "0 \<le> dval ds" "dval ds < ?n" using b Cons by simp_all
  have lt: "int (of_char c) < int (of_char d) \<Longrightarrow> dval (c # cs) < dval (d # ds)" for c d :: char
  proof -
    assume "int (of_char c) < int (of_char d)"
    then have "(int (of_char c) - 48 + 1) * ?n \<le> (int (of_char d) - 48) * ?n"
      by (intro mult_right_mono) simp_all
    then show ?thesis using bc Cons(1) by (simp add: algebra_simps)
  qed
  have ch: "x < y \<longleftrightarrow> int (of_char x) < int (of_char y)" for x y :: char
    by (simp add: less_char_def)
  consider "c < d" | "d < c" | "c = d" by fastforce
  then show ?case
  proof cases
    case 1
    then show ?thesis using lt ch by simp
  next
    case 2
    then have "dval (d # ds) < dval (c # cs)"
    proof -
      have "int (of_char d) < int (of_char c)" using 2 ch by simp
      then have "(int (of_char d) - 48 + 1) * ?n \<le> (int (of_char c) - 48) * ?n"
        by (intro mult_right_mono) simp_all
      then show ?thesis using bc Cons(1) by (simp add: algebra_simps)
    qed
    moreover have "\<not> c < d" "c \<noteq> d" using 2 by auto
    ultimately show ?thesis by simp
  next
    case 3
    then show ?thesis using Cons by simp
  qed
qed simp

lemma dval_show_nat: "dval (show_nat n) = int n"
proof (induction n rule: show_nat.induct)
  case (1 n)
  show ?case
  proof (cases "n < 10")
    case True
    then show ?thesis by (subst show_nat.simps) simp
  next
    case False
    have "dval (show_nat n) = dval (show_nat (n div 10)) * 10 + (int (n mod 10))"
      using False by (subst show_nat.simps) (simp add: dval_append)
    also have "\<dots> = int (n div 10 * 10 + n mod 10)"
      by (simp only: 1 [OF False] of_nat_add of_nat_mult of_nat_numeral)
    finally show ?thesis by (simp only: div_mult_mod_eq)
  qed
qed

lemma dval_pad: "dval (pad_left w (CHR ''0'') s) = dval s"
proof -
  have "dval (replicate k (CHR ''0'')) = 0" for k by (induction k) simp_all
  then show ?thesis by (simp add: pad_left_def dval_append)
qed

lemma fence_str_dval:
  assumes "fence_str x = Some s"
  shows "is_fence s" "dval s = x" "0 \<le> x"
proof -
  have s: "s = pad_left 20 (CHR ''0'') (show_int x)" "is_fence s"
    using assms by (auto simp: fence_str_def Let_def split: if_splits)
  show "0 \<le> x"
  proof (rule ccontr)
    assume "\<not> 0 \<le> x"
    then have "CHR ''-'' \<in> set s" by (simp add: s(1) show_int_def pad_left_def)
    moreover have "\<not> digit (CHR ''-'')" by code_simp
    ultimately show False using s(2) by (auto simp: is_fence_def list_all_iff)
  qed
  then show "dval s = x" by (simp add: s(1) dval_pad dval_show_nat show_int_def)
  show "is_fence s" by (rule s(2))
qed

lemma fence_less:
  assumes "fence_str x = Some s" "fence_str y = Some t"
  shows "s < t \<longleftrightarrow> x < y"
  using dval_less [of s t] fence_str_dval [OF assms(1)] fence_str_dval [OF assms(2)]
  by (simp add: is_fence_def)


subsection \<open>Publishes commute\<close>

text \<open>One publish of a tick: its transaction, clock and snapshot (None is the tombstone).\<close>

record tick =
  tick_xid :: int
  tick_now :: int
  tick_snapshot :: "pause_snapshot option"

definition tick_fence :: "tick \<Rightarrow> string" where
  "tick_fence k = opt_or (fence_str (tick_xid k)) []"

definition do_tick :: "int \<Rightarrow> int \<Rightarrow> tick \<Rightarrow> pause_key \<Rightarrow> pause_key" where
  "do_tick t interval_s k key =
     snd (case tick_snapshot k of
            None \<Rightarrow> publish_tombstone t (tick_fence k) interval_s key
          | Some snap \<Rightarrow> publish t (tick_fence k) (tick_now k) interval_s snap key)"

lemma set_fields_map_of: "set_fields fs = map_of (rev fs)"
proof -
  have "fold (\<lambda>(k, v) h. h(k \<mapsto> v)) fs h = h ++ map_of (rev fs)" for h :: pause_hash
    by (induction fs arbitrary: h) (auto simp: map_add_upd_left map_add_assoc [symmetric])
  then show ?thesis by (simp add: set_fields_def)
qed

lemma set_fields_head: "k \<notin> fst ` set fs \<Longrightarrow> set_fields ((k, v) # fs) k = Some v"
proof -
  assume "k \<notin> fst ` set fs"
  then have "map_of (rev fs) k = None" by (simp add: map_of_eq_None_iff)
  then show ?thesis by (simp add: set_fields_map_of map_add_def)
qed

lemma stored_fence_written:
  assumes "is_fence f" "''fence'' \<notin> fst ` set fs" "0 < ttl"
  shows "stored_fence (live_hash t (Some (set_fields ((''fence'', W_text f) # fs), t + ttl * 1000000))) = Some f"
  using assms by (simp add: stored_fence_def live_hash_def set_fields_head)

lemma ttl_positive: "0 < ttl_seconds now interval_s scopes"
  by (simp add: ttl_seconds_def)

definition reserved_fields :: "string list" where
  "reserved_fields = [''fence'', ''published_at'', ''fresh_until'', ''global'', ''account_default'']"

definition well_named :: "pause_snapshot \<Rightarrow> bool" where
  "well_named snap \<longleftrightarrow> (\<forall>u \<in> fst ` set (account_scopes snap). u \<notin> set reserved_fields)"

definition valid_tick :: "tick \<Rightarrow> bool" where
  "valid_tick k \<longleftrightarrow> fence_str (tick_xid k) \<noteq> None \<and>
     (case tick_snapshot k of None \<Rightarrow> True | Some snap \<Rightarrow> well_named snap)"

text \<open>What a tick does to the key: it writes its own view, or is refused by a newer fence.\<close>

definition tick_view :: "int \<Rightarrow> int \<Rightarrow> tick \<Rightarrow> pause_key" where
  "tick_view t interval_s k = do_tick t interval_s k None"

lemma publish_lua_cases:
  "snd (publish_lua t f ttl fs key) =
     (case stored_fence (live_hash t key) of
        Some cur \<Rightarrow> if f \<le> cur then key else snd (publish_lua t f ttl fs None)
      | None \<Rightarrow> snd (publish_lua t f ttl fs None))"
  by (simp add: publish_lua_def live_hash_def stored_fence_def split: option.split)

lemma do_tick_cases:
  "do_tick t interval_s k key =
     (case stored_fence (live_hash t key) of
        Some cur \<Rightarrow> if tick_fence k \<le> cur then key else tick_view t interval_s k
      | None \<Rightarrow> tick_view t interval_s k)"
  unfolding do_tick_def tick_view_def publish_def publish_tombstone_def
  by (cases "tick_snapshot k") (simp_all add: publish_lua_cases split: option.split)

lemma heartbeat_ttl: "0 \<le> interval_s \<Longrightarrow> 0 < - ((- heartbeat_seconds interval_s) div 1000000)"
proof -
  assume "0 \<le> interval_s"
  then have "0 < heartbeat_seconds interval_s" by (simp add: heartbeat_seconds_def GRACE_def)
  then show ?thesis by (simp add: div_neg_pos_less0)
qed

lemma tick_view_fence:
  assumes "valid_tick k" "0 \<le> interval_s"
  shows "stored_fence (live_hash t (tick_view t interval_s k)) = Some (tick_fence k)"
proof -
  obtain f where f: "fence_str (tick_xid k) = Some f" using assms(1) by (auto simp: valid_tick_def)
  note i = fence_str_dval(1) [OF f]
  have emp: "stored_fence (live_hash t None) = None" by (simp add: live_hash_def stored_fence_def)
  show ?thesis
  proof (cases "tick_snapshot k")
    case None
    have "''fence'' \<notin> fst ` set [(''state'', W_text ''disabled'')]" by simp
    from stored_fence_written [OF i this heartbeat_ttl [OF assms(2)]] show ?thesis
      by (simp add: tick_view_def do_tick_def None publish_tombstone_def publish_lua_def emp tick_fence_def f)
  next
    case (Some snap)
    let ?fs = "tl (publish_fields f (tick_now k) interval_s snap)"
    have "''fence'' \<notin> fst ` set ?fs"
      using assms(1) by (auto simp: valid_tick_def Some publish_fields_def well_named_def reserved_fields_def)
    from stored_fence_written [OF i this ttl_positive] show ?thesis
      by (simp add: tick_view_def do_tick_def Some publish_def publish_lua_def emp tick_fence_def f
        publish_ttl_def publish_fields_def)
  qed
qed

text \<open>
  The newest database transaction wins whatever order the publishes reach Redis in: after any sequence
  of publishes and tombstones on a key without a fence, the key holds exactly what the tick with the
  numerically largest transaction id writes to an empty key.
\<close>

theorem newest_publish_wins:
  assumes "\<forall>k \<in> set ticks. valid_tick k" "ticks \<noteq> []" "distinct (map tick_xid ticks)" "0 \<le> interval_s"
    and "stored_fence (live_hash t key) = None"
  shows "\<exists>newest \<in> set ticks. (\<forall>k \<in> set ticks. tick_xid k \<le> tick_xid newest) \<and>
    fold (do_tick t interval_s) ticks key = do_tick t interval_s newest None"
  using assms(1-3)
proof (induction ticks rule: rev_induct)
  case (snoc k ks)
  show ?case
  proof (cases "ks = []")
    case True
    then show ?thesis using assms(5) by (simp add: do_tick_cases [of t interval_s k key] tick_view_def)
  next
    case False
    then obtain m where m: "m \<in> set ks" "\<forall>j \<in> set ks. tick_xid j \<le> tick_xid m"
      "fold (do_tick t interval_s) ks key = tick_view t interval_s m"
      using snoc by (auto simp: tick_view_def)
    have v: "valid_tick k" "valid_tick m" using snoc.prems(1) m(1) by auto
    then have le: "tick_fence k \<le> tick_fence m \<longleftrightarrow> tick_xid k \<le> tick_xid m"
      using fence_less by (auto simp: valid_tick_def tick_fence_def linorder_not_less [symmetric])
    have "fold (do_tick t interval_s) (ks @ [k]) key =
        (if tick_xid k \<le> tick_xid m then tick_view t interval_s m else tick_view t interval_s k)"
      by (simp add: m(3) do_tick_cases [of t interval_s k] tick_view_fence [OF v(2) assms(4)] le)
    then show ?thesis using m(1,2)
      by (cases "tick_xid k \<le> tick_xid m") (force simp: tick_view_def)+
  qed
qed simp


definition sample_scope :: "resume \<Rightarrow> scope_resume_times" where
  "sample_scope r = \<lparr> normal_resume = Not_binding, advanced_resume = r \<rparr>"

definition sample_tick :: "int \<Rightarrow> tick" where
  "sample_tick x =
     \<lparr> tick_xid = x, tick_now = 0, tick_snapshot =
         Some \<lparr> global_scope = sample_scope (At (x * 1000000)), account_default = sample_scope Not_binding,
                account_scopes = [(''u1'', sample_scope Never)] \<rparr> \<rparr>"

theorem newest_publish_wins_witness:
  "\<exists>newest \<in> set [sample_tick 7, sample_tick 12, sample_tick 9].
     (\<forall>k \<in> set [sample_tick 7, sample_tick 12, sample_tick 9]. tick_xid k \<le> tick_xid newest) \<and>
     fold (do_tick 0 60) [sample_tick 7, sample_tick 12, sample_tick 9] None = do_tick 0 60 newest None"
proof (rule newest_publish_wins)
  show "\<forall>k \<in> set [sample_tick 7, sample_tick 12, sample_tick 9]. valid_tick k" by code_simp
  show "distinct (map tick_xid [sample_tick 7, sample_tick 12, sample_tick 9])" by code_simp
  show "stored_fence (live_hash 0 None) = None" by (simp add: live_hash_def stored_fence_def)
qed simp_all

subsection \<open>What a reader is told\<close>

lemma parse_encode:
  "normal_resume s \<noteq> Never \<Longrightarrow> parse_scope (Some (encode_scope s)) = Some s"
  by (cases "normal_resume s"; cases "advanced_resume s") (simp_all add: parse_scope_def encode_scope_def)

lemma parse_encode_never:
  "normal_resume s = Never \<Longrightarrow> parse_scope (Some (encode_scope s)) = None"
  by (simp add: parse_scope_def encode_scope_def)

definition account_scope :: "pause_snapshot \<Rightarrow> string \<Rightarrow> scope_resume_times" where
  "account_scope snap u = opt_or (map_of (account_scopes snap) u) (account_default snap)"

lemma map_of_rev_distinct: "distinct (map fst xs) \<Longrightarrow> map_of (rev xs) = map_of xs"
  by (rule map_of_inject_set [THEN iffD2]) (simp_all add: rev_map [symmetric])

lemma published_fields:
  assumes "well_named snap" "distinct (map fst (account_scopes snap))" "u \<notin> set reserved_fields"
    "h = set_fields (publish_fields f now interval_s snap)"
  shows "h ''fence'' = Some (W_text f)" "h ''published_at'' = Some (W_time now)"
    "h ''fresh_until'' = Some (W_time (now + heartbeat_seconds interval_s))"
    "h ''global'' = Some (encode_scope (global_scope snap))"
    "h ''account_default'' = Some (encode_scope (account_default snap))"
    "h u = map_option encode_scope (map_of (account_scopes snap) u)"
proof -
  let ?as = "map (\<lambda>(u, s). (u, encode_scope s)) (account_scopes snap)"
  have fst_as: "map fst ?as = map fst (account_scopes snap)" by (simp add: comp_def case_prod_beta')
  have none: "map_of ?as k = None" if "k \<in> set reserved_fields" for k
    using assms(1) that by (auto simp: well_named_def map_of_eq_None_iff fst_as [symmetric])
  have rev_as: "map_of (rev ?as) = map_of ?as"
    by (rule map_of_rev_distinct) (simp only: fst_as assms(2))
  have h: "h = map_of (rev (take 5 (publish_fields f now interval_s snap))) ++ map_of ?as"
  proof -
    have "publish_fields f now interval_s snap = take 5 (publish_fields f now interval_s snap) @ ?as"
      by (simp add: publish_fields_def)
    then have "h = map_of (rev (take 5 (publish_fields f now interval_s snap) @ ?as))"
      unfolding assms(4) set_fields_map_of by (rule arg_cong)
    then show ?thesis by (simp only: rev_append map_of_append rev_as)
  qed
  show "h ''fence'' = Some (W_text f)" "h ''published_at'' = Some (W_time now)"
    "h ''fresh_until'' = Some (W_time (now + heartbeat_seconds interval_s))"
    "h ''global'' = Some (encode_scope (global_scope snap))"
    "h ''account_default'' = Some (encode_scope (account_default snap))"
    using none by (simp_all add: h publish_fields_def map_add_def reserved_fields_def)
  have "map_of ?as u = map_option encode_scope (map_of (account_scopes snap) u)"
    by (simp add: map_of_map)
  then show "h u = map_option encode_scope (map_of (account_scopes snap) u)"
    using assms(3) by (auto simp: h publish_fields_def map_add_def reserved_fields_def split: option.split)
qed

lemma span_grows: "span \<le> fold (\<lambda>s span. span_with now (advanced_resume s) (span_with now (normal_resume s) span)) ss span"
proof (induction ss arbitrary: span)
  case (Cons s ss)
  have w: "span \<le> span_with now v span" for v span by (simp add: span_with_def split: resume.split)
  show ?case using Cons [of "span_with now (advanced_resume s) (span_with now (normal_resume s) span)"]
      w [of span "normal_resume s"] w [of "span_with now (normal_resume s) span" "advanced_resume s"] by simp
qed simp

lemma ttl_covers: "heartbeat_seconds interval_s \<le> ttl_seconds now interval_s scopes * 1000000"
proof -
  let ?F = "fold (\<lambda>s span. span_with now (advanced_resume s) (span_with now (normal_resume s) span)) scopes
    (heartbeat_seconds interval_s)"
  have "- ((- ?F) div 1000000) * 1000000 \<ge> ?F"
    using div_mult_mod_eq [of "- ?F" 1000000] pos_mod_sign [of 1000000 "- ?F"] by simp
  moreover have "- ((- ?F) div 1000000) \<le> ttl_seconds now interval_s scopes" by (simp add: ttl_seconds_def)
  ultimately show ?thesis using span_grows [of "heartbeat_seconds interval_s" now scopes] by linarith
qed

text \<open>
  A publish that is accepted is what every reader sees until it goes stale: from the moment it is written
  until \<^verbatim>\<open>fresh_until\<close> an account reads exactly the combination of the published global scope and its own
  (or the default) scope, and from then on UNKNOWN; the key's TTL never cuts this short.
\<close>

theorem published_view_is_read:
  assumes "publish t0 f now interval_s snap key = (True, key')" "is_fence f" "now \<le> t0" "t0 \<le> t"
    and "well_named snap" "distinct (map fst (account_scopes snap))" "u \<notin> set reserved_fields"
    and "normal_resume (global_scope snap) \<noteq> Never" "normal_resume (account_default snap) \<noteq> Never"
      "normal_resume (account_scope snap u) \<noteq> Never"
  shows "read_pause_state (Some (live_hash t key')) u t =
    (if now + heartbeat_seconds interval_s \<le> t then Unknown
     else let n = combine (normal_resume (global_scope snap)) (normal_resume (account_scope snap u)) t;
              a = combine (advanced_resume (global_scope snap)) (advanced_resume (account_scope snap u)) t
          in if n = Not_binding \<and> a = Not_binding then Not_paused else Paused n a)"
proof -
  let ?h = "set_fields (publish_fields f now interval_s snap)"
  let ?ttl = "publish_ttl now interval_s snap"
  have key: "key' = Some (?h, t0 + ?ttl * 1000000)"
    using assms(1) by (auto simp: publish_def publish_lua_def split: option.splits if_splits)
  have fresh: "now + heartbeat_seconds interval_s \<le> t0 + ?ttl * 1000000"
    using ttl_covers [of interval_s now "global_scope snap # account_default snap # map snd (account_scopes snap)"]
      assms(3) by (simp only: publish_ttl_def)
  note h = published_fields [OF assms(5-7) refl, of f now interval_s]
  show ?thesis
  proof (cases "t < t0 + ?ttl * 1000000")
    case False
    then show ?thesis using fresh by (simp add: key live_hash_def read_pause_state_def stored_fence_def)
  next
    case True
    then have "live_hash t key' = ?h" by (simp add: key live_hash_def)
    moreover have "parse_scope (if ?h u \<noteq> None then ?h u else Some (encode_scope (account_default snap)))
        = Some (account_scope snap u)"
      using parse_encode [OF assms(10)] parse_encode [OF assms(9)]
      by (auto simp: h(6) account_scope_def opt_or_def split: option.splits)
    ultimately show ?thesis
      using parse_encode [OF assms(8)] parse_encode [OF assms(9)] assms(2)
      by (simp add: read_pause_state_def stored_fence_def h(1-5) parse_utc_def Let_def)
  qed
qed

theorem published_view_is_read_witness:
  "\<exists>key'. publish 0 (tick_fence (sample_tick 7)) 0 60 (the (tick_snapshot (sample_tick 7))) None = (True, key') \<and>
     read_pause_state (Some (live_hash 5 key')) ''u2'' 5 = Paused Not_binding (At 7000000)"
proof -
  let ?s = "the (tick_snapshot (sample_tick 7))" and ?f = "tick_fence (sample_tick 7)"
  have p: "publish 0 ?f 0 60 ?s None = (True, snd (publish 0 ?f 0 60 ?s None))"
    by (simp add: publish_def publish_lua_def live_hash_def stored_fence_def)
  have "is_fence ?f" by code_simp
  moreover have "well_named ?s" "distinct (map fst (account_scopes ?s))" "''u2'' \<notin> set reserved_fields"
    "normal_resume (global_scope ?s) \<noteq> Never" "normal_resume (account_default ?s) \<noteq> Never"
    "normal_resume (account_scope ?s ''u2'') \<noteq> Never" by code_simp+
  ultimately have "read_pause_state (Some (live_hash 5 (snd (publish 0 ?f 0 60 ?s None)))) ''u2'' 5 =
    (if 0 + heartbeat_seconds 60 \<le> 5 then Unknown
     else let n = combine (normal_resume (global_scope ?s)) (normal_resume (account_scope ?s ''u2'')) 5;
              a = combine (advanced_resume (global_scope ?s)) (advanced_resume (account_scope ?s ''u2'')) 5
          in if n = Not_binding \<and> a = Not_binding then Not_paused else Paused n a)"
    by (intro published_view_is_read [OF p]) simp_all
  also have "\<dots> = Paused Not_binding (At 7000000)" by code_simp
  finally show ?thesis using p by blast
qed


subsection \<open>What a customer is told is true of the queue\<close>

definition fits :: "pending_row list \<Rightarrow> int \<Rightarrow> int \<Rightarrow> int \<Rightarrow> bool" where
  "fits rows cap cost t \<longleftrightarrow> cap = 0 \<or> credits (spent_rows rows (t - SPEND_WINDOW)) + cost \<le> cap"

text \<open>The announcement \<open>r\<close>, made at \<open>now\<close>, is true of the rows.\<close>

definition true_of :: "pending_row list \<Rightarrow> int \<Rightarrow> int \<Rightarrow> int \<Rightarrow> resume \<Rightarrow> bool" where
  "true_of rows cap cost now r =
     (case r of
        Not_binding \<Rightarrow> fits rows cap cost now
      | Never \<Rightarrow> cap \<noteq> 0 \<and> cap < cost
      | At t \<Rightarrow> fits rows cap cost t)"

lemma fits_later: "fits rows cap cost t \<Longrightarrow> t \<le> t' \<Longrightarrow> fits rows cap cost t'"
proof -
  assume a: "fits rows cap cost t" "t \<le> t'"
  have "spent_rows rows (t' - SPEND_WINDOW) = filter (\<lambda>p. submitted_instant p \<ge> t' - SPEND_WINDOW) (spent_rows rows (t - SPEND_WINDOW))"
    using a(2) by (auto simp: spent_rows_def intro!: filter_cong)
  then have "credits (spent_rows rows (t' - SPEND_WINDOW)) \<le> credits (spent_rows rows (t - SPEND_WINDOW))"
    by (simp add: credits_filter_le)
  with a(1) show ?thesis by (auto simp: fits_def)
qed

lemma scope_true:
  assumes "known rows" "scope_times rows (now - SPEND_WINDOW) cap = Some s" "c = 1 \<or> c = 2"
  shows "true_of rows cap c now (resume_for c s)"
  using scope_times_exact [OF assms(1,3), of "now - SPEND_WINDOW" cap] assms(2)
  by (auto simp: true_of_def fits_def split: resume.splits)

lemma not_binding_true: "true_of rows 0 c now Not_binding"
  by (simp add: true_of_def fits_def)

lemma running_last: "ps \<noteq> [] \<Longrightarrow> \<exists>x \<in> set (running acc ps). snd x = acc + credits ps"
proof (induction acc ps rule: running.induct)
  case (2 acc p ps)
  then show ?case by (cases ps) (auto simp: algebra_simps)
qed simp

lemma walk_empty:
  assumes "threshold_walk rows since need = []" "spent_rows rows since \<noteq> []"
  shows "credits (spent_rows rows since) < need"
proof -
  let ?ps = "sort_key submitted_instant (spent_rows rows since)"
  have "filter (\<lambda>(at, run). run \<ge> need) (running 0 ?ps) = []" using assms(1) by (simp add: threshold_walk_def)
  then have "\<forall>x \<in> set (running 0 ?ps). snd x < need" by (auto simp: filter_empty_conv)
  moreover have "?ps \<noteq> []" using assms(2) by (metis set_empty set_sort)
  ultimately show ?thesis using running_last [of ?ps 0] by fastforce
qed

lemma collect_map_of:
  "collect (map (\<lambda>u. (u, f u)) us) = Some ys \<Longrightarrow> map_of ys u = (if u \<in> set us then f u else None)"
proof (induction us arbitrary: ys)
  case (Cons v us)
  then obtain s zs where "f v = Some s" "collect (map (\<lambda>u. (u, f u)) us) = Some zs" "ys = (v, s) # zs"
    by (cases "f v") auto
  then show ?case using Cons.IH by auto
qed simp

lemma resume_times_scopes:
  assumes "resume_times rows now c = Some snap"
  shows "scope_resume (account_cap c) 0 (\<lambda>_. None) = Some (account_default snap)"
    and "global_scope snap = (if global_cap c = 0 then NOT_BINDING else the (scope_times rows (now - SPEND_WINDOW) (global_cap c)))"
    and "global_cap c \<noteq> 0 \<Longrightarrow> scope_times rows (now - SPEND_WINDOW) (global_cap c) \<noteq> None"
    and "map_of (account_scopes snap) u =
      (if account_cap c \<noteq> 0 \<and> u \<in> set (paused_accounts rows (now - SPEND_WINDOW) (account_cap c))
       then scope_times (user_rows u rows) (now - SPEND_WINDOW) (account_cap c) else None)"
  using assms collect_map_of [of "\<lambda>u. scope_times (user_rows u rows) (now - SPEND_WINDOW) (account_cap c)"
      "paused_accounts rows (now - SPEND_WINDOW) (account_cap c)" _ u]
  by (auto simp: resume_times_def Let_def split: option.splits if_splits)

lemma user_spent: "user_rows u (spent_rows rows since) = spent_rows (user_rows u rows) since"
  by (simp add: user_rows_def spent_rows_def conj_commute)

lemma default_resume:
  assumes "scope_resume cap 0 (\<lambda>_. None) = Some d" "c = 1 \<or> c = 2"
  shows "resume_for c d = (if cap = 0 then Not_binding else if cap < c then Never else Not_binding)"
  using assms by (auto simp: scope_resume_def resume_one_def resume_for_def split: if_splits)

lemma account_true:
  assumes k: "known rows" and s: "resume_times rows now c = Some snap" and k12: "k = 1 \<or> k = 2"
  shows "true_of (user_rows u rows) (account_cap c) k now (resume_for k (account_scope snap u))"
proof -
  let ?w = "now - SPEND_WINDOW" and ?cap = "account_cap c" and ?ur = "user_rows u rows"
  note sc = resume_times_scopes [OF s]
  show ?thesis
  proof (cases "?cap \<noteq> 0 \<and> u \<in> set (paused_accounts rows ?w ?cap)")
    case True
    have "known ?ur" using k by (auto simp: known_def user_rows_def list_all_iff)
    moreover from this obtain s where "scope_times ?ur ?w ?cap = Some s" using scope_times_total by blast
    ultimately show ?thesis using scope_true [OF _ _ k12] True by (simp add: account_scope_def sc(4))
  next
    case False
    then have d: "account_scope snap u = account_default snap" by (auto simp: account_scope_def sc(4))
    note r = default_resume [OF sc(1) k12]
    have "?cap = 0 \<or> credits (spent_rows ?ur ?w) + k \<le> ?cap" if "\<not> ?cap < k"
    proof (rule ccontr)
      assume n: "\<not> (?cap = 0 \<or> credits (spent_rows ?ur ?w) + k \<le> ?cap)"
      show False
      proof (cases "spent_rows ?ur ?w = []")
        case True
        with n that show False by simp
      next
        case ne: False
        then obtain p where "p \<in> set (spent_rows ?ur ?w)" by (meson last_in_set)
        then have mem: "u \<in> p_user ` set (spent_rows rows ?w)" by (auto simp: spent_rows_def user_rows_def)
        then have "(u, credits (spent_rows ?ur ?w)) \<in> set (snd (spent_credits rows ?w))"
          by (metis (no_types, lifting) map_of_SomeD spent_by_user user_spent)
        then have "threshold_walk ?ur ?w (credits (spent_rows ?ur ?w) - ?cap + 1) = []"
          using False n k12 by (force simp: paused_accounts_def)
        from walk_empty [OF this ne] have "?cap < 1" by simp
        with n that k12 show False by auto
      qed
    qed
    then show ?thesis using r k12 by (auto simp: d true_of_def fits_def)
  qed
qed


lemma combine_cases:
  "combine a b t =
     (case (a, b) of
        (Never, _) \<Rightarrow> Never | (_, Never) \<Rightarrow> Never
      | (Not_binding, Not_binding) \<Rightarrow> Not_binding
      | (Not_binding, At y) \<Rightarrow> if t < y then At y else Not_binding
      | (At x, Not_binding) \<Rightarrow> if t < x then At x else Not_binding
      | (At x, At y) \<Rightarrow> if t < max x y then At (max x y) else Not_binding)"
  by (cases a; cases b) (auto simp: combine_def ahead_def max_def)

lemma combined_true:
  assumes "true_of rows gcap k now a" "true_of urows ucap k now b" "now \<le> t"
  shows "case combine a b t of
      Not_binding \<Rightarrow> fits rows gcap k t \<and> fits urows ucap k t
    | Never \<Rightarrow> (gcap \<noteq> 0 \<and> gcap < k) \<or> (ucap \<noteq> 0 \<and> ucap < k)
    | At x \<Rightarrow> t < x \<and> fits rows gcap k x \<and> fits urows ucap k x"
proof (cases "a = Never \<or> b = Never")
  case True
  then show ?thesis using assms by (auto simp: combine_def true_of_def)
next
  case False
  have le: "fits rows gcap k x \<Longrightarrow> x \<le> y \<Longrightarrow> fits rows gcap k y" for x y by (rule fits_later)
  have le': "fits urows ucap k x \<Longrightarrow> x \<le> y \<Longrightarrow> fits urows ucap k y" for x y by (rule fits_later)
  show ?thesis
  proof (cases a)
    case Never
    then show ?thesis using False by simp
  next
    case a: Not_binding
    then have fa: "fits rows gcap k now" using assms(1) by (simp add: true_of_def)
    show ?thesis
    proof (cases b)
      case b: Not_binding
      then have "fits urows ucap k now" using assms(2) by (simp add: true_of_def)
      then show ?thesis using fa le [OF _ assms(3)] le' [OF _ assms(3)] by (simp add: combine_cases a b)
    next
      case b: (At y)
      then have "fits urows ucap k y" using assms(2) by (simp add: true_of_def)
      then show ?thesis using fa le le' assms(3) by (force simp: combine_cases a b)
    qed (use False in simp)
  next
    case a: (At x)
    then have fa: "fits rows gcap k x" using assms(1) by (simp add: true_of_def)
    show ?thesis
    proof (cases b)
      case b: Not_binding
      then have "fits urows ucap k now" using assms(2) by (simp add: true_of_def)
      then show ?thesis using fa le le' assms(3) by (force simp: combine_cases a b)
    next
      case b: (At y)
      then have "fits urows ucap k y" using assms(2) by (simp add: true_of_def)
      then show ?thesis using fa le [of x "max x y"] le' [of y "max x y"] le [of x t] le' [of y t]
        by (simp add: combine_cases a b)
    qed (use False in simp)
  qed
qed

lemma read_published_state:
  assumes "read_pause_state (Some (live_hash t key')) u t \<noteq> Unknown"
    and "publish t0 f now interval_s snap key = (True, key')" "well_named snap"
    "distinct (map fst (account_scopes snap))" "u \<notin> set reserved_fields"
  shows "read_pause_state (Some (live_hash t key')) u t =
    (let n = combine (normal_resume (global_scope snap)) (normal_resume (account_scope snap u)) t;
         a = combine (advanced_resume (global_scope snap)) (advanced_resume (account_scope snap u)) t
     in if n = Not_binding \<and> a = Not_binding then Not_paused else Paused n a)"
proof -
  let ?h = "set_fields (publish_fields f now interval_s snap)"
  have key: "key' = Some (?h, t0 + publish_ttl now interval_s snap * 1000000)"
    using assms(2) by (auto simp: publish_def publish_lua_def split: option.splits if_splits)
  have h0: "live_hash t key' = ?h"
    using assms(1) by (auto simp: key live_hash_def read_pause_state_def stored_fence_def split: if_splits)
  note h = published_fields [OF assms(3-5) refl, of f now interval_s]
  have ps: "parse_scope (Some (encode_scope s)) \<noteq> None \<Longrightarrow> parse_scope (Some (encode_scope s)) = Some s" for s
    using parse_encode parse_encode_never by metis
  show ?thesis
  proof (cases "map_of (account_scopes snap) u")
    case None
    then have "?h u = None" "account_scope snap u = account_default snap" by (simp_all add: h(6) account_scope_def)
    note u = this
    have "parse_scope (Some (encode_scope (global_scope snap))) \<noteq> None"
      "parse_scope (Some (encode_scope (account_default snap))) \<noteq> None"
      using assms(1) unfolding h0 read_pause_state_def by (auto simp: h(1-5) u Let_def split: option.splits if_splits)
    from this [THEN ps] assms(1) show ?thesis unfolding h0 read_pause_state_def
      by (simp add: h(1-5) u Let_def parse_utc_def split: if_splits)
  next
    case (Some s)
    then have "?h u = Some (encode_scope s)" "account_scope snap u = s" by (simp_all add: h(6) account_scope_def)
    note u = this
    have "parse_scope (Some (encode_scope (global_scope snap))) \<noteq> None" "parse_scope (Some (encode_scope s)) \<noteq> None"
      using assms(1) unfolding h0 read_pause_state_def by (auto simp: h(1-5) u Let_def split: option.splits if_splits)
    from this [THEN ps] assms(1) show ?thesis unfolding h0 read_pause_state_def
      by (simp add: h(1-5) u Let_def parse_utc_def split: if_splits)
  qed
qed

lemma collect_names: "collect (map (\<lambda>u. (u, f u)) us) = Some ys \<Longrightarrow> map fst ys = us"
proof (induction us arbitrary: ys)
  case (Cons v us)
  then show ?case by (cases "f v") auto
qed simp

lemma resume_times_distinct:
  assumes "resume_times rows now c = Some snap"
  shows "distinct (map fst (account_scopes snap))"
proof -
  have "distinct (map fst (snd (spent_credits rows s)))" for s
    by (simp add: spent_credits_def Let_def comp_def)
  then have "distinct (paused_accounts rows s cap)" for s cap
    by (simp add: paused_accounts_def distinct_map_filter)
  then show ?thesis
    using assms collect_names by (auto simp: resume_times_def Let_def split: option.splits if_splits)
qed

text \<open>
  C36: What the API tells a customer is true of the queue: if a tick publishes the resume times of the rows
  it read and the reader gets anything but UNKNOWN, then "not paused" means that a lookup of either kind fits
  both caps at that moment, a resume time lies ahead and the lookup fits both caps at it, and "never" means a
  cap below the lookup's cost (for rows unchanged since the tick's read).
\<close>

theorem pause_view_is_true:
  assumes "known rows" "resume_times rows now c = Some snap"
    and "publish t0 f now interval_s snap key = (True, key')" "now \<le> t"
    and "well_named snap" "u \<notin> set reserved_fields"
  shows "case read_pause_state (Some (live_hash t key')) u t of
      Unknown \<Rightarrow> True
    | Not_paused \<Rightarrow> \<forall>k \<in> {1, 2}. fits rows (global_cap c) k t \<and> fits (user_rows u rows) (account_cap c) k t
    | Paused n a \<Rightarrow> \<forall>(k, r) \<in> {(1, n), (2, a)}. case r of
        Not_binding \<Rightarrow> fits rows (global_cap c) k t \<and> fits (user_rows u rows) (account_cap c) k t
      | At x \<Rightarrow> t < x \<and> fits rows (global_cap c) k x \<and> fits (user_rows u rows) (account_cap c) k x
      | Never \<Rightarrow> (global_cap c \<noteq> 0 \<and> global_cap c < k) \<or> (account_cap c \<noteq> 0 \<and> account_cap c < k)"
proof (cases "read_pause_state (Some (live_hash t key')) u t = Unknown")
  case False
  note sc = resume_times_scopes [OF assms(2)]
  have g: "true_of rows (global_cap c) k now (resume_for k (global_scope snap))" if "k = 1 \<or> k = 2" for k
  proof (cases "global_cap c = 0")
    case True
    then show ?thesis by (simp add: true_of_def fits_def sc(2) NOT_BINDING_def resume_for_def)
  next
    case nz: False
    then obtain s where s: "scope_times rows (now - SPEND_WINDOW) (global_cap c) = Some s" using sc(3) by blast
    then show ?thesis using scope_true [OF assms(1) s that] nz by (simp add: sc(2))
  qed
  note cmb = combined_true [OF g account_true [OF assms(1,2), where u = u] assms(4)]
  have one: "case combine (normal_resume (global_scope snap)) (normal_resume (account_scope snap u)) t of
      Not_binding \<Rightarrow> fits rows (global_cap c) 1 t \<and> fits (user_rows u rows) (account_cap c) 1 t
    | Never \<Rightarrow> (global_cap c \<noteq> 0 \<and> global_cap c < 1) \<or> (account_cap c \<noteq> 0 \<and> account_cap c < 1)
    | At x \<Rightarrow> t < x \<and> fits rows (global_cap c) 1 x \<and> fits (user_rows u rows) (account_cap c) 1 x"
    using cmb [of 1] by (simp add: resume_for_def)
  have two: "case combine (advanced_resume (global_scope snap)) (advanced_resume (account_scope snap u)) t of
      Not_binding \<Rightarrow> fits rows (global_cap c) 2 t \<and> fits (user_rows u rows) (account_cap c) 2 t
    | Never \<Rightarrow> (global_cap c \<noteq> 0 \<and> global_cap c < 2) \<or> (account_cap c \<noteq> 0 \<and> account_cap c < 2)
    | At x \<Rightarrow> t < x \<and> fits rows (global_cap c) 2 x \<and> fits (user_rows u rows) (account_cap c) 2 x"
    using cmb [of 2] by (simp add: resume_for_def)
  show ?thesis
    unfolding read_published_state [OF False assms(3,5) resume_times_distinct [OF assms(2)] assms(6)] Let_def
    using one two by (simp split: resume.splits)
qed simp


definition sample_caps :: caps where
  "sample_caps = \<lparr> global_cap = 3, account_cap = 3, global_source = ''unset'' \<rparr>"

definition sample_snapshot :: pause_snapshot where
  "sample_snapshot = the (resume_times [sample_sent ''advanced'' 5, sample_sent ''normal'' 9]
     (submitted_instant (sample_sent ''normal'' 10)) sample_caps)"

theorem pause_view_is_true_witness:
  "let rows = [sample_sent ''advanced'' 5, sample_sent ''normal'' 9];
       now = submitted_instant (sample_sent ''normal'' 10);
       key' = snd (publish now (tick_fence (sample_tick 7)) now 60 sample_snapshot None)
   in \<exists>x y. read_pause_state (Some (live_hash now key')) ''u1'' now = Paused (At x) (At y) \<and>
        fits rows 3 2 y \<and> fits (user_rows ''u1'' rows) 3 2 y"
proof -
  let ?rows = "[sample_sent ''advanced'' 5, sample_sent ''normal'' 9]"
  let ?now = "submitted_instant (sample_sent ''normal'' 10)" and ?f = "tick_fence (sample_tick 7)"
  let ?key = "snd (publish ?now ?f ?now 60 sample_snapshot None)"
  have k: "known ?rows" by code_simp
  have s: "resume_times ?rows ?now sample_caps = Some sample_snapshot" by code_simp
  have p: "publish ?now ?f ?now 60 sample_snapshot None = (True, ?key)"
    by (simp add: publish_def publish_lua_def live_hash_def stored_fence_def)
  have w: "well_named sample_snapshot" by code_simp
  have u: "''u1'' \<notin> set reserved_fields" by code_simp
  note t = pause_view_is_true [OF k s p order_refl w u]
  have "case read_pause_state (Some (live_hash ?now ?key)) ''u1'' ?now of Paused (At x) (At y) \<Rightarrow> True | _ \<Rightarrow> False"
    by code_simp
  then obtain x y where r: "read_pause_state (Some (live_hash ?now ?key)) ''u1'' ?now = Paused (At x) (At y)"
    by (auto split: pause_state.splits resume.splits)
  have "fits ?rows 3 2 y \<and> fits (user_rows ''u1'' ?rows) 3 2 y"
    using t unfolding r by (simp add: sample_caps_def)
  then show ?thesis using r unfolding Let_def by blast
qed

end
