(* ===== verification/Jobs.thy ===== *)
theory Jobs
  imports Plans
begin

text \<open>
  The \<^verbatim>\<open>jobs\<close> row and every guarded write to it: the status and progress writers, the claim and its
  attempt token, the transient retry, the heartbeat and its acknowledgement
  (\<^verbatim>\<open>src/workers/tasks_helpers/status.py\<close>), the watchdog's recovery writes
  (\<^verbatim>\<open>scheduler_helpers/health.py\<close>) and the customer's cancel (\<^verbatim>\<open>api/routes/jobs.py\<close>).

  The table is a list of rows, and an UPDATE is \<open>update_where\<close>: it changes the rows that satisfy its
  WHERE and returns how many there were. One statement is one step; any interleaving of workers, watchdog
  ticks and cancels is a list of \<open>job_event\<close>s. The lemmas show that attempt tokens are unique, that a
  superseded attempt can write nothing, that a terminal job stays as it is, and that a job is attempted
  a bounded number of times.
\<close>

subsection \<open>The row\<close>

record job_row =
  j_id :: string
  j_user :: string
  j_status :: job_status
  j_started_at :: "datetime option"
  j_finished_at :: "datetime option"
  j_created_at :: datetime
  j_retry_count :: int
  j_error_message :: "string option"
  j_page_current :: int
  j_page_total :: int
  j_record_count :: int
  j_export_key :: "string option"
  j_last_heartbeat_at :: "datetime option"
  j_next_retry_at :: "int option"
  j_stage :: "string option"
  j_stage_started_at :: "datetime option"
  j_records_found :: "int option"
  j_units_done :: "int option"
  j_units_total :: "int option"
  j_progress_unit :: "string option"
  j_last_progress_at :: "datetime option"
  j_breakdown :: "(string \<times> int option) list"
  j_billed_count :: int
  j_billing_applied_at :: "datetime option"
  j_reserved_count :: int
  j_reserved_at :: "datetime option"
  j_window :: "datetime option"

text \<open>
  \<open>j_next_retry_at\<close> is the instant in microseconds; \<open>j_breakdown\<close> holds the six
  \<^verbatim>\<open>breakdown_*\<close> columns by name and \<open>j_window\<close> is \<^verbatim>\<open>quota_period_start\<close>.
\<close>

definition TERMINAL_STATUSES :: "job_status list" where
  "TERMINAL_STATUSES = [DONE, FAILED, CANCELLED]"

definition terminal :: "job_row \<Rightarrow> bool" where
  "terminal j \<longleftrightarrow> j_status j \<in> set TERMINAL_STATUSES"

definition update_where :: "(job_row \<Rightarrow> bool) \<Rightarrow> (job_row \<Rightarrow> job_row) \<Rightarrow> job_row list \<Rightarrow> nat \<times> job_row list" where
  "update_where P f rows = (length (filter P rows), map (\<lambda>j. if P j then f j else j) rows)"

definition job_of :: "string \<Rightarrow> job_row list \<Rightarrow> job_row option" where
  "job_of jid rows = find (\<lambda>j. j_id j = jid) rows"

subsection \<open>Attempt tokens\<close>

text \<open>A token, or the bare timestamp that older callers pass.\<close>

datatype attempt = AttemptToken datetime int | BareStart datetime

fun attempt_parts :: "attempt \<Rightarrow> datetime \<times> int option" where
  "attempt_parts (AttemptToken sa rc) = (sa, Some rc)"
| "attempt_parts (BareStart sa) = (sa, None)"

definition attempt_clauses :: "attempt \<Rightarrow> job_row \<Rightarrow> bool" where
  "attempt_clauses expected j \<longleftrightarrow>
     (case attempt_parts expected of
        (sa, rc) \<Rightarrow> j_started_at j = Some sa \<and> (case rc of None \<Rightarrow> True | Some n \<Rightarrow> j_retry_count j = n))"

definition claim_attempt :: "string \<Rightarrow> datetime \<Rightarrow> job_row list \<Rightarrow> attempt option \<times> job_row list" where
  "claim_attempt jid now rows =
     (let P = (\<lambda>j. j_id j = jid \<and> j_status j = PENDING)
      in (map_option (\<lambda>j. AttemptToken now (j_retry_count j)) (find P rows),
          snd (update_where P (\<lambda>j. j\<lparr> j_status := QUEUED, j_started_at := Some now,
             j_last_heartbeat_at := Some now, j_next_retry_at := None \<rparr>) rows)))"

record ownership =
  owned :: bool
  state_status :: "job_status option"

definition attempt_state :: "string \<Rightarrow> string \<Rightarrow> attempt \<Rightarrow> job_row list \<Rightarrow> ownership" where
  "attempt_state jid uid token rows =
     (case find (\<lambda>j. j_id j = jid \<and> j_user j = uid) rows of
        None \<Rightarrow> \<lparr> owned = False, state_status = None \<rparr>
      | Some row \<Rightarrow> \<lparr> owned = (attempt_clauses token row \<and> \<not> terminal row), state_status = Some (j_status row) \<rparr>)"

datatype finalize_stop = Terminalized | Lost_ownership

definition finalize_exit :: "ownership \<Rightarrow> finalize_stop option" where
  "finalize_exit st =
     (if (case state_status st of None \<Rightarrow> False | Some s \<Rightarrow> s \<in> set TERMINAL_STATUSES) then Some Terminalized
      else if owned st then None
      else Some Lost_ownership)"

subsection \<open>Status and progress writes\<close>

text \<open>The keys of \<^verbatim>\<open>JobUpdateFields\<close> and \<^verbatim>\<open>JobProgressFields\<close> that a call passes.\<close>

datatype job_update =
  U_started_at datetime | U_finished_at datetime | U_record_count int | U_page_current int
| U_page_total int | U_error_message string | U_export_key string | U_breakdown "(string \<times> int option) list"

fun apply_update :: "job_update \<Rightarrow> job_row \<Rightarrow> job_row" where
  "apply_update (U_started_at v) j = j\<lparr> j_started_at := Some v \<rparr>"
| "apply_update (U_finished_at v) j = j\<lparr> j_finished_at := Some v \<rparr>"
| "apply_update (U_record_count v) j = j\<lparr> j_record_count := v \<rparr>"
| "apply_update (U_page_current v) j = j\<lparr> j_page_current := v \<rparr>"
| "apply_update (U_page_total v) j = j\<lparr> j_page_total := v \<rparr>"
| "apply_update (U_error_message v) j = j\<lparr> j_error_message := Some v \<rparr>"
| "apply_update (U_export_key v) j = j\<lparr> j_export_key := Some v \<rparr>"
| "apply_update (U_breakdown v) j = j\<lparr> j_breakdown := v \<rparr>"

definition set_status ::
    "string \<Rightarrow> job_status \<Rightarrow> attempt option \<Rightarrow> job_update list \<Rightarrow> job_row list \<Rightarrow> bool \<times> job_row list" where
  "set_status jid status expected kwargs rows =
     (let P = (\<lambda>j. j_id j = jid \<and> \<not> terminal j \<and>
                (case expected of None \<Rightarrow> True | Some a \<Rightarrow> attempt_clauses a j));
          (n, rows') = update_where P (\<lambda>j. fold apply_update kwargs (j\<lparr> j_status := status \<rparr>)) rows
      in (n = 1, rows'))"

datatype progress_update =
  G_stage string | G_stage_started_at datetime | G_records_found int | G_units_done "int option"
| G_units_total "int option" | G_progress_unit "string option" | G_last_progress_at datetime
| G_page_current int | G_page_total int | G_record_count int

fun apply_progress :: "progress_update \<Rightarrow> job_row \<Rightarrow> job_row" where
  "apply_progress (G_stage v) j = j\<lparr> j_stage := Some v \<rparr>"
| "apply_progress (G_stage_started_at v) j = j\<lparr> j_stage_started_at := Some v \<rparr>"
| "apply_progress (G_records_found v) j = j\<lparr> j_records_found := Some v \<rparr>"
| "apply_progress (G_units_done v) j = j\<lparr> j_units_done := v \<rparr>"
| "apply_progress (G_units_total v) j = j\<lparr> j_units_total := v \<rparr>"
| "apply_progress (G_progress_unit v) j = j\<lparr> j_progress_unit := v \<rparr>"
| "apply_progress (G_last_progress_at v) j = j\<lparr> j_last_progress_at := Some v \<rparr>"
| "apply_progress (G_page_current v) j = j\<lparr> j_page_current := v \<rparr>"
| "apply_progress (G_page_total v) j = j\<lparr> j_page_total := v \<rparr>"
| "apply_progress (G_record_count v) j = j\<lparr> j_record_count := v \<rparr>"

definition set_progress ::
    "string \<Rightarrow> string \<Rightarrow> attempt \<Rightarrow> progress_update list \<Rightarrow> job_row list \<Rightarrow> bool \<times> job_row list" where
  "set_progress jid uid expected kwargs rows =
     (if kwargs = [] then (False, rows)
      else let (n, rows') = update_where
                 (\<lambda>j. j_id j = jid \<and> j_user j = uid \<and> \<not> terminal j \<and> attempt_clauses expected j)
                 (fold apply_progress kwargs) rows
           in (n = 1, rows'))"

definition set_stage ::
    "string \<Rightarrow> string \<Rightarrow> attempt \<Rightarrow> string \<Rightarrow> bool \<Rightarrow> datetime \<Rightarrow> job_row list \<Rightarrow> bool \<times> job_row list" where
  "set_stage jid uid expected stage clear_counters now rows =
     set_progress jid uid expected
       ([G_stage stage, G_stage_started_at now] @
        (if clear_counters then [G_units_done None, G_units_total None, G_progress_unit None] else [])) rows"

subsection \<open>Retry, heartbeat, recovery, cancel\<close>

definition clear_progress :: "job_row \<Rightarrow> job_row" where
  "clear_progress j =
     j\<lparr> j_page_current := 0, j_page_total := 0, j_record_count := 0, j_last_heartbeat_at := None,
        j_stage := None, j_stage_started_at := None, j_records_found := None, j_units_done := None,
        j_units_total := None, j_progress_unit := None, j_last_progress_at := None \<rparr>"

text \<open>
  \<^verbatim>\<open>_retry_scrape_job\<close>: \<open>seen\<close> is \<^verbatim>\<open>job.retry_count\<close> as the worker's object has it and
  \<open>jitter\<close> is the random 0 to 60 seconds.
\<close>

definition retry_scrape_job ::
    "string \<Rightarrow> attempt \<Rightarrow> int \<Rightarrow> int \<Rightarrow> int list \<Rightarrow> int \<Rightarrow> datetime \<Rightarrow> job_row list \<Rightarrow> int option \<times> job_row list" where
  "retry_scrape_job jid started_at seen max_retries backoffs jitter now rows =
     (if seen \<ge> max_retries then (None, rows)
      else let base = (if backoffs = [] then 300 else backoffs ! nat (min seen (int (length backoffs) - 1)));
               countdown = base + jitter;
               (n, rows') = update_where
                 (\<lambda>j. j_id j = jid \<and> attempt_clauses started_at j \<and> j_retry_count j < max_retries \<and>
                      \<not> terminal j \<and> j_billing_applied_at j = None)
                 (\<lambda>j. (clear_progress j)\<lparr> j_status := PENDING, j_retry_count := j_retry_count j + 1,
                    j_started_at := None, j_finished_at := None, j_error_message := None,
                    j_next_retry_at := Some (instant now + countdown * 1000000) \<rparr>) rows
           in if n \<noteq> 1 then (None, rows') else (Some countdown, rows'))"

definition transient_retry_notice :: "int \<Rightarrow> int \<Rightarrow> int \<Rightarrow> bool \<Rightarrow> string" where
  "transient_retry_notice retry_count max_retries countdown published =
     (let attempt = ''attempt '' @ show_int (retry_count + 1) @ '' of '' @ show_int (max_retries + 1)
      in if published then
           ''The county portal request could not be completed. Retrying in about '' @
           show_int (max 1 (countdown div 60)) @ '' min ('' @ attempt @ '').''
         else ''The county portal request could not be completed. This run will be retried ('' @
           attempt @ '').'')"

definition write_heartbeat :: "string \<Rightarrow> attempt \<Rightarrow> datetime \<Rightarrow> job_row list \<Rightarrow> bool \<times> job_row list" where
  "write_heartbeat jid started_at now rows =
     (let (n, rows') = update_where (\<lambda>j. j_id j = jid \<and> attempt_clauses started_at j \<and> \<not> terminal j)
                         (\<lambda>j. j\<lparr> j_last_heartbeat_at := Some now \<rparr>) rows
      in (n = 1, rows'))"

definition acknowledge_exit :: "string \<Rightarrow> attempt \<Rightarrow> job_row list \<Rightarrow> job_row list" where
  "acknowledge_exit jid token rows =
     snd (update_where (\<lambda>j. j_id j = jid \<and> attempt_clauses token j \<and> j_status j = CANCELLED)
       (\<lambda>j. j\<lparr> j_last_heartbeat_at := None \<rparr>) rows)"

definition cancel_job :: "string \<Rightarrow> string \<Rightarrow> datetime \<Rightarrow> job_row list \<Rightarrow> bool \<times> job_row list" where
  "cancel_job jid uid now rows =
     (let (n, rows') = update_where
        (\<lambda>j. j_id j = jid \<and> j_user j = uid \<and> j_status j \<in> set CANCELLABLE_STATUSES)
        (\<lambda>j. j\<lparr> j_status := CANCELLED, j_finished_at := Some now \<rparr>) rows
      in (0 < n, rows'))"


subsection \<open>The watchdog\<close>

definition HEARTBEAT_STALE_MINUTES :: int where
  "HEARTBEAT_STALE_MINUTES = 15"

definition STUCK_STARTED_AT_FALLBACK_MINUTES :: int where
  "STUCK_STARTED_AT_FALLBACK_MINUTES = 70"

definition ZOMBIE_UNSTARTED_MINUTES :: int where
  "ZOMBIE_UNSTARTED_MINUTES = 10"

definition WATCHDOG_REDELIVER_LIMIT :: nat where
  "WATCHDOG_REDELIVER_LIMIT = 500"

record recovery_candidate =
  cand_id :: string
  cand_status :: job_status
  cand_retry_count :: int
  cand_started_at :: "datetime option"

text \<open>\<open>older_than t m now\<close>: \<open>t\<close> lies before \<open>now\<close> minus \<open>m\<close> minutes.\<close>

definition older_than :: "datetime \<Rightarrow> int \<Rightarrow> datetime \<Rightarrow> bool" where
  "older_than t minutes now \<longleftrightarrow> instant t < instant now - minutes * 60 * 1000000"

definition opt_older_than :: "datetime option \<Rightarrow> int \<Rightarrow> datetime \<Rightarrow> bool" where
  "opt_older_than t minutes now \<longleftrightarrow> (case t of None \<Rightarrow> False | Some d \<Rightarrow> older_than d minutes now)"

definition stuck :: "datetime \<Rightarrow> job_row \<Rightarrow> bool" where
  "stuck now j \<longleftrightarrow>
     (j_status j \<in> set STUCK_CHECK_STATUSES \<and>
        (opt_older_than (j_last_heartbeat_at j) HEARTBEAT_STALE_MINUTES now \<or>
         (j_last_heartbeat_at j = None \<and> opt_older_than (j_started_at j) STUCK_STARTED_AT_FALLBACK_MINUTES now) \<or>
         (j_started_at j = None \<and> older_than (j_created_at j) ZOMBIE_UNSTARTED_MINUTES now))) \<or>
     (j_status j = PENDING \<and> 0 < j_retry_count j \<and> j_started_at j = None \<and>
        older_than (j_created_at j) STUCK_STARTED_AT_FALLBACK_MINUTES now) \<or>
     (j_status j = PENDING \<and> j_retry_count j = 0 \<and> j_started_at j = None \<and>
        older_than (j_created_at j) ZOMBIE_UNSTARTED_MINUTES now)"

definition candidate_of :: "job_row \<Rightarrow> recovery_candidate" where
  "candidate_of j = \<lparr> cand_id = j_id j, cand_status = j_status j, cand_retry_count = j_retry_count j,
     cand_started_at = j_started_at j \<rparr>"

definition stuck_jobs :: "datetime \<Rightarrow> job_row list \<Rightarrow> recovery_candidate list" where
  "stuck_jobs now rows =
     map candidate_of (take WATCHDOG_REDELIVER_LIMIT (sort_key (\<lambda>j. j_created_at j) (filter (stuck now) rows)))"

definition recovery_cas ::
    "recovery_candidate \<Rightarrow> (job_row \<Rightarrow> job_row) \<Rightarrow> job_row list \<Rightarrow> bool \<times> job_row list" where
  "recovery_cas job values rows =
     (let (n, rows') = update_where
        (\<lambda>j. j_id j = cand_id job \<and> j_status j = cand_status job \<and> j_retry_count j = cand_retry_count job \<and>
             j_started_at j = cand_started_at job) values rows
      in (n = 1, rows'))"

definition STUCK_MESSAGE :: string where
  "STUCK_MESSAGE = ''This scraper run did not complete in time. '' @
     ''Our team has been notified and will investigate.''"

text \<open>One candidate of the loop: whether it is delivered again, and the rows.\<close>

definition watchdog_recover :: "datetime \<Rightarrow> recovery_candidate \<Rightarrow> job_row list \<Rightarrow> bool \<times> job_row list" where
  "watchdog_recover now job rows =
     (if cand_status job = PENDING \<and> cand_retry_count job > 0 \<and> cand_started_at job = None then (True, rows)
      else if cand_status job = PENDING \<and> cand_retry_count job = 0 \<and> cand_started_at job = None then (True, rows)
      else if cand_retry_count job < 3 then
        recovery_cas job (\<lambda>j. (clear_progress j)\<lparr> j_retry_count := cand_retry_count job + 1,
          j_status := PENDING, j_started_at := None \<rparr>) rows
      else (False, snd (recovery_cas job (\<lambda>j. j\<lparr> j_status := FAILED, j_finished_at := Some now,
              j_error_message := Some STUCK_MESSAGE \<rparr>) rows)))"

subsection \<open>Events\<close>

text \<open>
  One statement of a worker, of the watchdog or of the API. The arguments are whatever the caller read
  before: a candidate or a token may be stale, a clock may repeat.
\<close>

datatype job_event =
  E_claim string datetime
| E_status string job_status "attempt option" "job_update list"
| E_progress string string attempt "progress_update list"
| E_retry string attempt int int "int list" int datetime
| E_heartbeat string attempt datetime
| E_ack string attempt
| E_watchdog datetime recovery_candidate
| E_cancel string string datetime

fun job_step :: "job_event \<Rightarrow> job_row list \<Rightarrow> job_row list" where
  "job_step (E_claim jid now) rows = snd (claim_attempt jid now rows)"
| "job_step (E_status jid s expected kwargs) rows = snd (set_status jid s expected kwargs rows)"
| "job_step (E_progress jid uid a kwargs) rows = snd (set_progress jid uid a kwargs rows)"
| "job_step (E_retry jid a seen mx bo jit now) rows = snd (retry_scrape_job jid a seen mx bo jit now rows)"
| "job_step (E_heartbeat jid a now) rows = snd (write_heartbeat jid a now rows)"
| "job_step (E_ack jid a) rows = acknowledge_exit jid a rows"
| "job_step (E_watchdog now cand) rows = snd (watchdog_recover now cand rows)"
| "job_step (E_cancel jid uid now) rows = snd (cancel_job jid uid now rows)"

text \<open>
  What the callers pass: no status writer sets \<^verbatim>\<open>pending\<close> or \<^verbatim>\<open>started_at\<close>, the transient retry uses
  its constant bound, and a watchdog candidate was selected as stuck at some time.
\<close>

definition watchable :: "recovery_candidate \<Rightarrow> bool" where
  "watchable c \<longleftrightarrow> cand_status c \<in> set STUCK_CHECK_STATUSES \<or>
     (cand_status c = PENDING \<and> cand_started_at c = None \<and> 0 \<le> cand_retry_count c)"

definition restamps :: "job_update \<Rightarrow> bool" where
  "restamps u \<longleftrightarrow> (case u of U_started_at _ \<Rightarrow> True | _ \<Rightarrow> False)"

definition called :: "job_event \<Rightarrow> bool" where
  "called e \<longleftrightarrow>
     (case e of
        E_status _ s _ kwargs \<Rightarrow> s \<noteq> PENDING \<and> \<not> list_ex restamps kwargs
      | E_retry _ _ _ mx _ _ _ \<Rightarrow> mx = SCRAPE_TRANSIENT_MAX_RETRIES
      | E_watchdog _ c \<Rightarrow> watchable c
      | _ \<Rightarrow> True)"

text \<open>The tokens handed out for one job, oldest first.\<close>

fun tokens :: "string \<Rightarrow> job_event list \<Rightarrow> job_row list \<Rightarrow> attempt list" where
  "tokens jid [] rows = []"
| "tokens jid (e # es) rows =
     (case e of
        E_claim i now \<Rightarrow>
          (case fst (claim_attempt i now rows) of
             Some t \<Rightarrow> if i = jid then t # tokens jid es (job_step e rows) else tokens jid es (job_step e rows)
           | None \<Rightarrow> tokens jid es (job_step e rows))
      | _ \<Rightarrow> tokens jid es (job_step e rows))"

definition run_events :: "job_event list \<Rightarrow> job_row list \<Rightarrow> job_row list" where
  "run_events es rows = fold job_step es rows"

fun token_retry :: "attempt \<Rightarrow> int" where
  "token_retry (AttemptToken _ rc) = rc"
| "token_retry (BareStart _) = -1"

subsection \<open>Lemmas: every event is one row function\<close>

text \<open>
  Each event rewrites every row by itself, so what happens to a job depends on its own row only.
\<close>

fun row_step :: "job_event \<Rightarrow> job_row \<Rightarrow> job_row" where
  "row_step (E_claim jid now) j =
     (if j_id j = jid \<and> j_status j = PENDING then j\<lparr> j_status := QUEUED, j_started_at := Some now,
        j_last_heartbeat_at := Some now, j_next_retry_at := None \<rparr> else j)"
| "row_step (E_status jid s expected kwargs) j =
     (if j_id j = jid \<and> \<not> terminal j \<and> (case expected of None \<Rightarrow> True | Some a \<Rightarrow> attempt_clauses a j)
      then fold apply_update kwargs (j\<lparr> j_status := s \<rparr>) else j)"
| "row_step (E_progress jid uid a kwargs) j =
     (if kwargs \<noteq> [] \<and> j_id j = jid \<and> j_user j = uid \<and> \<not> terminal j \<and> attempt_clauses a j
      then fold apply_progress kwargs j else j)"
| "row_step (E_retry jid a seen mx bo jit now) j =
     (if seen < mx \<and> j_id j = jid \<and> attempt_clauses a j \<and> j_retry_count j < mx \<and> \<not> terminal j \<and>
         j_billing_applied_at j = None
      then (clear_progress j)\<lparr> j_status := PENDING, j_retry_count := j_retry_count j + 1,
             j_started_at := None, j_finished_at := None, j_error_message := None,
             j_next_retry_at := Some (instant now +
               ((if bo = [] then 300 else bo ! nat (min seen (int (length bo) - 1))) + jit) * 1000000) \<rparr>
      else j)"
| "row_step (E_heartbeat jid a now) j =
     (if j_id j = jid \<and> attempt_clauses a j \<and> \<not> terminal j then j\<lparr> j_last_heartbeat_at := Some now \<rparr> else j)"
| "row_step (E_ack jid a) j =
     (if j_id j = jid \<and> attempt_clauses a j \<and> j_status j = CANCELLED then j\<lparr> j_last_heartbeat_at := None \<rparr> else j)"
| "row_step (E_watchdog now c) j =
     (if (cand_status c = PENDING \<and> cand_retry_count c \<ge> 0 \<and> cand_started_at c = None) \<or>
         \<not> (j_id j = cand_id c \<and> j_status j = cand_status c \<and> j_retry_count j = cand_retry_count c \<and>
            j_started_at j = cand_started_at c) then j
      else if cand_retry_count c < 3 then (clear_progress j)\<lparr> j_retry_count := cand_retry_count c + 1,
          j_status := PENDING, j_started_at := None \<rparr>
      else j\<lparr> j_status := FAILED, j_finished_at := Some now, j_error_message := Some STUCK_MESSAGE \<rparr>)"
| "row_step (E_cancel jid uid now) j =
     (if j_id j = jid \<and> j_user j = uid \<and> j_status j \<in> set CANCELLABLE_STATUSES
      then j\<lparr> j_status := CANCELLED, j_finished_at := Some now \<rparr> else j)"

lemma job_step_map: "job_step e rows = map (row_step e) rows"
  by (cases e)
    (auto simp: claim_attempt_def set_status_def set_progress_def retry_scrape_job_def write_heartbeat_def
      acknowledge_exit_def watchdog_recover_def recovery_cas_def cancel_job_def update_where_def Let_def
      intro!: map_cong [OF refl] map_idI [symmetric])


subsection \<open>Lemmas: what an event keeps\<close>

lemma fold_apply_update [simp]:
  "j_id (fold apply_update us j) = j_id j" "j_user (fold apply_update us j) = j_user j"
  "j_status (fold apply_update us j) = j_status j" "j_retry_count (fold apply_update us j) = j_retry_count j"
proof -
  have one: "j_id (apply_update u j) = j_id j \<and> j_user (apply_update u j) = j_user j \<and>
      j_status (apply_update u j) = j_status j \<and> j_retry_count (apply_update u j) = j_retry_count j" for u j
    by (cases u) simp_all
  show "j_id (fold apply_update us j) = j_id j" "j_user (fold apply_update us j) = j_user j"
    "j_status (fold apply_update us j) = j_status j" "j_retry_count (fold apply_update us j) = j_retry_count j"
    by (induction us arbitrary: j) (simp_all add: one)
qed

lemma fold_apply_progress [simp]:
  "j_id (fold apply_progress us j) = j_id j" "j_user (fold apply_progress us j) = j_user j"
  "j_status (fold apply_progress us j) = j_status j" "j_retry_count (fold apply_progress us j) = j_retry_count j"
proof -
  have one: "j_id (apply_progress u j) = j_id j \<and> j_user (apply_progress u j) = j_user j \<and>
      j_status (apply_progress u j) = j_status j \<and> j_retry_count (apply_progress u j) = j_retry_count j" for u j
    by (cases u) simp_all
  show "j_id (fold apply_progress us j) = j_id j" "j_user (fold apply_progress us j) = j_user j"
    "j_status (fold apply_progress us j) = j_status j" "j_retry_count (fold apply_progress us j) = j_retry_count j"
    by (induction us arbitrary: j) (simp_all add: one)
qed

lemma clear_progress_simps [simp]:
  "j_id (clear_progress j) = j_id j" "j_user (clear_progress j) = j_user j" "j_retry_count (clear_progress j) = j_retry_count j"
  by (simp_all add: clear_progress_def)

lemma row_step_id [simp]: "j_id (row_step e j) = j_id j" "j_user (row_step e j) = j_user j"
  by (cases e; simp)+

text \<open>The progress of a job through its attempts: it never falls, and a claim raises it.\<close>

definition attempt_rank :: "job_row \<Rightarrow> int" where
  "attempt_rank j = 2 * j_retry_count j + (if j_status j = PENDING then 0 else 1)"

lemma attempt_rank_mono: "called e \<Longrightarrow> attempt_rank j \<le> attempt_rank (row_step e j)"
  by (cases e) (auto simp: attempt_rank_def called_def)

lemma retry_count_mono: "called e \<Longrightarrow> j_retry_count j \<le> j_retry_count (row_step e j)"
  by (cases e) (auto simp: called_def)

lemma retry_count_bound: "called e \<Longrightarrow> j_retry_count j \<le> 3 \<Longrightarrow> j_retry_count (row_step e j) \<le> 3"
  by (cases e) (auto simp: called_def SCRAPE_TRANSIENT_MAX_RETRIES_def)

lemma job_of_step: "job_of jid (job_step e rows) = map_option (row_step e) (job_of jid rows)"
  by (induction rows) (auto simp: job_of_def job_step_map)

lemma job_of_id: "job_of jid rows = Some j \<Longrightarrow> j_id j = jid"
  by (induction rows) (auto simp: job_of_def split: if_splits)

lemma claim_one_row:
  assumes "distinct (map j_id rows)"
  shows "fst (claim_attempt jid now rows) =
    (case job_of jid rows of None \<Rightarrow> None
     | Some j \<Rightarrow> if j_status j = PENDING then Some (AttemptToken now (j_retry_count j)) else None)"
  using assms
proof (induction rows)
  case (Cons j rows)
  have "find (\<lambda>j. j_id j = jid \<and> j_status j = PENDING) rows = None" if "j_id j = jid"
  proof -
    have "j_id j \<notin> j_id ` set rows" using Cons.prems by simp
    then show ?thesis using that by (auto simp: find_None_iff image_iff)
  qed
  then show ?case using Cons by (auto simp: claim_attempt_def job_of_def Let_def)
qed (simp add: claim_attempt_def job_of_def Let_def)

lemma distinct_step: "distinct (map j_id rows) \<Longrightarrow> distinct (map j_id (job_step e rows))"
  by (simp add: job_step_map comp_def)

lemma tokens_other:
  "distinct (map j_id rows) \<Longrightarrow> tokens jid (e # es) rows =
     (case e of
        E_claim i now \<Rightarrow>
          (if i = jid then
             (case job_of jid rows of
                Some j \<Rightarrow> if j_status j = PENDING then AttemptToken now (j_retry_count j) # tokens jid es (job_step e rows)
                          else tokens jid es (job_step e rows)
              | None \<Rightarrow> tokens jid es (job_step e rows))
           else tokens jid es (job_step e rows))
      | _ \<Rightarrow> tokens jid es (job_step e rows))"
  by (cases e) (auto simp: claim_one_row split: option.splits)

declare tokens.simps(2) [simp del] job_step.simps [simp del]

lemma tokens_bounds:
  assumes "distinct (map j_id rows)" "\<forall>e \<in> set es. called e" "job_of jid rows = Some j"
  shows "\<forall>t \<in> set (tokens jid es rows). attempt_rank j \<le> 2 * token_retry t \<and>
    (\<exists>j'. job_of jid (run_events es rows) = Some j' \<and> token_retry t \<le> j_retry_count j')"
  using assms
proof (induction es arbitrary: rows j)
  case (Cons e es)
  let ?rows = "job_step e rows"
  have j: "job_of jid ?rows = Some (row_step e j)" using Cons.prems by (simp add: job_of_step)
  have IH: "\<forall>t \<in> set (tokens jid es ?rows). attempt_rank (row_step e j) \<le> 2 * token_retry t \<and>
    (\<exists>j'. job_of jid (run_events es ?rows) = Some j' \<and> token_retry t \<le> j_retry_count j')"
    using Cons.IH [OF distinct_step [OF Cons.prems(1)] _ j] Cons.prems(2) by simp
  have mono: "attempt_rank j \<le> attempt_rank (row_step e j)" using Cons.prems by (simp add: attempt_rank_mono)
  have run: "\<exists>j'. job_of jid (run_events es r) = Some j' \<and> j_retry_count i \<le> j_retry_count j'"
    if "job_of jid r = Some i" "\<forall>e \<in> set es. called e" for r i
    using that
  proof (induction es arbitrary: r i)
    case (Cons f fs)
    then have "\<exists>j'. job_of jid (run_events fs (job_step f r)) = Some j' \<and> j_retry_count (row_step f i) \<le> j_retry_count j'"
      by (simp add: job_of_step)
    then show ?case using retry_count_mono [of f i] Cons.prems by (fastforce simp: run_events_def)
  qed (simp add: run_events_def)
  have here: "\<exists>j'. job_of jid (run_events es ?rows) = Some j' \<and> j_retry_count j \<le> j_retry_count j'"
    using run [OF j] retry_count_mono [of e j] Cons.prems by fastforce
  show ?case
  proof (cases "\<exists>now. e = E_claim jid now \<and> j_status j = PENDING")
    case True
    then obtain now where e: "e = E_claim jid now" "j_status j = PENDING" by blast
    then have "tokens jid (e # es) rows = AttemptToken now (j_retry_count j) # tokens jid es ?rows"
      using Cons.prems by (simp add: tokens_other)
    then show ?thesis using IH mono here e by (fastforce simp: run_events_def attempt_rank_def)
  next
    case False
    then have "tokens jid (e # es) rows = tokens jid es ?rows"
      using Cons.prems by (cases e) (auto simp: tokens_other split: option.splits)
    then show ?thesis using IH mono by (fastforce simp: run_events_def)
  qed
qed simp

lemma tokens_none: "distinct (map j_id rows) \<Longrightarrow> job_of jid rows = None \<Longrightarrow> tokens jid es rows = []"
proof (induction es arbitrary: rows)
  case (Cons e es)
  then have "tokens jid es (job_step e rows) = []" using distinct_step by (simp add: job_of_step)
  then show ?case using Cons.prems by (cases e) (auto simp: tokens_other)
qed simp

lemma tokens_sorted:
  assumes "distinct (map j_id rows)" "\<forall>e \<in> set es. called e"
  shows "sorted_wrt (\<lambda>a b. token_retry a < token_retry b) (tokens jid es rows)"
  using assms
proof (induction es arbitrary: rows)
  case (Cons e es)
  let ?rows = "job_step e rows"
  have IH: "sorted_wrt (\<lambda>a b. token_retry a < token_retry b) (tokens jid es ?rows)"
    using Cons distinct_step by simp
  show ?case
  proof (cases "\<exists>now j. e = E_claim jid now \<and> job_of jid rows = Some j \<and> j_status j = PENDING")
    case True
    then obtain now j where e: "e = E_claim jid now" "job_of jid rows = Some j" "j_status j = PENDING" by blast
    have id: "j_id j = jid" by (rule job_of_id [OF e(2)])
    have "\<forall>t \<in> set (tokens jid es ?rows). attempt_rank (row_step e j) \<le> 2 * token_retry t"
      using tokens_bounds [of "job_step e rows" es jid "row_step e j"] distinct_step [OF Cons.prems(1)] Cons.prems(2) e(2)
      by (simp add: job_of_step)
    then have "\<forall>t \<in> set (tokens jid es ?rows). j_retry_count j < token_retry t"
      using id e(3) by (force simp: attempt_rank_def e(1))
    then show ?thesis using IH e Cons.prems(1) by (simp add: tokens_other)
  next
    case False
    then have "tokens jid (e # es) rows = tokens jid es ?rows"
      using Cons.prems(1) by (cases e) (auto simp: tokens_other split: option.splits)
    then show ?thesis using IH by simp
  qed
qed simp


lemma called_watchdog_live:
  "watchable c \<Longrightarrow> j_status j = cand_status c \<Longrightarrow> \<not> terminal j"
  by (auto simp: watchable_def terminal_def TERMINAL_STATUSES_def STUCK_CHECK_STATUSES_def)

lemma terminal_step:
  assumes "called e" "terminal j"
  shows "row_step e j = j \<or> (j_status j = CANCELLED \<and> row_step e j = j\<lparr> j_last_heartbeat_at := None \<rparr>)"
proof -
  have t: "j_status j \<noteq> PENDING" "j_status j \<notin> set CANCELLABLE_STATUSES"
    using assms(2) by (auto simp: terminal_def TERMINAL_STATUSES_def CANCELLABLE_STATUSES_def)
  show ?thesis
  proof (cases e)
    case (E_watchdog now c)
    then have "j_status j \<noteq> cand_status c"
      using assms called_watchdog_live [of c j] by (auto simp: called_def)
    then show ?thesis by (simp add: E_watchdog)
  next
    case (E_ack i a)
    then show ?thesis by simp
  qed (use assms t in simp_all)
qed

lemma terminal_run:
  assumes "\<forall>e \<in> set es. called e" "terminal j" "job_of jid rows = Some j"
  shows "job_of jid (run_events es rows) = Some j \<or>
    (j_status j = CANCELLED \<and> job_of jid (run_events es rows) = Some (j\<lparr> j_last_heartbeat_at := None \<rparr>))"
  using assms
proof (induction es arbitrary: j rows)
  case (Cons e es)
  have run: "run_events (e # es) rows = run_events es (job_step e rows)" by (simp add: run_events_def)
  have j: "job_of jid (job_step e rows) = Some (row_step e j)" using Cons.prems by (simp add: job_of_step)
  from terminal_step [of e j] Cons.prems consider "row_step e j = j"
    | "j_status j = CANCELLED" "row_step e j = j\<lparr> j_last_heartbeat_at := None \<rparr>" by auto
  then show ?case
  proof cases
    case 1
    then show ?thesis using Cons.IH [of j "job_step e rows"] Cons.prems j run by simp
  next
    case 2
    then show ?thesis
      using Cons.IH [of "j\<lparr> j_last_heartbeat_at := None \<rparr>" "job_step e rows"] Cons.prems j run
      by (auto simp: terminal_def)
  qed
qed (simp add: run_events_def)

subsection \<open>Properties\<close>

text \<open>
  No two claims of a job share a token: in any interleaving of claims, status and progress writes,
  retries, watchdog recoveries and cancels, with any clock readings, the tokens handed out for one job have
  strictly increasing retry counts, so they are pairwise different even when two claims read the same time.
\<close>

theorem attempt_tokens_unique:
  assumes "distinct (map j_id rows)" "\<forall>e \<in> set es. called e"
  shows "sorted_wrt (\<lambda>a b. token_retry a < token_retry b) (tokens jid es rows) \<and> distinct (tokens jid es rows)"
proof -
  note s = tokens_sorted [OF assms, of jid]
  have "distinct ts" if "sorted_wrt (\<lambda>a b. token_retry a < token_retry b) ts" for ts
    using that by (induction ts) auto
  with s show ?thesis by blast
qed

definition sample_job :: job_row where
  "sample_job =
     \<lparr> j_id = ''j1'', j_user = ''u1'', j_status = PENDING, j_started_at = None, j_finished_at = None,
       j_created_at = DateTime 2026 3 1 0, j_retry_count = 0, j_error_message = None, j_page_current = 0,
       j_page_total = 0, j_record_count = 0, j_export_key = None, j_last_heartbeat_at = None,
       j_next_retry_at = None, j_stage = None, j_stage_started_at = None, j_records_found = None,
       j_units_done = None, j_units_total = None, j_progress_unit = None, j_last_progress_at = None,
       j_breakdown = [], j_billed_count = 0, j_billing_applied_at = None, j_reserved_count = 0,
       j_reserved_at = None, j_window = None \<rparr>"

definition sample_time :: "int \<Rightarrow> datetime" where
  "sample_time minutes = DateTime 2026 3 1 (minutes * 60 * 1000000)"

text \<open>A claim, its worker dies, the watchdog re-queues it, a second claim at the same clock reading.\<close>

definition sample_events :: "job_event list" where
  "sample_events =
     [E_claim ''j1'' (sample_time 5),
      E_watchdog (sample_time 30) \<lparr> cand_id = ''j1'', cand_status = QUEUED, cand_retry_count = 0,
        cand_started_at = Some (sample_time 5) \<rparr>,
      E_claim ''j1'' (sample_time 5)]"

theorem attempt_tokens_unique_witness:
  "tokens ''j1'' sample_events [sample_job]
     = [AttemptToken (sample_time 5) 0, AttemptToken (sample_time 5) 1] \<and>
   distinct (tokens ''j1'' sample_events [sample_job])"
proof -
  have "distinct (map j_id [sample_job])" by simp
  moreover have "\<forall>e \<in> set sample_events. called e" by code_simp
  ultimately have "distinct (tokens ''j1'' sample_events [sample_job])"
    using attempt_tokens_unique [of "[sample_job]" sample_events "''j1''"] by blast
  moreover have "tokens ''j1'' sample_events [sample_job]
     = [AttemptToken (sample_time 5) 0, AttemptToken (sample_time 5) 1]" by code_simp
  ultimately show ?thesis by blast
qed

text \<open>The writes of a worker that are fenced on its token.\<close>

definition fenced_by :: "attempt \<Rightarrow> string \<Rightarrow> job_event \<Rightarrow> bool" where
  "fenced_by t jid e \<longleftrightarrow>
     (case e of
        E_status i _ (Some a) _ \<Rightarrow> i = jid \<and> a = t
      | E_progress i _ a _ \<Rightarrow> i = jid \<and> a = t
      | E_retry i a _ _ _ _ _ \<Rightarrow> i = jid \<and> a = t
      | E_heartbeat i a _ \<Rightarrow> i = jid \<and> a = t
      | E_ack i a \<Rightarrow> i = jid \<and> a = t
      | _ \<Rightarrow> False)"

lemma fenced_noop:
  assumes "fenced_by t jid e" "\<forall>j \<in> set rows. j_id j = jid \<longrightarrow> \<not> attempt_clauses t j"
  shows "job_step e rows = rows"
proof -
  have "row_step e j = j" if "j \<in> set rows" for j
    using assms that by (cases e) (auto simp: fenced_by_def split: option.splits)
  then show ?thesis unfolding job_step_map by (rule map_idI)
qed

lemma tokens_are_pairs: "t \<in> set (tokens jid es rows) \<Longrightarrow> \<exists>sa rc. t = AttemptToken sa rc"
proof (induction es arbitrary: rows)
  case (Cons e es)
  then show ?case
    by (cases e) (auto simp: tokens.simps(2) claim_attempt_def Let_def split: option.splits if_splits)
qed simp

text \<open>
  C34: A superseded attempt can write nothing: once a job has been claimed again, every fenced write of an
  earlier attempt (status, progress, retry, heartbeat, acknowledgement) leaves the whole table unchanged,
  and that attempt no longer owns the job, whatever happened in between.
\<close>

theorem superseded_attempt_is_fenced:
  assumes "distinct (map j_id rows)" "\<forall>e \<in> set es. called e"
    and "tokens jid es rows = ts @ later" "later \<noteq> []" "t \<in> set ts" "fenced_by t jid e"
  shows "job_step e (run_events es rows) = run_events es rows \<and>
    \<not> owned (attempt_state jid uid t (run_events es rows))"
proof -
  let ?final = "run_events es rows"
  have mem: "t \<in> set (tokens jid es rows)" "last later \<in> set (tokens jid es rows)"
    using assms(3-5) by simp_all
  then have "job_of jid rows \<noteq> None" using tokens_none [OF assms(1)] by (metis empty_iff empty_set)
  then obtain j where j: "job_of jid rows = Some j" by blast
  from tokens_bounds [OF assms(1,2) j] mem(2) obtain j' where
    j': "job_of jid ?final = Some j'" "token_retry (last later) \<le> j_retry_count j'" by blast
  have "token_retry t < token_retry (last later)"
    using tokens_sorted [OF assms(1,2), of jid] assms(3-5) by (simp add: sorted_wrt_append)
  then have lt: "token_retry t < j_retry_count j'" using j'(2) by simp
  obtain sa rc where t: "t = AttemptToken sa rc" using tokens_are_pairs [OF mem(1)] by blast
  have dist: "distinct (map j_id ?final)"
    using assms(1) by (induction es arbitrary: rows) (simp_all add: run_events_def distinct_step)
  have only: "i = j'" if "i \<in> set ?final" "j_id i = jid" for i
  proof -
    have "j' \<in> set ?final" "j_id j' = jid"
      using j'(1) by (auto simp: job_of_def find_Some_iff)
    then show ?thesis using that dist by (metis distinct_map inj_onD)
  qed
  have stale: "\<forall>i \<in> set ?final. j_id i = jid \<longrightarrow> \<not> attempt_clauses t i"
    using only lt by (auto simp: attempt_clauses_def t)
  have "\<not> owned (attempt_state jid uid t ?final)"
  proof (cases "find (\<lambda>j. j_id j = jid \<and> j_user j = uid) ?final")
    case (Some i)
    then have "i \<in> set ?final" "j_id i = jid" by (auto simp: find_Some_iff)
    then show ?thesis using stale Some by (simp add: attempt_state_def)
  qed (simp add: attempt_state_def)
  then show ?thesis using fenced_noop [OF assms(6) stale] by blast
qed

theorem superseded_attempt_is_fenced_witness:
  "job_step (E_status ''j1'' DONE (Some (AttemptToken (sample_time 5) 0)) []) (run_events sample_events [sample_job])
     = run_events sample_events [sample_job]"
proof -
  have "distinct (map j_id [sample_job])" by simp
  moreover have "\<forall>e \<in> set sample_events. called e" by code_simp
  moreover have "tokens ''j1'' sample_events [sample_job]
     = [AttemptToken (sample_time 5) 0] @ [AttemptToken (sample_time 5) 1]" by code_simp
  ultimately show ?thesis
    using superseded_attempt_is_fenced [of "[sample_job]" sample_events "''j1''" "[AttemptToken (sample_time 5) 0]"
        "[AttemptToken (sample_time 5) 1]" "AttemptToken (sample_time 5) 0"
        "E_status ''j1'' DONE (Some (AttemptToken (sample_time 5) 0)) []"]
    by (simp add: fenced_by_def)
qed


text \<open>
  A finished job stays finished: once a job is done, failed or cancelled, no interleaving of workers,
  watchdog ticks and cancels changes any column of its row, except that a cancelled job's heartbeat is
  cleared when its worker acknowledges that it has stopped.
\<close>

theorem terminal_job_is_final:
  assumes "\<forall>e \<in> set es. called e" "job_of jid rows = Some j" "terminal j"
  shows "job_of jid (run_events es rows) = Some j \<or>
    (j_status j = CANCELLED \<and> job_of jid (run_events es rows) = Some (j\<lparr> j_last_heartbeat_at := None \<rparr>))"
  using terminal_run [OF assms(1,3,2)] .

theorem terminal_job_is_final_witness:
  "job_of ''j1'' (run_events sample_events [sample_job\<lparr> j_status := DONE \<rparr>]) = Some (sample_job\<lparr> j_status := DONE \<rparr>)"
proof -
  have "\<forall>e \<in> set sample_events. called e" by code_simp
  moreover have "job_of ''j1'' [sample_job\<lparr> j_status := DONE \<rparr>] = Some (sample_job\<lparr> j_status := DONE \<rparr>)"
    by (simp add: job_of_def sample_job_def)
  moreover have "terminal (sample_job\<lparr> j_status := DONE \<rparr>)" by (simp add: terminal_def TERMINAL_STATUSES_def)
  ultimately show ?thesis
    using terminal_job_is_final [of sample_events "''j1''" "[sample_job\<lparr> j_status := DONE \<rparr>]"] by fastforce
qed

lemma retry_bounded_run:
  assumes "\<forall>e \<in> set es. called e" "\<forall>j \<in> set rows. j_retry_count j \<le> 3"
  shows "\<forall>j \<in> set (run_events es rows). j_retry_count j \<le> 3"
  using assms
proof (induction es arbitrary: rows)
  case (Cons e es)
  have "\<forall>j \<in> set (job_step e rows). j_retry_count j \<le> 3"
    using Cons.prems retry_count_bound [of e] by (auto simp: job_step_map)
  then show ?case using Cons by (simp add: run_events_def)
qed (simp add: run_events_def)

lemma sorted_ints_length:
  "sorted_wrt (<) xs \<Longrightarrow> \<forall>x \<in> set xs. lo \<le> x \<and> x \<le> (hi :: int) \<Longrightarrow> int (length xs) \<le> max 0 (hi - lo + 1)"
proof (induction xs arbitrary: lo)
  case (Cons x xs)
  then have "int (length xs) \<le> max 0 (hi - (x + 1) + 1)" by (intro Cons.IH) auto
  then show ?case using Cons.prems by auto
qed simp

text \<open>
  C40: A job is attempted at most four times: counting claims of a fresh job over any interleaving, the
  watchdog's re-queues and the transient retries together allow three more claims after the first, so a
  job cannot be scraped without end.
\<close>

theorem attempts_bounded:
  assumes "distinct (map j_id rows)" "\<forall>e \<in> set es. called e"
    and "\<forall>j \<in> set rows. 0 \<le> j_retry_count j \<and> j_retry_count j \<le> 3"
  shows "length (tokens jid es rows) \<le> 4"
proof (cases "job_of jid rows")
  case None
  then show ?thesis by (simp add: tokens_none [OF assms(1)])
next
  case (Some j)
  note b = tokens_bounds [OF assms(1,2) Some]
  have mem: "i \<in> set r" if "job_of jid r = Some i" for i r
    using that by (induction r) (auto simp: job_of_def split: if_splits)
  have "0 \<le> attempt_rank j" using assms(3) mem [OF Some] by (simp add: attempt_rank_def)
  then have lo: "0 \<le> token_retry t" if "t \<in> set (tokens jid es rows)" for t using b that by force
  have hi: "token_retry t \<le> 3" if "t \<in> set (tokens jid es rows)" for t
    using b that mem retry_bounded_run [OF assms(2)] assms(3) by fastforce
  have "int (length (map token_retry (tokens jid es rows))) \<le> max 0 (3 - 0 + 1)"
    by (rule sorted_ints_length)
      (use tokens_sorted [OF assms(1,2), of jid] lo hi in \<open>auto simp: sorted_wrt_map\<close>)
  then show ?thesis by simp
qed

theorem attempts_bounded_witness: "length (tokens ''j1'' sample_events [sample_job]) \<le> 4"
  by (rule attempts_bounded) (simp, code_simp, code_simp)

lemma stuck_watchable:
  "stuck now j \<Longrightarrow> 0 \<le> j_retry_count j \<Longrightarrow> watchable (candidate_of j)"
  by (auto simp: stuck_def watchable_def candidate_of_def)

lemma stuck_active:
  "stuck now j \<Longrightarrow> j_status j \<noteq> PENDING \<Longrightarrow>
     j_status j \<in> set STUCK_CHECK_STATUSES \<and>
     (opt_older_than (j_last_heartbeat_at j) HEARTBEAT_STALE_MINUTES now \<or>
      (j_last_heartbeat_at j = None \<and> opt_older_than (j_started_at j) STUCK_STARTED_AT_FALLBACK_MINUTES now) \<or>
      (j_started_at j = None \<and> older_than (j_created_at j) ZOMBIE_UNSTARTED_MINUTES now))"
  by (auto simp: stuck_def)

text \<open>
  The watchdog only recovers a job whose worker is silent and that nobody has touched since it looked:
  if its write changes a row, whatever happened since its SELECT, that row was active and silent at the SELECT
  (no heartbeat for 15 minutes, or none at all and started over 70 minutes ago, or never started), it still
  has the status, attempt and retry count seen then, and it is not terminal, so a cancelled or finished job
  is never revived.
\<close>

theorem watchdog_recovers_only_silent_jobs:
  assumes "c \<in> set (stuck_jobs t rows)" "\<forall>j \<in> set rows. 0 \<le> j_retry_count j"
    and "row_step (E_watchdog now c) j \<noteq> j"
  shows "\<not> terminal j \<and> (\<exists>j0 \<in> set rows. j_id j0 = j_id j \<and> j_status j0 = j_status j \<and>
    j_retry_count j0 = j_retry_count j \<and> j_started_at j0 = j_started_at j \<and>
    j_status j0 \<in> set STUCK_CHECK_STATUSES \<and>
    (opt_older_than (j_last_heartbeat_at j0) HEARTBEAT_STALE_MINUTES t \<or>
     (j_last_heartbeat_at j0 = None \<and> opt_older_than (j_started_at j0) STUCK_STARTED_AT_FALLBACK_MINUTES t) \<or>
     (j_started_at j0 = None \<and> older_than (j_created_at j0) ZOMBIE_UNSTARTED_MINUTES t)))"
proof -
  obtain j0 where j0: "j0 \<in> set rows" "stuck t j0" "c = candidate_of j0"
    using assms(1) by (auto simp: stuck_jobs_def dest!: in_set_takeD)
  have rc: "0 \<le> j_retry_count j0" using assms(2) j0(1) by simp
  have m: "j_id j = cand_id c" "j_status j = cand_status c" "j_retry_count j = cand_retry_count c"
    "j_started_at j = cand_started_at c"
    using assms(3) by (auto split: if_splits)
  have np: "j_status j0 \<noteq> PENDING"
  proof
    assume p: "j_status j0 = PENDING"
    then have "j_started_at j0 = None" using j0(2) by (auto simp: stuck_def STUCK_CHECK_STATUSES_def)
    then have "row_step (E_watchdog now c) j = j" using p rc by (simp add: candidate_of_def j0(3))
    with assms(3) show False ..
  qed
  have "\<not> terminal j" using called_watchdog_live [OF stuck_watchable [OF j0(2) rc, folded j0(3)] m(2)] .
  then show ?thesis using m stuck_active [OF j0(2) np] j0(1) by (auto simp: candidate_of_def j0(3))
qed

text \<open>A job whose worker went silent at minute 5, seen at minute 30.\<close>

definition silent_job :: job_row where
  "silent_job = sample_job\<lparr> j_status := SCRAPING, j_started_at := Some (sample_time 2),
     j_last_heartbeat_at := Some (sample_time 5) \<rparr>"

theorem watchdog_recovers_only_silent_jobs_witness:
  "row_step (E_watchdog (sample_time 31) (candidate_of silent_job)) silent_job \<noteq> silent_job \<and>
   \<not> terminal silent_job"
proof -
  have c: "candidate_of silent_job \<in> set (stuck_jobs (sample_time 30) [silent_job])"
    by (simp add: stuck_jobs_def WATCHDOG_REDELIVER_LIMIT_def) code_simp
  have ne: "row_step (E_watchdog (sample_time 31) (candidate_of silent_job)) silent_job \<noteq> silent_job" by code_simp
  have "\<forall>j \<in> set [silent_job]. 0 \<le> j_retry_count j" by code_simp
  from watchdog_recovers_only_silent_jobs [OF c this ne] ne show ?thesis by blast
qed

end
