(* ===== verification/QuotaLedger.thy ===== *)
theory QuotaLedger
  imports Jobs SkipTraceClaim
begin

text \<open>
  The record quota as a ledger: reserving a job's share (\<^verbatim>\<open>reserve_job_quota\<close> in
  \<^verbatim>\<open>src/workers/tasks.py\<close>), settling it against what was delivered (\<^verbatim>\<open>_settle_user_charge\<close> in
  \<^verbatim>\<open>tasks_helpers/finalize.py\<close>), giving it back (\<^verbatim>\<open>release_quota_reservation\<close> in
  \<^verbatim>\<open>tasks_helpers/status.py\<close>), and the sweeps that repair by state. Each function is one transaction
  that holds the rows it writes, so an interleaving of jobs is a list of \<open>ledger_event\<close>s.

  The lemmas show that at every moment the account's counter is exactly what its jobs delivered in the
  current window plus the grants they still hold, that a release returns exactly what was granted, and that
  an account passes its limit only by what its runs bill beyond a live grant.
\<close>

subsection \<open>State\<close>

record delivered_claim =
  dc_user :: string
  dc_hash :: string
  dc_first_job :: string
  dc_first_result :: "string option"
  dc_parcel :: "string option"
  dc_address :: "string option"

record run_db =
  accounts :: "string \<rightharpoonup> user_row"
  job_rows :: "job_row list"
  claims :: "delivered_claim list"

subsection \<open>Reserving\<close>

text \<open>The account as \<^verbatim>\<open>paid_lookup_access\<close> reads it, at the clock read under the lock.\<close>

definition account_charge_state :: "run_db \<Rightarrow> string \<Rightarrow> datetime \<Rightarrow> access option" where
  "account_charge_state db uid now =
     (case accounts db uid of
        None \<Rightarrow> Some ACCESS_ENDED
      | Some account \<Rightarrow>
          let acc = paid_lookup_access account now
          in if acc = ACCESS_FROZEN \<or> acc = ACCESS_ENDED then Some acc else None)"

datatype ledger_error = NoSuchAccount

text \<open>
  \<open>marker\<close> is the clock of the claim, \<open>now\<close> the one read under the users lock. A missing account makes
  \<^verbatim>\<open>.one()\<close> raise, and the caller rolls back.
\<close>

definition reserve_job_quota ::
    "(datetime \<Rightarrow> datetime \<Rightarrow> int) \<Rightarrow> datetime \<Rightarrow> datetime \<Rightarrow> string \<Rightarrow> string \<Rightarrow> int \<Rightarrow> run_db
      \<Rightarrow> ledger_error + (int option \<times> run_db)" where
  "reserve_job_quota age marker now jid uid want db =
     (let (claimed, rows1) = update_where (\<lambda>j. j_id j = jid \<and> j_reserved_at j = None)
                               (\<lambda>j. j\<lparr> j_reserved_at := Some marker \<rparr>) (job_rows db)
      in if claimed = 0 then Inr (None, db)
         else let want' = (if account_charge_state db uid now \<noteq> None then 0 else want)
         in case accounts db uid of
              None \<Rightarrow> Inl NoSuchAccount
            | Some u \<Rightarrow>
                let w = window_cte age u now;
                    granted = min want' (max 0 (w_eff_limit w - w_base w));
                    u' = (window_set w u)\<lparr> records_used := w_base w + granted \<rparr>;
                    rows2 = snd (update_where (\<lambda>j. j_id j = jid)
                      (\<lambda>j. j\<lparr> j_reserved_count := granted, j_window := Some (w_new_start w),
                              j_reserved_at := Some now \<rparr>) rows1)
                in Inr (Some granted, db\<lparr> accounts := (accounts db)(uid \<mapsto> u'), job_rows := rows2 \<rparr>))"

subsection \<open>Releasing\<close>

definition held_job :: "job_row \<Rightarrow> bool" where
  "held_job j \<longleftrightarrow> j_reserved_at j \<noteq> None \<and> j_billing_applied_at j = None \<and> 0 < j_reserved_count j"

definition reservation_still_held :: "run_db \<Rightarrow> job_row \<Rightarrow> bool" where
  "reservation_still_held db j \<longleftrightarrow>
     (case accounts db (j_user j) of
        None \<Rightarrow> False
      | Some u \<Rightarrow> reservation_is_current (j_window j) (j_reserved_at j) (quota_period_start u)
                    (records_period_start u) False)"

definition release_quota_reservation :: "string \<Rightarrow> run_db \<Rightarrow> int \<times> run_db" where
  "release_quota_reservation jid db =
     (case find (\<lambda>j. j_id j = jid \<and> held_job j \<and> reservation_still_held db j) (job_rows db) of
        None \<Rightarrow>
          (0, db\<lparr> job_rows := snd (update_where (\<lambda>j. j_id j = jid \<and> held_job j)
                  (\<lambda>j. j\<lparr> j_reserved_at := None, j_reserved_count := 0 \<rparr>) (job_rows db)) \<rparr>)
      | Some row \<Rightarrow>
          let n = j_reserved_count row
          in (n, db\<lparr> accounts := (\<lambda>i. if i = j_user row
                       then map_option (\<lambda>u. u\<lparr> records_used := max 0 (records_used u - n) \<rparr>) (accounts db i)
                       else accounts db i),
                     job_rows := snd (update_where (\<lambda>j. j_id j = jid)
                       (\<lambda>j. j\<lparr> j_reserved_at := None, j_reserved_count := 0 \<rparr>) (job_rows db)) \<rparr>))"

text \<open>The sweep: terminal jobs that still hold a grant they never billed, oldest first.\<close>

definition stranded_jobs :: "nat \<Rightarrow> run_db \<Rightarrow> string list" where
  "stranded_jobs limit db =
     map j_id (take limit (sort_key (\<lambda>j. case j_reserved_at j of None \<Rightarrow> 0 | Some d \<Rightarrow> instant d) (filter (\<lambda>j. terminal j \<and> held_job j) (job_rows db))))"

definition sweep_stranded_quota_reservations :: "nat \<Rightarrow> run_db \<Rightarrow> nat \<times> run_db" where
  "sweep_stranded_quota_reservations limit db =
     fold (\<lambda>jid (released, db). case release_quota_reservation jid db of
             (n, db') \<Rightarrow> (if n \<noteq> 0 then released + 1 else released, db'))
       (stranded_jobs limit db) (0, db)"

definition BILLING_STAMP_RELIABLE_SINCE :: datetime where
  "BILLING_STAMP_RELIABLE_SINCE = DateTime 2026 6 19 0"

definition never_billed :: "job_row \<Rightarrow> bool" where
  "never_billed j \<longleftrightarrow> j_billing_applied_at j = None \<and> BILLING_STAMP_RELIABLE_SINCE \<le> j_created_at j"

definition strandable_claim :: "run_db \<Rightarrow> delivered_claim \<Rightarrow> bool" where
  "strandable_claim db d \<longleftrightarrow>
     list_ex (\<lambda>j. j_id j = dc_first_job d \<and> j_user j = dc_user d \<and> (j_status j = FAILED \<or> j_status j = CANCELLED)
                 \<and> never_billed j) (job_rows db)"

fun drop_first :: "nat \<Rightarrow> ('a \<Rightarrow> bool) \<Rightarrow> 'a list \<Rightarrow> 'a list" where
  "drop_first n P [] = []"
| "drop_first 0 P xs = xs"
| "drop_first (Suc n) P (x # xs) = (if P x then drop_first n P xs else x # drop_first (Suc n) P xs)"

definition sweep_stranded_dedup_claims :: "nat \<Rightarrow> run_db \<Rightarrow> nat \<times> run_db" where
  "sweep_stranded_dedup_claims limit db =
     (min limit (length (filter (strandable_claim db) (claims db))),
      db\<lparr> claims := drop_first limit (strandable_claim db) (claims db) \<rparr>)"

subsection \<open>Settling\<close>

record settlement =
  applied_reserved :: int
  job_reserved :: int
  settle_rolling :: bool

definition settle_user_charge ::
    "(datetime \<Rightarrow> datetime \<Rightarrow> int) \<Rightarrow> string \<Rightarrow> int \<Rightarrow> datetime \<Rightarrow> run_db \<Rightarrow> settlement option \<times> run_db" where
  "settle_user_charge age jid billable billed_at db =
     (case job_of jid (job_rows db) of
        None \<Rightarrow> (None, db)
      | Some j \<Rightarrow>
          (case accounts db (j_user j) of
             None \<Rightarrow> (None, db)
           | Some u \<Rightarrow>
               let w = window_cte age u billed_at;
                   applied = (if reservation_is_current (j_window j) (j_reserved_at j) (quota_period_start u)
                                  (records_period_start u) (w_rolling w)
                              then j_reserved_count j else 0);
                   u' = (window_set w u)\<lparr> records_used := max 0 (w_base w + (billable - applied)) \<rparr>
               in (Some \<lparr> applied_reserved = applied, job_reserved = j_reserved_count j, settle_rolling = w_rolling w \<rparr>,
                   db\<lparr> accounts := (accounts db)(j_user j \<mapsto> u') \<rparr>)))"

text \<open>
  The billing claim and the charge, which commit together: the claim fires only on a job that has not
  billed and belongs to the attempt; None is the missed claim, and a user that did not move rolls back.
\<close>

definition bill_job ::
    "(datetime \<Rightarrow> datetime \<Rightarrow> int) \<Rightarrow> attempt \<Rightarrow> string \<Rightarrow> int \<Rightarrow> datetime \<Rightarrow> run_db
      \<Rightarrow> settlement option option \<times> run_db" where
  "bill_job age token jid billable billed_at db =
     (let (billed, rows1) = update_where
            (\<lambda>j. j_id j = jid \<and> j_billing_applied_at j = None \<and> attempt_clauses token j)
            (\<lambda>j. j\<lparr> j_billed_count := billable, j_billing_applied_at := Some billed_at \<rparr>) (job_rows db)
      in if billed = 0 then (None, db)
         else (case settle_user_charge age jid billable billed_at (db\<lparr> job_rows := rows1 \<rparr>) of
                 (None, _) \<Rightarrow> (Some None, db)
               | (Some s, db') \<Rightarrow> (Some (Some s), db')))"


subsection \<open>The ledger invariant\<close>

text \<open>What a job holds of the window that starts at \<open>w\<close>, and what an account's jobs hold together.\<close>

definition grant_in :: "string \<Rightarrow> datetime \<Rightarrow> job_row \<Rightarrow> int" where
  "grant_in uid w j = (if j_user j = uid \<and> held_job j \<and> j_window j = Some w then j_reserved_count j else 0)"

definition outstanding :: "string \<Rightarrow> datetime \<Rightarrow> job_row list \<Rightarrow> int" where
  "outstanding uid w rows = sum_list (map (grant_in uid w) rows)"

text \<open>What the account has been charged for deliveries in its live window.\<close>

definition delivered :: "run_db \<Rightarrow> string \<Rightarrow> user_row \<Rightarrow> int" where
  "delivered db uid u = records_used u - outstanding uid (quota_period_start u) (job_rows db)"

definition window_ok :: "user_row \<Rightarrow> bool" where
  "window_ok u \<longleftrightarrow> valid_dt (quota_anchor_at u) \<and> valid_dt (quota_period_end u) \<and>
     quota_period_start u < quota_period_end u"

definition job_ok :: "run_db \<Rightarrow> job_row \<Rightarrow> bool" where
  "job_ok db j \<longleftrightarrow> 0 \<le> j_reserved_count j \<and> (j_reserved_at j = None \<longrightarrow> j_reserved_count j = 0) \<and>
     (0 < j_reserved_count j \<longrightarrow> j_window j \<noteq> None) \<and>
     (\<forall>w u. j_window j = Some w \<and> accounts db (j_user j) = Some u \<longrightarrow> w \<le> quota_period_start u)"

definition ledger_ok :: "run_db \<Rightarrow> bool" where
  "ledger_ok db \<longleftrightarrow> distinct (map j_id (job_rows db)) \<and> (\<forall>j \<in> set (job_rows db). job_ok db j) \<and>
     (\<forall>uid u. accounts db uid = Some u \<longrightarrow> window_ok u \<and> 0 \<le> delivered db uid u)"

lemma grant_in_nonneg: "job_ok db j \<Longrightarrow> 0 \<le> grant_in uid w j"
  by (simp add: grant_in_def job_ok_def)

lemma outstanding_nonneg: "\<forall>j \<in> set rows. job_ok db j \<Longrightarrow> 0 \<le> outstanding uid w rows"
  by (auto simp: outstanding_def intro!: sum_list_nonneg grant_in_nonneg)

lemma update_id_noop: "\<forall>j \<in> set rows. j_id j \<noteq> jid \<Longrightarrow> map (\<lambda>j. if j_id j = jid then f j else j) rows = rows"
  by (induction rows) auto

lemma sum_update_row:
  assumes "distinct (map j_id rows)" "job_of jid rows = Some j"
  shows "sum_list (map g (map (\<lambda>i. if j_id i = jid then f i else i) rows)) = sum_list (map g rows) - g j + (g (f j) :: int)"
  using assms
proof (induction rows)
  case (Cons i rows)
  show ?case
  proof (cases "j_id i = jid")
    case True
    then have "\<forall>k \<in> set rows. j_id k \<noteq> jid" using Cons.prems(1) by (auto simp: image_iff)
    then have "map (\<lambda>i. if j_id i = jid then f i else i) rows = rows" by (rule update_id_noop)
    moreover have "j = i" using True Cons.prems(2) by (simp add: job_of_def)
    ultimately show ?thesis using True by simp
  next
    case False
    then show ?thesis using Cons by (simp add: job_of_def)
  qed
qed (simp add: job_of_def)

lemma outstanding_update:
  assumes "distinct (map j_id rows)" "job_of jid rows = Some j"
  shows "outstanding uid w (map (\<lambda>i. if j_id i = jid then f i else i) rows)
    = outstanding uid w rows - grant_in uid w j + grant_in uid w (f j)"
  unfolding outstanding_def by (rule sum_update_row [OF assms])

lemma unique_row:
  assumes "distinct (map j_id rows)" "j \<in> set rows"
  shows "job_of (j_id j) rows = Some j"
  using assms by (induction rows) (auto simp: job_of_def image_iff)

lemma job_of_mem: "job_of jid rows = Some j \<Longrightarrow> j \<in> set rows \<and> j_id j = jid"
  by (induction rows) (auto simp: job_of_def split: if_splits)

lemma only_row:
  assumes "distinct (map j_id rows)" "job_of jid rows = Some j" "i \<in> set rows" "j_id i = jid"
  shows "i = j"
  using unique_row [OF assms(1,3)] assms(2,4) by simp

lemma map_only_row:
  assumes "distinct (map j_id rows)" "job_of jid rows = Some j" "P j"
  shows "map (\<lambda>i. if j_id i = jid \<and> P i then f i else i) rows = map (\<lambda>i. if j_id i = jid then f i else i) rows"
proof (rule map_cong [OF refl])
  fix i assume i: "i \<in> set rows"
  show "(if j_id i = jid \<and> P i then f i else i) = (if j_id i = jid then f i else i)"
    using only_row [OF assms(1,2) i] assms(3) by auto
qed

lemma charge_window:
  assumes "age_covers age" "window_ok u" "valid_dt at"
  shows "window_ok (window_set (window_cte age u at) u)"
    "\<not> w_rolling (window_cte age u at) \<Longrightarrow> quota_period_start (window_set (window_cte age u at) u) = quota_period_start u"
    "w_rolling (window_cte age u at) \<Longrightarrow> quota_period_start u < quota_period_start (window_set (window_cte age u at) u)"
    "w_new_start (window_cte age u at) = quota_period_start (window_set (window_cte age u at) u)"
proof -
  let ?w = "window_cte age u at"
  have v: "valid_dt (quota_anchor_at u)" "valid_dt (quota_period_end u)" "quota_period_start u < quota_period_end u"
    using assms(2) by (simp_all add: window_ok_def)
  show st: "w_new_start ?w = quota_period_start (window_set ?w u)" by (simp add: window_set_def)
  show "\<not> w_rolling ?w \<Longrightarrow> quota_period_start (window_set ?w u) = quota_period_start u"
    by (simp add: window_set_def window_cte_def Let_def)
  have roll: "quota_period_end u \<le> w_new_start ?w \<and> w_new_start ?w < w_new_end ?w \<and> valid_dt (w_new_end ?w)" if "w_rolling ?w"
  proof -
    have r: "roll_predicate u at" using that by (simp add: window_cte_def Let_def)
    then have le: "quota_period_end u \<le> at" by (simp add: roll_predicate_def quota_should_roll_def)
    obtain k where k: "transitional_end (quota_anchor_at u) (quota_period_end u) = add_months (quota_anchor_at u) k"
      using transitional_end_boundary [OF v(1)] by metis
    have nw: "(w_new_start ?w, w_new_end ?w) = next_window (quota_anchor_at u) (quota_period_end u) at"
      using quota_next_eq [OF assms(1) v(1,2) assms(3)] r by (simp add: window_cte_def Let_def)
    show ?thesis
    proof (rule next_window_cases [OF v(1,2) le])
      assume "next_window (quota_anchor_at u) (quota_period_end u) at =
        (quota_period_end u, transitional_end (quota_anchor_at u) (quota_period_end u))"
      then show ?thesis
        using nw transitional_end_later [OF v(1,2)] valid_add_months [OF v(1), of k] by (simp add: k)
    next
      fix m assume m: "transitional_end (quota_anchor_at u) (quota_period_end u) \<le> add_months (quota_anchor_at u) m"
        "next_window (quota_anchor_at u) (quota_period_end u) at =
          (add_months (quota_anchor_at u) m, add_months (quota_anchor_at u) (m + 1))"
      have "quota_period_end u < add_months (quota_anchor_at u) m"
        using transitional_end_later [OF v(1,2)] m(1) by simp
      moreover have "add_months (quota_anchor_at u) m < add_months (quota_anchor_at u) (m + 1)"
        using add_months_strict [of m "m + 1" "quota_anchor_at u"] v(1) by simp
      ultimately show ?thesis using nw m(2) valid_add_months [OF v(1), of "m + 1"] by simp
    qed
  qed
  then show "w_rolling ?w \<Longrightarrow> quota_period_start u < quota_period_start (window_set ?w u)"
    using v(3) st by force
  show "window_ok (window_set ?w u)"
    using roll v by (cases "w_rolling ?w") (auto simp: window_ok_def window_set_def window_cte_def Let_def)
qed

lemma no_future_grants:
  assumes "\<forall>j \<in> set (job_rows db). job_ok db j" "accounts db uid = Some u" "quota_period_start u < w"
  shows "outstanding uid w (job_rows db) = 0"
proof -
  have "grant_in uid w j = 0" if "j \<in> set (job_rows db)" for j
    using assms that by (fastforce simp: grant_in_def job_ok_def)
  then have "map (grant_in uid w) (job_rows db) = map (\<lambda>_. 0) (job_rows db)" by (intro map_cong) auto
  then show ?thesis by (simp only: outstanding_def sum_list_0)
qed


subsection \<open>Every operation keeps the ledger\<close>

lemma reserve_cases:
  assumes "reserve_job_quota age marker now jid uid want db = Inr (Some g, db')" "distinct (map j_id (job_rows db))"
  obtains u j where "accounts db uid = Some u" "job_of jid (job_rows db) = Some j" "j_reserved_at j = None"
    "g = min (if account_charge_state db uid now \<noteq> None then 0 else want)
       (max 0 (w_eff_limit (window_cte age u now) - w_base (window_cte age u now)))"
    "db' = db\<lparr> accounts := (accounts db)(uid \<mapsto> (window_set (window_cte age u now) u)
             \<lparr> records_used := w_base (window_cte age u now) + g \<rparr>),
           job_rows := map (\<lambda>i. if j_id i = jid then i\<lparr> j_reserved_count := g,
             j_window := Some (w_new_start (window_cte age u now)), j_reserved_at := Some now \<rparr> else i) (job_rows db) \<rparr>"
proof -
  obtain u where u: "accounts db uid = Some u"
    using assms(1) by (auto simp: reserve_job_quota_def Let_def update_where_def split: if_splits option.splits)
  have ne: "filter (\<lambda>j. j_id j = jid \<and> j_reserved_at j = None) (job_rows db) \<noteq> []"
    using assms(1) by (auto simp: reserve_job_quota_def Let_def update_where_def filter_empty_conv split: if_splits)
  then obtain j where "j \<in> set (job_rows db)" "j_id j = jid" "j_reserved_at j = None"
    by (auto simp: filter_empty_conv)
  then have j: "job_of jid (job_rows db) = Some j" "j_reserved_at j = None" using unique_row [OF assms(2)] by auto
  have rows: "map (\<lambda>j. if j_id j = jid then j\<lparr> j_reserved_count := g, j_window := Some ns, j_reserved_at := Some now \<rparr> else j)
      (map (\<lambda>j. if j_id j = jid \<and> j_reserved_at j = None then j\<lparr> j_reserved_at := Some marker \<rparr> else j) (job_rows db))
    = map (\<lambda>i. if j_id i = jid then i\<lparr> j_reserved_count := g, j_window := Some ns, j_reserved_at := Some now \<rparr> else i) (job_rows db)"
    for g ns by simp
  let ?w = "window_cte age u now"
  let ?g = "min (if account_charge_state db uid now \<noteq> None then 0 else want) (max 0 (w_eff_limit ?w - w_base ?w))"
  have "Inr (Some g, db') = (Inr (Some ?g, db\<lparr> accounts := (accounts db)(uid \<mapsto> (window_set ?w u)\<lparr> records_used := w_base ?w + ?g \<rparr>),
      job_rows := map (\<lambda>i. if j_id i = jid then i\<lparr> j_reserved_count := ?g,
        j_window := Some (w_new_start ?w), j_reserved_at := Some now \<rparr> else i) (job_rows db) \<rparr>)
      :: ledger_error + (int option \<times> run_db))"
    using assms(1) ne unfolding reserve_job_quota_def update_where_def Let_def
    by (simp only: u rows prod.case snd_conv option.case length_0_conv if_False)
  then have "g = ?g" "db' = db\<lparr> accounts := (accounts db)(uid \<mapsto> (window_set ?w u)\<lparr> records_used := w_base ?w + ?g \<rparr>),
      job_rows := map (\<lambda>i. if j_id i = jid then i\<lparr> j_reserved_count := ?g,
        j_window := Some (w_new_start ?w), j_reserved_at := Some now \<rparr> else i) (job_rows db) \<rparr>" by blast+
  then show thesis using that [OF u j] by simp
qed

lemma job_ok_update:
  assumes "\<forall>i \<in> set rows. job_ok db i" "accounts db uid = Some u" "quota_period_start u \<le> quota_period_start u'"
  shows "\<forall>i \<in> set rows. job_ok (db\<lparr> accounts := (accounts db)(uid \<mapsto> u'), job_rows := r \<rparr>) i"
  using assms by (fastforce simp: job_ok_def)

lemma charge_ledger:
  assumes "ledger_ok db" "accounts db uid = Some u" "job_of jid (job_rows db) = Some j" "j_user j = uid"
    and "window_ok u'" "quota_period_start u \<le> quota_period_start u'"
    and "\<And>i. j_id (f i) = j_id i" "j_user (f j) = uid"
    and "job_ok (db\<lparr> accounts := (accounts db)(uid \<mapsto> u') \<rparr>) (f j)"
    and "0 \<le> records_used u' - (outstanding uid (quota_period_start u') (job_rows db)
           - grant_in uid (quota_period_start u') j + grant_in uid (quota_period_start u') (f j))"
    and "db' = db\<lparr> accounts := (accounts db)(uid \<mapsto> u'), job_rows := map (\<lambda>i. if j_id i = jid then f i else i) (job_rows db) \<rparr>"
  shows "ledger_ok db'"
    and "delivered db' uid u' = records_used u' - (outstanding uid (quota_period_start u') (job_rows db)
           - grant_in uid (quota_period_start u') j + grant_in uid (quota_period_start u') (f j))"
    and "\<And>v x. v \<noteq> uid \<Longrightarrow> delivered db' v x = delivered db v x"
proof -
  have d: "distinct (map j_id (job_rows db))" and ok: "\<forall>i \<in> set (job_rows db). job_ok db i"
    using assms(1) by (simp_all add: ledger_ok_def)
  note out = outstanding_update [OF d assms(3), of _ _ f]
  show del: "delivered db' uid u' = records_used u' - (outstanding uid (quota_period_start u') (job_rows db)
           - grant_in uid (quota_period_start u') j + grant_in uid (quota_period_start u') (f j))"
    by (simp add: delivered_def assms(11) out)
  show oth: "delivered db' v x = delivered db v x" if "v \<noteq> uid" for v x
    using that assms(4,8) by (simp add: delivered_def assms(11) out grant_in_def)
  have ids: "map j_id (job_rows db') = map j_id (job_rows db)"
    by (simp add: assms(11) comp_def if_distrib [of j_id] assms(7))
  have ok': "job_ok db' i'" if i': "i' \<in> set (job_rows db')" for i'
  proof -
    obtain i where i: "i \<in> set (job_rows db)" "i' = (if j_id i = jid then f i else i)"
      using i' by (auto simp: assms(11))
    show ?thesis
    proof (cases "j_id i = jid")
      case True
      then have "i = j" using unique_row [OF d i(1)] assms(3) by simp
      then show ?thesis using i True assms(9) by (simp add: assms(11) job_ok_def)
    next
      case False
      then show ?thesis using job_ok_update [OF ok assms(2,6)] i by (simp add: assms(11))
    qed
  qed
  have users: "window_ok x \<and> 0 \<le> delivered db' v x" if x: "accounts db' v = Some x" for v x
  proof (cases "v = uid")
    case True
    then have "x = u'" using x by (simp add: assms(11))
    then show ?thesis using assms(5,10) del True by simp
  next
    case False
    then show ?thesis using x oth assms(1) by (simp add: assms(11) ledger_ok_def)
  qed
  show "ledger_ok db'" using ok' users d ids by (simp add: ledger_ok_def)
qed

lemma no_grant_unreserved: "j_reserved_at j = None \<Longrightarrow> grant_in uid w j = 0"
  by (simp add: grant_in_def held_job_def)

lemma reserve_ledger:
  assumes "age_covers age" "ledger_ok db" "valid_dt now" "0 \<le> want"
    and "reserve_job_quota age marker now jid uid want db = Inr (Some g, db')"
    and "job_of jid (job_rows db) = Some j" "j_user j = uid" "j_billing_applied_at j = None"
    and "accounts db uid = Some u" "accounts db' uid = Some u'"
  shows "ledger_ok db'" "delivered db' uid u' = (if roll_predicate u now then 0 else delivered db uid u)"
    "\<And>v x. v \<noteq> uid \<Longrightarrow> delivered db' v x = delivered db v x" "0 \<le> g" "g \<le> want"
    "records_used u' \<le> max (records_limit u') (if roll_predicate u now then 0 else records_used u)"
    "\<And>x. u'\<lparr> records_used := x \<rparr> = (window_set (window_cte age u now) u)\<lparr> records_used := x \<rparr>"
proof -
  have d: "distinct (map j_id (job_rows db))" and ok: "\<forall>i \<in> set (job_rows db). job_ok db i"
    and u: "window_ok u" "0 \<le> delivered db uid u"
    using assms(2,9) by (simp_all add: ledger_ok_def)
  let ?w = "window_cte age u now"
  let ?f = "\<lambda>i. i\<lparr> j_reserved_count := g, j_window := Some (w_new_start ?w), j_reserved_at := Some now \<rparr>"
  obtain u0 j0 where a: "accounts db uid = Some u0" "job_of jid (job_rows db) = Some j0" "j_reserved_at j0 = None"
    "g = min (if account_charge_state db uid now \<noteq> None then 0 else want)
       (max 0 (w_eff_limit (window_cte age u0 now) - w_base (window_cte age u0 now)))"
    "db' = db\<lparr> accounts := (accounts db)(uid \<mapsto> (window_set (window_cte age u0 now) u0)
             \<lparr> records_used := w_base (window_cte age u0 now) + g \<rparr>),
           job_rows := map (\<lambda>i. if j_id i = jid then i\<lparr> j_reserved_count := g,
             j_window := Some (w_new_start (window_cte age u0 now)), j_reserved_at := Some now \<rparr> else i) (job_rows db) \<rparr>"
    by (rule reserve_cases [OF assms(5) d])
  have same: "u0 = u" "j0 = j" using a(1,2) assms(6,9) by simp_all
  note r = a(3-5) [unfolded same]
  have u': "u' = (window_set ?w u)\<lparr> records_used := w_base ?w + g \<rparr>" using assms(10) by (simp add: r(3))
  have used: "records_used u' = w_base ?w + g" by (simp add: u')
  show g: "0 \<le> g" "g \<le> want" using assms(4) by (simp_all add: r(2))
  note cw = charge_window [OF assms(1) u(1) assms(3)]
  have st: "quota_period_start u' = w_new_start ?w" "quota_period_start u \<le> quota_period_start u'"
    using cw(2-4) by (cases "w_rolling ?w"; simp add: u')+
  have wok: "window_ok u'" using cw(1) by (simp add: u' window_ok_def)
  have roll: "w_rolling ?w = roll_predicate u now" by (simp add: window_cte_def Let_def)
  have gr: "grant_in uid (quota_period_start u') (?f j) = g"
    using assms(7,8) g(1) by (simp add: grant_in_def held_job_def st(1))
  have gj: "grant_in uid w j = 0" for w by (rule no_grant_unreserved [OF r(1)])
  have out: "w_base ?w - outstanding uid (quota_period_start u') (job_rows db)
      = (if roll_predicate u now then 0 else delivered db uid u)"
  proof (cases "roll_predicate u now")
    case True
    then have "quota_period_start u < quota_period_start u'" using cw(3) roll by (simp add: u')
    from no_future_grants [OF ok assms(9) this] True show ?thesis by (simp add: window_cte_def Let_def)
  next
    case False
    then show ?thesis using cw(2) roll by (simp add: u' window_cte_def Let_def delivered_def)
  qed
  have jok: "job_ok (db\<lparr> accounts := (accounts db)(uid \<mapsto> u') \<rparr>) (?f j)"
    using assms(7) g(1) by (simp add: job_ok_def st(1))
  have nn: "0 \<le> records_used u' - (outstanding uid (quota_period_start u') (job_rows db)
           - grant_in uid (quota_period_start u') j + grant_in uid (quota_period_start u') (?f j))"
    using out u(2) unfolding gr gj used by (simp split: if_splits)
  note cl = charge_ledger [where f = ?f, OF assms(2,9,6,7) wok st(2) _ _ jok nn r(3) [folded u']]
  show "ledger_ok db'" by (rule cl(1)) (use assms(7) in simp_all)
  have "delivered db' uid u' = records_used u' - (outstanding uid (quota_period_start u') (job_rows db)
           - grant_in uid (quota_period_start u') j + grant_in uid (quota_period_start u') (?f j))"
    by (rule cl(2)) (use assms(7) in simp_all)
  then show "delivered db' uid u' = (if roll_predicate u now then 0 else delivered db uid u)"
    using out unfolding gr gj used by simp
  show "delivered db' v x = delivered db v x" if "v \<noteq> uid" for v x
    by (rule cl(3)) (use assms(7) that in simp_all)
  show "records_used u' \<le> max (records_limit u') (if roll_predicate u now then 0 else records_used u)"
    using r(2) assms(4) by (auto simp: u' window_set_def window_cte_def Let_def)
  show "u'\<lparr> records_used := x \<rparr> = (window_set ?w u)\<lparr> records_used := x \<rparr>" for x by (simp add: u')
qed


lemma row_ledger:
  assumes "ledger_ok db" "job_of jid (job_rows db) = Some j" "\<And>i. j_id (f i) = j_id i" "job_ok db (f j)"
    and "\<And>uid u. accounts db uid = Some u \<Longrightarrow> grant_in uid (quota_period_start u) (f j) = grant_in uid (quota_period_start u) j"
    and "db' = db\<lparr> job_rows := map (\<lambda>i. if j_id i = jid then f i else i) (job_rows db) \<rparr>"
  shows "ledger_ok db'" "accounts db uid = Some u \<Longrightarrow> delivered db' uid u = delivered db uid u"
proof -
  have d: "distinct (map j_id (job_rows db))" and ok: "\<forall>i \<in> set (job_rows db). job_ok db i"
    using assms(1) by (simp_all add: ledger_ok_def)
  have del: "delivered db' uid u = delivered db uid u" if "accounts db uid = Some u" for uid u
    using assms(5) [OF that] by (simp add: delivered_def assms(6) outstanding_update [OF d assms(2), of _ _ f])
  then show "accounts db uid = Some u \<Longrightarrow> delivered db' uid u = delivered db uid u" .
  have ids: "map j_id (job_rows db') = map j_id (job_rows db)"
    by (simp add: assms(6) comp_def if_distrib [of j_id] assms(3))
  have "job_ok db i'" if i': "i' \<in> set (job_rows db')" for i'
  proof -
    obtain i where i: "i \<in> set (job_rows db)" "i' = (if j_id i = jid then f i else i)"
      using i' by (auto simp: assms(6))
    have "i = j" if "j_id i = jid" using unique_row [OF d i(1)] assms(2) that by simp
    then show ?thesis using i ok assms(4) by auto
  qed
  then have "\<forall>i \<in> set (job_rows db'). job_ok db' i" by (simp add: job_ok_def assms(6))
  moreover have "accounts db' = accounts db" by (simp add: assms(6))
  ultimately show "ledger_ok db'" using assms(1) del unfolding ledger_ok_def ids by simp
qed

definition reset_grant :: "job_row \<Rightarrow> job_row" where
  "reset_grant j = j\<lparr> j_reserved_at := None, j_reserved_count := 0 \<rparr>"

lemma reset_grant_simps [simp]:
  "j_id (reset_grant j) = j_id j" "j_user (reset_grant j) = j_user j" "grant_in uid w (reset_grant j) = 0"
  "job_ok db j \<Longrightarrow> job_ok db (reset_grant j)"
  by (simp_all add: reset_grant_def grant_in_def held_job_def job_ok_def)

lemma grant_le_used:
  assumes "ledger_ok db" "accounts db uid = Some u" "job_of jid (job_rows db) = Some j"
  shows "grant_in uid (quota_period_start u) j \<le> records_used u"
proof -
  have ok: "\<forall>i \<in> set (job_rows db). job_ok db i" and del: "0 \<le> delivered db uid u"
    using assms by (simp_all add: ledger_ok_def)
  have "grant_in uid (quota_period_start u) j \<le> outstanding uid (quota_period_start u) (job_rows db)"
    unfolding outstanding_def using job_of_mem [OF assms(3)] ok
    by (intro member_le_sum_list) (auto intro: grant_in_nonneg)
  with del show ?thesis by (simp add: delivered_def)
qed

lemma release_ledger:
  assumes "ledger_ok db" "release_quota_reservation jid db = (n, db')"
  shows "ledger_ok db'" "dom (accounts db') = dom (accounts db)"
    "\<And>uid u u'. accounts db uid = Some u \<Longrightarrow> accounts db' uid = Some u' \<Longrightarrow>
       delivered db' uid u' = delivered db uid u \<and> u'\<lparr> records_used := 0 \<rparr> = u\<lparr> records_used := 0 \<rparr> \<and>
       records_used u' = records_used u - (if \<exists>j. job_of jid (job_rows db) = Some j \<and> j_user j = uid then n else 0)"
proof -
  have d: "distinct (map j_id (job_rows db))" and ok: "\<forall>i \<in> set (job_rows db). job_ok db i"
    using assms(1) by (simp_all add: ledger_ok_def)
  have all: "ledger_ok db' \<and> dom (accounts db') = dom (accounts db) \<and>
    (\<forall>uid u u'. accounts db uid = Some u \<and> accounts db' uid = Some u' \<longrightarrow>
       delivered db' uid u' = delivered db uid u \<and> u'\<lparr> records_used := 0 \<rparr> = u\<lparr> records_used := 0 \<rparr> \<and>
       records_used u' = records_used u - (if \<exists>j. job_of jid (job_rows db) = Some j \<and> j_user j = uid then n else 0))"
  proof (cases "find (\<lambda>j. j_id j = jid \<and> held_job j \<and> reservation_still_held db j) (job_rows db)")
    case None
    have db': "n = 0" "db' = db\<lparr> job_rows := map (\<lambda>j. if j_id j = jid \<and> held_job j then reset_grant j else j) (job_rows db) \<rparr>"
      using assms(2) [symmetric] None by (simp_all add: release_quota_reservation_def update_where_def reset_grant_def)
    show ?thesis
    proof (cases "\<exists>j \<in> set (job_rows db). j_id j = jid \<and> held_job j")
      case False
      then have "map (\<lambda>j. if j_id j = jid \<and> held_job j then reset_grant j else j) (job_rows db) = job_rows db"
        by (intro map_idI) auto
      then show ?thesis using db' assms(1) by auto
    next
      case True
      then obtain j where j: "j \<in> set (job_rows db)" "j_id j = jid" "held_job j" by blast
      have jo: "job_of jid (job_rows db) = Some j" using unique_row [OF d j(1)] j(2) by simp
      have nh: "\<not> reservation_still_held db j" using None j by (auto simp: find_None_iff)
      have rows: "map (\<lambda>i. if j_id i = jid \<and> held_job i then reset_grant i else i) (job_rows db)
          = map (\<lambda>i. if j_id i = jid then reset_grant i else i) (job_rows db)"
        by (rule map_only_row [where P = held_job, OF d jo j(3)])
      have g: "grant_in uid (quota_period_start u) (reset_grant j) = grant_in uid (quota_period_start u) j"
        if "accounts db uid = Some u" for uid u
      proof -
        have "grant_in uid (quota_period_start u) j = 0"
          using nh that by (auto simp: grant_in_def reservation_still_held_def reservation_is_current_def)
        then show ?thesis by simp
      qed
      have okj: "job_ok db (reset_grant j)" using ok j(1) by simp
      note rl = row_ledger [where f = reset_grant, OF assms(1) jo _ okj g db'(2) [unfolded rows]]
      show ?thesis using rl(1) rl(2) db' by auto
    qed
  next
    case (Some j)
    then have j: "j \<in> set (job_rows db)" "j_id j = jid" "held_job j" "reservation_still_held db j"
      by (auto simp: find_Some_iff)
    have jo: "job_of jid (job_rows db) = Some j" using unique_row [OF d j(1)] j(2) by simp
    obtain u where u: "accounts db (j_user j) = Some u"
      "reservation_is_current (j_window j) (j_reserved_at j) (quota_period_start u) (records_period_start u) False"
      using j(4) by (auto simp: reservation_still_held_def split: option.splits)
    have g: "grant_in (j_user j) (quota_period_start u) j = j_reserved_count j"
      using u(2) j(3) ok j(1) by (auto simp: grant_in_def reservation_is_current_def job_ok_def held_job_def split: option.splits)
    let ?u = "u\<lparr> records_used := records_used u - j_reserved_count j \<rparr>"
    have le: "j_reserved_count j \<le> records_used u" using grant_le_used [OF assms(1) u(1) jo] g by simp
    have acc: "(\<lambda>i. if i = j_user j then map_option (\<lambda>u. u\<lparr> records_used := max 0 (records_used u - j_reserved_count j) \<rparr>) (accounts db i)
        else accounts db i) = (accounts db)(j_user j \<mapsto> ?u)"
      using u(1) le by auto
    have db': "n = j_reserved_count j" "db' = db\<lparr> accounts := (accounts db)(j_user j \<mapsto> ?u),
        job_rows := map (\<lambda>i. if j_id i = jid then reset_grant i else i) (job_rows db) \<rparr>"
      using assms(2) [symmetric] Some
      by (simp_all add: release_quota_reservation_def update_where_def reset_grant_def acc Let_def)
    have wok: "window_ok ?u" and del: "0 \<le> delivered db (j_user j) u"
      using assms(1) u(1) by (simp_all add: ledger_ok_def window_ok_def)
    have st: "quota_period_start u \<le> quota_period_start ?u" by simp
    have okj: "job_ok (db\<lparr> accounts := (accounts db)(j_user j \<mapsto> ?u) \<rparr>) (reset_grant j)"
      using ok j(1) u(1) by (fastforce simp: job_ok_def reset_grant_def)
    have nn: "0 \<le> records_used ?u - (outstanding (j_user j) (quota_period_start ?u) (job_rows db)
        - grant_in (j_user j) (quota_period_start ?u) j + grant_in (j_user j) (quota_period_start ?u) (reset_grant j))"
      using del by (simp add: g delivered_def)
    note cl = charge_ledger [where f = reset_grant, OF assms(1) u(1) jo refl wok st _ _ okj nn db'(2)]
    have l: "ledger_ok db'" by (rule cl(1)) simp_all
    have own: "delivered db' (j_user j) ?u = delivered db (j_user j) u"
      using cl(2) by (simp add: g delivered_def)
    have oth: "delivered db' v x = delivered db v x" if "v \<noteq> j_user j" for v x
      by (rule cl(3)) (use that in simp_all)
    have "delivered db' uid x' = delivered db uid x \<and> x'\<lparr> records_used := 0 \<rparr> = x\<lparr> records_used := 0 \<rparr> \<and>
       records_used x' = records_used x - (if \<exists>j. job_of jid (job_rows db) = Some j \<and> j_user j = uid then n else 0)"
      if x: "accounts db uid = Some x" "accounts db' uid = Some x'" for uid x x'
    proof (cases "uid = j_user j")
      case True
      then have "x = u" "x' = ?u" using x u(1) by (simp_all add: db'(2))
      then show ?thesis using own True jo db'(1) by simp
    next
      case False
      then have "x' = x" using x by (simp add: db'(2))
      then show ?thesis using oth [OF False] False jo by simp
    qed
    moreover have "dom (accounts db') = dom (accounts db)" using u(1) by (auto simp: db'(2))
    ultimately show ?thesis using l by blast
  qed
  then show "ledger_ok db'" "dom (accounts db') = dom (accounts db)" by (simp_all only: simp_thms)
  fix uid u u' assume "accounts db uid = Some u" "accounts db' uid = Some u'"
  then show "delivered db' uid u' = delivered db uid u \<and> u'\<lparr> records_used := 0 \<rparr> = u\<lparr> records_used := 0 \<rparr> \<and>
       records_used u' = records_used u - (if \<exists>j. job_of jid (job_rows db) = Some j \<and> j_user j = uid then n else 0)"
    using all by (simp only:)
qed


lemma job_of_map:
  assumes "\<And>i. j_id (f i) = j_id i"
  shows "job_of jid (map (\<lambda>i. if j_id i = jid then f i else i) rows) = map_option f (job_of jid rows)"
  by (induction rows) (simp_all add: job_of_def assms)

lemma settle_ledger:
  assumes "age_covers age" "ledger_ok db" "valid_dt at" "0 \<le> billable"
    and "bill_job age token jid billable at db = (Some (Some s), db')"
    and "job_of jid (job_rows db) = Some j" "accounts db (j_user j) = Some u" "accounts db' (j_user j) = Some u'"
  shows "ledger_ok db'"
    "delivered db' (j_user j) u' = (if roll_predicate u at then 0 else delivered db (j_user j) u) + billable"
    "\<And>v x. v \<noteq> j_user j \<Longrightarrow> delivered db' v x = delivered db v x"
    "j_billing_applied_at j = None" "applied_reserved s = (if roll_predicate u at then 0 else grant_in (j_user j) (quota_period_start u) j)"
    "\<exists>j'. job_of jid (job_rows db') = Some j' \<and> j_billing_applied_at j' = Some at \<and> j_billed_count j' = billable"
    "quota_period_start u \<le> quota_period_start u'" "records_limit u' = w_eff_limit (window_cte age u at)"
    "\<And>v. v \<noteq> j_user j \<Longrightarrow> accounts db' v = accounts db v"
    "\<And>x. u'\<lparr> records_used := x \<rparr> = (window_set (window_cte age u at) u)\<lparr> records_used := x \<rparr>"
    "records_used u' = (if roll_predicate u at then 0 else records_used u) + billable
       - (if roll_predicate u at then 0 else grant_in (j_user j) (quota_period_start u) j)"
proof -
  have d: "distinct (map j_id (job_rows db))" and ok: "\<forall>i \<in> set (job_rows db). job_ok db i"
    and u: "window_ok u" "0 \<le> delivered db (j_user j) u"
    using assms(2,7) by (simp_all add: ledger_ok_def)
  let ?uid = "j_user j" and ?w = "window_cte age u at"
  let ?f = "\<lambda>i. i\<lparr> j_billed_count := billable, j_billing_applied_at := Some at \<rparr>"
  let ?P = "\<lambda>j. j_id j = jid \<and> j_billing_applied_at j = None \<and> attempt_clauses token j"
  have "filter ?P (job_rows db) \<noteq> []"
    using assms(5) by (auto simp: bill_job_def update_where_def Let_def filter_empty_conv split: if_splits)
  then obtain i where i: "i \<in> set (job_rows db)" "?P i" by (auto simp: filter_empty_conv)
  then have ij: "i = j" using unique_row [OF d i(1)] assms(6) by simp
  show unb: "j_billing_applied_at j = None" using i(2) ij by simp
  have rows: "map (\<lambda>i. if ?P i then ?f i else i) (job_rows db) = map (\<lambda>i. if j_id i = jid then ?f i else i) (job_rows db)"
    by (rule map_only_row [where P = "\<lambda>j. j_billing_applied_at j = None \<and> attempt_clauses token j", OF d assms(6)])
      (use i(2) ij in simp)
  have jo: "job_of jid (map (\<lambda>i. if j_id i = jid then ?f i else i) (job_rows db)) = Some (?f j)"
    by (simp add: job_of_map assms(6))
  let ?ap = "if reservation_is_current (j_window j) (j_reserved_at j) (quota_period_start u) (records_period_start u) (w_rolling ?w)
      then j_reserved_count j else 0"
  let ?u = "(window_set ?w u)\<lparr> records_used := max 0 (w_base ?w + (billable - ?ap)) \<rparr>"
  have "applied_reserved s = ?ap \<and> db' = db\<lparr> accounts := (accounts db)(?uid \<mapsto> ?u),
      job_rows := map (\<lambda>i. if j_id i = jid then ?f i else i) (job_rows db) \<rparr>"
    using assms(5) i
    by (auto simp: bill_job_def settle_user_charge_def update_where_def Let_def rows jo assms(7) filter_empty_conv
        split: if_splits)
  then have s: "applied_reserved s = ?ap" and db': "db' = db\<lparr> accounts := (accounts db)(?uid \<mapsto> ?u),
      job_rows := map (\<lambda>i. if j_id i = jid then ?f i else i) (job_rows db) \<rparr>" by simp_all
  then have u': "u' = ?u" using assms(8) by simp
  have roll: "w_rolling ?w = roll_predicate u at" by (simp add: window_cte_def Let_def)
  have jok: "job_ok db j" using ok i(1) ij by simp
  have ap: "?ap = (if roll_predicate u at then 0 else grant_in ?uid (quota_period_start u) j)"
    using jok unb roll
    by (auto simp: reservation_is_current_def grant_in_def held_job_def job_ok_def split: option.splits)
  with s show "applied_reserved s = (if roll_predicate u at then 0 else grant_in ?uid (quota_period_start u) j)" by simp
  note cw = charge_window [OF assms(1) u(1) assms(3)]
  show st: "quota_period_start u \<le> quota_period_start u'"
    using cw(2,3) by (cases "w_rolling ?w") (simp_all add: u')
  show "records_limit u' = w_eff_limit ?w" by (simp add: u' window_set_def)
  have wok: "window_ok u'" using cw(1) by (simp add: u' window_ok_def)
  have le: "grant_in ?uid (quota_period_start u) j \<le> records_used u" by (rule grant_le_used [OF assms(2,7,6)])
  have nn0: "0 \<le> w_base ?w - ?ap" unfolding ap using le by (simp add: window_cte_def Let_def)
  have used: "records_used u' = w_base ?w + billable - ?ap" using nn0 assms(4) by (simp add: u')
  have gf: "grant_in ?uid w (?f j) = 0" for w by (simp add: grant_in_def held_job_def)
  have out: "w_base ?w - ?ap - (outstanding ?uid (quota_period_start u') (job_rows db) - grant_in ?uid (quota_period_start u') j)
      = (if roll_predicate u at then 0 else delivered db ?uid u)"
  proof (cases "roll_predicate u at")
    case True
    then have lt: "quota_period_start u < quota_period_start u'" using cw(3) roll by (simp add: u')
    have "grant_in ?uid (quota_period_start u') j = 0"
      using jok lt assms(7) by (fastforce simp: grant_in_def job_ok_def)
    with no_future_grants [OF ok assms(7) lt] True show ?thesis unfolding ap by (simp add: window_cte_def Let_def)
  next
    case False
    then have "quota_period_start u' = quota_period_start u" using cw(2) roll by (simp add: u')
    then show ?thesis using False unfolding ap by (simp add: window_cte_def Let_def delivered_def)
  qed
  have st': "quota_period_start u \<le> quota_period_start ?u" using st u' by simp
  have okj: "job_ok (db\<lparr> accounts := (accounts db)(?uid \<mapsto> u') \<rparr>) (?f j)"
    using jok assms(7) st by (fastforce simp: job_ok_def)
  have nn: "0 \<le> records_used u' - (outstanding ?uid (quota_period_start u') (job_rows db)
      - grant_in ?uid (quota_period_start u') j + grant_in ?uid (quota_period_start u') (?f j))"
    using out u(2) assms(4) unfolding used gf by (simp split: if_splits)
  note cl = charge_ledger [where f = ?f, OF assms(2,7,6) refl wok st _ _ okj nn db' [folded u']]
  show "ledger_ok db'" by (rule cl(1)) simp_all
  have "delivered db' ?uid u' = records_used u' - (outstanding ?uid (quota_period_start u') (job_rows db)
      - grant_in ?uid (quota_period_start u') j + grant_in ?uid (quota_period_start u') (?f j))"
    by (rule cl(2)) simp_all
  then show "delivered db' ?uid u' = (if roll_predicate u at then 0 else delivered db ?uid u) + billable"
    using out unfolding used gf by simp
  show "delivered db' v x = delivered db v x" if "v \<noteq> ?uid" for v x
    by (rule cl(3)) (use that in simp_all)
  show "\<exists>j'. job_of jid (job_rows db') = Some j' \<and> j_billing_applied_at j' = Some at \<and> j_billed_count j' = billable"
    using jo by (simp add: db')
  show "accounts db' v = accounts db v" if "v \<noteq> ?uid" for v using that by (simp add: db')
  show "u'\<lparr> records_used := x \<rparr> = (window_set ?w u)\<lparr> records_used := x \<rparr>" for x by (simp add: u')
  show "records_used u' = (if roll_predicate u at then 0 else records_used u) + billable
       - (if roll_predicate u at then 0 else grant_in ?uid (quota_period_start u) j)"
    using used ap by (simp add: window_cte_def Let_def)
qed


subsection \<open>Interleavings\<close>

text \<open>
  One event is one committed transaction. The code reserves for the job's own user, while the job has not
  billed, and a settlement's counts are never negative.
\<close>

datatype ledger_event =
  Reserve datetime datetime string string int
| Release string
| Settle attempt string int datetime

fun ledger_step :: "(datetime \<Rightarrow> datetime \<Rightarrow> int) \<Rightarrow> ledger_event \<Rightarrow> run_db \<Rightarrow> run_db" where
  "ledger_step age (Reserve marker now jid uid want) db =
     (case reserve_job_quota age marker now jid uid want db of Inl _ \<Rightarrow> db | Inr (_, db') \<Rightarrow> db')"
| "ledger_step age (Release jid) db = snd (release_quota_reservation jid db)"
| "ledger_step age (Settle token jid billable at) db = snd (bill_job age token jid billable at db)"

fun ledger_event_ok :: "run_db \<Rightarrow> ledger_event \<Rightarrow> bool" where
  "ledger_event_ok db (Reserve marker now jid uid want) \<longleftrightarrow> valid_dt now \<and> 0 \<le> want \<and>
     (case job_of jid (job_rows db) of None \<Rightarrow> True | Some j \<Rightarrow> j_user j = uid \<and> j_billing_applied_at j = None)"
| "ledger_event_ok db (Release jid) \<longleftrightarrow> True"
| "ledger_event_ok db (Settle token jid billable at) \<longleftrightarrow> valid_dt at \<and> 0 \<le> billable"

text \<open>
  The specification the reservations implement: a meter that has no reservations at all. It rolls the
  window and adds what is delivered; the number it shows is the deliveries of the live window.
\<close>

definition charge :: "(datetime \<Rightarrow> datetime \<Rightarrow> int) \<Rightarrow> int \<Rightarrow> datetime \<Rightarrow> user_row \<Rightarrow> user_row" where
  "charge age n at u = (window_set (window_cte age u at) u)\<lparr> records_used := w_base (window_cte age u at) + n \<rparr>"

definition meter :: "run_db \<Rightarrow> string \<rightharpoonup> user_row" where
  "meter db = (\<lambda>uid. map_option (\<lambda>u. u\<lparr> records_used := delivered db uid u \<rparr>) (accounts db uid))"

datatype meter_op = Idle | Charge string int datetime

fun meter_apply ::
    "(datetime \<Rightarrow> datetime \<Rightarrow> int) \<Rightarrow> meter_op \<Rightarrow> (string \<rightharpoonup> user_row) \<Rightarrow> (string \<rightharpoonup> user_row)" where
  "meter_apply age Idle m = m"
| "meter_apply age (Charge uid n at) m = m(uid := map_option (charge age n at) (m uid))"

fun meter_op_of :: "run_db \<Rightarrow> ledger_event \<Rightarrow> meter_op" where
  "meter_op_of db (Reserve marker now jid uid want) =
     (case job_of jid (job_rows db) of None \<Rightarrow> Idle
      | Some j \<Rightarrow> if j_reserved_at j = None then Charge uid 0 now else Idle)"
| "meter_op_of db (Release jid) = Idle"
| "meter_op_of db (Settle token jid billable at) =
     (case job_of jid (job_rows db) of None \<Rightarrow> Idle
      | Some j \<Rightarrow> if j_billing_applied_at j = None \<and> attempt_clauses token j then Charge (j_user j) billable at else Idle)"

lemma charge_meter:
  assumes "\<And>x. u'\<lparr> records_used := x \<rparr> = (window_set (window_cte age u at) u)\<lparr> records_used := x \<rparr>"
  shows "charge age n at (u\<lparr> records_used := d \<rparr>) = u'\<lparr> records_used := (if roll_predicate u at then 0 else d) + n \<rparr>"
  by (simp add: assms charge_def window_set_def window_cte_def Let_def roll_predicate_def)

lemma no_such_row: "job_of jid rows = None \<Longrightarrow> filter (\<lambda>j. j_id j = jid \<and> P j) rows = []"
  by (induction rows) (auto simp: job_of_def split: if_splits)

lemma only_row_filter:
  assumes "distinct (map j_id rows)" "job_of jid rows = Some j" "\<not> P j"
  shows "filter (\<lambda>j. j_id j = jid \<and> P j) rows = []"
  using only_row [OF assms(1,2)] assms(3) by (auto simp: filter_empty_conv)

lemma reserve_idle:
  assumes "ledger_ok db" "meter_op_of db (Reserve marker now jid uid want) = Idle"
  shows "ledger_step age (Reserve marker now jid uid want) db = db"
proof -
  have "filter (\<lambda>j. j_id j = jid \<and> j_reserved_at j = None) (job_rows db) = []"
    using assms no_such_row only_row_filter [where P = "\<lambda>j. j_reserved_at j = None"]
    by (auto simp: ledger_ok_def split: option.splits if_splits)
  then show ?thesis by (simp add: reserve_job_quota_def update_where_def)
qed

lemma settle_idle:
  assumes "ledger_ok db" "meter_op_of db (Settle token jid billable at) = Idle"
  shows "ledger_step age (Settle token jid billable at) db = db"
proof -
  have "filter (\<lambda>j. j_id j = jid \<and> j_billing_applied_at j = None \<and> attempt_clauses token j) (job_rows db) = []"
    using assms no_such_row only_row_filter [where P = "\<lambda>j. j_billing_applied_at j = None \<and> attempt_clauses token j"]
    by (auto simp: ledger_ok_def split: option.splits if_splits)
  then show ?thesis by (simp add: bill_job_def update_where_def)
qed


lemma reserve_fires:
  assumes "job_of jid (job_rows db) = Some j" "j_reserved_at j = None" "accounts db uid = Some u"
  obtains g db' where "reserve_job_quota age marker now jid uid want db = Inr (Some g, db')"
proof -
  have "filter (\<lambda>j. j_id j = jid \<and> j_reserved_at j = None) (job_rows db) \<noteq> []"
    using job_of_mem [OF assms(1)] assms(2) by (auto simp: filter_empty_conv)
  then show thesis using that assms(3) by (simp add: reserve_job_quota_def update_where_def Let_def)
qed

lemma settle_fires:
  assumes "job_of jid (job_rows db) = Some j" "j_billing_applied_at j = None" "attempt_clauses token j"
    and "accounts db (j_user j) = Some u"
  obtains s db' u' where "bill_job age token jid billable at db = (Some (Some s), db')" "accounts db' (j_user j) = Some u'"
proof -
  let ?P = "\<lambda>j. j_id j = jid \<and> j_billing_applied_at j = None \<and> attempt_clauses token j"
  let ?f = "\<lambda>j. j\<lparr> j_billed_count := billable, j_billing_applied_at := Some at \<rparr>"
  have ne: "filter ?P (job_rows db) \<noteq> []"
    using job_of_mem [OF assms(1)] assms(2,3) by (auto simp: filter_empty_conv)
  have "job_of jid (map (\<lambda>j. if ?P j then ?f j else j) rows) = map_option (\<lambda>j. if ?P j then ?f j else j) (job_of jid rows)" for rows
    by (induction rows) (simp_all add: job_of_def)
  then have "job_of jid (map (\<lambda>j. if ?P j then ?f j else j) (job_rows db)) = Some (?f j)"
    using assms(1-3) job_of_mem [OF assms(1)] by simp
  then show thesis
    using that ne assms(4) by (simp add: bill_job_def settle_user_charge_def update_where_def Let_def)
qed

lemma meter_update:
  assumes "accounts db' uid = Some u'" "\<And>v. v \<noteq> uid \<Longrightarrow> accounts db' v = accounts db v"
    and "\<And>v x. v \<noteq> uid \<Longrightarrow> delivered db' v x = delivered db v x"
    and "u'\<lparr> records_used := delivered db' uid u' \<rparr> = u0"
  shows "meter db' = (meter db)(uid \<mapsto> u0)"
  using assms by (auto simp: meter_def fun_eq_iff)

lemma reserve_step:
  assumes "age_covers age" "ledger_ok db" "ledger_event_ok db (Reserve marker now jid uid want)"
  shows "ledger_ok (ledger_step age (Reserve marker now jid uid want) db) \<and>
    meter (ledger_step age (Reserve marker now jid uid want) db)
      = meter_apply age (meter_op_of db (Reserve marker now jid uid want)) (meter db)"
proof (cases "meter_op_of db (Reserve marker now jid uid want)")
  case Idle
  then show ?thesis using reserve_idle [OF assms(2)] assms(2) by simp
next
  case (Charge uid' n at)
  then obtain j where j: "job_of jid (job_rows db) = Some j" "j_reserved_at j = None" "uid' = uid" "n = 0" "at = now"
    by (auto split: option.splits if_splits)
  show ?thesis
  proof (cases "accounts db uid")
    case None
    then have "ledger_step age (Reserve marker now jid uid want) db = db"
      by (simp add: reserve_job_quota_def update_where_def Let_def)
    then show ?thesis using Charge j None assms(2) by (auto simp: meter_def)
  next
    case (Some u)
    obtain g db' where r: "reserve_job_quota age marker now jid uid want db = Inr (Some g, db')"
      by (rule reserve_fires [OF j(1,2) Some])
    have step: "ledger_step age (Reserve marker now jid uid want) db = db'" by (simp add: r)
    have d: "distinct (map j_id (job_rows db))" using assms(2) by (simp add: ledger_ok_def)
    obtain u' where u': "accounts db' uid = Some u'" and oth: "\<And>v. v \<noteq> uid \<Longrightarrow> accounts db' v = accounts db v"
      by (rule reserve_cases [OF r d]) auto
    have ev: "valid_dt now" "0 \<le> want" "j_user j = uid" "j_billing_applied_at j = None" using assms(3) j(1) by auto
    note rl = reserve_ledger [OF assms(1,2) ev(1,2) r j(1) ev(3,4) Some u']
    have "meter db' = (meter db)(uid \<mapsto> charge age 0 now (u\<lparr> records_used := delivered db uid u \<rparr>))"
      by (rule meter_update [OF u' oth rl(3)])
        (simp_all add: charge_meter [where u' = u', OF rl(7)] rl(2) split: if_splits)
    then show ?thesis using rl(1) Charge j(3-5) Some unfolding step by (simp add: meter_def)
  qed
qed

lemma settle_no_account:
  assumes "job_of jid (job_rows db) = Some j" "j_billing_applied_at j = None" "attempt_clauses token j"
    and "accounts db (j_user j) = None"
  shows "ledger_step age (Settle token jid billable at) db = db"
proof -
  let ?P = "\<lambda>j. j_id j = jid \<and> j_billing_applied_at j = None \<and> attempt_clauses token j"
  let ?f = "\<lambda>j. j\<lparr> j_billed_count := billable, j_billing_applied_at := Some at \<rparr>"
  have "job_of jid (map (\<lambda>j. if ?P j then ?f j else j) rows) = map_option (\<lambda>j. if ?P j then ?f j else j) (job_of jid rows)" for rows
    by (induction rows) (simp_all add: job_of_def)
  then show ?thesis
    using assms job_of_mem [OF assms(1)] by (simp add: bill_job_def settle_user_charge_def update_where_def Let_def)
qed

lemma settle_step:
  assumes "age_covers age" "ledger_ok db" "ledger_event_ok db (Settle token jid billable at)"
  shows "ledger_ok (ledger_step age (Settle token jid billable at) db) \<and>
    meter (ledger_step age (Settle token jid billable at) db)
      = meter_apply age (meter_op_of db (Settle token jid billable at)) (meter db)"
proof (cases "meter_op_of db (Settle token jid billable at)")
  case Idle
  then show ?thesis using settle_idle [OF assms(2)] assms(2) by simp
next
  case (Charge uid n at')
  then obtain j where j: "job_of jid (job_rows db) = Some j" "j_billing_applied_at j = None" "attempt_clauses token j"
    "uid = j_user j" "n = billable" "at' = at"
    by (auto split: option.splits if_splits)
  show ?thesis
  proof (cases "accounts db uid")
    case None
    then have "ledger_step age (Settle token jid billable at) db = db" using settle_no_account j by simp
    then show ?thesis using Charge j(4-6) None assms(2) by (auto simp: meter_def)
  next
    case (Some u)
    have acc: "accounts db (j_user j) = Some u" using Some j(4) by simp
    obtain s db' u' where r: "bill_job age token jid billable at db = (Some (Some s), db')"
      and u': "accounts db' (j_user j) = Some u'"
      by (rule settle_fires [OF j(1-3) acc])
    have step: "ledger_step age (Settle token jid billable at) db = db'" by (simp add: r)
    have ev: "valid_dt at" "0 \<le> billable" using assms(3) by auto
    note rl = settle_ledger [OF assms(1,2) ev r j(1) acc u']
    have "meter db' = (meter db)(j_user j \<mapsto> charge age billable at (u\<lparr> records_used := delivered db (j_user j) u \<rparr>))"
      by (rule meter_update [OF u' rl(9) rl(3)])
        (simp_all add: charge_meter [where u' = u', OF rl(10)] rl(2) split: if_splits)
    then show ?thesis using rl(1) Charge j(4-6) Some unfolding step by (simp add: meter_def)
  qed
qed

lemma release_step:
  assumes "ledger_ok db"
  shows "ledger_ok (ledger_step age (Release jid) db) \<and> meter (ledger_step age (Release jid) db) = meter db"
proof -
  obtain n db' where r: "release_quota_reservation jid db = (n, db')" by (cases "release_quota_reservation jid db")
  note rl = release_ledger [OF assms r]
  have "meter db' uid = meter db uid" for uid
  proof (cases "accounts db uid")
    case None
    then have "accounts db' uid = None" using rl(2) by (metis domIff)
    then show ?thesis using None by (simp add: meter_def)
  next
    case (Some u)
    then obtain u' where u': "accounts db' uid = Some u'" using rl(2) by (metis domD domI)
    have "delivered db' uid u' = delivered db uid u" "u'\<lparr> records_used := 0 \<rparr> = u\<lparr> records_used := 0 \<rparr>"
      using rl(3) [OF Some u'] by simp_all
    moreover then have "u'\<lparr> records_used := d \<rparr> = u\<lparr> records_used := d \<rparr>" for d
      by (metis user_row.update_convs(3) user_row.surjective)
    ultimately show ?thesis using Some u' by (simp add: meter_def)
  qed
  then show ?thesis using rl(1) r by (simp add: fun_eq_iff)
qed

lemma ledger_step_refines:
  assumes "age_covers age" "ledger_ok db" "ledger_event_ok db ev"
  shows "ledger_ok (ledger_step age ev db) \<and>
    meter (ledger_step age ev db) = meter_apply age (meter_op_of db ev) (meter db)"
proof (cases ev)
  case (Reserve marker now jid uid want)
  then show ?thesis using reserve_step assms by blast
next
  case (Release jid)
  then show ?thesis using release_step [OF assms(2)] by simp
next
  case (Settle token jid billable at)
  then show ?thesis using settle_step assms by blast
qed


primrec ledger_run :: "(datetime \<Rightarrow> datetime \<Rightarrow> int) \<Rightarrow> ledger_event list \<Rightarrow> run_db \<Rightarrow> run_db" where
  "ledger_run age [] db = db"
| "ledger_run age (ev # evs) db = ledger_run age evs (ledger_step age ev db)"

primrec meter_ops :: "(datetime \<Rightarrow> datetime \<Rightarrow> int) \<Rightarrow> ledger_event list \<Rightarrow> run_db \<Rightarrow> meter_op list" where
  "meter_ops age [] db = []"
| "meter_ops age (ev # evs) db = meter_op_of db ev # meter_ops age evs (ledger_step age ev db)"

primrec ledger_trace_ok :: "(datetime \<Rightarrow> datetime \<Rightarrow> int) \<Rightarrow> ledger_event list \<Rightarrow> run_db \<Rightarrow> bool" where
  "ledger_trace_ok age [] db \<longleftrightarrow> True"
| "ledger_trace_ok age (ev # evs) db \<longleftrightarrow> ledger_event_ok db ev \<and> ledger_trace_ok age evs (ledger_step age ev db)"

lemma ledger_run_refines:
  assumes "age_covers age" "ledger_ok db" "ledger_trace_ok age evs db"
  shows "ledger_ok (ledger_run age evs db) \<and>
    meter (ledger_run age evs db) = fold (meter_apply age) (meter_ops age evs db) (meter db)"
  using assms(2,3)
proof (induction evs arbitrary: db)
  case (Cons ev evs)
  have s: "ledger_ok (ledger_step age ev db)" "meter (ledger_step age ev db) = meter_apply age (meter_op_of db ev) (meter db)"
    using ledger_step_refines [OF assms(1) Cons.prems(1)] Cons.prems(2) by simp_all
  show ?case using Cons.IH [OF s(1)] Cons.prems(2) s(2) by simp
qed simp

text \<open>An account within its limit, whose limit and pending limit are not negative.\<close>

definition within_limit :: "user_row \<Rightarrow> bool" where
  "within_limit u \<longleftrightarrow> records_used u \<le> records_limit u \<and> 0 \<le> records_limit u \<and>
     (case pending_records_limit u of None \<Rightarrow> True | Some n \<Rightarrow> 0 \<le> n)"

text \<open>
  What a settlement bills an account beyond the grant its job still holds of the live window, and the sum of
  these over the live window: it starts again from zero when the window rolls.
\<close>

fun uncovered :: "string \<Rightarrow> run_db \<Rightarrow> ledger_event \<Rightarrow> int" where
  "uncovered uid db (Settle token jid billable at) =
     (case job_of jid (job_rows db) of
        None \<Rightarrow> 0
      | Some j \<Rightarrow>
          if j_user j = uid \<and> j_billing_applied_at j = None \<and> attempt_clauses token j
          then (case accounts db uid of
                  None \<Rightarrow> 0
                | Some u \<Rightarrow> max 0 (billable - (if roll_predicate u at then 0 else grant_in uid (quota_period_start u) j)))
          else 0)"
| "uncovered uid db ev = 0"

definition same_window :: "string \<Rightarrow> run_db \<Rightarrow> run_db \<Rightarrow> bool" where
  "same_window uid db db' \<longleftrightarrow> map_option quota_period_start (accounts db' uid) = map_option quota_period_start (accounts db uid)"

primrec carried :: "(datetime \<Rightarrow> datetime \<Rightarrow> int) \<Rightarrow> string \<Rightarrow> ledger_event list \<Rightarrow> run_db \<Rightarrow> int \<Rightarrow> int" where
  "carried age uid [] db c = c"
| "carried age uid (ev # evs) db c =
     carried age uid evs (ledger_step age ev db)
       ((if same_window uid db (ledger_step age ev db) then c else 0) + uncovered uid db ev)"

text \<open>An account past its limit by at most \<open>c\<close>.\<close>

definition past_by :: "int \<Rightarrow> user_row \<Rightarrow> bool" where
  "past_by c u \<longleftrightarrow> 0 \<le> c \<and> records_used u \<le> records_limit u + c \<and> 0 \<le> records_limit u \<and>
     (case pending_records_limit u of None \<Rightarrow> True | Some n \<Rightarrow> 0 \<le> n)"

lemma past_by_within: "past_by 0 u \<longleftrightarrow> within_limit u"
  by (simp add: past_by_def within_limit_def)

lemma past_by_charge:
  assumes "past_by c u" "\<And>x. u'\<lparr> records_used := x \<rparr> = (window_set (window_cte age u at) u)\<lparr> records_used := x \<rparr>"
    and "records_used u' \<le> (if roll_predicate u at then 0 else records_used u) + n \<or> records_used u' \<le> records_limit u'" "0 \<le> n"
  shows "past_by ((if roll_predicate u at then 0 else c) + n) u'"
proof -
  have f: "records_limit u' = w_eff_limit (window_cte age u at)"
    "pending_records_limit u' = (if roll_predicate u at then None else pending_records_limit u)"
    using arg_cong [OF assms(2), of records_limit] arg_cong [OF assms(2), of pending_records_limit]
    by (simp_all add: window_set_def window_cte_def Let_def)
  then show ?thesis using assms(1,3,4)
    by (auto simp: past_by_def window_cte_def Let_def opt_or_def split: option.splits)
qed

lemma charge_same_window:
  assumes "age_covers age" "window_ok u" "valid_dt at"
    "\<And>x. u'\<lparr> records_used := x \<rparr> = (window_set (window_cte age u at) u)\<lparr> records_used := x \<rparr>"
  shows "quota_period_start u' = quota_period_start u \<longleftrightarrow> \<not> roll_predicate u at"
proof -
  have "quota_period_start u' = quota_period_start (window_set (window_cte age u at) u)"
    using arg_cong [OF assms(4), of quota_period_start] by simp
  moreover have "w_rolling (window_cte age u at) = roll_predicate u at" by (simp add: window_cte_def Let_def)
  ultimately show ?thesis using charge_window(2,3) [OF assms(1-3)] by (cases "roll_predicate u at") auto
qed

text \<open>One event, for the account it charges and for every other.\<close>

definition step_keeps :: "string \<Rightarrow> int \<Rightarrow> run_db \<Rightarrow> run_db \<Rightarrow> int \<Rightarrow> bool" where
  "step_keeps uid c db db' n \<longleftrightarrow>
     (\<forall>u'. accounts db' uid = Some u' \<longrightarrow> past_by ((if same_window uid db db' then c else 0) + n) u')"

lemma untouched_keeps:
  assumes "\<And>u. accounts db uid = Some u \<Longrightarrow> past_by c u" "accounts db' uid = accounts db uid" "n = 0"
  shows "step_keeps uid c db db' n"
  using assms by (simp add: step_keeps_def same_window_def)

lemma reserve_keeps:
  assumes "age_covers age" "ledger_ok db" "ledger_event_ok db (Reserve marker now jid v want)"
    and "\<And>u. accounts db uid = Some u \<Longrightarrow> past_by c u"
  shows "step_keeps uid c db (ledger_step age (Reserve marker now jid v want) db) 0"
proof (cases "reserve_job_quota age marker now jid v want db")
  case (Inl e)
  then show ?thesis using assms(4) by (intro untouched_keeps) simp_all
next
  case (Inr r)
  obtain go db' where r: "r = (go, db')" by (cases r)
  show ?thesis
  proof (cases go)
    case None
    then have "db' = db"
      using Inr r by (auto simp: reserve_job_quota_def Let_def update_where_def split: if_splits option.splits)
    then show ?thesis using Inr r assms(4) by (intro untouched_keeps) simp_all
  next
    case (Some g)
    have e: "reserve_job_quota age marker now jid v want db = Inr (Some g, db')" using Inr r Some by simp
    have d: "distinct (map j_id (job_rows db))" using assms(2) by (simp add: ledger_ok_def)
    obtain u j u' where u: "accounts db v = Some u" and j: "job_of jid (job_rows db) = Some j"
      and u': "accounts db' v = Some u'" and oth: "\<And>w. w \<noteq> v \<Longrightarrow> accounts db' w = accounts db w"
      by (rule reserve_cases [OF e d]) auto
    have ev: "valid_dt now" "0 \<le> want" "j_user j = v" "j_billing_applied_at j = None" using assms(3) j by auto
    note rl = reserve_ledger [OF assms(1,2) ev(1,2) e j(1) ev(3,4) u u']
    have w: "window_ok u" using assms(2) u by (simp add: ledger_ok_def)
    note sw = charge_same_window [OF assms(1) w ev(1) rl(7)]
    show ?thesis
    proof (cases "uid = v")
      case True
      have p: "past_by c u" using assms(4) u True by simp
      have "records_used u' \<le> (if roll_predicate u now then 0 else records_used u) + 0 \<or> records_used u' \<le> records_limit u'"
        using rl(6) by auto
      from past_by_charge [OF p rl(7) this] show ?thesis using e u u' sw True
        by (simp add: step_keeps_def same_window_def split: if_splits)
    next
      case False
      then show ?thesis using e oth assms(4) by (intro untouched_keeps) simp_all
    qed
  qed
qed

definition all_within :: "run_db \<Rightarrow> bool" where
  "all_within db \<longleftrightarrow> (\<forall>uid u. accounts db uid = Some u \<longrightarrow> within_limit u)"

lemma reserve_within:
  assumes "age_covers age" "ledger_ok db" "ledger_event_ok db (Reserve marker now jid v want)" "all_within db"
  shows "all_within (ledger_step age (Reserve marker now jid v want) db)"
  using reserve_keeps [OF assms(1-3), where c = 0] assms(4)
  by (fastforce simp: all_within_def step_keeps_def past_by_within simp del: ledger_step.simps)

lemma settle_keeps:
  assumes "age_covers age" "ledger_ok db" "ledger_event_ok db (Settle token jid billable at)"
    and "\<And>u. accounts db uid = Some u \<Longrightarrow> past_by c u"
  shows "step_keeps uid c db (ledger_step age (Settle token jid billable at) db) (uncovered uid db (Settle token jid billable at))"
proof (cases "meter_op_of db (Settle token jid billable at)")
  case Idle
  then have "uncovered uid db (Settle token jid billable at) = 0" by (auto split: option.splits if_splits)
  then show ?thesis using settle_idle [OF assms(2) Idle] assms(4) by (intro untouched_keeps) simp_all
next
  case (Charge v n at')
  then obtain j where j: "job_of jid (job_rows db) = Some j" "j_billing_applied_at j = None" "attempt_clauses token j"
    by (auto split: option.splits if_splits)
  show ?thesis
  proof (cases "accounts db (j_user j)")
    case None
    then have "uncovered uid db (Settle token jid billable at) = 0" using j by (auto split: option.split)
    then show ?thesis using settle_no_account [OF j None] assms(4) by (intro untouched_keeps) simp_all
  next
    case (Some u)
    obtain s db' u' where r: "bill_job age token jid billable at db = (Some (Some s), db')"
      and u': "accounts db' (j_user j) = Some u'"
      by (rule settle_fires [OF j Some])
    have ev: "valid_dt at" "0 \<le> billable" using assms(3) by auto
    note rl = settle_ledger [OF assms(1,2) ev r j(1) Some u']
    have w: "window_ok u" using assms(2) Some by (simp add: ledger_ok_def)
    note sw = charge_same_window [OF assms(1) w ev(1) rl(10)]
    show ?thesis
    proof (cases "uid = j_user j")
      case True
      let ?g = "if roll_predicate u at then 0 else grant_in (j_user j) (quota_period_start u) j"
      let ?n = "max 0 (billable - ?g)"
      have p: "past_by c u" using assms(4) Some True by simp
      have n: "uncovered uid db (Settle token jid billable at) = ?n" using j Some True by simp
      have "records_used u' = (if roll_predicate u at then 0 else records_used u) + (billable - ?g)" using rl(11) by simp
      then have "records_used u' \<le> (if roll_predicate u at then 0 else records_used u) + ?n \<or> records_used u' \<le> records_limit u'"
        by simp
      from past_by_charge [OF p rl(10) this] have "past_by ((if roll_predicate u at then 0 else c) + ?n) u'" by simp
      then show ?thesis unfolding n using r Some u' sw True
        by (simp add: step_keeps_def same_window_def split: if_splits)
    next
      case False
      have "uncovered uid db (Settle token jid billable at) = 0" using j False by simp
      then show ?thesis using r rl(9) assms(4) False by (intro untouched_keeps) simp_all
    qed
  qed
qed

lemma release_keeps:
  assumes "ledger_ok db" "\<And>u. accounts db uid = Some u \<Longrightarrow> past_by c u"
  shows "step_keeps uid c db (ledger_step age (Release jid) db) 0"
proof -
  obtain n db' where r: "release_quota_reservation jid db = (n, db')" by (cases "release_quota_reservation jid db")
  have n: "0 \<le> n" using r assms(1)
    by (auto simp: release_quota_reservation_def ledger_ok_def job_ok_def Let_def find_Some_iff split: option.splits)
  have "past_by c u' \<and> same_window uid db db'" if u': "accounts db' uid = Some u'" for u'
  proof -
    obtain u where u: "accounts db uid = Some u" using release_ledger(2) [OF assms(1) r] u' by (metis domD domI)
    have f: "u'\<lparr> records_used := 0 \<rparr> = u\<lparr> records_used := 0 \<rparr>" "records_used u' \<le> records_used u"
      using release_ledger(3) [OF assms(1) r u u'] n by simp_all
    have "records_limit u' = records_limit u" "pending_records_limit u' = pending_records_limit u"
      "quota_period_start u' = quota_period_start u"
      using arg_cong [OF f(1), of records_limit] arg_cong [OF f(1), of pending_records_limit]
        arg_cong [OF f(1), of quota_period_start] by simp_all
    then show ?thesis using assms(2) [OF u] f(2) u u' by (simp add: past_by_def same_window_def)
  qed
  then show ?thesis using r by (simp add: step_keeps_def)
qed

lemma ledger_run_carried:
  assumes "age_covers age" "ledger_ok db" "ledger_trace_ok age evs db" "\<And>u. accounts db uid = Some u \<Longrightarrow> past_by c u"
    and "accounts (ledger_run age evs db) uid = Some u"
  shows "past_by (carried age uid evs db c) u"
  using assms(2-)
proof (induction evs arbitrary: db c)
  case (Cons ev evs)
  let ?c = "(if same_window uid db (ledger_step age ev db) then c else 0) + uncovered uid db ev"
  have s: "ledger_ok (ledger_step age ev db)"
    using ledger_step_refines [OF assms(1) Cons.prems(1)] Cons.prems(2) by simp
  have ev: "ledger_event_ok db ev" using Cons.prems(2) by simp
  have "step_keeps uid c db (ledger_step age ev db) (uncovered uid db ev)"
  proof (cases ev)
    case (Reserve marker now jid v want)
    then show ?thesis using reserve_keeps [OF assms(1) Cons.prems(1) _ Cons.prems(3)] ev by simp
  next
    case (Release jid)
    then show ?thesis using release_keeps [OF Cons.prems(1,3)] by simp
  next
    case (Settle token jid billable at)
    then show ?thesis using settle_keeps [OF assms(1) Cons.prems(1) _ Cons.prems(3)] ev by blast
  qed
  then have "past_by ?c u'" if "accounts (ledger_step age ev db) uid = Some u'" for u'
    using that by (simp add: step_keeps_def)
  from Cons.IH [OF s _ this] Cons.prems(2,4) show ?case by simp
qed simp


subsection \<open>Giving back\<close>

lemma find_only_row:
  assumes "distinct (map j_id rows)" "job_of jid rows = Some j"
  shows "find (\<lambda>j. j_id j = jid \<and> P j) rows = (if P j then Some j else None)"
  using assms
proof (induction rows)
  case (Cons i rows)
  show ?case
  proof (cases "j_id i = jid")
    case True
    then have "find (\<lambda>j. j_id j = jid \<and> P j) rows = None"
      using Cons.prems(1) by (auto simp: find_None_iff image_iff)
    then show ?thesis using True Cons.prems(2) by (auto simp: job_of_def)
  qed (use Cons in \<open>simp add: job_of_def\<close>)
qed (simp add: job_of_def)

lemma charge_zero_used: "records_used (charge age n at u) = w_base (window_cte age u at) + n"
  by (simp add: charge_def)

lemma reserve_release:
  assumes "age_covers age" "ledger_ok db" "valid_dt now" "0 \<le> want"
    and "reserve_job_quota age marker now jid uid want db = Inr (Some g, db')" "0 < g"
    and "job_of jid (job_rows db) = Some j" "j_user j = uid" "j_billing_applied_at j = None" "accounts db uid = Some u"
  shows "release_quota_reservation jid db' =
    (g, db\<lparr> accounts := (accounts db)(uid \<mapsto> charge age 0 now u),
            job_rows := map (\<lambda>i. if j_id i = jid then i\<lparr> j_reserved_at := None, j_reserved_count := 0,
              j_window := Some (w_new_start (window_cte age u now)) \<rparr> else i) (job_rows db) \<rparr>)"
proof -
  let ?w = "window_cte age u now"
  let ?f = "\<lambda>i. i\<lparr> j_reserved_count := g, j_window := Some (w_new_start ?w), j_reserved_at := Some now \<rparr>"
  let ?u = "(window_set ?w u)\<lparr> records_used := w_base ?w + g \<rparr>"
  have d: "distinct (map j_id (job_rows db))" using assms(2) by (simp add: ledger_ok_def)
  obtain u0 where u0: "accounts db uid = Some u0" and db': "db' = db\<lparr> accounts := (accounts db)(uid \<mapsto>
      (window_set (window_cte age u0 now) u0)\<lparr> records_used := w_base (window_cte age u0 now) + g \<rparr>),
      job_rows := map (\<lambda>i. if j_id i = jid then i\<lparr> j_reserved_count := g,
             j_window := Some (w_new_start (window_cte age u0 now)), j_reserved_at := Some now \<rparr> else i) (job_rows db) \<rparr>"
    by (rule reserve_cases [OF assms(5) d])
  have same: "u0 = u" using u0 assms(10) by simp
  note db' = db' [unfolded same]
  have ids: "map j_id (map (\<lambda>i. if j_id i = jid then ?f i else i) (job_rows db)) = map j_id (job_rows db)" by simp
  have jo: "job_of jid (map (\<lambda>i. if j_id i = jid then ?f i else i) (job_rows db)) = Some (?f j)"
    by (simp add: job_of_map assms(7))
  have start: "quota_period_start ?u = w_new_start ?w" by (simp add: window_set_def)
  have held: "held_job (?f j) \<and> reservation_still_held db' (?f j)"
    using assms(6,8,9) start by (simp add: held_job_def reservation_still_held_def db' reservation_is_current_def)
  have F: "find (\<lambda>j. j_id j = jid \<and> held_job j \<and> reservation_still_held db' j) (job_rows db') = Some (?f j)"
    using find_only_row [OF d [folded ids] jo, where P = "\<lambda>j. held_job j \<and> reservation_still_held db' j"] held
    by (simp add: db')
  have base: "0 \<le> w_base ?w"
  proof -
    have "0 \<le> delivered db uid u" "0 \<le> outstanding uid (quota_period_start u) (job_rows db)"
      using assms(2,10) by (auto simp: ledger_ok_def intro: outstanding_nonneg)
    then have "0 \<le> records_used u" by (simp add: delivered_def)
    then show ?thesis by (simp add: window_cte_def Let_def)
  qed
  have A: "(\<lambda>i. if i = uid then map_option (\<lambda>u. u\<lparr> records_used := max 0 (records_used u - g) \<rparr>) (accounts db' i)
      else accounts db' i) = (accounts db)(uid \<mapsto> charge age 0 now u)"
    using base by (auto simp: db' charge_def)
  have "release_quota_reservation jid db' = (g, db'\<lparr> accounts := (accounts db)(uid \<mapsto> charge age 0 now u),
      job_rows := map (\<lambda>j. if j_id j = jid then j\<lparr> j_reserved_at := None, j_reserved_count := 0 \<rparr> else j) (job_rows db') \<rparr>)"
    using F A assms(8) by (simp add: release_quota_reservation_def update_where_def Let_def)
  then show ?thesis by (simp add: db')
qed

lemma release_rows:
  assumes "ledger_ok db"
  shows "job_rows (snd (release_quota_reservation jid db))
    = map (\<lambda>i. if j_id i = jid \<and> held_job i then reset_grant i else i) (job_rows db)"
proof (cases "find (\<lambda>j. j_id j = jid \<and> held_job j \<and> reservation_still_held db j) (job_rows db)")
  case None
  then show ?thesis by (simp add: release_quota_reservation_def update_where_def reset_grant_def)
next
  case (Some j)
  then have j: "j \<in> set (job_rows db)" "j_id j = jid" "held_job j" by (auto simp: find_Some_iff)
  have d: "distinct (map j_id (job_rows db))" using assms by (simp add: ledger_ok_def)
  have jo: "job_of jid (job_rows db) = Some j" using unique_row [OF d j(1)] j(2) by simp
  show ?thesis unfolding map_only_row [where P = held_job, OF d jo j(3)]
    using Some by (simp add: release_quota_reservation_def update_where_def reset_grant_def Let_def)
qed

lemma sweep_fold:
  assumes "ledger_ok db"
  shows "ledger_ok (snd (fold (\<lambda>jid (k, db). case release_quota_reservation jid db of
             (n, db') \<Rightarrow> (if n \<noteq> 0 then k + 1 else k, db')) L (k, db))) \<and>
    meter (snd (fold (\<lambda>jid (k, db). case release_quota_reservation jid db of
             (n, db') \<Rightarrow> (if n \<noteq> 0 then k + 1 else k, db')) L (k, db))) = meter db \<and>
    job_rows (snd (fold (\<lambda>jid (k, db). case release_quota_reservation jid db of
             (n, db') \<Rightarrow> (if n \<noteq> 0 then k + 1 else k, db')) L (k :: nat, db)))
      = map (\<lambda>i. if j_id i \<in> set L \<and> held_job i then reset_grant i else i) (job_rows db)"
  using assms
proof (induction L arbitrary: k db)
  case (Cons jid L)
  obtain n db' where r: "release_quota_reservation jid db = (n, db')" by (cases "release_quota_reservation jid db")
  have s: "ledger_ok db'" "meter db' = meter db" using release_step [OF Cons.prems, of "\<lambda>_ _. 0" jid] r by simp_all
  have rows: "job_rows db' = map (\<lambda>i. if j_id i = jid \<and> held_job i then reset_grant i else i) (job_rows db)"
    using release_rows [OF Cons.prems, of jid] r by simp
  have nh: "\<not> held_job (reset_grant i)" for i by (simp add: reset_grant_def held_job_def)
  show ?case using Cons.IH [OF s(1), of "if n \<noteq> 0 then k + 1 else k"]
    by (auto simp: r s(2) rows nh)
qed simp

lemma sweep_frees_stranded:
  assumes "ledger_ok db" "length (filter (\<lambda>j. terminal j \<and> held_job j) (job_rows db)) \<le> limit"
  shows "ledger_ok (snd (sweep_stranded_quota_reservations limit db)) \<and>
    meter (snd (sweep_stranded_quota_reservations limit db)) = meter db \<and>
    job_rows (snd (sweep_stranded_quota_reservations limit db))
      = map (\<lambda>j. if terminal j \<and> held_job j then reset_grant j else j) (job_rows db)"
proof -
  have d: "distinct (map j_id (job_rows db))" using assms(1) by (simp add: ledger_ok_def)
  have ids: "set (stranded_jobs limit db) = j_id ` {j \<in> set (job_rows db). terminal j \<and> held_job j}"
    using assms(2) by (simp add: stranded_jobs_def)
  have "j_id i \<in> set (stranded_jobs limit db) \<and> held_job i \<longleftrightarrow> terminal i \<and> held_job i" if "i \<in> set (job_rows db)" for i
  proof -
    have "i = k" if "k \<in> set (job_rows db)" "j_id i = j_id k" for k
      using d \<open>i \<in> set (job_rows db)\<close> that by (auto simp: distinct_map inj_on_def)
    then show ?thesis using that unfolding ids by auto
  qed
  then have "map (\<lambda>i. if j_id i \<in> set (stranded_jobs limit db) \<and> held_job i then reset_grant i else i) (job_rows db)
    = map (\<lambda>j. if terminal j \<and> held_job j then reset_grant j else j) (job_rows db)"
    by (intro map_cong) simp_all
  then show ?thesis using sweep_fold [OF assms(1), of "stranded_jobs limit db" 0]
    by (simp add: sweep_stranded_quota_reservations_def)
qed


subsection \<open>Properties\<close>

definition sample_db :: run_db where
  "sample_db =
     \<lparr> accounts = [''u1'' \<mapsto> sample_user],
       job_rows = [sample_job\<lparr> j_status := SCRAPING, j_started_at := Some (sample_time 5) \<rparr>,
                   sample_job\<lparr> j_id := ''j2'', j_status := SCRAPING, j_started_at := Some (sample_time 6) \<rparr>],
       claims = [] \<rparr>"

text \<open>Both jobs reserve 80 of the 100 records left; one delivers 60, the other is released.\<close>

definition sample_ledger :: "ledger_event list" where
  "sample_ledger =
     [Reserve (sample_time 7) (sample_time 7) ''j1'' ''u1'' 80,
      Reserve (sample_time 8) (sample_time 8) ''j2'' ''u1'' 80,
      Settle (AttemptToken (sample_time 5) 0) ''j1'' 60 (sample_time 9),
      Release ''j2'']"

lemma sample_db_ok: "ledger_ok sample_db"
proof -
  have v: "window_ok sample_user" "0 \<le> delivered sample_db ''u1'' sample_user" by code_simp+
  have "job_ok sample_db j" if "j \<in> set (job_rows sample_db)" for j
    using that by (auto simp: sample_db_def job_ok_def sample_job_def)
  moreover have "distinct (map j_id (job_rows sample_db))" by code_simp
  moreover have "uid = ''u1'' \<and> u = sample_user" if "accounts sample_db uid = Some u" for uid u
    using that by (simp add: sample_db_def split: if_splits)
  ultimately show "ledger_ok sample_db" using v by (auto simp: ledger_ok_def)
qed

text \<open>
  C19: Reservations are invisible in what an account is charged. Whatever the order in which its jobs
  reserve, release and settle, the account's counter less the grants still held is the counter of a
  meter that has no reservations: each settlement adds its delivered records once, a lost, retried or
  released reservation adds nothing, and the window rolls where the meter's does. The ledger invariant
  (a counter never below the grants held) survives every such trace.
\<close>

theorem reservations_refine_the_meter:
  assumes "age_covers age" "ledger_ok db" "ledger_trace_ok age evs db"
  shows "ledger_ok (ledger_run age evs db) \<and>
    meter (ledger_run age evs db) = fold (meter_apply age) (meter_ops age evs db) (meter db)"
  by (rule ledger_run_refines [OF assms])

theorem reservations_refine_the_meter_witness:
  "meter (ledger_run sample_age sample_ledger sample_db)
     = fold (meter_apply sample_age)
         [Charge ''u1'' 0 (sample_time 7), Charge ''u1'' 0 (sample_time 8), Charge ''u1'' 60 (sample_time 9), Idle]
         (meter sample_db)"
proof -
  have "ledger_trace_ok sample_age sample_ledger sample_db" by code_simp
  note r = reservations_refine_the_meter [OF sample_age_covers sample_db_ok this]
  have "meter_ops sample_age sample_ledger sample_db
    = [Charge ''u1'' 0 (sample_time 7), Charge ''u1'' 0 (sample_time 8), Charge ''u1'' 60 (sample_time 9), Idle]"
    by code_simp
  with r show ?thesis by simp
qed

text \<open>
  C21: Concurrent jobs take an account past its plan limit only by what they bill without a live grant. In any
  interleaving of grants, releases and settlements, across window rolls and the parked plan changes they apply, the
  counter of an account that began within its limit (deliveries plus grants) exceeds the limit of its live window by at
  most what settlements billed in that window beyond the grant their job still held of it: nothing, unless a run
  settles in a later window than the one that granted it, or settles more than it was granted. Grants themselves never
  add to the excess.
\<close>

theorem grants_never_exceed_the_limit:
  assumes "age_covers age" "ledger_ok db" "ledger_trace_ok age evs db" "accounts db uid = Some u0" "within_limit u0"
    and "accounts (ledger_run age evs db) uid = Some u"
  shows "records_used u \<le> records_limit u + carried age uid evs db 0"
proof -
  have "past_by 0 v" if "accounts db uid = Some v" for v using that assms(4,5) by (simp add: past_by_within)
  from ledger_run_carried [OF assms(1-3) this assms(6)] show ?thesis by (simp add: past_by_def)
qed

text \<open>A run granted 80 in March settles 60 in April, after another run was granted all 50 of the smaller plan's limit.\<close>

definition late_ledger :: "ledger_event list" where
  "late_ledger =
     [Reserve (sample_time 7) (sample_time 7) ''j1'' ''u1'' 80,
      Reserve (DateTime 2026 4 2 0) (DateTime 2026 4 2 0) ''j2'' ''u1'' 50,
      Settle (AttemptToken (sample_time 5) 0) ''j1'' 60 (DateTime 2026 4 3 0)]"

theorem grants_never_exceed_the_limit_witness:
  "(case accounts (ledger_run sample_age sample_ledger sample_db) ''u1'' of
      None \<Rightarrow> False | Some u \<Rightarrow> records_used u = 960 \<and> records_used u \<le> records_limit u) \<and>
   (case accounts (ledger_run sample_age late_ledger sample_db) ''u1'' of
      None \<Rightarrow> False | Some u \<Rightarrow> records_used u = 110 \<and> records_limit u = 50 \<and> records_used u \<le> records_limit u + 60)"
proof -
  have t: "ledger_trace_ok sample_age sample_ledger sample_db" "ledger_trace_ok sample_age late_ledger sample_db"
    "carried sample_age ''u1'' sample_ledger sample_db 0 = 0" "carried sample_age ''u1'' late_ledger sample_db 0 = 60"
    "accounts sample_db ''u1'' = Some sample_user" "within_limit sample_user"
    "map_option records_used (accounts (ledger_run sample_age sample_ledger sample_db) ''u1'') = Some 960"
    "map_option records_used (accounts (ledger_run sample_age late_ledger sample_db) ''u1'') = Some 110"
    "map_option records_limit (accounts (ledger_run sample_age late_ledger sample_db) ''u1'') = Some 50"
    by code_simp+
  then obtain u v where "accounts (ledger_run sample_age sample_ledger sample_db) ''u1'' = Some u" "records_used u = 960"
      "accounts (ledger_run sample_age late_ledger sample_db) ''u1'' = Some v" "records_used v = 110" "records_limit v = 50"
    by auto
  then show ?thesis
    using grants_never_exceed_the_limit [OF sample_age_covers sample_db_ok t(1,5,6)]
      grants_never_exceed_the_limit [OF sample_age_covers sample_db_ok t(2,5,6)] t(3,4) by simp
qed

text \<open>
  A release returns exactly what was granted: reserving a positive share and releasing it leaves
  the account as charging it nothing leaves it (its window rolled if it was due), the job without a
  reservation, and every other row untouched.
\<close>

theorem release_undoes_reserve:
  assumes "age_covers age" "ledger_ok db" "valid_dt now" "0 \<le> want"
    and "reserve_job_quota age marker now jid uid want db = Inr (Some g, db')" "0 < g"
    and "job_of jid (job_rows db) = Some j" "j_user j = uid" "j_billing_applied_at j = None" "accounts db uid = Some u"
  shows "release_quota_reservation jid db' =
    (g, db\<lparr> accounts := (accounts db)(uid \<mapsto> charge age 0 now u),
            job_rows := map (\<lambda>i. if j_id i = jid then i\<lparr> j_reserved_at := None, j_reserved_count := 0,
              j_window := Some (w_new_start (window_cte age u now)) \<rparr> else i) (job_rows db) \<rparr>)"
  by (rule reserve_release [OF assms])

theorem release_undoes_reserve_witness:
  "case reserve_job_quota sample_age (sample_time 7) (sample_time 7) ''j1'' ''u1'' 80 sample_db of
     Inl _ \<Rightarrow> False
   | Inr (g, db') \<Rightarrow> g = Some 80 \<and> fst (release_quota_reservation ''j1'' db') = 80 \<and>
       accounts (snd (release_quota_reservation ''j1'' db')) ''u1'' = Some (charge sample_age 0 (sample_time 7) sample_user)"
proof -
  define r where "r = reserve_job_quota sample_age (sample_time 7) (sample_time 7) ''j1'' ''u1'' 80 sample_db"
  have "case r of Inl _ \<Rightarrow> False | Inr (g, db') \<Rightarrow> g = Some 80" unfolding r_def by code_simp
  then obtain db' where r: "r = Inr (Some 80, db')" by (cases r) auto
  have j: "job_of ''j1'' (job_rows sample_db) = Some (hd (job_rows sample_db))"
    "j_user (hd (job_rows sample_db)) = ''u1''" "j_billing_applied_at (hd (job_rows sample_db)) = None"
    by code_simp+
  have u: "accounts sample_db ''u1'' = Some sample_user" by (simp add: sample_db_def)
  have v: "valid_dt (sample_time 7)" by code_simp
  have "release_quota_reservation ''j1'' db' = (80, sample_db\<lparr> accounts := (accounts sample_db)(''u1'' \<mapsto> charge sample_age 0 (sample_time 7) sample_user),
       job_rows := map (\<lambda>i. if j_id i = ''j1'' then i\<lparr> j_reserved_at := None, j_reserved_count := 0,
              j_window := Some (w_new_start (window_cte sample_age sample_user (sample_time 7))) \<rparr> else i) (job_rows sample_db) \<rparr>)"
    by (rule release_undoes_reserve [OF sample_age_covers sample_db_ok v _ r [unfolded r_def] _ j u]) simp_all
  then show ?thesis unfolding r_def [symmetric] r by simp
qed

text \<open>
  One sweep whose limit covers the backlog leaves no terminal job holding quota it never billed:
  exactly those jobs' reservations are cleared, a live job's grant is untouched, and no account is
  charged or credited for it (the meter does not move).
\<close>

theorem sweep_frees_every_stranded_grant:
  assumes "ledger_ok db" "length (filter (\<lambda>j. terminal j \<and> held_job j) (job_rows db)) \<le> limit"
  shows "meter (snd (sweep_stranded_quota_reservations limit db)) = meter db \<and>
    job_rows (snd (sweep_stranded_quota_reservations limit db))
      = map (\<lambda>j. if terminal j \<and> held_job j then j\<lparr> j_reserved_at := None, j_reserved_count := 0 \<rparr> else j) (job_rows db)"
  using sweep_frees_stranded [OF assms] by (simp add: reset_grant_def)

definition stranded_db :: run_db where
  "stranded_db = (case ledger_run sample_age (take 2 sample_ledger) sample_db of
     db \<Rightarrow> db\<lparr> job_rows := map (\<lambda>j. if j_id j = ''j1'' then j\<lparr> j_status := FAILED \<rparr> else j) (job_rows db) \<rparr>)"

lemma stranded_db_ok: "ledger_ok stranded_db"
proof -
  let ?db = "ledger_run sample_age (take 2 sample_ledger) sample_db"
  have "ledger_trace_ok sample_age (take 2 sample_ledger) sample_db" by code_simp
  then have ok: "ledger_ok ?db" using ledger_run_refines [OF sample_age_covers sample_db_ok] by blast
  have jo: "job_of ''j1'' (job_rows ?db) = Some (hd (job_rows ?db))" by code_simp
  let ?f = "\<lambda>j. j\<lparr> j_status := FAILED \<rparr>"
  have "job_ok ?db (hd (job_rows ?db))" using ok job_of_mem [OF jo] by (simp add: ledger_ok_def)
  then have j: "job_ok ?db (?f (hd (job_rows ?db)))" by (simp add: job_ok_def)
  show ?thesis unfolding stranded_db_def
    by (rule row_ledger(1) [where f = ?f, OF ok jo _ j]) (simp_all add: grant_in_def held_job_def)
qed

theorem sweep_frees_every_stranded_grant_witness:
  "map j_reserved_count (job_rows stranded_db) = [80, 20] \<and>
   map j_reserved_count (job_rows (snd (sweep_stranded_quota_reservations 500 stranded_db))) = [0, 20] \<and>
   meter (snd (sweep_stranded_quota_reservations 500 stranded_db)) = meter stranded_db"
proof -
  have "length (filter (\<lambda>j. terminal j \<and> held_job j) (job_rows stranded_db)) \<le> 500" by code_simp
  note s = sweep_frees_every_stranded_grant [OF stranded_db_ok this]
  have "map j_reserved_count (job_rows stranded_db) = [80, 20]"
    "map j_reserved_count (map (\<lambda>j. if terminal j \<and> held_job j then j\<lparr> j_reserved_at := None, j_reserved_count := 0 \<rparr> else j)
       (job_rows stranded_db)) = [0, 20]" by code_simp+
  with s show ?thesis by simp
qed

end
