(* ===== verification/Leads.thy ===== *)
theory Leads
  imports Calendar
begin

text \<open>
  A row of \<^verbatim>\<open>results\<close> and the rules that say what it is: actionable
  (\<^verbatim>\<open>src/api/lead_actionability.py\<close>, in its three spellings), which results view it belongs to
  (\<^verbatim>\<open>src/api/results_category.py\<close>), visible under the tax filters (\<^verbatim>\<open>src/api/tax_filters.py\<close>,
  \<^verbatim>\<open>src/utils/lead_signals.py\<close>), settled by its King County source
  (\<^verbatim>\<open>src/scrapers/king_cv_sources\<close>), and kept or marked over quota by the plan cap
  (\<^verbatim>\<open>tasks_helpers/plan_cap.py\<close>).

  A date is a \<open>datetime\<close> at midnight, an amount a number of cents. How the database collates text is a
  parameter. The lemmas show where the spellings agree, that the month filters mean what they say, and that
  the cap keeps exactly the first leads of its order, the same ones on every pass.
\<close>

subsection \<open>The row\<close>

datatype json = JNull | JBool bool | JNum int | JStr string | JList "json list" | JObj "(string \<times> json) list"

fun json_str :: "json option \<Rightarrow> string option" where
  "json_str (Some (JStr s)) = Some s"
| "json_str _ = None"

text \<open>The text of a JSON value; \<^verbatim>\<open>->>\<close> gives a string without its quotes and NULL for null.\<close>

fun json_dump :: "json \<Rightarrow> string" where
  "json_dump JNull = ''null''"
| "json_dump (JBool b) = (if b then ''true'' else ''false'')"
| "json_dump (JNum n) = show_int n"
| "json_dump (JStr s) = [CHR 34] @ concat (map (\<lambda>c. if c = CHR 34 \<or> c = CHR 92 then [CHR 92, c] else [c]) s) @ [CHR 34]"
| "json_dump (JList xs) = ''['' @ str_join '', '' (map json_dump xs) @ '']''"
| "json_dump (JObj kvs) = ''{'' @ str_join '', '' (map (\<lambda>(k, v). json_dump (JStr k) @ '': '' @ json_dump v) kvs) @ ''}''"

definition json_object :: "json option \<Rightarrow> (string \<times> json) list" where
  "json_object data = (case data of Some (JObj kvs) \<Rightarrow> kvs | _ \<Rightarrow> [])"

definition get_text :: "json option \<Rightarrow> string \<Rightarrow> string option" where
  "get_text data key =
     (case map_of (json_object data) key of
        None \<Rightarrow> None | Some JNull \<Rightarrow> None | Some (JStr s) \<Rightarrow> Some s | Some v \<Rightarrow> Some (json_dump v))"

record lead_row =
  ld_id :: string
  ld_job :: string
  ld_user :: string
  ld_date :: "string option"
  ld_date_parsed :: "datetime option"
  ld_party :: "string option"
  ld_heirs :: "string option"
  ld_legal :: "string option"
  ld_parcel :: "string option"
  ld_property :: "string option"
  ld_mailing :: "string option"
  ld_data :: "json option"
  ld_hash :: "string option"
  ld_duplicate :: bool
  ld_source_job :: "string option"
  ld_source_at :: "datetime option"
  ld_reason :: "string option"
  ld_auction :: "datetime option"
  ld_amount :: "int option"
  ld_bill_year :: "int option"

subsection \<open>Actionable\<close>

definition ADDRESS_PLACEHOLDER :: string where
  "ADDRESS_PLACEHOLDER = ''(enrichment unavailable)''"

definition DELIVERY_EXCLUDED_KEY :: string where
  "DELIVERY_EXCLUDED_KEY = ''delivery_excluded_reason''"

definition OVER_QUOTA :: string where
  "OVER_QUOTA = ''over_quota''"

text \<open>\<^verbatim>\<open>btrim\<close> strips blanks only, \<^verbatim>\<open>str.strip\<close> any white space.\<close>

definition btrim :: "string \<Rightarrow> string" where
  "btrim s = rev (dropWhile (\<lambda>c. c = CHR '' '') (rev (dropWhile (\<lambda>c. c = CHR '' '') s)))"

definition quota_excluded_sql :: "lead_row \<Rightarrow> bool" where
  "quota_excluded_sql r \<longleftrightarrow> opt_or (get_text (ld_data r) DELIVERY_EXCLUDED_KEY) [] = OVER_QUOTA"

definition usable_sql :: "string option \<Rightarrow> bool" where
  "usable_sql a \<longleftrightarrow> (case a of None \<Rightarrow> False | Some s \<Rightarrow> btrim s \<noteq> [] \<and> btrim s \<noteq> ADDRESS_PLACEHOLDER)"

definition address_actionable_sql :: "lead_row \<Rightarrow> bool" where
  "address_actionable_sql r \<longleftrightarrow> usable_sql (ld_property r) \<or> usable_sql (ld_mailing r)"

definition actionable_sql :: "lead_row \<Rightarrow> bool" where
  "actionable_sql r \<longleftrightarrow> address_actionable_sql r \<and> \<not> quota_excluded_sql r"

definition has_address_condition :: "lead_row \<Rightarrow> bool" where
  "has_address_condition r \<longleftrightarrow>
     (case ld_property r of None \<Rightarrow> False | Some s \<Rightarrow> btrim s \<noteq> [] \<and> btrim s \<noteq> ADDRESS_PLACEHOLDER)
     \<or> (case ld_mailing r of None \<Rightarrow> False | Some s \<Rightarrow> btrim s \<noteq> [] \<and> btrim s \<noteq> ADDRESS_PLACEHOLDER)"

definition actionable_condition :: "lead_row \<Rightarrow> bool" where
  "actionable_condition r \<longleftrightarrow>
     has_address_condition r \<and> opt_or (get_text (ld_data r) DELIVERY_EXCLUDED_KEY) [] \<noteq> OVER_QUOTA"

definition has_address :: "lead_row \<Rightarrow> bool" where
  "has_address r \<longleftrightarrow>
     (let prop = opt_or (ld_property r) []; mail = opt_or (ld_mailing r) []
      in if prop \<noteq> [] \<and> py_strip prop \<noteq> [] \<and> py_strip prop \<noteq> ADDRESS_PLACEHOLDER then True
         else mail \<noteq> [] \<and> py_strip mail \<noteq> [] \<and> py_strip mail \<noteq> ADDRESS_PLACEHOLDER)"

definition is_actionable :: "lead_row \<Rightarrow> bool" where
  "is_actionable r =
     (case ld_data r of
        Some (JObj kvs) \<Rightarrow>
          if map_of kvs DELIVERY_EXCLUDED_KEY = Some (JStr OVER_QUOTA) then False else has_address r
      | _ \<Rightarrow> has_address r)"

subsection \<open>Views\<close>

datatype results_category = New_rows | Already_delivered_rows

definition no_address_condition :: "lead_row \<Rightarrow> bool" where
  "no_address_condition r \<longleftrightarrow> \<not> has_address_condition r"

definition already_delivered_condition :: "lead_row \<Rightarrow> bool" where
  "already_delivered_condition r \<longleftrightarrow> ld_duplicate r \<and> opt_or (ld_reason r) ''prior_run'' = ''prior_run''"

definition skip_trace_eligible_condition :: "lead_row \<Rightarrow> bool" where
  "skip_trace_eligible_condition r \<longleftrightarrow> \<not> ld_duplicate r \<or> already_delivered_condition r"

fun category_condition :: "results_category \<Rightarrow> lead_row \<Rightarrow> bool" where
  "category_condition Already_delivered_rows r = already_delivered_condition r"
| "category_condition New_rows r = (\<not> ld_duplicate r)"

subsection \<open>Tax signals and filters\<close>

definition WA_FIRST_DELINQUENT_MONTH :: int where
  "WA_FIRST_DELINQUENT_MONTH = 5"

definition delinquency_anchor :: "datetime \<Rightarrow> int" where
  "delinquency_anchor today = dt_year today * 12 + (dt_month today - 1) - (WA_FIRST_DELINQUENT_MONTH - 1)"

definition months_delinquent :: "int option \<Rightarrow> datetime \<Rightarrow> int option" where
  "months_delinquent bill_year today =
     map_option (\<lambda>y. max 0 (delinquency_anchor today - y * 12)) bill_year"

definition wa_foreclosure_eligible :: "int option \<Rightarrow> datetime \<Rightarrow> bool" where
  "wa_foreclosure_eligible bill_year today = (case bill_year of None \<Rightarrow> False | Some y \<Rightarrow> y \<le> dt_year today - 3)"

definition DEFAULT_TAX_CAP_MONTHS :: int where
  "DEFAULT_TAX_CAP_MONTHS = 18"

definition TAX_CAP_EXEMPT_SOURCES :: "string list" where
  "TAX_CAP_EXEMPT_SOURCES = [''king_county_delinquent_taxes'']"

definition bill_year_bounds_for_months ::
    "int option \<Rightarrow> int option \<Rightarrow> datetime \<Rightarrow> int option \<times> int option" where
  "bill_year_bounds_for_months min_months max_months today =
     (let anchor = delinquency_anchor today
      in (case min_months of None \<Rightarrow> None | Some m \<Rightarrow> if 0 < m then Some ((anchor - m) div 12) else None,
          case max_months of None \<Rightarrow> None | Some m \<Rightarrow> Some (- ((- (anchor - m)) div 12))))"

definition tax_cap_min_year :: "datetime \<Rightarrow> int" where
  "tax_cap_min_year today =
     min (opt_or (snd (bill_year_bounds_for_months None (Some DEFAULT_TAX_CAP_MONTHS) today)) 0) (dt_year today - 1)"

definition tax_cap_condition :: "datetime \<Rightarrow> lead_row \<Rightarrow> bool" where
  "tax_cap_condition today r \<longleftrightarrow>
     (case ld_bill_year r of None \<Rightarrow> True | Some y \<Rightarrow> tax_cap_min_year today \<le> y)
     \<or> (case get_text (ld_data r) ''source'' of None \<Rightarrow> False | Some s \<Rightarrow> s \<in> set TAX_CAP_EXEMPT_SOURCES)"

text \<open>NULL satisfies no comparison, so a set filter drops rows without the structured field.\<close>

definition build_tax_conditions ::
    "int option \<Rightarrow> int option \<Rightarrow> int option \<Rightarrow> int option \<Rightarrow> datetime \<Rightarrow> (lead_row \<Rightarrow> bool) list" where
  "build_tax_conditions min_amount max_amount min_months max_months today =
     (let at_least = (\<lambda>v x. case x of None \<Rightarrow> False | Some y \<Rightarrow> v \<le> (y :: int));
          at_most = (\<lambda>v x. case x of None \<Rightarrow> False | Some y \<Rightarrow> y \<le> (v :: int));
          (max_year, min_year) = bill_year_bounds_for_months min_months max_months today
      in (case min_amount of None \<Rightarrow> [] | Some v \<Rightarrow> [\<lambda>r. at_least v (ld_amount r)])
         @ (case max_amount of None \<Rightarrow> [] | Some v \<Rightarrow> [\<lambda>r. at_most v (ld_amount r)])
         @ (if min_months \<noteq> None \<or> max_months \<noteq> None
            then [\<lambda>r. ld_bill_year r \<noteq> None]
                 @ (case max_year of None \<Rightarrow> [] | Some v \<Rightarrow> [\<lambda>r. at_most v (ld_bill_year r)])
                 @ (case min_year of None \<Rightarrow> [] | Some v \<Rightarrow> [\<lambda>r. at_least v (ld_bill_year r)])
            else []))"


text \<open>The rows of a job's lead file before any view filter, in file order; \<open>coll\<close> is the collation key.\<close>

type_synonym cell = "nat \<times> int \<times> string"

definition int_cell :: "int option \<Rightarrow> cell" where
  "int_cell x = (case x of None \<Rightarrow> (1, 0, []) | Some n \<Rightarrow> (0, n, []))"

definition text_cell :: "string option \<Rightarrow> cell" where
  "text_cell x = (case x of None \<Rightarrow> (1, 0, []) | Some s \<Rightarrow> (0, 0, s))"

definition download_rows_select ::
    "(string \<Rightarrow> string) \<Rightarrow> string \<Rightarrow> string \<Rightarrow> datetime \<Rightarrow> results_category \<Rightarrow> lead_row list \<Rightarrow> lead_row list" where
  "download_rows_select coll job_id user_id today category rows =
     sort_key (\<lambda>r. [text_cell (map_option coll (ld_party r)), text_cell (map_option coll (ld_date r)), (0, 0, ld_id r)])
       (filter (\<lambda>r. ld_job r = job_id \<and> ld_user r = user_id \<and> tax_cap_condition today r \<and> actionable_condition r
                  \<and> category_condition category r) rows)"

subsection \<open>Cases a King source settled\<close>

definition SETTLED_STATUSES :: "(string \<times> string list) list" where
  "SETTLED_STATUSES =
     [(''seattle_sdci_code_violations'', [''Completed'', ''Open Duplicate'']),
      (''bellevue_code_enforcement'', []), (''burien_code_enforcement'', []),
      (''kingco_accela_code_enforcement'',
       [''Void'', ''No Violation Found'', ''Case Opened No Violation Ltr'', ''No Further Action Required''])]"

definition is_settled :: "json option \<Rightarrow> json option \<Rightarrow> bool" where
  "is_settled source status =
     (case (json_str source, json_str status) of
        (Some s, Some t) \<Rightarrow> t \<in> set (opt_or (map_of SETTLED_STATUSES s) [])
      | _ \<Rightarrow> False)"

definition settled_sql :: "json option \<Rightarrow> bool" where
  "settled_sql data \<longleftrightarrow>
     list_ex (\<lambda>(source, statuses). statuses \<noteq> [] \<and> get_text data ''source'' = Some source
                \<and> (case get_text data ''status'' of None \<Rightarrow> False | Some t \<Rightarrow> t \<in> set statuses)) SETTLED_STATUSES"

subsection \<open>The plan cap\<close>

definition cap_rank_key :: "(string \<Rightarrow> string) \<Rightarrow> string option \<Rightarrow> lead_row \<Rightarrow> cell list" where
  "cap_rank_key coll record_type r =
     (if record_type = Some ''tax_delinquent''
      then [int_cell (map_option uminus (ld_amount r)), int_cell (ld_bill_year r),
            text_cell (map_option coll (ld_parcel r)), (0, 0, ld_id r)]
      else if record_type = Some ''code_violation''
      then [(if settled_sql (ld_data r) then 1 else 0, 0, []),
            int_cell (map_option (\<lambda>d. - instant d) (ld_date_parsed r)), (0, 0, ld_id r)]
      else [text_cell (map_option coll (ld_party r)), text_cell (map_option coll (ld_date r)), (0, 0, ld_id r)])"

definition with_key :: "string \<Rightarrow> json \<Rightarrow> json option \<Rightarrow> json option" where
  "with_key key v data = Some (JObj (filter (\<lambda>(k, _). k \<noteq> key) (json_object data) @ [(key, v)]))"

definition without_key :: "string \<Rightarrow> json option \<Rightarrow> json option" where
  "without_key key data = Some (JObj (filter (\<lambda>(k, _). k \<noteq> key) (json_object data)))"

definition of_job :: "string \<Rightarrow> string \<Rightarrow> lead_row \<Rightarrow> bool" where
  "of_job job_id user_id r \<longleftrightarrow> ld_job r = job_id \<and> ld_user r = user_id"

definition ranked_rows ::
    "(string \<Rightarrow> string) \<Rightarrow> string \<Rightarrow> string \<Rightarrow> string option \<Rightarrow> lead_row list \<Rightarrow> lead_row list" where
  "ranked_rows coll job_id user_id record_type rows =
     sort_key (cap_rank_key coll record_type)
       (filter (\<lambda>r. of_job job_id user_id r \<and> \<not> ld_duplicate r \<and> address_actionable_sql r) rows)"

definition mark_over_quota_rows ::
    "(string \<Rightarrow> string) \<Rightarrow> string \<Rightarrow> string \<Rightarrow> int \<Rightarrow> string option \<Rightarrow> lead_row list \<Rightarrow> string list \<times> lead_row list" where
  "mark_over_quota_rows coll job_id user_id remaining record_type rows =
     (let over = map ld_id (drop (nat remaining) (ranked_rows coll job_id user_id record_type rows))
      in (over, map (\<lambda>r. if ld_id r \<in> set over
                         then r\<lparr> ld_data := with_key DELIVERY_EXCLUDED_KEY (JStr OVER_QUOTA) (ld_data r) \<rparr> else r) rows))"

text \<open>
  The cap block of \<^verbatim>\<open>run_scrape_job\<close>: clear this job's earlier marks, mark what ranks past the grant,
  and let a marked row's same-run siblings inherit the mark.
\<close>

definition clear_quota_marks :: "string \<Rightarrow> string \<Rightarrow> lead_row list \<Rightarrow> lead_row list" where
  "clear_quota_marks job_id user_id rows =
     map (\<lambda>r. if of_job job_id user_id r \<and> get_text (ld_data r) DELIVERY_EXCLUDED_KEY = Some OVER_QUOTA
              then r\<lparr> ld_data := without_key DELIVERY_EXCLUDED_KEY (ld_data r) \<rparr> else r) rows"

definition mark_siblings :: "string \<Rightarrow> string \<Rightarrow> string list \<Rightarrow> lead_row list \<Rightarrow> lead_row list" where
  "mark_siblings job_id user_id over rows =
     (let hashes = map ld_hash (filter (\<lambda>r. ld_id r \<in> set over \<and> ld_user r = user_id) rows)
      in map (\<lambda>r. if of_job job_id user_id r \<and> ld_hash r \<noteq> None \<and> ld_hash r \<in> set hashes \<and> ld_reason r = Some ''same_run''
                  then r\<lparr> ld_data := with_key DELIVERY_EXCLUDED_KEY (JStr OVER_QUOTA) (ld_data r) \<rparr> else r) rows)"

definition want_count :: "string \<Rightarrow> string \<Rightarrow> lead_row list \<Rightarrow> nat" where
  "want_count job_id user_id rows =
     length (filter (\<lambda>r. of_job job_id user_id r \<and> \<not> ld_duplicate r \<and> address_actionable_sql r) rows)"

definition apply_plan_cap ::
    "(string \<Rightarrow> string) \<Rightarrow> string \<Rightarrow> string \<Rightarrow> int \<Rightarrow> string option \<Rightarrow> lead_row list \<Rightarrow> string list \<times> lead_row list" where
  "apply_plan_cap coll job_id user_id remaining record_type rows =
     (let (over, rows1) = mark_over_quota_rows coll job_id user_id remaining record_type (clear_quota_marks job_id user_id rows)
      in (over, if over = [] then rows1 else mark_siblings job_id user_id over rows1))"


subsection \<open>Spellings of one rule\<close>

lemma sql_is_condition: "actionable_sql r = actionable_condition r"
  by (simp add: actionable_sql_def actionable_condition_def address_actionable_sql_def has_address_condition_def
      usable_sql_def quota_excluded_sql_def)

definition blank_only :: "string option \<Rightarrow> bool" where
  "blank_only a \<longleftrightarrow> (\<forall>c \<in> set (opt_or a []). py_space c \<longrightarrow> c = CHR '' '')"

lemma dropWhile_same: "\<forall>c \<in> set s. P c = Q c \<Longrightarrow> dropWhile P s = dropWhile Q s"
  by (induction s) auto

lemma btrim_strip:
  assumes "blank_only (Some s)"
  shows "btrim s = py_strip s"
proof -
  have eq: "\<forall>c \<in> set s. py_space c = (c = CHR '' '')" using assms by (auto simp: blank_only_def py_space_def)
  let ?d = "dropWhile (\<lambda>c. c = CHR '' '') s"
  have d: "dropWhile py_space s = ?d" by (rule dropWhile_same [OF eq])
  have "dropWhile py_space (rev ?d) = dropWhile (\<lambda>c. c = CHR '' '') (rev ?d)"
    by (rule dropWhile_same) (use eq in \<open>auto dest: set_dropWhileD\<close>)
  then show ?thesis by (simp add: btrim_def py_strip_def d)
qed

lemma has_address_sql:
  assumes "blank_only (ld_property r)" "blank_only (ld_mailing r)"
  shows "has_address r = address_actionable_sql r"
proof -
  have "a \<noteq> [] \<and> py_strip a \<noteq> [] \<longleftrightarrow> py_strip a \<noteq> []" for a :: string by (auto simp: py_strip_def)
  moreover have "usable_sql a \<longleftrightarrow> py_strip (opt_or a []) \<noteq> [] \<and> py_strip (opt_or a []) \<noteq> ADDRESS_PLACEHOLDER"
    if "blank_only a" for a
    using that btrim_strip by (cases a) (auto simp: usable_sql_def py_strip_def)
  ultimately show ?thesis
    using assms by (auto simp: has_address_def address_actionable_sql_def Let_def)
qed

text \<open>The dump of anything but a string starts with a digit, a sign, a bracket or a keyword, never with an \<open>o\<close>.\<close>

lemma show_nat_hd: "(of_char (hd (show_nat n)) :: nat) \<le> 57"
proof (induction n rule: show_nat.induct)
  case (1 n)
  show ?case
  proof (cases "n < 10")
    case True
    then show ?thesis by (subst show_nat.simps) simp
  next
    case False
    then show ?thesis using 1 by (subst show_nat.simps) simp
  qed
qed

lemma dump_not_over_quota: "json_dump v = OVER_QUOTA \<Longrightarrow> False"
proof (cases v)
  case (JNum n)
  assume "json_dump v = OVER_QUOTA"
  then have "hd (show_int n) = CHR ''o''" by (simp add: JNum OVER_QUOTA_def)
  then have "hd (show_nat (nat n)) = CHR ''o''" by (auto simp: show_int_def split: if_splits)
  then show False using show_nat_hd [of "nat n"] by simp
qed (simp_all add: OVER_QUOTA_def split: if_splits)

lemma excluded_text:
  "get_text (Some (JObj kvs)) DELIVERY_EXCLUDED_KEY = Some OVER_QUOTA
     \<longleftrightarrow> map_of kvs DELIVERY_EXCLUDED_KEY = Some (JStr OVER_QUOTA)"
  using dump_not_over_quota
  by (auto simp: get_text_def json_object_def simp del: json_dump.simps split: option.splits json.splits)

lemma opt_or_over: "opt_or x [] = OVER_QUOTA \<longleftrightarrow> x = Some OVER_QUOTA"
  by (cases x) (simp_all add: OVER_QUOTA_def)

lemma is_actionable_sql:
  assumes "blank_only (ld_property r)" "blank_only (ld_mailing r)"
  shows "is_actionable r = actionable_sql r"
proof (cases "ld_data r")
  case (Some v)
  then show ?thesis
    by (cases v) (simp_all add: is_actionable_def actionable_sql_def quota_excluded_sql_def has_address_sql [OF assms]
        opt_or_over excluded_text, simp_all add: get_text_def json_object_def OVER_QUOTA_def)
qed (simp add: is_actionable_def actionable_sql_def quota_excluded_sql_def has_address_sql [OF assms] get_text_def json_object_def OVER_QUOTA_def)


subsection \<open>The cap keeps the first leads\<close>

lemma insort_map: "insort_key k (f x) (map f xs) = map f (insort_key (\<lambda>y. k (f y)) x xs)"
  by (induction xs) simp_all

lemma sort_key_map: "sort_key k (map f xs) = map f (sort_key (\<lambda>x. k (f x)) xs)"
  by (induction xs) (simp_all add: insort_map)

lemma sort_key_cong: "(\<And>x. x \<in> set xs \<Longrightarrow> k x = l x) \<Longrightarrow> sort_key k xs = sort_key l xs"
proof (induction xs)
  case (Cons a xs)
  have "insort_key k a ys = insort_key l a ys" if "set ys \<subseteq> set xs" for ys
    using that Cons.prems by (induction ys) auto
  then show ?case using Cons by simp
qed simp

lemma get_text_keys:
  "key \<noteq> k \<Longrightarrow> get_text (with_key k v d) key = get_text d key"
  "key \<noteq> k \<Longrightarrow> get_text (without_key k d) key = get_text d key"
  "get_text (with_key k (JStr s) d) k = Some s"
  "get_text (without_key k d) k = None"
proof -
  have f: "map_of (filter (\<lambda>(j, _). j \<noteq> k) kvs) key = (if key = k then None else map_of kvs key)"
    for kvs :: "(string \<times> json) list" and key
    by (induction kvs) auto
  have o: "json_object (without_key k d) = filter (\<lambda>(j, _). j \<noteq> k) (json_object d)"
    "json_object (with_key k w d) = filter (\<lambda>(j, _). j \<noteq> k) (json_object d) @ [(k, w)]" for w
    by (simp_all add: with_key_def without_key_def json_object_def)
  show "get_text (without_key k d) k = None" by (simp add: get_text_def o f)
  show "get_text (with_key k (JStr s) d) k = Some s" by (simp add: get_text_def o map_add_def f)
  show "get_text (without_key k d) key = get_text d key" if "key \<noteq> k" using that by (simp add: get_text_def o f)
  show "get_text (with_key k v d) key = get_text d key" if "key \<noteq> k"
  proof -
    have "map_of (json_object (with_key k v d)) key = map_of (json_object d) key"
      using that by (simp add: o map_add_def f split: option.splits)
    then show ?thesis by (simp add: get_text_def)
  qed
qed

text \<open>Rows that differ at most in the delivery mark.\<close>

definition same_lead :: "lead_row \<Rightarrow> lead_row \<Rightarrow> bool" where
  "same_lead r s \<longleftrightarrow> s = r\<lparr> ld_data := ld_data s \<rparr> \<and>
     (\<forall>key. key \<noteq> DELIVERY_EXCLUDED_KEY \<longrightarrow> get_text (ld_data s) key = get_text (ld_data r) key)"

lemma same_lead_fields:
  assumes "same_lead r s"
  shows "ld_id s = ld_id r" "of_job j u s = of_job j u r" "ld_duplicate s = ld_duplicate r"
    "address_actionable_sql s = address_actionable_sql r" "ld_hash s = ld_hash r" "ld_reason s = ld_reason r"
    "ld_user s = ld_user r" "cap_rank_key coll rt s = cap_rank_key coll rt r"
proof -
  obtain d where s: "s = r\<lparr> ld_data := d \<rparr>" using assms by (auto simp: same_lead_def)
  show "ld_id s = ld_id r" "of_job j u s = of_job j u r" "ld_duplicate s = ld_duplicate r"
    "address_actionable_sql s = address_actionable_sql r" "ld_hash s = ld_hash r" "ld_reason s = ld_reason r"
    "ld_user s = ld_user r"
    by (simp_all add: s of_job_def address_actionable_sql_def)
  have "get_text d ''source'' = get_text (ld_data r) ''source''" "get_text d ''status'' = get_text (ld_data r) ''status''"
    using assms by (auto simp: same_lead_def s DELIVERY_EXCLUDED_KEY_def)
  then show "cap_rank_key coll rt s = cap_rank_key coll rt r" by (simp add: s cap_rank_key_def settled_sql_def)
qed

lemma same_lead_refl [simp]: "same_lead r r"
  by (simp add: same_lead_def)

lemma same_lead_mark [simp]:
  "same_lead r (r\<lparr> ld_data := with_key DELIVERY_EXCLUDED_KEY v (ld_data r) \<rparr>)"
  "same_lead r (r\<lparr> ld_data := without_key DELIVERY_EXCLUDED_KEY (ld_data r) \<rparr>)"
  by (simp_all add: same_lead_def get_text_keys)

lemma same_lead_trans: "same_lead r s \<Longrightarrow> same_lead s t \<Longrightarrow> same_lead r t"
  unfolding same_lead_def by (metis lead_row.surjective lead_row.update_convs(12))

lemma ranked_rows_map:
  assumes "\<And>r. same_lead r (f r)"
  shows "ranked_rows coll j u rt (map f rows) = map f (ranked_rows coll j u rt rows)"
proof -
  note same = same_lead_fields [OF assms]
  have "sort_key (\<lambda>x. cap_rank_key coll rt (f x)) xs = sort_key (cap_rank_key coll rt) xs" for xs
    by (rule sort_key_cong) (simp add: same)
  then show ?thesis by (simp add: ranked_rows_def filter_map comp_def same sort_key_map)
qed

lemma ranked_rows_set:
  "set (ranked_rows coll j u rt rows) = {r \<in> set rows. of_job j u r \<and> \<not> ld_duplicate r \<and> address_actionable_sql r}"
  "length (ranked_rows coll j u rt rows) = want_count j u rows"
  by (auto simp: ranked_rows_def want_count_def)

lemma distinct_ranked: "distinct (map ld_id rows) \<Longrightarrow> distinct (map ld_id (ranked_rows coll j u rt rows))"
  by (auto simp: ranked_rows_def distinct_map intro: inj_on_subset)

lemma take_is_rest:
  assumes "distinct (map f xs)"
  shows "filter (\<lambda>x. f x \<notin> set (map f (drop n xs))) xs = take n xs"
proof -
  have "distinct (map f (take n xs) @ map f (drop n xs))" using assms by (simp flip: map_append)
  then have d: "f ` set (take n xs) \<inter> f ` set (drop n xs) = {}" by auto
  have "filter (\<lambda>x. f x \<notin> set (map f (drop n xs))) (take n xs @ drop n xs) = take n xs"
    using d by (subst filter_append) (auto simp: filter_empty_conv intro!: filter_True)
  then show ?thesis by simp
qed


text \<open>A duplicate reason is only ever written together with the flag.\<close>

definition reasons_ok :: "lead_row list \<Rightarrow> bool" where
  "reasons_ok rows \<longleftrightarrow> list_all (\<lambda>r. ld_reason r \<noteq> None \<longrightarrow> ld_duplicate r) rows"

definition clear_mark :: "string \<Rightarrow> string \<Rightarrow> lead_row \<Rightarrow> lead_row" where
  "clear_mark j u r = (if of_job j u r \<and> get_text (ld_data r) DELIVERY_EXCLUDED_KEY = Some OVER_QUOTA
     then r\<lparr> ld_data := without_key DELIVERY_EXCLUDED_KEY (ld_data r) \<rparr> else r)"

definition put_mark :: "lead_row \<Rightarrow> lead_row" where
  "put_mark r = r\<lparr> ld_data := with_key DELIVERY_EXCLUDED_KEY (JStr OVER_QUOTA) (ld_data r) \<rparr>"

lemma clear_mark_same [simp]: "same_lead r (clear_mark j u r)"
  by (simp add: clear_mark_def)

lemma put_mark_same [simp]: "same_lead r (put_mark r)"
  by (simp add: put_mark_def)

lemma marks [simp]: "quota_excluded_sql (put_mark r)" "of_job j u r \<Longrightarrow> \<not> quota_excluded_sql (clear_mark j u r)"
  by (auto simp: quota_excluded_sql_def put_mark_def clear_mark_def get_text_keys opt_or_over)

lemma cap_as_map:
  assumes "apply_plan_cap coll j u n rt rows = (over, rows')"
  obtains sib where
    "over = map ld_id (drop (nat n) (ranked_rows coll j u rt rows))"
    "rows' = map (\<lambda>r. let r1 = clear_mark j u r; r2 = if ld_id r \<in> set over then put_mark r1 else r1
                      in if sib r then put_mark r2 else r2) rows"
    "\<And>r. sib r \<Longrightarrow> of_job j u r \<and> ld_reason r = Some ''same_run''"
proof -
  have clear: "clear_quota_marks j u rows = map (clear_mark j u) rows"
    by (simp add: clear_quota_marks_def clear_mark_def cong: map_cong)
  define ids where "ids = map ld_id (drop (nat n) (ranked_rows coll j u rt rows))"
  define m where "m r = (let r1 = clear_mark j u r in if ld_id r \<in> set ids then put_mark r1 else r1)" for r
  have id: "ld_id (clear_mark j u r) = ld_id r" for r using same_lead_fields(1) [OF clear_mark_same] .
  have "map ld_id (drop (nat n) (ranked_rows coll j u rt (map (clear_mark j u) rows))) = ids"
    by (simp add: ids_def ranked_rows_map drop_map id comp_def)
  then have mark: "mark_over_quota_rows coll j u n rt (clear_quota_marks j u rows) = (ids, map m rows)"
    unfolding mark_over_quota_rows_def clear Let_def put_mark_def [symmetric]
    by (simp add: m_def Let_def comp_def id)
  have over: "over = ids" and r': "rows' = (if ids = [] then map m rows else mark_siblings j u ids (map m rows))"
  proof -
    have "(ids, if ids = [] then map m rows else mark_siblings j u ids (map m rows)) = (over, rows')"
      using assms by (simp only: apply_plan_cap_def mark Let_def prod.case)
    then show "over = ids" "rows' = (if ids = [] then map m rows else mark_siblings j u ids (map m rows))"
      by (metis prod.inject)+
  qed
  let ?hashes = "map ld_hash (filter (\<lambda>r. ld_id r \<in> set ids \<and> ld_user r = u) (map m rows))"
  let ?sib = "\<lambda>r. ids \<noteq> [] \<and> of_job j u r \<and> ld_hash r \<noteq> None \<and> ld_hash r \<in> set ?hashes \<and> ld_reason r = Some ''same_run''"
  have same: "same_lead r (m r)" for r
    using same_lead_trans [OF clear_mark_same put_mark_same, of r j u] by (simp add: m_def Let_def)
  have "rows' = map (\<lambda>r. if ?sib r then put_mark (m r) else m r) rows"
  proof (cases "ids = []")
    case False
    then show ?thesis unfolding r' if_not_P [OF False] mark_siblings_def Let_def put_mark_def [symmetric] map_map
      by (intro map_cong) (simp_all only: comp_def same_lead_fields [OF same] simp_thms)
  qed (simp add: r')
  then show thesis using that [of ?sib] over by (simp only: m_def Let_def ids_def)
qed

lemma plan_cap_result:
  assumes "distinct (map ld_id rows)" "reasons_ok rows" "apply_plan_cap coll j u n rt rows = (over, rows')"
  shows "map ld_id (filter (\<lambda>r. of_job j u r \<and> \<not> ld_duplicate r \<and> actionable_sql r) rows')
      = map ld_id (filter (\<lambda>r. of_job j u r \<and> \<not> ld_duplicate r \<and> address_actionable_sql r
          \<and> ld_id r \<in> set (map ld_id (take (nat n) (ranked_rows coll j u rt rows)))) rows)"
    "fst (apply_plan_cap coll j u n rt rows') = over"
    "map ld_id rows' = map ld_id rows" "reasons_ok rows'"
    "length (filter (\<lambda>r. of_job j u r \<and> \<not> ld_duplicate r \<and> actionable_sql r) rows') = min (nat n) (want_count j u rows)"
    "\<And>r'. r' \<in> set rows' \<Longrightarrow> of_job j u r' \<Longrightarrow> \<not> ld_duplicate r' \<Longrightarrow>
       actionable_sql r' \<longleftrightarrow> address_actionable_sql r' \<and> ld_id r' \<notin> set over"
proof -
  obtain sib where over: "over = map ld_id (drop (nat n) (ranked_rows coll j u rt rows))"
    and r': "rows' = map (\<lambda>r. let r1 = clear_mark j u r; r2 = if ld_id r \<in> set over then put_mark r1 else r1
                      in if sib r then put_mark r2 else r2) rows"
    and sib: "\<And>r. sib r \<Longrightarrow> of_job j u r \<and> ld_reason r = Some ''same_run''"
    using cap_as_map [OF assms(3)] by blast
  let ?f = "\<lambda>r. let r1 = clear_mark j u r; r2 = if ld_id r \<in> set over then put_mark r1 else r1
                      in if sib r then put_mark r2 else r2"
  let ?R = "ranked_rows coll j u rt rows"
  have same: "same_lead r (?f r)" for r
    using same_lead_trans [OF clear_mark_same put_mark_same, of r j u]
      same_lead_trans [OF same_lead_trans [OF clear_mark_same put_mark_same, of r j u] put_mark_same]
    by (simp add: Let_def)
  note fld = same_lead_fields [OF same]
  have del: "of_job j u (?f r) \<and> \<not> ld_duplicate (?f r) \<and> actionable_sql (?f r)
      \<longleftrightarrow> of_job j u r \<and> \<not> ld_duplicate r \<and> address_actionable_sql r \<and> ld_id r \<notin> set over" if "r \<in> set rows" for r
  proof -
    have "\<not> sib r" if "\<not> ld_duplicate r" using that sib assms(2) \<open>r \<in> set rows\<close>
      by (auto simp: reasons_ok_def list_all_iff)
    then show ?thesis unfolding actionable_sql_def fld by (auto simp: Let_def)
  qed
  show "actionable_sql r' \<longleftrightarrow> address_actionable_sql r' \<and> ld_id r' \<notin> set over"
    if r: "r' \<in> set rows'" "of_job j u r'" "\<not> ld_duplicate r'" for r'
  proof -
    obtain r0 where r0: "r0 \<in> set rows" "r' = ?f r0" using r(1) unfolding r' by auto
    show ?thesis using del [OF r0(1)] r(2,3) unfolding r0(2) fld by blast
  qed
  have d: "distinct (map ld_id ?R)" by (rule distinct_ranked [OF assms(1)])
  have rest: "ld_id r \<notin> set over \<longleftrightarrow> ld_id r \<in> set (map ld_id (take (nat n) ?R))"
    if "r \<in> set rows" "of_job j u r" "\<not> ld_duplicate r" "address_actionable_sql r" for r
  proof -
    have "r \<in> set ?R" using that by (simp add: ranked_rows_set)
    then have "ld_id r \<in> set (map ld_id (take (nat n) ?R)) \<or> ld_id r \<in> set over"
      unfolding over by (metis append_take_drop_id image_eqI in_set_conv_decomp list.set_map map_append set_append Un_iff)
    moreover have "set (map ld_id (take (nat n) ?R)) \<inter> set over = {}"
      using d unfolding over by (metis append_take_drop_id distinct_append map_append)
    ultimately show ?thesis by blast
  qed
  show ids: "map ld_id (filter (\<lambda>r. of_job j u r \<and> \<not> ld_duplicate r \<and> actionable_sql r) rows')
      = map ld_id (filter (\<lambda>r. of_job j u r \<and> \<not> ld_duplicate r \<and> address_actionable_sql r
          \<and> ld_id r \<in> set (map ld_id (take (nat n) ?R))) rows)"
  proof -
    have "filter (\<lambda>r. of_job j u (?f r) \<and> \<not> ld_duplicate (?f r) \<and> actionable_sql (?f r)) rows
      = filter (\<lambda>r. of_job j u r \<and> \<not> ld_duplicate r \<and> address_actionable_sql r
          \<and> ld_id r \<in> set (map ld_id (take (nat n) ?R))) rows"
      using del rest by (intro filter_cong) blast+
    then show ?thesis unfolding r' by (simp only: filter_map comp_def map_map fld)
  qed
  have "ranked_rows coll j u rt rows' = map ?f ?R" unfolding r' by (rule ranked_rows_map [OF same])
  then have "map ld_id (drop (nat n) (ranked_rows coll j u rt rows')) = map ld_id (drop (nat n) ?R)"
    by (simp only: drop_map map_map comp_def fld)
  then have ov2: "map ld_id (drop (nat n) (ranked_rows coll j u rt rows')) = over" by (simp only: over)
  obtain over2 rows2 where c2: "apply_plan_cap coll j u n rt rows' = (over2, rows2)" by fastforce
  show "fst (apply_plan_cap coll j u n rt rows') = over"
    using cap_as_map [OF c2] c2 ov2 by (metis fst_conv)
  show "map ld_id rows' = map ld_id rows" unfolding r' by (simp add: comp_def fld)
  show "reasons_ok rows'" using assms(2) unfolding r' by (simp add: reasons_ok_def list_all_iff fld)
  have "length (filter (\<lambda>r. of_job j u r \<and> \<not> ld_duplicate r \<and> actionable_sql r) rows')
    = length (filter (\<lambda>r. of_job j u r \<and> \<not> ld_duplicate r \<and> address_actionable_sql r
          \<and> ld_id r \<in> set (map ld_id (take (nat n) ?R))) rows)"
    using arg_cong [OF ids, of length] by simp
  also have "\<dots> = length (filter (\<lambda>r. ld_id r \<notin> set over) ?R)"
  proof -
    have "length (filter P ?R) = length (filter P (filter (\<lambda>r. of_job j u r \<and> \<not> ld_duplicate r \<and> address_actionable_sql r) rows))" for P
      by (simp add: ranked_rows_def filter_sort)
    then show ?thesis using rest by (auto intro!: arg_cong [where f = length] filter_cong)
  qed
  also have "\<dots> = length (take (nat n) ?R)" unfolding over by (simp only: take_is_rest [OF d])
  also have "\<dots> = min (nat n) (want_count j u rows)" by (simp add: ranked_rows_set(2) min.commute)
  finally show "length (filter (\<lambda>r. of_job j u r \<and> \<not> ld_duplicate r \<and> actionable_sql r) rows')
    = min (nat n) (want_count j u rows)" .
qed


subsection \<open>Properties\<close>

definition sample_lead :: "string \<Rightarrow> string \<Rightarrow> lead_row" where
  "sample_lead i party =
     \<lparr> ld_id = i, ld_job = ''j1'', ld_user = ''u1'', ld_date = Some ''01/02/2026'', ld_date_parsed = Some (DateTime 2026 1 2 0),
       ld_party = Some party, ld_heirs = None, ld_legal = None, ld_parcel = Some ''12345'', ld_property = Some ''1 Main St'',
       ld_mailing = None, ld_data = None, ld_hash = Some i, ld_duplicate = False, ld_source_job = None, ld_source_at = None,
       ld_reason = None, ld_auction = None, ld_amount = Some 100, ld_bill_year = Some 2025 \<rparr>"

text \<open>
  The list, the raw SQL of export and billing, and the in-memory rule agree on which rows are leads:
  the SQL and the ORM spelling on every row, the Python one on every row whose addresses hold no white
  space other than blanks (\<^verbatim>\<open>btrim\<close> strips only those).
\<close>

theorem actionable_spellings_agree:
  assumes "blank_only (ld_property r)" "blank_only (ld_mailing r)"
  shows "is_actionable r = actionable_sql r \<and> actionable_sql r = actionable_condition r"
  using is_actionable_sql [OF assms] sql_is_condition by blast

theorem actionable_spellings_agree_witness:
  "is_actionable (put_mark (sample_lead ''r1'' ''A'')) = actionable_sql (put_mark (sample_lead ''r1'' ''A'')) \<and>
   \<not> is_actionable (put_mark (sample_lead ''r1'' ''A'')) \<and> is_actionable (sample_lead ''r1'' ''A'')"
proof -
  have b: "blank_only (ld_property (put_mark (sample_lead ''r1'' ''A'')))" "blank_only (ld_mailing (put_mark (sample_lead ''r1'' ''A'')))"
    and v: "\<not> is_actionable (put_mark (sample_lead ''r1'' ''A''))" "is_actionable (sample_lead ''r1'' ''A'')"
    by code_simp+
  show ?thesis using actionable_spellings_agree [OF b] v by blast
qed

text \<open>Where the spellings part: an address of one tab is a lead for the database and none for Python.\<close>

lemma tab_address_splits_the_rule:
  "actionable_sql ((sample_lead ''r1'' ''A'')\<lparr> ld_property := Some [CHR 9] \<rparr>)
   \<and> \<not> is_actionable ((sample_lead ''r1'' ''A'')\<lparr> ld_property := Some [CHR 9] \<rparr>)"
  by code_simp

text \<open>
  The months-delinquent filter, translated to bounds on the bill year, shows exactly the rows whose
  displayed number of months lies in the range, and the standing recency cap never hides the most recent
  completed tax year.
\<close>

theorem months_filter_exact:
  assumes "case max_months of None \<Rightarrow> True | Some m \<Rightarrow> 0 \<le> m"
  shows "(list_all (\<lambda>c. c r) (build_tax_conditions None None min_months max_months today) \<longleftrightarrow>
      min_months = None \<and> max_months = None \<or>
      (case months_delinquent (ld_bill_year r) today of
         None \<Rightarrow> False
       | Some m \<Rightarrow> (case min_months of None \<Rightarrow> True | Some a \<Rightarrow> a \<le> m) \<and> (case max_months of None \<Rightarrow> True | Some b \<Rightarrow> m \<le> b))) \<and>
    (case ld_bill_year r of None \<Rightarrow> True | Some y \<Rightarrow> dt_year today - 1 \<le> y \<longrightarrow> tax_cap_condition today r)"
proof -
  have lo: "y \<le> (n - a) div 12 \<longleftrightarrow> a \<le> n - y * 12" for y n a :: int by linarith
  have hi: "- ((- (n - b)) div 12) \<le> y \<longleftrightarrow> n - y * 12 \<le> b" for y n b :: int by linarith
  have "list_all (\<lambda>c. c r) (build_tax_conditions None None min_months max_months today) \<longleftrightarrow>
      min_months = None \<and> max_months = None \<or>
      (case months_delinquent (ld_bill_year r) today of
         None \<Rightarrow> False
       | Some m \<Rightarrow> (case min_months of None \<Rightarrow> True | Some a \<Rightarrow> a \<le> m) \<and> (case max_months of None \<Rightarrow> True | Some b \<Rightarrow> m \<le> b))"
    using assms
    by (cases "ld_bill_year r"; cases min_months; cases max_months)
      (auto simp: build_tax_conditions_def bill_year_bounds_for_months_def Let_def months_delinquent_def lo hi)
  moreover have "(case ld_bill_year r of None \<Rightarrow> True | Some y \<Rightarrow> dt_year today - 1 \<le> y \<longrightarrow> tax_cap_condition today r)"
    by (auto simp: tax_cap_condition_def tax_cap_min_year_def split: option.splits)
  ultimately show ?thesis by blast
qed

theorem months_filter_exact_witness:
  "months_delinquent (Some 2025) (DateTime 2026 9 3 0) = Some 16 \<and>
   list_all (\<lambda>c. c (sample_lead ''r1'' ''A'')) (build_tax_conditions None None (Some 16) (Some 16) (DateTime 2026 9 3 0))"
proof -
  have m: "months_delinquent (ld_bill_year (sample_lead ''r1'' ''A'')) (DateTime 2026 9 3 0) = Some 16"
    "months_delinquent (Some 2025) (DateTime 2026 9 3 0) = Some 16" by code_simp+
  have "case Some 16 of None \<Rightarrow> True | Some m \<Rightarrow> (0 :: int) \<le> m" by simp
  from months_filter_exact [OF this, of "sample_lead ''r1'' ''A''" "Some 16" "DateTime 2026 9 3 0"] m show ?thesis by simp
qed

text \<open>
  C38: The plan cap delivers exactly the leads its order ranks first. Of a job's leads with an address,
  those left to export and bill are the first \<open>n\<close> of the ranking (all of them when there are fewer), a
  marked lead's combined siblings never ship in its place, and a second pass with the same grant, as a
  watchdog re-run makes, marks the same rows and leaves the same ones.
\<close>

theorem plan_cap_delivers_the_first:
  assumes "distinct (map ld_id rows)" "reasons_ok rows" "apply_plan_cap coll j u n rt rows = (over, rows')"
  shows "map ld_id (filter (\<lambda>r. of_job j u r \<and> \<not> ld_duplicate r \<and> actionable_sql r) rows')
      = map ld_id (filter (\<lambda>r. of_job j u r \<and> \<not> ld_duplicate r \<and> address_actionable_sql r
          \<and> ld_id r \<in> set (map ld_id (take (nat n) (ranked_rows coll j u rt rows)))) rows) \<and>
    length (filter (\<lambda>r. of_job j u r \<and> \<not> ld_duplicate r \<and> actionable_sql r) rows') = min (nat n) (want_count j u rows) \<and>
    fst (apply_plan_cap coll j u n rt rows') = over"
  using plan_cap_result [OF assms] by blast

theorem plan_cap_delivers_the_first_witness:
  "map ld_id (filter (\<lambda>r. of_job ''j1'' ''u1'' r \<and> \<not> ld_duplicate r \<and> actionable_sql r)
     (snd (apply_plan_cap id ''j1'' ''u1'' 2 None [sample_lead ''r1'' ''C'', sample_lead ''r2'' ''A'', sample_lead ''r3'' ''B'']))) = [''r2'', ''r3''] \<and>
   fst (apply_plan_cap id ''j1'' ''u1'' 2 None
     (snd (apply_plan_cap id ''j1'' ''u1'' 2 None [sample_lead ''r1'' ''C'', sample_lead ''r2'' ''A'', sample_lead ''r3'' ''B'']))) = [''r1'']"
proof -
  let ?rows = "[sample_lead ''r1'' ''C'', sample_lead ''r2'' ''A'', sample_lead ''r3'' ''B'']"
  obtain over rows' where c: "apply_plan_cap id ''j1'' ''u1'' 2 None ?rows = (over, rows')" by fastforce
  have d: "distinct (map ld_id ?rows)" "reasons_ok ?rows" and o: "fst (apply_plan_cap id ''j1'' ''u1'' 2 None ?rows) = [''r1'']"
    and f: "map ld_id (filter (\<lambda>r. of_job ''j1'' ''u1'' r \<and> \<not> ld_duplicate r \<and> address_actionable_sql r
      \<and> ld_id r \<in> set (map ld_id (take (nat 2) (ranked_rows id ''j1'' ''u1'' None ?rows)))) ?rows) = [''r2'', ''r3'']"
    by code_simp+
  show ?thesis using plan_cap_delivers_the_first [OF d c] o f c by simp
qed

end
