(* ===== verification/PropertyIdentity.thy ===== *)
theory PropertyIdentity
  imports Prelude
begin

text \<open>
  The two identity keys of a property (\<^verbatim>\<open>src/workers/property_identity.py\<close>): the frozen
  \<^verbatim>\<open>parcel|address\<close> signature that keys billing deduplication, and the parcel-primary overlap
  key. SHA-256 is the parameter \<open>sha\<close>; where a lemma needs different texts to have different digests it
  assumes so (\<open>inj sha\<close>, collision resistance). Text is ASCII.

  The lemmas show which inputs share a key: the normal forms decide, normalizing twice is normalizing
  once, and the two branches of the overlap key never collide.
\<close>

subsection \<open>Normal forms\<close>

definition normalize_parcel :: "string option \<Rightarrow> string" where
  "normalize_parcel parcel_id =
     filter (\<lambda>c. c \<noteq> CHR '' '') (filter (\<lambda>c. c \<noteq> CHR ''-'') (py_upper (py_strip (opt_or parcel_id []))))"

text \<open>\<^verbatim>\<open>re.sub(r"\s+", " ", s)\<close>: every maximal run of white space becomes one blank.\<close>

function squeeze :: "string \<Rightarrow> string" where
  "squeeze [] = []"
| "squeeze (c # cs) =
     (if py_space c then CHR '' '' # squeeze (dropWhile py_space cs) else c # squeeze cs)"
  by pat_completeness auto

termination squeeze
  by (relation "measure length") (simp_all add: le_imp_less_Suc length_dropWhile_le)

definition normalize_address :: "string option \<Rightarrow> string" where
  "normalize_address property_address =
     py_strip (squeeze (map (\<lambda>c. if c = CHR ''.'' \<or> c = CHR '','' \<or> c = CHR ''#'' then CHR '' '' else c)
       (py_upper (py_strip (opt_or property_address [])))))"

definition is_digit :: "char \<Rightarrow> bool" where
  "is_digit c = (let n = of_char c :: nat in 48 \<le> n \<and> n \<le> 57)"

definition is_alpha :: "char \<Rightarrow> bool" where
  "is_alpha c \<longleftrightarrow> ascii_upper_letter c \<or> ascii_lower_letter c"

definition parcel_ok :: "string \<Rightarrow> bool" where
  "parcel_ok parcel \<longleftrightarrow> 4 \<le> length parcel \<and> list_ex is_digit parcel"

definition addr_ok :: "string \<Rightarrow> bool" where
  "addr_ok addr \<longleftrightarrow> 8 \<le> length addr \<and> list_ex is_alpha addr"

definition is_strong_identity :: "string option \<Rightarrow> string option \<Rightarrow> bool" where
  "is_strong_identity parcel_id property_address \<longleftrightarrow>
     parcel_ok (normalize_parcel parcel_id) \<or> addr_ok (normalize_address property_address)"

subsection \<open>Keys\<close>

definition legacy_strong_signature ::
    "(string \<Rightarrow> string) \<Rightarrow> string option \<Rightarrow> string option \<Rightarrow> string option" where
  "legacy_strong_signature sha parcel_id property_address =
     (if \<not> is_strong_identity parcel_id property_address then None
      else Some (sha (normalize_parcel parcel_id @ ''|'' @ normalize_address property_address)))"

definition key_scope :: "string option \<Rightarrow> string option \<Rightarrow> string" where
  "key_scope state county = py_upper (py_strip (opt_or state [])) @ ''|'' @ py_lower (py_strip (opt_or county []))"

definition compute_property_key ::
    "(string \<Rightarrow> string) \<Rightarrow> string option \<Rightarrow> string option \<Rightarrow> string option \<Rightarrow> string option \<Rightarrow> string option" where
  "compute_property_key sha parcel_id property_address county state =
     (let parcel = normalize_parcel parcel_id;
          addr = normalize_address property_address;
          scope = key_scope state county
      in if parcel_ok parcel then Some (sha (''P|'' @ scope @ ''|'' @ parcel))
         else if addr_ok addr then Some (sha (''A|'' @ scope @ ''|'' @ addr))
         else None)"

subsection \<open>Normalizing is idempotent\<close>

lemma of_char_upper: "of_char (upper_char c) = (if ascii_lower_letter c then of_char c - 32 else of_char c :: nat)"
proof (cases "ascii_lower_letter c")
  case True
  then have "97 \<le> (of_char c :: nat)" "(of_char c :: nat) \<le> 122" by (simp_all add: ascii_lower_letter_def Let_def)
  then have "of_char c - 32 < (256 :: nat)" by linarith
  then have "(of_char c - 32) mod 256 = (of_char c - 32 :: nat)" by (rule mod_less)
  with True show ?thesis by (simp add: upper_char_def)
qed (simp add: upper_char_def)

lemma upper_char_idem [simp]: "upper_char (upper_char c) = upper_char c"
  unfolding upper_char_def [of "upper_char c"]
  by (auto simp: ascii_lower_letter_def [of "upper_char c"] of_char_upper Let_def ascii_lower_letter_def)

lemma py_upper_idem [simp]: "py_upper (py_upper s) = py_upper s"
  by (simp add: py_upper_def)

lemma upper_char_plain:
  "py_space (upper_char c) = py_space c" "(upper_char c = CHR ''-'') = (c = CHR ''-'')" "(upper_char c = CHR '' '') = (c = CHR '' '')"
proof -
  note n = of_char_upper [of c]
  have eq: "(d = e) = (of_char d = (of_char e :: nat))" for d e :: char by simp
  show "py_space (upper_char c) = py_space c"
    using n by (auto simp: py_space_def ascii_lower_letter_def Let_def)
  show "(upper_char c = CHR ''-'') = (c = CHR ''-'')"
    unfolding eq n by (auto simp: ascii_lower_letter_def Let_def)
  show "(upper_char c = CHR '' '') = (c = CHR '' '')"
    unfolding eq n by (auto simp: ascii_lower_letter_def Let_def)
qed


text \<open>A text whose white space is single blanks, which is what \<^verbatim>\<open>squeeze\<close> produces and leaves alone.\<close>

fun squeezed :: "string \<Rightarrow> bool" where
  "squeezed (c # d # cs) \<longleftrightarrow> (py_space c \<longrightarrow> c = CHR '' '' \<and> \<not> py_space d) \<and> squeezed (d # cs)"
| "squeezed [c] \<longleftrightarrow> (py_space c \<longrightarrow> c = CHR '' '')"
| "squeezed [] \<longleftrightarrow> True"

lemma squeezed_tl: "squeezed (c # cs) \<Longrightarrow> squeezed cs"
  by (cases cs) simp_all

lemma squeezed_dropWhile: "squeezed s \<Longrightarrow> squeezed (dropWhile P s)"
  by (induction s) (auto dest: squeezed_tl)

lemma blank_space [simp]: "py_space CHR '' ''"
  by (simp add: py_space_def)

lemma squeeze_hd: "cs = [] \<or> \<not> py_space (hd cs) \<Longrightarrow> squeeze cs = [] \<or> \<not> py_space (hd (squeeze cs))"
  by (cases cs) auto

lemma squeezed_squeeze: "squeezed (squeeze s)"
proof (induction s rule: squeeze.induct)
  case (2 c cs)
  show ?case
  proof (cases "py_space c")
    case True
    let ?d = "dropWhile py_space cs"
    have "?d = [] \<or> \<not> py_space (hd ?d)" by (metis dropWhile_eq_Nil_conv hd_dropWhile)
    then have "squeeze ?d = [] \<or> \<not> py_space (hd (squeeze ?d))" by (rule squeeze_hd)
    then show ?thesis using 2(1) [OF True] True by (cases "squeeze ?d") auto
  next
    case False
    then show ?thesis using 2(2) by (cases "squeeze cs") auto
  qed
qed simp

lemma squeeze_squeezed: "squeezed s \<Longrightarrow> squeeze s = s"
proof (induction s rule: squeeze.induct)
  case (2 c cs)
  show ?case
  proof (cases "py_space c")
    case True
    then have "c = CHR '' ''" "dropWhile py_space cs = cs" using 2(3) by (cases cs; simp)+
    then show ?thesis using 2(1) [OF True] True squeezed_tl [OF 2(3)] by simp
  next
    case False
    then show ?thesis using 2(2) squeezed_tl [OF 2(3)] by simp
  qed
qed simp

lemma squeezed_snoc: "squeezed (s @ [d, c]) \<longleftrightarrow> squeezed (s @ [d]) \<and> (py_space d \<longrightarrow> \<not> py_space c) \<and> (py_space c \<longrightarrow> c = CHR '' '')"
proof (induction s rule: squeezed.induct)
  case (2 a)
  then show ?case by auto
qed auto

lemma squeezed_rev: "squeezed (rev s) = squeezed s"
proof (induction s rule: squeezed.induct)
  case (1 c d cs)
  then show ?case using squeezed_snoc [of "rev cs" d c] by auto
qed simp_all

lemma squeezed_strip: "squeezed s \<Longrightarrow> squeezed (py_strip s)"
  by (simp add: py_strip_def squeezed_rev squeezed_dropWhile)


lemma set_strip: "set (py_strip s) \<subseteq> set s"
proof
  fix c assume "c \<in> set (py_strip s)"
  then have "c \<in> set (dropWhile py_space (rev (dropWhile py_space s)))" by (simp add: py_strip_def)
  from set_dropWhileD [OF this] have "c \<in> set (dropWhile py_space s)" by simp
  then show "c \<in> set s" by (rule set_dropWhileD)
qed

lemma set_squeeze: "set (squeeze s) \<subseteq> insert CHR '' '' (set s)"
  by (induction s rule: squeeze.induct) (auto dest: set_dropWhileD)

lemma normalize_address_idem: "normalize_address (Some (normalize_address a)) = normalize_address a"
proof -
  let ?p = "\<lambda>c. if c = CHR ''.'' \<or> c = CHR '','' \<or> c = CHR ''#'' then CHR '' '' else c"
  let ?m = "map ?p (py_upper (py_strip (opt_or a [])))" and ?n = "normalize_address a"
  have n: "?n = py_strip (squeeze ?m)" by (simp add: normalize_address_def)
  have mem: "c = CHR '' '' \<or> (\<exists>d. c = ?p (upper_char d))" if c: "c \<in> set ?n" for c
  proof -
    have "c \<in> insert CHR '' '' (set ?m)" using c set_strip set_squeeze unfolding n by blast
    then show ?thesis by (auto simp only: py_upper_def set_map insert_iff)
  qed
  have blank: "upper_char CHR '' '' = CHR '' ''"
    by (simp add: upper_char_def ascii_lower_letter_def)
  have plain: "upper_char c = c \<and> ?p c = c" if "c \<in> set ?n" for c
    using mem [OF that] blank by (auto split: if_splits)
  have "py_upper ?n = ?n" "map ?p ?n = ?n"
    unfolding py_upper_def by (intro map_idI; use plain in blast)+
  moreover have "py_strip ?n = ?n" by (simp add: n)
  moreover have "squeeze ?n = ?n" unfolding n by (intro squeeze_squeezed squeezed_strip squeezed_squeeze)
  ultimately show ?thesis by (simp add: normalize_address_def [of "Some ?n"])
qed

subsection \<open>What a key identifies\<close>

lemma split_at_bar:
  "CHR ''|'' \<notin> set a \<Longrightarrow> CHR ''|'' \<notin> set b \<Longrightarrow> a @ CHR ''|'' # x = b @ CHR ''|'' # y \<longleftrightarrow> a = b \<and> x = y"
proof (induction a arbitrary: b)
  case Nil
  then show ?case by (cases b) auto
next
  case (Cons c a)
  then show ?case by (cases b) auto
qed

lemma not_bar:
  "(of_char c :: nat) = 124 \<Longrightarrow> c = CHR ''|''"
proof -
  assume "(of_char c :: nat) = 124"
  then have "(of_char c :: nat) = of_char CHR ''|''" by simp
  then show "c = CHR ''|''" by (simp only: of_char_eq_iff)
qed

lemma upper_lower_bar: "upper_char c = CHR ''|'' \<longleftrightarrow> c = CHR ''|''" "lower_char c = CHR ''|'' \<longleftrightarrow> c = CHR ''|''"
proof -
  have "c = CHR ''|''" if "upper_char c = CHR ''|''"
  proof -
    have "(of_char (upper_char c) :: nat) = 124" using that by simp
    then show ?thesis
      by (intro not_bar) (auto simp: of_char_upper ascii_lower_letter_def Let_def split: if_splits)
  qed
  then show "upper_char c = CHR ''|'' \<longleftrightarrow> c = CHR ''|''"
    by (auto simp: upper_char_def ascii_lower_letter_def)
  have "c = CHR ''|''" if "lower_char c = CHR ''|''"
  proof -
    have "(of_char (lower_char c) :: nat) = 124" using that by simp
    then show ?thesis
      by (intro not_bar) (auto simp: of_char_lower ascii_upper_letter_def Let_def split: if_splits)
  qed
  then show "lower_char c = CHR ''|'' \<longleftrightarrow> c = CHR ''|''"
    by (auto simp: lower_char_def ascii_upper_letter_def)
qed

lemma no_bar:
  "CHR ''|'' \<notin> set s \<Longrightarrow> CHR ''|'' \<notin> set (py_upper (py_strip s))"
  "CHR ''|'' \<notin> set s \<Longrightarrow> CHR ''|'' \<notin> set (py_lower (py_strip s))"
  using set_strip [of s] by (auto simp: py_upper_def py_lower_def image_iff upper_lower_bar dest!: sym [of "CHR ''|''"])

text \<open>
  The overlap key is parcel-primary within a county: two sightings share a key exactly when they are
  in the same county and state and either both have a usable parcel and it is the same, whatever their
  addresses say, or neither has one and their normalized addresses agree. So address formats never split
  a parcel, equal parcel numbers never join two counties, and a parcel never collides with an address.
\<close>

theorem overlap_key_identity:
  assumes "inj sha" "CHR ''|'' \<notin> set (opt_or s [])" "CHR ''|'' \<notin> set (opt_or c [])"
    and "CHR ''|'' \<notin> set (opt_or s' [])" "CHR ''|'' \<notin> set (opt_or c' [])"
    and "compute_property_key sha p a c s = Some k" "compute_property_key sha p' a' c' s' = Some k'"
  shows "k = k' \<longleftrightarrow>
    py_upper (py_strip (opt_or s [])) = py_upper (py_strip (opt_or s' [])) \<and>
    py_lower (py_strip (opt_or c [])) = py_lower (py_strip (opt_or c' [])) \<and>
    (if parcel_ok (normalize_parcel p)
     then parcel_ok (normalize_parcel p') \<and> normalize_parcel p = normalize_parcel p'
     else \<not> parcel_ok (normalize_parcel p') \<and> normalize_address a = normalize_address a')"
proof -
  note bars = no_bar(1) [OF assms(2)] no_bar(2) [OF assms(3)] no_bar(1) [OF assms(4)] no_bar(2) [OF assms(5)]
  have scope: "key_scope s c @ ''|'' @ x = key_scope s' c' @ ''|'' @ y \<longleftrightarrow>
    py_upper (py_strip (opt_or s [])) = py_upper (py_strip (opt_or s' [])) \<and>
    py_lower (py_strip (opt_or c [])) = py_lower (py_strip (opt_or c' [])) \<and> x = y" for x y
    using bars by (simp add: key_scope_def split_at_bar)
  have same: "key_scope s c = key_scope s' c'"
    if "py_upper (py_strip (opt_or s [])) = py_upper (py_strip (opt_or s' []))"
      "py_lower (py_strip (opt_or c [])) = py_lower (py_strip (opt_or c' []))"
    using that by (simp add: key_scope_def)
  have sha: "sha x = sha y \<longleftrightarrow> x = y" for x y using assms(1) by (auto dest: injD)
  show ?thesis
    using assms(6,7) scope same
    by (auto simp: compute_property_key_def Let_def sha split: if_splits)
qed

theorem overlap_key_identity_witness:
  "compute_property_key id (Some ''12-345'') (Some ''1 Main St'') (Some ''King'') (Some ''wa'')
     = compute_property_key id (Some '' 12345'') (Some ''1 MAIN STREET, SEATTLE 98101'') (Some ''king '') (Some ''WA'')"
proof -
  have k: "compute_property_key id (Some ''12-345'') (Some ''1 Main St'') (Some ''King'') (Some ''wa'') = Some ''P|WA|king|12345''"
    "compute_property_key id (Some '' 12345'') (Some ''1 MAIN STREET, SEATTLE 98101'') (Some ''king '') (Some ''WA'') = Some ''P|WA|king|12345''"
    by code_simp+
  have "(''P|WA|king|12345'' = ''P|WA|king|12345'') \<longleftrightarrow>
    py_upper (py_strip (opt_or (Some ''wa'') [])) = py_upper (py_strip (opt_or (Some ''WA'') [])) \<and>
    py_lower (py_strip (opt_or (Some ''King'') [])) = py_lower (py_strip (opt_or (Some ''king '') [])) \<and>
    (if parcel_ok (normalize_parcel (Some ''12-345''))
     then parcel_ok (normalize_parcel (Some '' 12345'')) \<and> normalize_parcel (Some ''12-345'') = normalize_parcel (Some '' 12345'')
     else \<not> parcel_ok (normalize_parcel (Some '' 12345'')) \<and>
       normalize_address (Some ''1 Main St'') = normalize_address (Some ''1 MAIN STREET, SEATTLE 98101''))"
    by (rule overlap_key_identity [OF inj_on_id _ _ _ _ k]) simp_all
  then show ?thesis using k by simp
qed

end
