(* ===== verification/Dedup.thy ===== *)
theory Dedup
  imports QuotaLedger Leads PropertyIdentity
begin

text \<open>
  Delivery deduplication (\<^verbatim>\<open>src/workers/tasks_helpers/dedup.py\<close>): the same-run collapse, the
  re-election of its survivors after enrichment, the transfer of a claim nobody was ever delivered, and the
  releases of claims a run does not deliver. A property's billing key is the row's hash; the claim on
  \<^verbatim>\<open>delivered_records\<close> is unique per account and hash.

  A function that reads rows before it locks them takes what it read as an argument, so the rows may have
  moved since. SHA-256 and the parse of a JSON text are parameters; a failing statement, which rolls its
  hash back and is raised at the end, is outside the model. The lemmas show that a property bills once per
  run, that re-election moves no charge, and that a claim moves only from a run that delivered nothing.
\<close>

subsection \<open>Ranking\<close>

definition usable :: "string option \<Rightarrow> bool" where
  "usable v \<longleftrightarrow> (let s = py_strip (opt_or v []) in s \<noteq> [] \<and> s \<noteq> ADDRESS_PLACEHOLDER)"

definition survivor_sort_key :: "lead_row \<Rightarrow> bool \<times> bool \<times> bool \<times> bool \<times> string \<times> string" where
  "survivor_sort_key r =
     (\<not> (usable (ld_property r) \<or> usable (ld_mailing r)),
      \<not> usable (ld_mailing r),
      py_strip (opt_or (ld_parcel r) []) = [],
      py_strip (opt_or (ld_party r) []) = [],
      opt_or (ld_date r) [],
      ld_id r)"

definition date_max :: datetime where
  "date_max = DateTime 9999 12 31 0"

definition auction_survivor_sort_key :: "lead_row \<Rightarrow> datetime \<times> string" where
  "auction_survivor_sort_key r = (opt_or (ld_auction r) date_max, ld_id r)"

definition record_kind :: "string option \<Rightarrow> string" where
  "record_kind record_type = py_lower (py_strip (opt_or record_type []))"

text \<open>\<^verbatim>\<open>sorted(rows, key=sort_key_for(record_type))\<close>.\<close>

definition sorted_for :: "string option \<Rightarrow> lead_row list \<Rightarrow> lead_row list" where
  "sorted_for record_type rows =
     (if record_kind record_type = ''trustee_sale'' then sort_key auction_survivor_sort_key rows
      else sort_key survivor_sort_key rows)"

subsection \<open>What the survivor takes over\<close>

definition HEIR_LIST_RECORD_TYPES :: "string list" where
  "HEIR_LIST_RECORD_TYPES = [''probate'']"

definition as_dict :: "(string \<Rightarrow> json option) \<Rightarrow> json option \<Rightarrow> (string \<times> json) list" where
  "as_dict loads data =
     (case data of
        Some (JObj kvs) \<Rightarrow> kvs
      | Some (JStr s) \<Rightarrow> if py_strip s \<noteq> [] then (case loads s of Some (JObj kvs) \<Rightarrow> kvs | _ \<Rightarrow> []) else []
      | _ \<Rightarrow> [])"

fun split_on :: "char \<Rightarrow> string \<Rightarrow> string list" where
  "split_on c [] = [[]]"
| "split_on c (x # xs) =
     (if x = c then [] # split_on c xs
      else (case split_on c xs of [] \<Rightarrow> [[x]] | p # ps \<Rightarrow> (x # p) # ps))"

fun union_names :: "string \<Rightarrow> string list \<Rightarrow> string list \<Rightarrow> string list" where
  "union_names own seen [] = []"
| "union_names own seen (n # ns) =
     (let name = py_strip n; key = py_lower name
      in if name = [] \<or> key \<in> set seen \<or> (own \<noteq> [] \<and> key = own) then union_names own seen ns
         else name # union_names own (key # seen) ns)"

definition merge_heirs :: "lead_row \<Rightarrow> lead_row list \<Rightarrow> string option \<Rightarrow> string option" where
  "merge_heirs survivor members record_type =
     (if record_kind record_type \<notin> set HEIR_LIST_RECORD_TYPES then None
      else let own = py_lower (py_strip (opt_or (ld_party survivor) []));
               order = survivor # filter (\<lambda>m. m \<noteq> survivor) members
           in Some (str_join '', '' (union_names own []
                 (concat (map (\<lambda>m. split_on CHR '','' (opt_or (ld_heirs m) [])) order)))))"

definition PROBATE_SUBTYPE_PRIORITY :: "string list" where
  "PROBATE_SUBTYPE_PRIORITY =
     [''probate_death_inheritance'', ''nonprobate_transfer'', ''tod_living_owner_estate_planning'']"

fun index_of :: "string \<Rightarrow> string list \<Rightarrow> nat option" where
  "index_of v [] = None"
| "index_of v (x # xs) = (if x = v then Some 0 else map_option Suc (index_of v xs))"

definition probate_subtype_rank :: "string option \<Rightarrow> nat" where
  "probate_subtype_rank subtype =
     (let v = py_strip (opt_or subtype [])
      in if v = [] then length PROBATE_SUBTYPE_PRIORITY + 1
         else (case index_of v PROBATE_SUBTYPE_PRIORITY of
                 None \<Rightarrow> length PROBATE_SUBTYPE_PRIORITY + 1 | Some i \<Rightarrow> i + 1))"

text \<open>The first text of the group's other rows that is not blank.\<close>

definition first_filled :: "(lead_row \<Rightarrow> string option) \<Rightarrow> lead_row list \<Rightarrow> string option" where
  "first_filled f rows = find (\<lambda>s. s \<noteq> []) (map (\<lambda>m. py_strip (opt_or (f m) [])) rows)"

definition lead_subtype :: "(string \<Rightarrow> json option) \<Rightarrow> lead_row \<Rightarrow> string" where
  "lead_subtype loads m = py_strip (opt_or (json_str (map_of (as_dict loads (ld_data m)) ''lead_subtype'')) [])"

fun best_subtype :: "string list \<Rightarrow> string \<Rightarrow> string" where
  "best_subtype [] best = best"
| "best_subtype (s # ss) best =
     best_subtype ss
       (if s \<noteq> [] \<and> (best = [] \<or> probate_subtype_rank (Some s) < probate_subtype_rank (Some best)) then s else best)"

text \<open>The column updates: None leaves a column alone.\<close>

record survivor_update =
  su_heirs :: "string option option"
  su_legal :: "string option"
  su_data :: "json option"

definition merged_survivor_fields ::
    "(string \<Rightarrow> json option) \<Rightarrow> lead_row \<Rightarrow> lead_row list \<Rightarrow> string option \<Rightarrow> survivor_update" where
  "merged_survivor_fields loads survivor members record_type =
     (let others = filter (\<lambda>m. m \<noteq> survivor) members;
          heirs = (case merge_heirs survivor members record_type of
                     Some h \<Rightarrow> if h \<noteq> opt_or (ld_heirs survivor) [] then Some (if h = [] then None else Some h) else None
                   | None \<Rightarrow> if py_strip (opt_or (ld_heirs survivor) []) = []
                             then map_option Some (first_filled ld_heirs others) else None);
          legal = (if py_strip (opt_or (ld_legal survivor) []) = [] then first_filled ld_legal others else None);
          best = best_subtype (map (lead_subtype loads) members) [];
          data = (if best \<noteq> [] \<and> lead_subtype loads survivor \<noteq> best
                  then Some (JObj (filter (\<lambda>(k, _). k \<noteq> ''lead_subtype'') (as_dict loads (ld_data survivor))
                                   @ [(''lead_subtype'', JStr best)]))
                  else None)
      in \<lparr> su_heirs = heirs, su_legal = legal, su_data = data \<rparr>)"

definition write_update :: "survivor_update \<Rightarrow> lead_row \<Rightarrow> lead_row" where
  "write_update up r =
     r\<lparr> ld_heirs := (case su_heirs up of None \<Rightarrow> ld_heirs r | Some h \<Rightarrow> h),
        ld_legal := (case su_legal up of None \<Rightarrow> ld_legal r | Some l \<Rightarrow> Some l),
        ld_data := (case su_data up of None \<Rightarrow> ld_data r | Some d \<Rightarrow> Some d) \<rparr>"

definition apply_survivor_merge :: "string \<Rightarrow> string \<Rightarrow> survivor_update \<Rightarrow> lead_row list \<Rightarrow> lead_row list" where
  "apply_survivor_merge uid rid up rows =
     map (\<lambda>r. if ld_id r = rid \<and> ld_user r = uid then write_update up r else r) rows"

definition repoint_claim_anchor ::
    "string \<Rightarrow> string \<Rightarrow> string \<Rightarrow> string list \<Rightarrow> delivered_claim list \<Rightarrow> delivered_claim list" where
  "repoint_claim_anchor uid hash survivor losers ds =
     map (\<lambda>d. if dc_user d = uid \<and> dc_hash d = hash \<and> (case dc_first_result d of None \<Rightarrow> False | Some i \<Rightarrow> i \<in> set losers)
              then d\<lparr> dc_first_result := Some survivor \<rparr> else d) ds"

subsection \<open>The same-run collapse\<close>

definition flag_same_run :: "string \<Rightarrow> lead_row \<Rightarrow> lead_row" where
  "flag_same_run jid r =
     r\<lparr> ld_duplicate := True, ld_reason := Some ''same_run'', ld_source_job := Some jid, ld_source_at := None \<rparr>"

definition unflag :: "lead_row \<Rightarrow> lead_row" where
  "unflag r = r\<lparr> ld_duplicate := False, ld_reason := None, ld_source_job := None, ld_source_at := None \<rparr>"

text \<open>\<^verbatim>\<open>defaultdict(list)\<close> groups in order of first appearance.\<close>

definition groups_by :: "(lead_row \<Rightarrow> 'k) \<Rightarrow> lead_row list \<Rightarrow> lead_row list list" where
  "groups_by f rows = map (\<lambda>k. filter (\<lambda>r. f r = k) rows) (rev (remdups (rev (map f rows))))"

definition collapse_groups :: "(string \<Rightarrow> string) \<Rightarrow> lead_row list \<Rightarrow> (lead_row \<times> lead_row list) list" where
  "collapse_groups sha rows =
     (let strong = filter (\<lambda>r. legacy_strong_signature sha (ld_parcel r) (ld_property r) = ld_hash r) rows;
          grps = filter (\<lambda>g. 1 < length g) (groups_by ld_hash strong)
      in map (\<lambda>g. let ordered = sort_key survivor_sort_key g in (hd ordered, tl ordered)) grps)"

record dedup_db =
  leads :: "lead_row list"
  delivered_records :: "delivered_claim list"
  run_jobs :: "job_row list"

definition merge_group ::
    "(string \<Rightarrow> json option) \<Rightarrow> string \<Rightarrow> string option \<Rightarrow> lead_row \<Rightarrow> lead_row list \<Rightarrow> string list \<Rightarrow> dedup_db \<Rightarrow> dedup_db" where
  "merge_group loads uid record_type survivor members loser_ids db =
     db\<lparr> leads := apply_survivor_merge uid (ld_id survivor)
                    (merged_survivor_fields loads survivor members record_type) (leads db),
         delivered_records := repoint_claim_anchor uid (opt_or (ld_hash survivor) []) (ld_id survivor) loser_ids
                                (delivered_records db) \<rparr>"

definition collapse_same_run_siblings ::
    "(string \<Rightarrow> string) \<Rightarrow> (string \<Rightarrow> json option) \<Rightarrow> string \<Rightarrow> string \<Rightarrow> string option \<Rightarrow> dedup_db \<Rightarrow> nat \<times> dedup_db" where
  "collapse_same_run_siblings sha loads jid uid record_type db =
     (let grps = collapse_groups sha (filter (\<lambda>r. of_job jid uid r \<and> ld_hash r \<noteq> None \<and> \<not> ld_duplicate r) (leads db));
          losers = concat (map (\<lambda>(_, ls). map ld_id ls) grps);
          hit = (\<lambda>r. ld_id r \<in> set losers \<and> ld_user r = uid);
          db1 = db\<lparr> leads := map (\<lambda>r. if hit r then flag_same_run jid r else r) (leads db) \<rparr>
      in if grps = [] then (0, db)
         else (length (filter hit (leads db)),
               fold (\<lambda>(s, ls) d. merge_group loads uid record_type s (s # ls) (map ld_id ls) d) grps db1))"


subsection \<open>Re-election after enrichment\<close>

definition reconcile_group ::
    "(string \<Rightarrow> json option) \<Rightarrow> string \<Rightarrow> string \<Rightarrow> string option \<Rightarrow> lead_row list \<Rightarrow> nat \<times> dedup_db \<Rightarrow> nat \<times> dedup_db" where
  "reconcile_group loads jid uid record_type members st =
     (let (swapped, db) = st;
          standing = filter (\<lambda>m. \<not> ld_duplicate m) members
      in if filter ld_duplicate members = [] \<or> length standing \<noteq> 1 then st
         else let current = hd standing;
                  elected = hd (sorted_for record_type members);
                  swap = ld_id elected \<noteq> ld_id current;
                  db1 = (if swap
                         then db\<lparr> leads := map (\<lambda>r. if ld_id r = ld_id current \<and> ld_user r = uid then flag_same_run jid r else r)
                                   (map (\<lambda>r. if ld_id r = ld_id elected \<and> ld_user r = uid then unflag r else r) (leads db)) \<rparr>
                         else db)
              in (if swap then swapped + 1 else swapped,
                  merge_group loads uid record_type elected members
                    (map ld_id (filter (\<lambda>m. ld_id m \<noteq> ld_id elected) members)) db1))"

definition in_election :: "string \<Rightarrow> string \<Rightarrow> lead_row \<Rightarrow> bool" where
  "in_election jid uid r \<longleftrightarrow> of_job jid uid r \<and> ld_hash r \<noteq> None \<and>
     (\<not> ld_duplicate r \<or> (ld_reason r = Some ''same_run'' \<and> ld_source_job r = Some jid))"

definition reconcile_same_run_survivors ::
    "(string \<Rightarrow> json option) \<Rightarrow> string \<Rightarrow> string \<Rightarrow> string option \<Rightarrow> dedup_db \<Rightarrow> nat \<times> dedup_db" where
  "reconcile_same_run_survivors loads jid uid record_type db =
     fold (reconcile_group loads jid uid record_type)
       (groups_by ld_hash (sort_key ld_id (filter (in_election jid uid) (leads db)))) (0, db)"

subsection \<open>Taking over a claim nobody was delivered\<close>

definition NO_ADDRESS_NOT_BILLED_SINCE :: datetime where
  "NO_ADDRESS_NOT_BILLED_SINCE = DateTime 2026 9 3 43528000000"

text \<open>The run that holds a claim: the job of its anchor row, None when that row is gone.\<close>

definition claim_of :: "dedup_db \<Rightarrow> string \<Rightarrow> string \<Rightarrow> delivered_claim option" where
  "claim_of db uid hash = find (\<lambda>d. dc_user d = uid \<and> dc_hash d = hash) (delivered_records db)"

definition anchor_job :: "dedup_db \<Rightarrow> delivered_claim \<Rightarrow> string option" where
  "anchor_job db d =
     map_option ld_job (find (\<lambda>a. Some (ld_id a) = dc_first_result d \<and> ld_user a = dc_user d) (leads db))"

definition settled_claim_hashes :: "dedup_db \<Rightarrow> string \<Rightarrow> string \<Rightarrow> string list \<Rightarrow> bool \<Rightarrow> string list" where
  "settled_claim_hashes db uid jid hashes sweep_proof =
     map dc_hash (filter (\<lambda>d. dc_user d = uid \<and> dc_hash d \<in> set hashes
         \<and> (anchor_job db d = None \<or> anchor_job db d = Some jid)
         \<and> (sweep_proof \<longrightarrow> \<not> list_ex (\<lambda>j. j_id j = dc_first_job d \<and> j_user j = uid \<and> j_id j \<noteq> jid
               \<and> j_status j \<noteq> DONE \<and> never_billed j) (run_jobs db)))
       (delivered_records db))"

text \<open>
  The elected row is un-flagged and its siblings become combined under it; \<open>members\<close> are the rows this
  run read before the locks.
\<close>

definition promote_elected ::
    "(string \<Rightarrow> json option) \<Rightarrow> string \<Rightarrow> string \<Rightarrow> lead_row \<Rightarrow> lead_row list \<Rightarrow> string option \<Rightarrow> lead_row list \<Rightarrow> lead_row list" where
  "promote_elected loads jid uid elected members record_type rows =
     (let others = map ld_id (filter (\<lambda>m. m \<noteq> elected) members);
          rows1 = map (\<lambda>r. if ld_id r = ld_id elected \<and> ld_user r = uid then unflag r else r) rows
      in if others = [] then rows1
         else apply_survivor_merge uid (ld_id elected) (merged_survivor_fields loads elected members record_type)
                (map (\<lambda>r. if ld_id r \<in> set others \<and> ld_user r = uid
                          then r\<lparr> ld_reason := Some ''same_run'', ld_source_job := Some jid, ld_source_at := None \<rparr> else r) rows1))"

definition take_unheld_claim ::
    "(string \<Rightarrow> json option) \<Rightarrow> string \<Rightarrow> string \<Rightarrow> string \<Rightarrow> lead_row list \<Rightarrow> string option \<Rightarrow> dedup_db \<Rightarrow> bool \<times> dedup_db" where
  "take_unheld_claim loads jid uid hash members record_type db =
     (let still = map ld_id (filter (\<lambda>r. ld_user r = uid \<and> ld_id r \<in> set (map ld_id members) \<and> ld_duplicate r
                                        \<and> ld_reason r = Some ''prior_run'') (leads db));
          ms = filter (\<lambda>m. ld_id m \<in> set still) members
      in if ms = [] \<or> claim_of db uid hash \<noteq> None then (False, db)
         else let elected = hd (sorted_for record_type ms)
              in (True, db\<lparr> delivered_records := delivered_records db @
                     [\<lparr> dc_user = uid, dc_hash = hash, dc_first_job = jid, dc_first_result = Some (ld_id elected),
                        dc_parcel = ld_parcel elected, dc_address = ld_property elected \<rparr>],
                   leads := promote_elected loads jid uid elected ms record_type (leads db) \<rparr>))"

text \<open>The run that may give its claim up: it charged nothing and delivered none of the property's rows.\<close>

definition undelivered_holder :: "job_row \<Rightarrow> lead_row list \<Rightarrow> bool" where
  "undelivered_holder holder old_rows \<longleftrightarrow>
     ((j_status holder = FAILED \<or> j_status holder = CANCELLED) \<and> never_billed holder)
     \<or> (j_status holder = DONE \<and> \<not> list_ex (\<lambda>r. \<not> ld_duplicate r \<and> actionable_sql r) old_rows
        \<and> (case j_billing_applied_at holder of None \<Rightarrow> False | Some t \<Rightarrow> NO_ADDRESS_NOT_BILLED_SINCE \<le> t))"

definition supersede :: "string \<Rightarrow> datetime \<Rightarrow> lead_row \<Rightarrow> lead_row" where
  "supersede jid now r =
     r\<lparr> ld_duplicate := True, ld_reason := Some ''superseded'', ld_source_job := Some jid, ld_source_at := Some now \<rparr>"

text \<open>\<open>peek\<close> is the claim's anchor and its job as read before the locks: None when there was no claim.\<close>

definition transfer_one_claim ::
    "(string \<Rightarrow> string) \<Rightarrow> (string \<Rightarrow> json option) \<Rightarrow> datetime \<Rightarrow> string \<Rightarrow> string \<Rightarrow> string \<Rightarrow> lead_row list \<Rightarrow> string option
      \<Rightarrow> (string option \<times> string option) option \<Rightarrow> dedup_db \<Rightarrow> bool \<times> dedup_db" where
  "transfer_one_claim sha loads now jid uid hash members record_type peek db =
     (case peek of
        Some (_, None) \<Rightarrow> (False, db)
      | _ \<Rightarrow>
        if (case peek of Some (_, Some oj) \<Rightarrow> oj = jid | _ \<Rightarrow> False) then (False, db)
        else (case claim_of db uid hash of
            None \<Rightarrow> take_unheld_claim loads jid uid hash members record_type db
          | Some claim \<Rightarrow>
              (case peek of
                 Some (anchor, Some old_job) \<Rightarrow>
                   let old_rows = filter (\<lambda>r. ld_user r = uid \<and> ld_job r = old_job
                         \<and> (ld_hash r = Some hash \<or> ld_id r \<in> set (map ld_id members))) (leads db)
                   in if dc_first_result claim \<noteq> anchor
                         \<or> \<not> list_ex (\<lambda>r. Some (ld_id r) = dc_first_result claim) old_rows
                         \<or> legacy_strong_signature sha (dc_parcel claim) (dc_address claim) \<noteq> Some hash
                      then (False, db)
                      else (case find (\<lambda>j. j_id j = old_job \<and> j_user j = uid) (run_jobs db) of
                          None \<Rightarrow> (False, db)
                        | Some holder \<Rightarrow>
                            if \<not> undelivered_holder holder old_rows then (False, db)
                            else let elected = hd (sorted_for record_type members);
                                     hidden = opt_or (dc_first_result claim) [] # map ld_id (filter (\<lambda>r. \<not> ld_duplicate r) old_rows);
                                     promoted = promote_elected loads jid uid elected members record_type (leads db)
                                 in (True, db\<lparr> delivered_records := map (\<lambda>d. if dc_user d = uid \<and> dc_hash d = hash
                                          then d\<lparr> dc_first_result := Some (ld_id elected), dc_first_job := jid \<rparr> else d)
                                        (delivered_records db),
                                      leads := map (\<lambda>r. if ld_id r \<in> set hidden \<and> ld_user r = uid then supersede jid now r else r)
                                        promoted \<rparr>))
               | _ \<Rightarrow> (False, db))))"

definition transfer_candidates :: "string \<Rightarrow> string \<Rightarrow> lead_row list \<Rightarrow> lead_row list" where
  "transfer_candidates jid uid rows =
     filter (\<lambda>r. of_job jid uid r \<and> ld_hash r \<noteq> None \<and> ld_duplicate r \<and> ld_reason r = Some ''prior_run'' \<and> actionable_sql r) rows"

definition peek_claim :: "dedup_db \<Rightarrow> string \<Rightarrow> string \<Rightarrow> (string option \<times> string option) option" where
  "peek_claim db uid hash = map_option (\<lambda>d. (dc_first_result d, anchor_job db d)) (claim_of db uid hash)"

definition transfer_undelivered_claims ::
    "(string \<Rightarrow> string) \<Rightarrow> (string \<Rightarrow> json option) \<Rightarrow> datetime \<Rightarrow> string \<Rightarrow> string \<Rightarrow> string option \<Rightarrow> dedup_db \<Rightarrow> nat \<times> dedup_db" where
  "transfer_undelivered_claims sha loads now jid uid record_type db =
     (let rows = transfer_candidates jid uid (leads db);
          hashes = sorted_distinct (map (\<lambda>r. opt_or (ld_hash r) []) rows);
          settled = settled_claim_hashes db uid jid hashes False
      in fold (\<lambda>hash (n, d).
             case transfer_one_claim sha loads now jid uid hash (filter (\<lambda>r. ld_hash r = Some hash) rows) record_type
                    (peek_claim d uid hash) d of
               (moved, d') \<Rightarrow> (if moved then n + 1 else n, d'))
           (filter (\<lambda>h. h \<notin> set settled) hashes) (0, db))"

subsection \<open>Releases\<close>

definition release_capped_dedup_claims :: "string \<Rightarrow> string \<Rightarrow> string list \<Rightarrow> dedup_db \<Rightarrow> nat \<times> dedup_db" where
  "release_capped_dedup_claims uid jid capped db =
     (let freed = (\<lambda>d. dc_user d = uid \<and> dc_first_job d = jid
            \<and> list_ex (\<lambda>r. ld_id r \<in> set capped \<and> ld_user r = uid \<and> ld_hash r = Some (dc_hash d)) (leads db)
            \<and> \<not> list_ex (\<lambda>k. of_job jid uid k \<and> ld_hash k = Some (dc_hash d) \<and> \<not> ld_duplicate k
                  \<and> ld_id k \<notin> set capped \<and> address_actionable_sql k) (leads db))
      in if capped = [] then (0, db)
         else (length (filter freed (delivered_records db)),
               db\<lparr> delivered_records := filter (\<lambda>d. \<not> freed d) (delivered_records db) \<rparr>))"

definition blank_sql :: "string option \<Rightarrow> bool" where
  "blank_sql v \<longleftrightarrow> btrim (opt_or v []) = []"

definition release_parcelless_no_address_claims :: "string \<Rightarrow> string \<Rightarrow> dedup_db \<Rightarrow> nat \<times> dedup_db" where
  "release_parcelless_no_address_claims jid uid db =
     (let freed = (\<lambda>d. dc_user d = uid \<and> dc_first_job d = jid \<and> blank_sql (dc_parcel d) \<and> blank_sql (dc_address d)
            \<and> \<not> list_ex (\<lambda>r. ld_user r = uid \<and> ld_hash r = Some (dc_hash d) \<and> ld_job r \<noteq> jid \<and> ld_duplicate r
                  \<and> ld_reason r \<noteq> Some ''superseded'') (leads db)
            \<and> list_ex (\<lambda>r. of_job jid uid r \<and> ld_hash r = Some (dc_hash d)) (leads db)
            \<and> \<not> list_ex (\<lambda>r. of_job jid uid r \<and> ld_hash r = Some (dc_hash d)
                  \<and> (address_actionable_sql r \<or> \<not> blank_sql (ld_parcel r))) (leads db));
          released = map dc_hash (filter freed (delivered_records db))
      in (length released,
          db\<lparr> delivered_records := filter (\<lambda>d. \<not> freed d) (delivered_records db),
              leads := map (\<lambda>r. if of_job jid uid r \<and> ld_hash r \<noteq> None \<and> opt_or (ld_hash r) [] \<in> set released
                                then r\<lparr> ld_duplicate := True, ld_reason := Some ''superseded'' \<rparr> else r) (leads db) \<rparr>))"


subsection \<open>A property bills once per run\<close>

text \<open>Everything of a row but the three columns a merge may write.\<close>

definition core :: "lead_row \<Rightarrow> lead_row" where
  "core r = r\<lparr> ld_heirs := None, ld_legal := None, ld_data := None \<rparr>"

lemma core_simps [simp]:
  "ld_id (core r) = ld_id r" "ld_job (core r) = ld_job r" "ld_user (core r) = ld_user r" "ld_hash (core r) = ld_hash r"
  "ld_duplicate (core r) = ld_duplicate r" "ld_reason (core r) = ld_reason r" "ld_source_job (core r) = ld_source_job r"
  "ld_parcel (core r) = ld_parcel r" "ld_property (core r) = ld_property r" "of_job j u (core r) = of_job j u r"
  "survivor_sort_key (core r) = survivor_sort_key r" "auction_survivor_sort_key (core r) = auction_survivor_sort_key r"
  "address_actionable_sql (core r) = address_actionable_sql r" "core (core r) = core r"
  by (simp_all add: core_def of_job_def survivor_sort_key_def auction_survivor_sort_key_def address_actionable_sql_def)

lemma core_write [simp]: "core (write_update up r) = core r"
  by (simp add: core_def write_update_def)

lemma core_merge [simp]: "map core (leads (merge_group loads uid rt s ms ls db)) = map core (leads db)"
  by (simp add: merge_group_def apply_survivor_merge_def comp_def if_distrib [of core] cong: if_cong)

lemma merge_jobs [simp]: "run_jobs (merge_group loads uid rt s ms ls db) = run_jobs db"
  by (simp add: merge_group_def)

lemma core_merges:
  "map core (leads (fold (\<lambda>(s, ls) d. merge_group loads uid rt s (s # ls) (map ld_id ls) d) grps db)) = map core (leads db)"
  by (induction grps arbitrary: db) (simp_all add: case_prod_beta)

lemma filter_core:
  assumes "map core xs = map core ys" "\<And>r. P (core r) = P r"
  shows "map core (filter P xs) = map core (filter P ys)" "length (filter P xs) = length (filter P ys)"
proof -
  have f: "map core (filter P zs) = filter P (map core zs)" for zs
    by (simp add: filter_map comp_def assms(2))
  show "map core (filter P xs) = map core (filter P ys)" unfolding f assms(1) ..
  then show "length (filter P xs) = length (filter P ys)" by (metis length_map)
qed

lemma groups_by_mem: "g \<in> set (groups_by f rows) \<longleftrightarrow> (\<exists>r \<in> set rows. g = filter (\<lambda>s. f s = f r) rows)"
  by (auto simp: groups_by_def)

lemma head_tail_sort:
  assumes "g \<noteq> []"
  shows "hd (sort_key k g) \<in> set g" "\<And>r. r \<in> set g \<Longrightarrow> r = hd (sort_key k g) \<or> r \<in> set (tl (sort_key k g))"
    "distinct g \<Longrightarrow> hd (sort_key k g) \<notin> set (tl (sort_key k g))"
    "\<And>r. r \<in> set (tl (sort_key k g)) \<Longrightarrow> r \<in> set g" "\<And>r. r \<in> set g \<Longrightarrow> k (hd (sort_key k g)) \<le> k r"
proof -
  have ne: "sort_key k g \<noteq> []" using assms by (metis length_sort length_0_conv)
  then obtain x xs where x: "sort_key k g = x # xs" by (cases "sort_key k g") auto
  have s: "set (x # xs) = set g" using set_sort [of k g] x by simp
  show "hd (sort_key k g) \<in> set g" using s by (auto simp: x)
  show "r = hd (sort_key k g) \<or> r \<in> set (tl (sort_key k g))" if "r \<in> set g" for r using s that by (auto simp: x)
  show "r \<in> set g" if "r \<in> set (tl (sort_key k g))" for r using s that by (auto simp: x)
  show "hd (sort_key k g) \<notin> set (tl (sort_key k g))" if "distinct g"
  proof -
    have "distinct (sort_key k g)" using that by simp
    then show ?thesis by (simp add: x)
  qed
  have "sorted (map k (x # xs))" using sorted_sort_key [of k g] x by simp
  then show "k (hd (sort_key k g)) \<le> k r" if "r \<in> set g" for r
    using that s by (auto simp: x)
qed

definition strong :: "(string \<Rightarrow> string) \<Rightarrow> lead_row \<Rightarrow> bool" where
  "strong sha r \<longleftrightarrow> legacy_strong_signature sha (ld_parcel r) (ld_property r) = ld_hash r"

definition collapsible :: "(string \<Rightarrow> string) \<Rightarrow> string \<Rightarrow> string \<Rightarrow> lead_row list \<Rightarrow> lead_row list" where
  "collapsible sha jid uid rows =
     filter (strong sha) (filter (\<lambda>r. of_job jid uid r \<and> ld_hash r \<noteq> None \<and> \<not> ld_duplicate r) rows)"

definition best_of :: "lead_row list \<Rightarrow> lead_row \<Rightarrow> lead_row" where
  "best_of rows r = hd (sort_key survivor_sort_key (filter (\<lambda>s. ld_hash s = ld_hash r) rows))"

lemma collapse_losers:
  assumes "distinct (map ld_id rows)" "r \<in> set rows"
  shows "ld_id r \<in> set (concat (map (\<lambda>(_, ls). map ld_id ls)
        (collapse_groups sha (filter (\<lambda>r. of_job jid uid r \<and> ld_hash r \<noteq> None \<and> \<not> ld_duplicate r) rows))))
    \<longleftrightarrow> r \<in> set (collapsible sha jid uid rows) \<and> r \<noteq> best_of (collapsible sha jid uid rows) r"
proof -
  let ?C = "collapsible sha jid uid rows"
  have inj: "r = s" if "s \<in> set ?C" "ld_id r = ld_id s" for s
  proof -
    have "s \<in> set rows" using that(1) by (simp add: collapsible_def)
    then show ?thesis using assms that(2) by (metis distinct_map inj_on_def)
  qed
  have dC: "distinct ?C" using assms(1) by (simp add: collapsible_def distinct_map)
  have grp: "collapse_groups sha (filter (\<lambda>r. of_job jid uid r \<and> ld_hash r \<noteq> None \<and> \<not> ld_duplicate r) rows)
    = map (\<lambda>g. (hd (sort_key survivor_sort_key g), tl (sort_key survivor_sort_key g)))
        (filter (\<lambda>g. 1 < length g) (groups_by ld_hash ?C))"
    by (simp add: collapse_groups_def collapsible_def strong_def Let_def)
  have "ld_id r \<in> set (concat (map (\<lambda>(_, ls). map ld_id ls)
        (collapse_groups sha (filter (\<lambda>r. of_job jid uid r \<and> ld_hash r \<noteq> None \<and> \<not> ld_duplicate r) rows))))
    \<longleftrightarrow> (\<exists>g \<in> set (groups_by ld_hash ?C). 1 < length g \<and> ld_id r \<in> ld_id ` set (tl (sort_key survivor_sort_key g)))"
    unfolding grp by auto
  also have "\<dots> \<longleftrightarrow> r \<in> set ?C \<and> r \<noteq> best_of ?C r"
  proof
    assume "\<exists>g \<in> set (groups_by ld_hash ?C). 1 < length g \<and> ld_id r \<in> ld_id ` set (tl (sort_key survivor_sort_key g))"
    then obtain g s where g: "g \<in> set (groups_by ld_hash ?C)" "s \<in> set (tl (sort_key survivor_sort_key g))" "ld_id r = ld_id s" "g \<noteq> []"
      by fastforce
    obtain q where q: "q \<in> set ?C" "g = filter (\<lambda>s. ld_hash s = ld_hash q) ?C" using g(1) by (auto simp: groups_by_mem)
    have s: "s \<in> set g" by (rule head_tail_sort(4) [OF g(4,2)])
    then have "s \<in> set ?C" "ld_hash s = ld_hash q" using q(2) by auto
    moreover then have rs: "r = s" using inj g(3) by blast
    moreover have "hd (sort_key survivor_sort_key g) \<noteq> s"
      using head_tail_sort(3) [OF g(4)] g(2) q(2) dC by (metis distinct_filter)
    ultimately show "r \<in> set ?C \<and> r \<noteq> best_of ?C r" using q(2) by (simp add: best_of_def)
  next
    assume r: "r \<in> set ?C \<and> r \<noteq> best_of ?C r"
    let ?g = "filter (\<lambda>s. ld_hash s = ld_hash r) ?C"
    have rg: "r \<in> set ?g" using r by simp
    then have ne: "?g \<noteq> []" by (metis empty_iff list.set(1))
    have t: "r \<in> set (tl (sort_key survivor_sort_key ?g))"
      using head_tail_sort(2) [OF ne rg] r by (auto simp: best_of_def)
    then have "1 < length (sort_key survivor_sort_key ?g)"
      by (metis One_nat_def Suc_less_eq length_pos_if_in_set length_tl less_diff_conv plus_1_eq_Suc add.commute)
    then have "1 < length ?g" by simp
    moreover have "?g \<in> set (groups_by ld_hash ?C)" using r by (auto simp: groups_by_mem)
    ultimately show "\<exists>g \<in> set (groups_by ld_hash ?C). 1 < length g \<and> ld_id r \<in> ld_id ` set (tl (sort_key survivor_sort_key g))"
      using t by blast
  qed
  finally show ?thesis .
qed


lemma collapse_result:
  assumes "distinct (map ld_id (leads db))" "collapse_same_run_siblings sha loads jid uid rt db = (n, db')"
    and "C = collapsible sha jid uid (leads db)"
  shows "map core (leads db') = map core (map (\<lambda>r. if r \<in> set C \<and> r \<noteq> best_of C r then flag_same_run jid r else r) (leads db))"
    "n = length (filter (\<lambda>r. r \<in> set C \<and> r \<noteq> best_of C r) (leads db))"
proof -
  let ?grps = "collapse_groups sha (filter (\<lambda>r. of_job jid uid r \<and> ld_hash r \<noteq> None \<and> \<not> ld_duplicate r) (leads db))"
  let ?losers = "concat (map (\<lambda>(_, ls). map ld_id ls) ?grps)"
  have hit: "ld_id r \<in> set ?losers \<and> ld_user r = uid \<longleftrightarrow> r \<in> set C \<and> r \<noteq> best_of C r" if "r \<in> set (leads db)" for r
    using collapse_losers [OF assms(1) that, of sha jid uid] unfolding assms(3)
    by (auto simp: collapsible_def of_job_def)
  have m: "map (\<lambda>r. if ld_id r \<in> set ?losers \<and> ld_user r = uid then flag_same_run jid r else r) (leads db)
    = map (\<lambda>r. if r \<in> set C \<and> r \<noteq> best_of C r then flag_same_run jid r else r) (leads db)"
  proof (rule map_cong [OF refl])
    fix r assume "r \<in> set (leads db)"
    from hit [OF this] show "(if ld_id r \<in> set ?losers \<and> ld_user r = uid then flag_same_run jid r else r)
      = (if r \<in> set C \<and> r \<noteq> best_of C r then flag_same_run jid r else r)" by (simp only:)
  qed
  have f: "filter (\<lambda>r. ld_id r \<in> set ?losers \<and> ld_user r = uid) (leads db) = filter (\<lambda>r. r \<in> set C \<and> r \<noteq> best_of C r) (leads db)"
    by (rule filter_cong [OF refl hit])
  show "map core (leads db') = map core (map (\<lambda>r. if r \<in> set C \<and> r \<noteq> best_of C r then flag_same_run jid r else r) (leads db))"
  proof (cases "?grps = []")
    case True
    then have "db' = db" using assms(2) by (simp add: collapse_same_run_siblings_def Let_def)
    then show ?thesis using m True by simp
  next
    case False
    then have "db' = fold (\<lambda>(s, ls) d. merge_group loads uid rt s (s # ls) (map ld_id ls) d) ?grps
        (db\<lparr> leads := map (\<lambda>r. if ld_id r \<in> set ?losers \<and> ld_user r = uid then flag_same_run jid r else r) (leads db) \<rparr>)"
      using assms(2) by (simp only: collapse_same_run_siblings_def Let_def if_False prod.inject)
    then show ?thesis unfolding core_merges m by (simp add: core_merges m)
  qed
  show "n = length (filter (\<lambda>r. r \<in> set C \<and> r \<noteq> best_of C r) (leads db))"
  proof (cases "?grps = []")
    case True
    then have "n = 0" using assms(2) by (simp add: collapse_same_run_siblings_def Let_def)
    then show ?thesis using f True by simp
  next
    case False
    then have "n = length (filter (\<lambda>r. ld_id r \<in> set ?losers \<and> ld_user r = uid) (leads db))"
      using assms(2) by (simp only: collapse_same_run_siblings_def Let_def if_False prod.inject)
    then show ?thesis unfolding f .
  qed
qed

lemma flag_simps [simp]:
  "ld_id (flag_same_run j r) = ld_id r" "ld_hash (flag_same_run j r) = ld_hash r" "of_job k u (flag_same_run j r) = of_job k u r"
  "ld_duplicate (flag_same_run j r)" "strong sha (flag_same_run j r) = strong sha r"
  "ld_reason (flag_same_run j r) = Some ''same_run''" "ld_source_job (flag_same_run j r) = Some j" "ld_user (flag_same_run j r) = ld_user r"
  by (simp_all add: flag_same_run_def of_job_def strong_def)

lemma strong_core [simp]: "strong sha (core r) = strong sha r"
  by (simp add: strong_def)

lemma filter_only: "distinct xs \<Longrightarrow> x \<in> set xs \<Longrightarrow> filter (\<lambda>s. s = x) xs = [x]"
  by (induction xs) (auto simp: filter_empty_conv)

lemma one_best:
  assumes "distinct C" "r \<in> set C"
  shows "filter (\<lambda>s. s = best_of C s \<and> ld_hash s = ld_hash r) C = [best_of C r]"
proof -
  let ?g = "filter (\<lambda>s. ld_hash s = ld_hash r) C"
  have ne: "?g \<noteq> []" using assms(2) by (auto simp: filter_empty_conv)
  have b: "best_of C r \<in> set C" "ld_hash (best_of C r) = ld_hash r"
    using head_tail_sort(1) [OF ne, of survivor_sort_key] by (auto simp: best_of_def)
  have "filter (\<lambda>s. s = best_of C s \<and> ld_hash s = ld_hash r) C = filter (\<lambda>s. s = best_of C r) C"
  proof (rule filter_cong [OF refl])
    fix s assume "s \<in> set C"
    have "best_of C s = best_of C r" if "ld_hash s = ld_hash r" unfolding best_of_def that ..
    then show "(s = best_of C s \<and> ld_hash s = ld_hash r) = (s = best_of C r)" using b(2) by metis
  qed
  also have "\<dots> = [best_of C r]"
    by (rule filter_only [OF assms(1) b(1)])
  finally show ?thesis .
qed

text \<open>The un-flagged rows of one property in a run, and what the collapse leaves of them: the best ranked one.\<close>

definition standing_rows :: "(string \<Rightarrow> string) \<Rightarrow> string \<Rightarrow> string \<Rightarrow> string \<Rightarrow> lead_row list \<Rightarrow> lead_row list" where
  "standing_rows sha jid uid h rows =
     filter (\<lambda>s. of_job jid uid s \<and> \<not> ld_duplicate s \<and> ld_hash s = Some h \<and>
        legacy_strong_signature sha (ld_parcel s) (ld_property s) = Some h) rows"

lemma standing_rows_alt:
  "standing_rows sha jid uid h rows = filter (\<lambda>s. of_job jid uid s \<and> \<not> ld_duplicate s \<and> strong sha s \<and> ld_hash s = Some h) rows"
  unfolding standing_rows_def by (intro filter_cong) (auto simp: strong_def)

lemma collapsible_group:
  "ld_hash r = Some h \<Longrightarrow> filter (\<lambda>s. ld_hash s = ld_hash r) (collapsible sha jid uid rows) = standing_rows sha jid uid h rows"
  unfolding collapsible_def standing_rows_alt filter_filter by (intro filter_cong) auto

lemma best_of_standing: "ld_hash r = Some h \<Longrightarrow>
    best_of (collapsible sha jid uid rows) r = hd (sort_key survivor_sort_key (standing_rows sha jid uid h rows))"
  unfolding best_of_def by (drule collapsible_group, erule arg_cong)

lemma collapse_survivor:
  assumes "distinct (map ld_id (leads db))" "collapse_same_run_siblings sha loads jid uid rt db = (n, db')"
    and "standing_rows sha jid uid h (leads db) \<noteq> []"
  shows "map core (standing_rows sha jid uid h (leads db')) =
    [core (hd (sort_key survivor_sort_key (standing_rows sha jid uid h (leads db))))]"
proof -
  define C where "C = collapsible sha jid uid (leads db)"
  define w where "w = hd (sort_key survivor_sort_key (standing_rows sha jid uid h (leads db)))"
  let ?F = "\<lambda>r. if r \<in> set C \<and> r \<noteq> best_of C r then flag_same_run jid r else r"
  note res = collapse_result [OF assms(1,2) C_def]
  have dl: "distinct (leads db)" using assms(1) by (simp add: distinct_map)
  have w: "w \<in> set (standing_rows sha jid uid h (leads db))"
    unfolding w_def by (rule head_tail_sort(1) [OF assms(3)])
  have best: "best_of C s = w" if "ld_hash s = Some h" for s
    unfolding C_def w_def by (rule best_of_standing [OF that])
  have mem: "s \<in> set C \<longleftrightarrow> s \<in> set (leads db) \<and> of_job jid uid s \<and> ld_hash s \<noteq> None \<and> \<not> ld_duplicate s \<and> strong sha s" for s
    by (auto simp: C_def collapsible_def)
  have "map core (standing_rows sha jid uid h (leads db')) = map core (standing_rows sha jid uid h (map ?F (leads db)))"
    unfolding standing_rows_alt by (rule filter_core(1) [OF res(1)]) simp
  also have "standing_rows sha jid uid h (map ?F (leads db)) = map ?F (filter (\<lambda>s. s = w) (leads db))"
    unfolding standing_rows_alt filter_map comp_def
    by (rule arg_cong [where f = "map ?F"], rule filter_cong [OF refl])
      (use w best in \<open>auto simp: mem standing_rows_alt\<close>)
  also have "filter (\<lambda>s. s = w) (leads db) = [w]"
    by (rule filter_only [OF dl]) (use w in \<open>simp add: standing_rows_alt\<close>)
  finally have "map core (standing_rows sha jid uid h (leads db')) = [core (?F w)]" by simp
  moreover have "ld_hash w = Some h" using w by (simp add: standing_rows_alt)
  ultimately show ?thesis unfolding w_def [symmetric] using best [of w] by simp
qed

lemma collapse_drop:
  assumes "distinct (map ld_id (leads db))" "collapse_same_run_siblings sha loads jid uid rt db = (n, db')"
  shows "n + length (filter (\<lambda>s. of_job jid uid s \<and> \<not> ld_duplicate s) (leads db'))
      = length (filter (\<lambda>s. of_job jid uid s \<and> \<not> ld_duplicate s) (leads db))"
proof -
  define C where "C = collapsible sha jid uid (leads db)"
  let ?F = "\<lambda>r. if r \<in> set C \<and> r \<noteq> best_of C r then flag_same_run jid r else r"
  note res = collapse_result [OF assms(1,2) C_def]
  have mem: "s \<in> set C \<longleftrightarrow> s \<in> set (leads db) \<and> of_job jid uid s \<and> ld_hash s \<noteq> None \<and> \<not> ld_duplicate s \<and> strong sha s" for s
    by (auto simp: C_def collapsible_def)
  have "length (filter (\<lambda>s. of_job jid uid s \<and> \<not> ld_duplicate s) (leads db'))
    = length (filter (\<lambda>s. of_job jid uid s \<and> \<not> ld_duplicate s) (map ?F (leads db)))"
    by (rule filter_core(2) [OF res(1)]) simp
  also have "\<dots> = length (filter (\<lambda>s. of_job jid uid s \<and> \<not> ld_duplicate s \<and> \<not> (s \<in> set C \<and> s \<noteq> best_of C s)) (leads db))"
    by (simp add: filter_map comp_def) (auto intro!: arg_cong [where f = length] filter_cong)
  finally have after: "length (filter (\<lambda>s. of_job jid uid s \<and> \<not> ld_duplicate s) (leads db'))
    = length (filter (\<lambda>s. of_job jid uid s \<and> \<not> ld_duplicate s \<and> \<not> (s \<in> set C \<and> s \<noteq> best_of C s)) (leads db))" .
  have split: "length (filter A xs) = length (filter B xs) + length (filter (\<lambda>s. A s \<and> \<not> B s) xs)"
    if "\<And>s. s \<in> set xs \<Longrightarrow> B s \<Longrightarrow> A s" for A B and xs :: "lead_row list"
    using that by (induction xs) auto
  have "length (filter (\<lambda>s. of_job jid uid s \<and> \<not> ld_duplicate s) (leads db)) = n +
    length (filter (\<lambda>s. (of_job jid uid s \<and> \<not> ld_duplicate s) \<and> \<not> (s \<in> set C \<and> s \<noteq> best_of C s)) (leads db))"
    unfolding res(2) by (rule split) (auto simp: mem)
  then show "n + length (filter (\<lambda>s. of_job jid uid s \<and> \<not> ld_duplicate s) (leads db'))
      = length (filter (\<lambda>s. of_job jid uid s \<and> \<not> ld_duplicate s) (leads db))"
    unfolding after by simp
qed


subsection \<open>A claim moves only from a run that delivered nothing\<close>

lemma promote_as_map:
  obtains g where "promote_elected loads jid uid e ms rt rows = map g rows"
    "\<And>r. ld_id (g r) = ld_id r" "\<And>r. ld_job (g r) = ld_job r" "\<And>r. ld_user (g r) = ld_user r" "\<And>r. ld_hash (g r) = ld_hash r"
    "\<And>r. ld_duplicate (g r) = (if ld_id r = ld_id e \<and> ld_user r = uid then False else ld_duplicate r)"
proof -
  let ?others = "map ld_id (filter (\<lambda>m. m \<noteq> e) ms)"
  let ?u = "\<lambda>r. if ld_id r = ld_id e \<and> ld_user r = uid then unflag r else r"
  let ?s = "\<lambda>r. if ld_id r \<in> set ?others \<and> ld_user r = uid
       then r\<lparr> ld_reason := Some ''same_run'', ld_source_job := Some jid, ld_source_at := None \<rparr> else r"
  let ?w = "\<lambda>r. if ld_id r = ld_id e \<and> ld_user r = uid then write_update (merged_survivor_fields loads e ms rt) r else r"
  let ?g = "if ?others = [] then ?u else ?w \<circ> ?s \<circ> ?u"
  show thesis
  proof (rule that [of ?g])
    show "promote_elected loads jid uid e ms rt rows = map ?g rows"
      by (simp add: promote_elected_def apply_survivor_merge_def Let_def comp_def)
  qed (auto simp: unflag_def write_update_def)
qed

lemma hd_sorted_for: "ms \<noteq> [] \<Longrightarrow> hd (sorted_for rt ms) \<in> set ms"
  unfolding sorted_for_def by (auto intro: head_tail_sort(1))

lemma transfer_cases:
  assumes "transfer_one_claim sha loads now jid uid hash members rt peek db = (True, db')" "claim_of db uid hash = Some claim"
  obtains old holder old_rows where "peek = Some (dc_first_result claim, Some old)" "old \<noteq> jid"
    "old_rows = filter (\<lambda>r. ld_user r = uid \<and> ld_job r = old \<and> (ld_hash r = Some hash \<or> ld_id r \<in> set (map ld_id members))) (leads db)"
    "list_ex (\<lambda>r. Some (ld_id r) = dc_first_result claim) old_rows"
    "legacy_strong_signature sha (dc_parcel claim) (dc_address claim) = Some hash"
    "find (\<lambda>j. j_id j = old \<and> j_user j = uid) (run_jobs db) = Some holder" "undelivered_holder holder old_rows"
    "db' = db\<lparr> delivered_records := map (\<lambda>d. if dc_user d = uid \<and> dc_hash d = hash
          then d\<lparr> dc_first_result := Some (ld_id (hd (sorted_for rt members))), dc_first_job := jid \<rparr> else d) (delivered_records db),
        leads := map (\<lambda>r. if ld_id r \<in> set (opt_or (dc_first_result claim) [] # map ld_id (filter (\<lambda>r. \<not> ld_duplicate r) old_rows))
              \<and> ld_user r = uid then supersede jid now r else r)
          (promote_elected loads jid uid (hd (sorted_for rt members)) members rt (leads db)) \<rparr>"
proof -
  have t: "transfer_one_claim sha loads now jid uid hash members rt peek db = (True, db')" by (rule assms(1))
  obtain anchor oj where peek: "peek = Some (anchor, oj)"
    using t assms(2) by (cases peek) (auto simp: transfer_one_claim_def)
  then obtain old where oj: "oj = Some old"
    using t by (cases oj) (auto simp: transfer_one_claim_def)
  have nj: "old \<noteq> jid" using t peek oj by (auto simp: transfer_one_claim_def)
  define old_rows where "old_rows = filter (\<lambda>r. ld_user r = uid \<and> ld_job r = old \<and> (ld_hash r = Some hash \<or> ld_id r \<in> set (map ld_id members))) (leads db)"
  note t1 = t [unfolded peek oj transfer_one_claim_def option.case prod.case assms(2) Let_def if_not_P [OF nj], folded old_rows_def]
  have c: "dc_first_result claim = anchor" "list_ex (\<lambda>r. Some (ld_id r) = dc_first_result claim) old_rows"
    "legacy_strong_signature sha (dc_parcel claim) (dc_address claim) = Some hash"
    using t1 by (auto split: if_splits)
  obtain holder where h: "find (\<lambda>j. j_id j = old \<and> j_user j = uid) (run_jobs db) = Some holder"
    using t1 by (auto split: if_splits option.splits)
  have u: "undelivered_holder holder old_rows" using t1 by (auto simp: h split: if_splits)
  show thesis
    by (rule that [OF _ nj old_rows_def c(2,3) h u]) (use t1 c h u peek oj in \<open>simp_all\<close>)
qed


lemma find_map_same:
  "(\<And>d. P (f d) = P d) \<Longrightarrow> find P (map (\<lambda>d. if P d then f d else d) ds) = map_option f (find P ds)"
  by (induction ds) auto

lemma transfer_effect:
  assumes "transfer_one_claim sha loads now jid uid hash members rt peek db = (True, db')" "claim_of db uid hash = Some claim"
    and "distinct (map ld_id (leads db))" "members \<noteq> []"
    and "\<forall>m \<in> set members. \<exists>r \<in> set (leads db). ld_id r = ld_id m \<and> of_job jid uid r \<and> ld_hash r = Some hash"
  obtains old holder where "peek = Some (dc_first_result claim, Some old)" "old \<noteq> jid"
    "find (\<lambda>j. j_id j = old \<and> j_user j = uid) (run_jobs db) = Some holder"
    "((j_status holder = FAILED \<or> j_status holder = CANCELLED) \<and> never_billed holder) \<or>
     (j_status holder = DONE \<and> (\<forall>r \<in> set (leads db). of_job old uid r \<and> ld_hash r = Some hash \<and> \<not> ld_duplicate r \<longrightarrow> \<not> actionable_sql r))"
    "claim_of db' uid hash = Some (claim\<lparr> dc_first_result := Some (ld_id (hd (sorted_for rt members))), dc_first_job := jid \<rparr>)"
    "\<forall>r \<in> set (leads db'). of_job old uid r \<and> ld_hash r = Some hash \<longrightarrow> ld_duplicate r"
    "\<exists>r \<in> set (leads db'). ld_id r = ld_id (hd (sorted_for rt members)) \<and> of_job jid uid r \<and> ld_hash r = Some hash \<and> \<not> ld_duplicate r"
proof -
  let ?e = "hd (sorted_for rt members)"
  obtain old holder old_rows where c: "peek = Some (dc_first_result claim, Some old)" "old \<noteq> jid"
    "old_rows = filter (\<lambda>r. ld_user r = uid \<and> ld_job r = old \<and> (ld_hash r = Some hash \<or> ld_id r \<in> set (map ld_id members))) (leads db)"
    "list_ex (\<lambda>r. Some (ld_id r) = dc_first_result claim) old_rows"
    "find (\<lambda>j. j_id j = old \<and> j_user j = uid) (run_jobs db) = Some holder" "undelivered_holder holder old_rows"
    "db' = db\<lparr> delivered_records := map (\<lambda>d. if dc_user d = uid \<and> dc_hash d = hash
          then d\<lparr> dc_first_result := Some (ld_id ?e), dc_first_job := jid \<rparr> else d) (delivered_records db),
        leads := map (\<lambda>r. if ld_id r \<in> set (opt_or (dc_first_result claim) [] # map ld_id (filter (\<lambda>r. \<not> ld_duplicate r) old_rows))
              \<and> ld_user r = uid then supersede jid now r else r)
          (promote_elected loads jid uid ?e members rt (leads db)) \<rparr>"
    by (rule transfer_cases [OF assms(1,2)])
  obtain g where g: "promote_elected loads jid uid ?e members rt (leads db) = map g (leads db)"
    "\<And>r. ld_id (g r) = ld_id r" "\<And>r. ld_job (g r) = ld_job r" "\<And>r. ld_user (g r) = ld_user r" "\<And>r. ld_hash (g r) = ld_hash r"
    "\<And>r. ld_duplicate (g r) = (if ld_id r = ld_id ?e \<and> ld_user r = uid then False else ld_duplicate r)"
    by (rule promote_as_map) blast
  define hid where "hid = opt_or (dc_first_result claim) [] # map ld_id (filter (\<lambda>r. \<not> ld_duplicate r) old_rows)"
  define h where "h r = (if ld_id r \<in> set hid \<and> ld_user r = uid then supersede jid now (g r) else g r)" for r
  have leads': "leads db' = map h (leads db)"
    unfolding c(7) g(1) h_def hid_def [symmetric] by (simp add: comp_def g(2,4))
  have hf: "ld_id (h r) = ld_id r" "ld_job (h r) = ld_job r" "ld_user (h r) = ld_user r" "ld_hash (h r) = ld_hash r" for r
    by (simp_all add: h_def supersede_def g)
  have same: "r = s" if "r \<in> set (leads db)" "s \<in> set (leads db)" "ld_id r = ld_id s" for r s
    using assms(3) that by (metis distinct_map inj_on_def)
  obtain m where m: "m \<in> set (leads db)" "ld_id m = ld_id ?e" "of_job jid uid m" "ld_hash m = Some hash"
    using assms(5) hd_sorted_for [OF assms(4)] by blast
  have hidden_old: "\<exists>s \<in> set old_rows. ld_id s = i" if "i \<in> set hid" for i
  proof -
    from c(4) obtain r0 where r0: "r0 \<in> set old_rows" "Some (ld_id r0) = dc_first_result claim"
      by (auto simp only: list_ex_iff)
    have "hid = ld_id r0 # map ld_id (filter (\<lambda>r. \<not> ld_duplicate r) old_rows)"
      by (simp add: hid_def r0(2) [symmetric])
    then show ?thesis using that r0(1) by auto
  qed
  have dup: "ld_duplicate (h r)" if "r \<in> set (leads db)" "of_job old uid r" "ld_hash r = Some hash" for r
  proof (cases "ld_duplicate r")
    case True
    have "ld_id r \<noteq> ld_id ?e" using same [OF that(1) m(1)] m(2,3) that(2) c(2) by (auto simp: of_job_def)
    then show ?thesis using True by (simp add: h_def supersede_def g(6))
  next
    case False
    then have "ld_id r \<in> set hid" using that by (auto simp: hid_def c(3) of_job_def)
    then show ?thesis using that(2) by (simp add: h_def supersede_def of_job_def)
  qed
  have keep: "\<not> ld_duplicate (h m)"
  proof -
    have "ld_id m \<notin> set hid"
    proof
      assume "ld_id m \<in> set hid"
      then obtain s where s: "s \<in> set old_rows" "ld_id s = ld_id m" using hidden_old by blast
      then have "s = m" using same m(1) by (auto simp: c(3))
      then show False using s(1) m(3) c(2) by (auto simp: c(3) of_job_def)
    qed
    then show ?thesis using m(2,3) by (simp add: h_def g(6) of_job_def)
  qed
  have claim': "claim_of db' uid hash = Some (claim\<lparr> dc_first_result := Some (ld_id ?e), dc_first_job := jid \<rparr>)"
  proof -
    have "claim_of db' uid hash = map_option (\<lambda>d. d\<lparr> dc_first_result := Some (ld_id ?e), dc_first_job := jid \<rparr>)
        (find (\<lambda>d. dc_user d = uid \<and> dc_hash d = hash) (delivered_records db))"
      unfolding claim_of_def c(7) by (simp add: find_map_same [where P = "\<lambda>d. dc_user d = uid \<and> dc_hash d = hash"])
    then show ?thesis using assms(2) by (simp add: claim_of_def)
  qed
  have und: "((j_status holder = FAILED \<or> j_status holder = CANCELLED) \<and> never_billed holder) \<or>
     (j_status holder = DONE \<and> (\<forall>r \<in> set (leads db). of_job old uid r \<and> ld_hash r = Some hash \<and> \<not> ld_duplicate r \<longrightarrow> \<not> actionable_sql r))"
    using c(6) by (auto simp: undelivered_holder_def list_ex_iff c(3) of_job_def)
  show thesis
  proof (rule that [OF c(1,2,5) und claim'])
    show "\<forall>r \<in> set (leads db'). of_job old uid r \<and> ld_hash r = Some hash \<longrightarrow> ld_duplicate r"
      using dup by (auto simp: leads' of_job_def hf)
    show "\<exists>r \<in> set (leads db'). ld_id r = ld_id ?e \<and> of_job jid uid r \<and> ld_hash r = Some hash \<and> \<not> ld_duplicate r"
      using m keep by (auto simp: leads' of_job_def hf intro!: bexI [where x = m])
  qed
qed


subsection \<open>Re-election moves no charge\<close>

definition electable :: "lead_row list \<Rightarrow> bool" where
  "electable members \<longleftrightarrow> filter ld_duplicate members \<noteq> [] \<and> length (filter (\<lambda>m. \<not> ld_duplicate m) members) = 1"

definition swap_rows :: "string \<Rightarrow> string \<Rightarrow> string option \<Rightarrow> lead_row list \<Rightarrow> lead_row \<Rightarrow> lead_row" where
  "swap_rows jid uid rt members r =
     (let current = hd (filter (\<lambda>m. \<not> ld_duplicate m) members); elected = hd (sorted_for rt members)
      in if \<not> electable members \<or> ld_id elected = ld_id current \<or> ld_user r \<noteq> uid then r
         else if ld_id r = ld_id current then flag_same_run jid r
         else if ld_id r = ld_id elected then unflag r
         else r)"

lemma core_reconcile_group:
  "map core (leads (snd (reconcile_group loads jid uid rt members (n, db)))) = map (\<lambda>r. core (swap_rows jid uid rt members r)) (leads db)"
  "fst (reconcile_group loads jid uid rt members (n, db))
     = (if electable members \<and> ld_id (hd (sorted_for rt members)) \<noteq> ld_id (hd (filter (\<lambda>m. \<not> ld_duplicate m) members)) then n + 1 else n)"
proof -
  let ?c = "hd (filter (\<lambda>m. \<not> ld_duplicate m) members)" and ?e = "hd (sorted_for rt members)"
  have el: "electable members \<longleftrightarrow> \<not> (filter ld_duplicate members = [] \<or> length (filter (\<lambda>m. \<not> ld_duplicate m) members) \<noteq> 1)"
    by (simp add: electable_def)
  show "fst (reconcile_group loads jid uid rt members (n, db))
     = (if electable members \<and> ld_id ?e \<noteq> ld_id ?c then n + 1 else n)"
    unfolding el by (simp add: reconcile_group_def Let_def)
  show "map core (leads (snd (reconcile_group loads jid uid rt members (n, db)))) = map (\<lambda>r. core (swap_rows jid uid rt members r)) (leads db)"
  proof (cases "electable members")
    case False
    then show ?thesis by (simp add: el reconcile_group_def swap_rows_def Let_def)
  next
    case True
    then have rg: "leads (snd (reconcile_group loads jid uid rt members (n, db))) = leads (merge_group loads uid rt ?e members
        (map ld_id (filter (\<lambda>m. ld_id m \<noteq> ld_id ?e) members))
        (if ld_id ?e \<noteq> ld_id ?c then db\<lparr> leads := map (\<lambda>r. if ld_id r = ld_id ?c \<and> ld_user r = uid then flag_same_run jid r else r)
           (map (\<lambda>r. if ld_id r = ld_id ?e \<and> ld_user r = uid then unflag r else r) (leads db)) \<rparr> else db))"
      unfolding el by (simp only: reconcile_group_def Let_def prod.case if_False snd_conv)
    have uf: "ld_id (unflag r) = ld_id r" "ld_user (unflag r) = ld_user r" for r by (simp_all add: unflag_def)
    show ?thesis
    proof (cases "ld_id ?e = ld_id ?c")
      case True
      then show ?thesis unfolding rg by (simp add: swap_rows_def Let_def)
    next
      case False
      then show ?thesis unfolding rg core_merge using True
        by (auto simp: swap_rows_def Let_def uf)
    qed
  qed
qed


lemma swap_rows_simps [simp]:
  "ld_id (swap_rows jid uid rt g r) = ld_id r" "ld_user (swap_rows jid uid rt g r) = ld_user r"
  "ld_hash (swap_rows jid uid rt g r) = ld_hash r" "of_job k u (swap_rows jid uid rt g r) = of_job k u r"
  by (simp_all add: swap_rows_def Let_def flag_same_run_def unflag_def of_job_def)

lemma core_swap_rows: "core (swap_rows jid uid rt g (core r)) = core (swap_rows jid uid rt g r)"
  by (simp add: swap_rows_def Let_def flag_same_run_def unflag_def core_def)

lemma core_fold_swap: "core (fold (swap_rows jid uid rt) gs (core r)) = core (fold (swap_rows jid uid rt) gs r)"
proof (induction gs arbitrary: r)
  case (Cons g gs)
  have "core (fold (swap_rows jid uid rt) gs (swap_rows jid uid rt g (core r)))
    = core (fold (swap_rows jid uid rt) gs (core (swap_rows jid uid rt g (core r))))" by (rule Cons [symmetric])
  also have "\<dots> = core (fold (swap_rows jid uid rt) gs (swap_rows jid uid rt g r))"
    unfolding core_swap_rows by (rule Cons)
  finally show ?case by simp
qed simp

lemma core_reconcile_fold:
  "map core (leads (snd (fold (reconcile_group loads jid uid rt) gs st)))
     = map (\<lambda>r. core (fold (swap_rows jid uid rt) gs r)) (leads (snd st))"
proof (induction gs arbitrary: st)
  case (Cons g gs)
  obtain n db where st: "st = (n, db)" by (cases st)
  let ?st' = "reconcile_group loads jid uid rt g st"
  have "map core (leads (snd (fold (reconcile_group loads jid uid rt) (g # gs) st)))
    = map (\<lambda>r. core (fold (swap_rows jid uid rt) gs (core r))) (leads (snd ?st'))"
    by (simp add: Cons core_fold_swap)
  also have "\<dots> = map (\<lambda>r. core (fold (swap_rows jid uid rt) gs r)) (map core (leads (snd ?st')))"
    by (simp add: comp_def)
  also have "\<dots> = map (\<lambda>r. core (fold (swap_rows jid uid rt) (g # gs) r)) (leads db)"
    unfolding st core_reconcile_group(1) by (simp add: core_fold_swap comp_def)
  finally show ?case by (simp add: st)
qed simp

lemma swap_other:
  assumes "ld_id r \<notin> ld_id ` set g"
  shows "swap_rows jid uid rt g r = r"
proof (cases "electable g")
  case True
  then have ne: "g \<noteq> []" "filter (\<lambda>m. \<not> ld_duplicate m) g \<noteq> []" by (auto simp: electable_def)
  have "hd (filter (\<lambda>m. \<not> ld_duplicate m) g) \<in> set g" using hd_in_set [OF ne(2)] by simp
  moreover have "hd (sorted_for rt g) \<in> set g" by (rule hd_sorted_for [OF ne(1)])
  ultimately show ?thesis using assms by (auto simp: swap_rows_def Let_def)
qed (simp add: swap_rows_def Let_def)

lemma fold_swap_other:
  "\<forall>g \<in> set gs. ld_id r \<notin> ld_id ` set g \<Longrightarrow> fold (swap_rows jid uid rt) gs r = r"
  by (induction gs) (simp_all add: swap_other)

lemma fold_swap_own:
  assumes "distinct gs" "g \<in> set gs" "\<forall>k \<in> set gs. k \<noteq> g \<longrightarrow> ld_id r \<notin> ld_id ` set k"
  shows "fold (swap_rows jid uid rt) gs r = swap_rows jid uid rt g r"
  using assms
proof (induction gs)
  case (Cons k gs)
  show ?case
  proof (cases "k = g")
    case True
    then have "\<forall>j \<in> set gs. ld_id r \<notin> ld_id ` set j" using Cons.prems by auto
    then have "fold (swap_rows jid uid rt) gs (swap_rows jid uid rt g r) = swap_rows jid uid rt g r"
      by (intro fold_swap_other) simp
    then show ?thesis using True by simp
  next
    case False
    then have "swap_rows jid uid rt k r = r" using Cons.prems(3) by (simp add: swap_other)
    then show ?thesis using Cons False by simp
  qed
qed simp

definition election :: "string \<Rightarrow> string \<Rightarrow> lead_row list \<Rightarrow> string option \<Rightarrow> lead_row list" where
  "election jid uid rows h = filter (\<lambda>s. ld_hash s = h) (sort_key ld_id (filter (in_election jid uid) rows))"

lemma election_mem: "s \<in> set (election jid uid rows h) \<longleftrightarrow> s \<in> set rows \<and> in_election jid uid s \<and> ld_hash s = h"
  by (auto simp: election_def)

lemma distinct_groups: "distinct (groups_by ld_hash rows)"
proof -
  have "inj_on (\<lambda>k. filter (\<lambda>r. ld_hash r = k) rows) (set (map ld_hash rows))"
  proof (rule inj_onI)
    fix k l assume k: "k \<in> set (map ld_hash rows)" and e: "filter (\<lambda>r. ld_hash r = k) rows = filter (\<lambda>r. ld_hash r = l) rows"
    obtain r where r: "r \<in> set rows" "ld_hash r = k" using k by auto
    then have "r \<in> set (filter (\<lambda>r. ld_hash r = k) rows)" by simp
    then have "r \<in> set (filter (\<lambda>r. ld_hash r = l) rows)" unfolding e .
    then show "k = l" using r(2) by simp
  qed
  then show ?thesis by (simp add: groups_by_def distinct_map)
qed

lemma reconcile_leads:
  assumes "distinct (map ld_id (leads db))"
  shows "map core (leads (snd (reconcile_same_run_survivors loads jid uid rt db)))
    = map (\<lambda>r. core (if in_election jid uid r then swap_rows jid uid rt (election jid uid (leads db) (ld_hash r)) r else r)) (leads db)"
proof -
  let ?S = "sort_key ld_id (filter (in_election jid uid) (leads db))"
  let ?gs = "groups_by ld_hash ?S"
  have eq: "r = s" if "r \<in> set (leads db)" "s \<in> set (leads db)" "ld_id r = ld_id s" for r s
    using assms that by (metis distinct_map inj_on_def)
  have "fold (swap_rows jid uid rt) ?gs r = (if in_election jid uid r then swap_rows jid uid rt (election jid uid (leads db) (ld_hash r)) r else r)"
    if r: "r \<in> set (leads db)" for r
  proof (cases "in_election jid uid r")
    case True
    let ?g = "election jid uid (leads db) (ld_hash r)"
    have g: "?g \<in> set ?gs" using r True by (auto simp: groups_by_mem election_def)
    have "ld_id r \<notin> ld_id ` set k" if k: "k \<in> set ?gs" "k \<noteq> ?g" for k
    proof
      assume "ld_id r \<in> ld_id ` set k"
      then obtain s where s: "s \<in> set k" "ld_id s = ld_id r" by auto
      obtain q where q: "q \<in> set ?S" "k = filter (\<lambda>s. ld_hash s = ld_hash q) ?S" using k(1) by (auto simp: groups_by_mem)
      have "s = r" using s q(2) eq [OF _ r s(2)] by auto
      then show False using s(1) q k(2) by (auto simp: election_def)
    qed
    then have "fold (swap_rows jid uid rt) ?gs r = swap_rows jid uid rt ?g r"
      by (intro fold_swap_own [OF distinct_groups g]) blast
    then show ?thesis using True by simp
  next
    case False
    have "ld_id r \<notin> ld_id ` set k" if k: "k \<in> set ?gs" for k
    proof
      assume "ld_id r \<in> ld_id ` set k"
      then obtain s where s: "s \<in> set k" "ld_id s = ld_id r" by auto
      have "s \<in> set ?S" using s(1) k by (auto simp: groups_by_mem)
      then have "s = r" "in_election jid uid s" using eq [OF _ r s(2)] by auto
      then show False using False by simp
    qed
    then show ?thesis using False by (simp add: fold_swap_other)
  qed
  then show ?thesis
    unfolding reconcile_same_run_survivors_def core_reconcile_fold by (auto intro!: map_cong)
qed


lemma filter_card: "distinct xs \<Longrightarrow> length (filter P xs) = card {x \<in> set xs. P x}"
  by (metis distinct_card distinct_filter set_filter)

lemma standing_group:
  assumes "distinct (map ld_id rows)" "electable (election jid uid rows (Some h))"
  shows "{r \<in> set rows. of_job jid uid r \<and> \<not> ld_duplicate r \<and> ld_hash r = Some h}
    = {hd (filter (\<lambda>m. \<not> ld_duplicate m) (election jid uid rows (Some h)))}"
proof -
  let ?g = "election jid uid rows (Some h)"
  obtain c where c: "filter (\<lambda>m. \<not> ld_duplicate m) ?g = [c]"
    using assms(2) by (auto simp: electable_def length_Suc_conv)
  have "r \<in> set (filter (\<lambda>m. \<not> ld_duplicate m) ?g) \<longleftrightarrow> r \<in> set rows \<and> of_job jid uid r \<and> \<not> ld_duplicate r \<and> ld_hash r = Some h" for r
    by (auto simp: election_mem in_election_def)
  then show ?thesis unfolding c by auto
qed

lemma reconcile_standing:
  assumes "distinct (map ld_id (leads db))" "snd (reconcile_same_run_survivors loads jid uid rt db) = db'"
  shows "length (filter (\<lambda>r. of_job jid uid r \<and> \<not> ld_duplicate r \<and> ld_hash r = Some h) (leads db'))
      = length (filter (\<lambda>r. of_job jid uid r \<and> \<not> ld_duplicate r \<and> ld_hash r = Some h) (leads db))"
    "\<And>r. electable (election jid uid (leads db) (Some h)) \<Longrightarrow> r \<in> set (leads db') \<Longrightarrow> of_job jid uid r \<Longrightarrow> \<not> ld_duplicate r \<Longrightarrow>
       ld_hash r = Some h \<Longrightarrow> ld_id r = ld_id (hd (sorted_for rt (election jid uid (leads db) (Some h))))"
proof -
  let ?g = "election jid uid (leads db) (Some h)"
  let ?F = "\<lambda>r. if in_election jid uid r then swap_rows jid uid rt (election jid uid (leads db) (ld_hash r)) r else r"
  let ?P = "\<lambda>r. of_job jid uid r \<and> \<not> ld_duplicate r \<and> ld_hash r = Some h"
  have m: "map core (leads db') = map core (map ?F (leads db))"
    using reconcile_leads [OF assms(1), of loads jid uid rt] assms(2) by (simp add: comp_def)
  have dl: "distinct (leads db)" using assms(1) by (simp add: distinct_map)
  have eq: "r = s" if "r \<in> set (leads db)" "s \<in> set (leads db)" "ld_id r = ld_id s" for r s
    using assms(1) that by (metis distinct_map inj_on_def)
  have PF: "?P (?F r) \<longleftrightarrow> (if electable ?g then r = hd (sorted_for rt ?g) else ?P r)" if r: "r \<in> set (leads db)" for r
  proof (cases "electable ?g")
    case True
    let ?c = "hd (filter (\<lambda>m. \<not> ld_duplicate m) ?g)" and ?e = "hd (sorted_for rt ?g)"
    have ne: "?g \<noteq> []" using True by (auto simp: electable_def)
    have e: "?e \<in> set (leads db)" "in_election jid uid ?e" "ld_hash ?e = Some h"
      using hd_sorted_for [OF ne] by (auto simp: election_mem)
    have st: "r \<in> set (leads db) \<and> ?P r \<longleftrightarrow> r = ?c" for r using standing_group [OF assms(1) True] by blast
    have c: "?c \<in> set (leads db)" "?P ?c" using st [of ?c] by auto
    have ce: "in_election jid uid ?c" using c(2) by (simp add: in_election_def)
    have own: "?F s = swap_rows jid uid rt ?g s" if "in_election jid uid s" "ld_hash s = Some h" for s using that by simp
    consider (other) "ld_hash r \<noteq> Some h" | (out) "ld_hash r = Some h" "\<not> in_election jid uid r" | (inn) "ld_hash r = Some h" "in_election jid uid r" by blast
    then show ?thesis
    proof cases
      case other
      then have "\<not> ?P (?F r)" "r \<noteq> ?e" using e(3) by auto
      then show ?thesis using True by simp
    next
      case out
      then have "\<not> ?P r" "r \<noteq> ?e" using e(2) by (auto simp: in_election_def)
      then show ?thesis using True out by simp
    next
      case inn
      have F: "?F r = swap_rows jid uid rt ?g r" by (rule own [OF inn(2,1)])
      have u: "ld_user r = uid" using inn(2) by (simp add: in_election_def of_job_def)
      show ?thesis
      proof (cases "ld_id ?e = ld_id ?c")
        case same: True
        then have "?e = ?c" using eq [OF e(1) c(1)] by simp
        moreover have "swap_rows jid uid rt ?g r = r" using same by (simp add: swap_rows_def Let_def)
        ultimately show ?thesis using True F st [of r] r by simp
      next
        case False
        show ?thesis
        proof (cases "r = ?c")
          case rc: True
          then have "ld_duplicate (swap_rows jid uid rt ?g r)"
            using True False u by (simp add: swap_rows_def Let_def flag_same_run_def)
          moreover have "r \<noteq> ?e" using rc False by auto
          ultimately show ?thesis using True F by simp
        next
          case rc: False
          then have nc: "ld_id r \<noteq> ld_id ?c" using eq [OF r c(1)] by blast
          show ?thesis
          proof (cases "r = ?e")
            case re: True
            then have "swap_rows jid uid rt ?g r = unflag r" using True False u nc by (simp add: swap_rows_def Let_def)
            then have "?P (?F r)" unfolding F using e(2,3) re by (simp add: unflag_def in_election_def of_job_def)
            then show ?thesis using True re by simp
          next
            case re: False
            then have "ld_id r \<noteq> ld_id ?e" using eq [OF r e(1)] by blast
            then have "swap_rows jid uid rt ?g r = r" using nc by (simp add: swap_rows_def Let_def)
            then show ?thesis unfolding F using True re rc st [of r] r by simp
          qed
        qed
      qed
    qed
  next
    case False
    show ?thesis
    proof (cases "ld_hash r = Some h")
      case True
      then have "?F r = r" using False by (simp add: swap_rows_def Let_def)
      then show ?thesis using False by simp
    qed (use False in simp)
  qed
  have len: "length (filter ?P (leads db')) = length (filter (\<lambda>r. ?P (?F r)) (leads db))"
    by (subst filter_core(2) [OF m]) (simp_all add: filter_map comp_def)
  show "length (filter ?P (leads db')) = length (filter ?P (leads db))"
  proof (cases "electable ?g")
    case True
    have ne: "?g \<noteq> []" using True by (auto simp: electable_def)
    have "hd (sorted_for rt ?g) \<in> set (leads db)" using hd_sorted_for [OF ne] by (auto simp: election_mem)
    then have "filter (\<lambda>r. r = hd (sorted_for rt ?g)) (leads db) = [hd (sorted_for rt ?g)]" by (rule filter_only [OF dl])
    moreover have "filter (\<lambda>r. ?P (?F r)) (leads db) = filter (\<lambda>r. r = hd (sorted_for rt ?g)) (leads db)"
    proof (rule filter_cong [OF refl])
      fix r assume "r \<in> set (leads db)"
      from PF [OF this] show "?P (?F r) \<longleftrightarrow> r = hd (sorted_for rt ?g)" using True by (simp only: if_True)
    qed
    ultimately have "length (filter ?P (leads db')) = 1" unfolding len by simp
    moreover have "length (filter ?P (leads db)) = 1"
      using filter_card [OF dl, of ?P] standing_group [OF assms(1) True] by simp
    ultimately show ?thesis by simp
  next
    case False
    have "filter (\<lambda>r. ?P (?F r)) (leads db) = filter ?P (leads db)"
    proof (rule filter_cong [OF refl])
      fix r assume "r \<in> set (leads db)"
      from PF [OF this] show "?P (?F r) \<longleftrightarrow> ?P r" using False by (simp only: if_False)
    qed
    then show ?thesis unfolding len by simp
  qed
  show "ld_id r = ld_id (hd (sorted_for rt ?g))"
    if a: "electable ?g" "r \<in> set (leads db')" "of_job jid uid r" "\<not> ld_duplicate r" "ld_hash r = Some h" for r
  proof -
    have "core r \<in> set (map core (leads db'))" using a(2) by simp
    then obtain t where t: "t \<in> set (leads db)" "core r = core (?F t)" unfolding m by auto
    have "of_job jid uid (core r) \<and> \<not> ld_duplicate (core r) \<and> ld_hash (core r) = Some h" using a by simp
    then have "?P (?F t)" by (simp only: t(2) core_simps simp_thms)
    moreover have "?P (?F t) \<longleftrightarrow> t = hd (sorted_for rt ?g)" using PF [OF t(1)] a(1) by (simp only: if_True)
    ultimately have "t = hd (sorted_for rt ?g)" by (simp only:)
    moreover have "ld_id r = ld_id t" using arg_cong [OF t(2), of ld_id] by simp
    ultimately show ?thesis by simp
  qed
qed


subsection \<open>Properties\<close>

definition main_street :: "string \<Rightarrow> string \<Rightarrow> lead_row" where
  "main_street i job = (sample_lead i ''A'')\<lparr> ld_job := job, ld_hash := Some ''12345|1 MAIN ST'' \<rparr>"

definition other_filing :: lead_row where
  "other_filing = (sample_lead ''r3'' ''B'')\<lparr> ld_hash := Some ''B|01/02/2026'' \<rparr>"

definition sample_dedup :: dedup_db where
  "sample_dedup =
     \<lparr> leads = [(main_street ''r1'' ''j1'')\<lparr> ld_party := None \<rparr>, main_street ''r2'' ''j1'', other_filing],
       delivered_records = [\<lparr> dc_user = ''u1'', dc_hash = ''12345|1 MAIN ST'', dc_first_job = ''j1'',
         dc_first_result = Some ''r1'', dc_parcel = Some ''12345'', dc_address = Some ''1 Main St'' \<rparr>],
       run_jobs = [sample_job] \<rparr>"

text \<open>
  C29: A property bills once per run, for its best row. However many un-flagged filings of a property a run found, the
  same-run collapse leaves exactly one of them un-flagged, the one that ranks lowest under \<^verbatim>\<open>survivor_sort_key\<close> (actionable,
  then most complete, then oldest); outside the columns a merge fills (heirs, legal description, data) that row is unchanged.
  The number of rows the collapse reports is exactly the drop in un-flagged rows, so no other row stops being billed.
\<close>

theorem property_bills_once:
  assumes "distinct (map ld_id (leads db))" "collapse_same_run_siblings sha loads jid uid rt db = (n, db')"
    and "standing_rows sha jid uid h (leads db) \<noteq> []"
  shows "(\<exists>w. w \<in> set (standing_rows sha jid uid h (leads db)) \<and>
      (\<forall>s \<in> set (standing_rows sha jid uid h (leads db)). survivor_sort_key w \<le> survivor_sort_key s) \<and>
      map core (standing_rows sha jid uid h (leads db')) = [core w]) \<and>
    n + length (filter (\<lambda>s. of_job jid uid s \<and> \<not> ld_duplicate s) (leads db'))
      = length (filter (\<lambda>s. of_job jid uid s \<and> \<not> ld_duplicate s) (leads db))"
proof -
  let ?w = "hd (sort_key survivor_sort_key (standing_rows sha jid uid h (leads db)))"
  have "?w \<in> set (standing_rows sha jid uid h (leads db))" by (rule head_tail_sort(1) [OF assms(3)])
  moreover have "\<forall>s \<in> set (standing_rows sha jid uid h (leads db)). survivor_sort_key ?w \<le> survivor_sort_key s"
    by (intro ballI head_tail_sort(5) [OF assms(3)])
  ultimately show ?thesis
    by (intro conjI exI [of _ ?w] collapse_survivor [OF assms] collapse_drop [OF assms(1,2)])
qed

theorem property_bills_once_witness:
  "fst (collapse_same_run_siblings id (\<lambda>_. None) ''j1'' ''u1'' None sample_dedup) = 1 \<and>
   map ld_id (standing_rows id ''j1'' ''u1'' ''12345|1 MAIN ST'' (leads sample_dedup)) = [''r1'', ''r2''] \<and>
   map ld_id (standing_rows id ''j1'' ''u1'' ''12345|1 MAIN ST''
     (leads (snd (collapse_same_run_siblings id (\<lambda>_. None) ''j1'' ''u1'' None sample_dedup)))) = [''r2'']"
proof -
  obtain n db' where c: "collapse_same_run_siblings id (\<lambda>_. None) ''j1'' ''u1'' None sample_dedup = (n, db')" by fastforce
  let ?rows = "standing_rows id ''j1'' ''u1'' ''12345|1 MAIN ST'' (leads sample_dedup)"
  have v: "distinct (map ld_id (leads sample_dedup))" "?rows = [(main_street ''r1'' ''j1'')\<lparr> ld_party := None \<rparr>, main_street ''r2'' ''j1'']"
    "fst (collapse_same_run_siblings id (\<lambda>_. None) ''j1'' ''u1'' None sample_dedup) = 1"
    "\<not> survivor_sort_key ((main_street ''r1'' ''j1'')\<lparr> ld_party := None \<rparr>) \<le> survivor_sort_key (main_street ''r2'' ''j1'')"
    "map ld_id ?rows = [''r1'', ''r2'']" "ld_id (main_street ''r2'' ''j1'') = ''r2''"
    by code_simp+
  have "?rows \<noteq> []" by (simp add: v(2))
  from property_bills_once [OF v(1) c this] obtain w where w: "w \<in> set ?rows" "\<forall>s \<in> set ?rows. survivor_sort_key w \<le> survivor_sort_key s"
    "map core (standing_rows id ''j1'' ''u1'' ''12345|1 MAIN ST'' (leads db')) = [core w]"
    by (elim conjE exE)
  have "w = main_street ''r2'' ''j1''" using w(1,2) v(4) unfolding v(2) by auto
  then have "map ld_id (map core (standing_rows id ''j1'' ''u1'' ''12345|1 MAIN ST'' (leads db'))) = [''r2'']" using w(3) v(6) by simp
  then have "map ld_id (standing_rows id ''j1'' ''u1'' ''12345|1 MAIN ST'' (leads db')) = [''r2'']" by (simp add: comp_def)
  then show ?thesis using v(3,5) c by simp
qed

text \<open>
  Re-electing the survivors after enrichment moves no charge: for every property the number of
  un-flagged rows stays what it was, and a group that was collapsed to one row now stands by the member
  that ranks first on the enriched addresses.
\<close>

theorem reelection_moves_no_charge:
  assumes "distinct (map ld_id (leads db))" "reconcile_same_run_survivors loads jid uid rt db = (k, db')"
  shows "length (filter (\<lambda>r. of_job jid uid r \<and> \<not> ld_duplicate r \<and> ld_hash r = Some h) (leads db'))
      = length (filter (\<lambda>r. of_job jid uid r \<and> \<not> ld_duplicate r \<and> ld_hash r = Some h) (leads db)) \<and>
    (electable (election jid uid (leads db) (Some h)) \<longrightarrow>
       (\<forall>r \<in> set (leads db'). of_job jid uid r \<and> \<not> ld_duplicate r \<and> ld_hash r = Some h \<longrightarrow>
          ld_id r = ld_id (hd (sorted_for rt (election jid uid (leads db) (Some h))))))"
proof -
  have s: "snd (reconcile_same_run_survivors loads jid uid rt db) = db'" using assms(2) by simp
  show ?thesis using reconcile_standing [OF assms(1) s] by blast
qed

definition enriched_dedup :: dedup_db where
  "enriched_dedup = (case collapse_same_run_siblings id (\<lambda>_. None) ''j1'' ''u1'' None sample_dedup of
     (_, db) \<Rightarrow> db\<lparr> leads := map (\<lambda>r. if ld_id r = ''r1'' then r\<lparr> ld_mailing := Some ''PO Box 1'' \<rparr> else r) (leads db) \<rparr>)"

theorem reelection_moves_no_charge_witness:
  "map (\<lambda>r. (ld_id r, ld_duplicate r)) (leads enriched_dedup) = [(''r1'', True), (''r2'', False), (''r3'', False)] \<and>
   map (\<lambda>r. (ld_id r, ld_duplicate r)) (leads (snd (reconcile_same_run_survivors (\<lambda>_. None) ''j1'' ''u1'' None enriched_dedup)))
     = [(''r1'', False), (''r2'', True), (''r3'', False)] \<and>
   length (filter (\<lambda>r. of_job ''j1'' ''u1'' r \<and> \<not> ld_duplicate r \<and> ld_hash r = Some ''12345|1 MAIN ST'')
     (leads (snd (reconcile_same_run_survivors (\<lambda>_. None) ''j1'' ''u1'' None enriched_dedup)))) = 1"
proof -
  obtain k db' where r: "reconcile_same_run_survivors (\<lambda>_. None) ''j1'' ''u1'' None enriched_dedup = (k, db')" by fastforce
  have v: "distinct (map ld_id (leads enriched_dedup))"
    "map (\<lambda>r. (ld_id r, ld_duplicate r)) (leads enriched_dedup) = [(''r1'', True), (''r2'', False), (''r3'', False)]"
    "map (\<lambda>r. (ld_id r, ld_duplicate r)) (leads (snd (reconcile_same_run_survivors (\<lambda>_. None) ''j1'' ''u1'' None enriched_dedup)))
      = [(''r1'', False), (''r2'', True), (''r3'', False)]"
    "length (filter (\<lambda>r. of_job ''j1'' ''u1'' r \<and> \<not> ld_duplicate r \<and> ld_hash r = Some ''12345|1 MAIN ST'') (leads enriched_dedup)) = 1"
    by code_simp+
  show ?thesis using reelection_moves_no_charge [OF v(1) r, of "''12345|1 MAIN ST''"] v r by simp
qed

text \<open>
  A claim is taken over only from a run that never delivered the lead. When a transfer moves an existing
  claim, the run that held it either ended without billing or is done and holds no un-flagged actionable
  row of the property; afterwards the claim names the elected row of this run, that row is un-flagged, and
  no row of the old run for the property is, so the property is never delivered and billed twice.
\<close>

theorem claim_moves_from_undelivered_only:
  assumes "transfer_one_claim sha loads now jid uid hash members rt (Some (anchor, Some old)) db = (True, db')"
    and "claim_of db uid hash = Some claim" "distinct (map ld_id (leads db))" "members \<noteq> []"
    and "\<forall>m \<in> set members. \<exists>r \<in> set (leads db). ld_id r = ld_id m \<and> of_job jid uid r \<and> ld_hash r = Some hash"
  shows "(case find (\<lambda>j. j_id j = old \<and> j_user j = uid) (run_jobs db) of
       None \<Rightarrow> False
     | Some holder \<Rightarrow> ((j_status holder = FAILED \<or> j_status holder = CANCELLED) \<and> never_billed holder) \<or>
         (j_status holder = DONE \<and> (\<forall>r \<in> set (leads db). of_job old uid r \<and> ld_hash r = Some hash \<and> \<not> ld_duplicate r \<longrightarrow> \<not> actionable_sql r))) \<and>
    claim_of db' uid hash = Some (claim\<lparr> dc_first_result := Some (ld_id (hd (sorted_for rt members))), dc_first_job := jid \<rparr>) \<and>
    (\<forall>r \<in> set (leads db'). of_job old uid r \<and> ld_hash r = Some hash \<longrightarrow> ld_duplicate r) \<and>
    (\<exists>r \<in> set (leads db'). ld_id r = ld_id (hd (sorted_for rt members)) \<and> of_job jid uid r \<and> ld_hash r = Some hash \<and> \<not> ld_duplicate r)"
  by (rule transfer_effect [OF assms]) simp

definition transfer_db :: dedup_db where
  "transfer_db =
     \<lparr> leads = [(main_street ''r1'' ''j0'')\<lparr> ld_property := None \<rparr>,
                (main_street ''r2'' ''j1'')\<lparr> ld_duplicate := True, ld_reason := Some ''prior_run'' \<rparr>],
       delivered_records = [\<lparr> dc_user = ''u1'', dc_hash = ''12345|1 MAIN ST'', dc_first_job = ''j0'',
         dc_first_result = Some ''r1'', dc_parcel = Some ''12345'', dc_address = Some ''1 Main St'' \<rparr>],
       run_jobs = [sample_job\<lparr> j_id := ''j0'', j_status := DONE, j_billing_applied_at := Some (DateTime 2026 10 1 0) \<rparr>, sample_job] \<rparr>"

theorem claim_moves_from_undelivered_only_witness:
  "fst (transfer_undelivered_claims id (\<lambda>_. None) (DateTime 2026 10 2 0) ''j1'' ''u1'' None transfer_db) = 1 \<and>
   (\<exists>r \<in> set (leads (snd (transfer_one_claim id (\<lambda>_. None) (DateTime 2026 10 2 0) ''j1'' ''u1'' ''12345|1 MAIN ST''
       (transfer_candidates ''j1'' ''u1'' (leads transfer_db)) None (peek_claim transfer_db ''u1'' ''12345|1 MAIN ST'') transfer_db))).
      ld_id r = ''r2'' \<and> \<not> ld_duplicate r)"
proof -
  let ?ms = "transfer_candidates ''j1'' ''u1'' (leads transfer_db)"
  have p: "peek_claim transfer_db ''u1'' ''12345|1 MAIN ST'' = Some (Some ''r1'', Some ''j0'')" by code_simp
  have c: "claim_of transfer_db ''u1'' ''12345|1 MAIN ST'' = Some (hd (delivered_records transfer_db))"
    by (simp add: claim_of_def transfer_db_def)
  have d: "distinct (map ld_id (leads transfer_db))" by code_simp
  have ids: "map ld_id ?ms = [''r2'']" by code_simp
  then have d2: "?ms \<noteq> []" by auto
  have e: "ld_id (hd (sorted_for None ?ms)) = ''r2''" by code_simp
  have n: "fst (transfer_undelivered_claims id (\<lambda>_. None) (DateTime 2026 10 2 0) ''j1'' ''u1'' None transfer_db) = 1" by code_simp
  have t: "fst (transfer_one_claim id (\<lambda>_. None) (DateTime 2026 10 2 0) ''j1'' ''u1'' ''12345|1 MAIN ST'' ?ms None
      (Some (Some ''r1'', Some ''j0'')) transfer_db)" by code_simp
  have m: "\<forall>m \<in> set ?ms. \<exists>r \<in> set (leads transfer_db). ld_id r = ld_id m \<and> of_job ''j1'' ''u1'' r \<and> ld_hash r = Some ''12345|1 MAIN ST''"
    by code_simp
  define out where "out = transfer_one_claim id (\<lambda>_. None) (DateTime 2026 10 2 0) ''j1'' ''u1'' ''12345|1 MAIN ST'' ?ms None
      (Some (Some ''r1'', Some ''j0'')) transfer_db"
  obtain db' where o: "out = (True, db')" using t [folded out_def] by (cases out) simp
  note t' = o [unfolded out_def]
  have "\<exists>r \<in> set (leads db'). ld_id r = ''r2'' \<and> \<not> ld_duplicate r"
    using claim_moves_from_undelivered_only [OF t' c d d2 m] e by auto
  then show ?thesis using n by (simp add: p t')
qed


text \<open>
  Claims follow delivery through the plan cap. After the cap has marked a run's leads and released the
  claims of what it excluded, a claim this run holds on one of its addressable leads is kept exactly when
  a row with that hash still ships: nothing delivered loses its claim, and no excluded lead stays claimed.
\<close>

theorem claims_follow_delivery:
  assumes "distinct (map ld_id (leads db))" "reasons_ok (leads db)"
    and "apply_plan_cap coll jid uid n rt (leads db) = (over, rows')"
    and "d \<in> set (delivered_records db)" "dc_user d = uid" "dc_first_job d = jid"
    and "q \<in> set rows'" "of_job jid uid q" "\<not> ld_duplicate q" "address_actionable_sql q" "ld_hash q = Some (dc_hash d)"
  shows "d \<in> set (delivered_records (snd (release_capped_dedup_claims uid jid over (db\<lparr> leads := rows' \<rparr>)))) \<longleftrightarrow>
    (\<exists>r \<in> set rows'. of_job jid uid r \<and> \<not> ld_duplicate r \<and> actionable_sql r \<and> ld_hash r = Some (dc_hash d))"
proof -
  note ships = plan_cap_result(6) [OF assms(1-3)]
  let ?kept = "\<exists>r \<in> set rows'. of_job jid uid r \<and> ld_hash r = Some (dc_hash d) \<and> \<not> ld_duplicate r \<and> ld_id r \<notin> set over \<and> address_actionable_sql r"
  have k: "?kept \<longleftrightarrow> (\<exists>r \<in> set rows'. of_job jid uid r \<and> \<not> ld_duplicate r \<and> actionable_sql r \<and> ld_hash r = Some (dc_hash d))"
    using ships by blast
  have q: "?kept \<or> ld_id q \<in> set over" using assms(7-11) by blast
  have u: "ld_user q = uid" using assms(8) by (simp add: of_job_def)
  show ?thesis
  proof (cases "over = []")
    case True
    then show ?thesis using q k assms(4) by (simp add: release_capped_dedup_claims_def)
  next
    case False
    have "d \<in> set (delivered_records (snd (release_capped_dedup_claims uid jid over (db\<lparr> leads := rows' \<rparr>)))) \<longleftrightarrow>
      \<not> (\<exists>r \<in> set rows'. ld_id r \<in> set over \<and> ld_user r = uid \<and> ld_hash r = Some (dc_hash d)) \<or> ?kept"
      using False assms(4-6) by (auto simp: release_capped_dedup_claims_def Let_def list_ex_iff)
    also have "\<dots> \<longleftrightarrow> ?kept" using q u assms(7,11) by blast
    finally show ?thesis unfolding k .
  qed
qed

theorem claims_follow_delivery_witness:
  "hd (delivered_records sample_dedup) \<notin> set (delivered_records (snd (release_capped_dedup_claims ''u1'' ''j1''
     (fst (apply_plan_cap id ''j1'' ''u1'' 0 None (leads sample_dedup)))
     (sample_dedup\<lparr> leads := snd (apply_plan_cap id ''j1'' ''u1'' 0 None (leads sample_dedup)) \<rparr>))))"
proof -
  obtain over rows' where c: "apply_plan_cap id ''j1'' ''u1'' 0 None (leads sample_dedup) = (over, rows')" by fastforce
  have v: "distinct (map ld_id (leads sample_dedup))" "reasons_ok (leads sample_dedup)" by code_simp+
  let ?d = "hd (delivered_records sample_dedup)"
  have d: "?d \<in> set (delivered_records sample_dedup)" by (simp add: sample_dedup_def)
  have du: "dc_user ?d = ''u1''" "dc_first_job ?d = ''j1''" by code_simp+
  have q: "\<exists>q \<in> set (snd (apply_plan_cap id ''j1'' ''u1'' 0 None (leads sample_dedup))).
      of_job ''j1'' ''u1'' q \<and> \<not> ld_duplicate q \<and> address_actionable_sql q \<and> ld_hash q = Some (dc_hash ?d)" by code_simp
  have none: "\<not> (\<exists>r \<in> set (snd (apply_plan_cap id ''j1'' ''u1'' 0 None (leads sample_dedup))).
      of_job ''j1'' ''u1'' r \<and> \<not> ld_duplicate r \<and> actionable_sql r \<and> ld_hash r = Some (dc_hash ?d))" by code_simp
  obtain q where q: "q \<in> set rows'" "of_job ''j1'' ''u1'' q" "\<not> ld_duplicate q" "address_actionable_sql q" "ld_hash q = Some (dc_hash ?d)"
    using q c by auto
  show ?thesis using claims_follow_delivery [OF v c d du q] none c by simp
qed

end
