(* ===== verification/RunBreakdown.thy ===== *)
theory RunBreakdown
  imports Leads Jobs
begin

text \<open>
  The run-count breakdown (\<^verbatim>\<open>src/api/run_breakdown.py\<close>): the partition of a job's saved rows, the
  snapshot the worker freezes with the done transition, and what the API reads back. A dict of columns is
  an association list. The lemmas show that the partition counts every row once, that its \<open>new\<close> bucket is
  the billed set, and that a frozen snapshot adds up and is what the API shows and would compute live.
\<close>

subsection \<open>The partition\<close>

definition ROW_BUCKETS :: "string list" where
  "ROW_BUCKETS = [''no_address'', ''same_run_merged'', ''already_delivered'', ''over_quota'', ''new'']"

definition BREAKDOWN_FIELDS :: "string list" where
  "BREAKDOWN_FIELDS = ''dropped_before_save'' # ROW_BUCKETS"

definition UNCLASSIFIED :: string where
  "UNCLASSIFIED = ''unclassified''"

definition SNAPSHOT_COLUMNS :: "(string \<times> string) list" where
  "SNAPSHOT_COLUMNS = map (\<lambda>f. (f, ''breakdown_'' @ f)) BREAKDOWN_FIELDS"

definition partition_case :: "lead_row \<Rightarrow> string" where
  "partition_case r =
     (if \<not> address_actionable_sql r then ''no_address''
      else if ld_duplicate r \<and> ld_reason r = Some ''same_run'' then ''same_run_merged''
      else if already_delivered_condition r then ''already_delivered''
      else if \<not> ld_duplicate r \<and> quota_excluded_sql r then ''over_quota''
      else if \<not> ld_duplicate r \<and> actionable_sql r then ''new''
      else UNCLASSIFIED)"

record row_partition =
  rp_no_address :: int
  rp_same_run_merged :: int
  rp_already_delivered :: int
  rp_over_quota :: int
  rp_new :: int
  rp_unclassified :: int

fun bucket_of :: "row_partition \<Rightarrow> string \<Rightarrow> int" where
  "bucket_of p b =
     (if b = ''no_address'' then rp_no_address p
      else if b = ''same_run_merged'' then rp_same_run_merged p
      else if b = ''already_delivered'' then rp_already_delivered p
      else if b = ''over_quota'' then rp_over_quota p
      else rp_new p)"

definition persisted :: "row_partition \<Rightarrow> int" where
  "persisted p = sum_list (map (bucket_of p) ROW_BUCKETS) + rp_unclassified p"

text \<open>None is the ValueError for a bucket the query cannot produce.\<close>

definition partition_from_rows :: "(string \<times> int) list \<Rightarrow> row_partition option" where
  "partition_from_rows rows =
     (let count = (\<lambda>b. opt_or (map_of (rev rows) b) 0)
      in if \<exists>b \<in> fst ` set rows. b \<notin> set ROW_BUCKETS \<and> b \<noteq> UNCLASSIFIED then None
         else Some \<lparr> rp_no_address = count ''no_address'', rp_same_run_merged = count ''same_run_merged'',
                     rp_already_delivered = count ''already_delivered'', rp_over_quota = count ''over_quota'',
                     rp_new = count ''new'', rp_unclassified = count UNCLASSIFIED \<rparr>)"

definition read_partition :: "string \<Rightarrow> string \<Rightarrow> lead_row list \<Rightarrow> row_partition option" where
  "read_partition job_id user_id rows =
     (let buckets = map partition_case (filter (of_job job_id user_id) rows)
      in partition_from_rows (map (\<lambda>b. (b, int (length (filter ((=) b) buckets)))) (remdups buckets)))"

definition full :: "row_partition \<Rightarrow> int option \<Rightarrow> (string \<times> int option) list" where
  "full p dropped = (''dropped_before_save'', dropped) # map (\<lambda>b. (b, Some (bucket_of p b))) ROW_BUCKETS"

subsection \<open>What the done transition writes\<close>

definition invalid :: "(string \<times> int option) list \<Rightarrow> int \<Rightarrow> string option" where
  "invalid values records_found =
     (if list_ex (\<lambda>v. case v of None \<Rightarrow> True | Some n \<Rightarrow> n < 0) (map snd values)
      then Some ''a bucket is missing or negative''
      else if sum_list (map (\<lambda>v. opt_or v 0) (map snd values)) \<noteq> records_found
      then Some ''the buckets do not add up to records_found''
      else None)"

definition owns :: "attempt option \<Rightarrow> datetime option \<Rightarrow> int option \<Rightarrow> bool" where
  "owns token row_started_at retry_count \<longleftrightarrow>
     (case token of
        None \<Rightarrow> False
      | Some a \<Rightarrow> (case attempt_parts a of
          (sa, rc) \<Rightarrow> row_started_at = Some sa \<and> (case rc of None \<Rightarrow> True | Some n \<Rightarrow> retry_count = Some n)))"

definition snapshot_columns ::
    "bool \<Rightarrow> attempt option \<Rightarrow> datetime option \<Rightarrow> int option \<Rightarrow> int option \<Rightarrow> row_partition
      \<Rightarrow> (string \<times> int option) list option \<times> string option" where
  "snapshot_columns billed_now token row_started_at records_found retry_count p =
     (let none = map (\<lambda>(_, col). (col, None)) SNAPSHOT_COLUMNS
      in if \<not> billed_now then (None, Some ''billed by an earlier attempt'')
         else if \<not> owns token row_started_at retry_count then (None, Some ''this attempt no longer owns the job'')
         else (case records_found of
             None \<Rightarrow> (Some none, Some ''records_found was not recorded'')
           | Some found \<Rightarrow>
               if retry_count \<noteq> Some 0 then (Some none, Some ''the run was retried'')
               else if rp_unclassified p \<noteq> 0
               then (Some none, Some (show_int (rp_unclassified p) @ '' row(s) fit no bucket''))
               else if found < persisted p
               then (Some none, Some (show_int (persisted p) @ '' saved but only '' @ show_int found @ '' found''))
               else let vals = full p (Some (found - persisted p))
                    in (case invalid vals found of
                          Some problem \<Rightarrow> (Some none, Some problem)
                        | None \<Rightarrow> (Some (map (\<lambda>(f, v). (''breakdown_'' @ f, v)) vals), None))))"

definition decide_snapshot ::
    "job_row list \<Rightarrow> string \<Rightarrow> string \<Rightarrow> bool \<Rightarrow> attempt option \<Rightarrow> row_partition
      \<Rightarrow> (string \<times> int option) list option \<times> string option" where
  "decide_snapshot jobs job_id user_id billed_now token p =
     (let owner = (if billed_now then find (\<lambda>j. j_id j = job_id \<and> j_user j = user_id) jobs else None)
      in snapshot_columns billed_now token (Option.bind owner j_started_at) (Option.bind owner j_records_found)
           (map_option j_retry_count owner) p)"

subsection \<open>What the API shows\<close>

definition stored_breakdown :: "job_row \<Rightarrow> (string \<times> int option) list" where
  "stored_breakdown j = map (\<lambda>(f, col). (f, Option.bind (map_of (j_breakdown j) col) id)) SNAPSHOT_COLUMNS"

definition breakdown_from_job :: "job_row \<Rightarrow> (string \<times> int option) list option \<times> string option" where
  "breakdown_from_job j =
     (let stored = stored_breakdown j
      in if list_all (\<lambda>(_, v). v = None) stored then (None, None)
         else if list_ex (\<lambda>(_, v). v = None) stored then (None, Some ''partial snapshot'')
         else (case j_records_found j of
             None \<Rightarrow> (None, Some ''records_found, record_count or billed_count missing'')
           | Some found \<Rightarrow>
               (case invalid stored found of
                  Some problem \<Rightarrow> (None, Some problem)
                | None \<Rightarrow>
                    if map_of stored ''new'' = Some (Some (j_record_count j)) \<and> j_record_count j = j_billed_count j
                    then (Some stored, None)
                    else (None, Some ''new does not match record_count and billed_count''))))"

definition live_breakdown ::
    "row_partition \<Rightarrow> job_status \<Rightarrow> int option \<Rightarrow> int option \<Rightarrow> (string \<times> int option) list option \<times> string option" where
  "live_breakdown p status records_found retry_count =
     (if status \<noteq> DONE then (None, Some ''the run has not finished'')
      else if rp_unclassified p \<noteq> 0 then (None, Some (show_int (rp_unclassified p) @ '' row(s) fit no bucket''))
      else (case records_found of
          None \<Rightarrow> (Some (full p None), None)
        | Some found \<Rightarrow>
            if retry_count \<noteq> Some 0 then (Some (full p None), None)
            else if found < persisted p
            then (None, Some (show_int (persisted p) @ '' saved but only '' @ show_int found @ '' found''))
            else (Some (full p (Some (found - persisted p))), None)))"

definition LOG_PHRASES :: "(string \<times> string) list" where
  "LOG_PHRASES =
     [(''already_delivered'', ''already delivered''), (''same_run_merged'', ''combined in this run''),
      (''no_address'', ''without an address''), (''over_quota'', ''over your plan limit''),
      (''dropped_before_save'', ''not saved'')]"

definition completion_message :: "int \<Rightarrow> (string \<times> int option) list option \<Rightarrow> string" where
  "completion_message new snapshot =
     (let head = ''Job complete: '' @ show_int new @ '' new lead'' @ (if new = 1 then [] else ''s'')
      in (case snapshot of
            None \<Rightarrow> head
          | Some [] \<Rightarrow> head
          | Some kvs \<Rightarrow>
              let parts = concat (map (\<lambda>(key, label).
                    case Option.bind (map_of kvs key) id of
                      None \<Rightarrow> [] | Some n \<Rightarrow> if n = 0 then [] else [show_int n @ '' '' @ label]) LOG_PHRASES)
              in if parts = [] then head else head @ '' ('' @ str_join '', '' parts @ '')''))"


subsection \<open>Every row counts once\<close>

lemma case_cases: "partition_case r \<in> set (ROW_BUCKETS @ [UNCLASSIFIED])"
  by (simp add: partition_case_def ROW_BUCKETS_def)

lemma count_groups:
  assumes "distinct bs" "set xs \<subseteq> set bs"
  shows "sum_list (map (\<lambda>b. int (length (filter ((=) b) xs))) bs) = int (length xs)"
  using assms(2)
proof (induction xs)
  case (Cons x xs)
  have one: "sum_list (map (\<lambda>b. if b = x then 1 else 0 :: int) cs) = (if x \<in> set cs then 1 else 0)" if "distinct cs" for cs
    using that by (induction cs) auto
  have "sum_list (map (\<lambda>b. int (length (filter ((=) b) (x # xs)))) bs)
    = sum_list (map (\<lambda>b. (if b = x then 1 else 0) + int (length (filter ((=) b) xs))) bs)"
    by (intro arg_cong [where f = sum_list] map_cong) auto
  also have "\<dots> = sum_list (map (\<lambda>b. if b = x then 1 else 0) bs) + sum_list (map (\<lambda>b. int (length (filter ((=) b) xs))) bs)"
    by (rule sum_list_addf)
  finally show ?case using Cons one [OF assms(1)] by simp
qed (induction bs, simp_all)

lemma group_lookup:
  "opt_or (map_of (rev (map (\<lambda>b. (b, f b)) (remdups xs))) b) 0 = (if b \<in> set xs then f b else (0 :: int))"
proof -
  have "map_of (rev (map (\<lambda>b. (b, f b)) ys)) b = (if b \<in> set ys then Some (f b) else None)" for ys
    by (induction ys) (auto simp: map_add_def split: option.splits)
  then show ?thesis by simp
qed

lemma read_partition_eq:
  assumes "xs = map partition_case (filter (of_job j u) rows)"
  shows "read_partition j u rows = Some
    \<lparr> rp_no_address = int (length (filter ((=) ''no_address'') xs)),
      rp_same_run_merged = int (length (filter ((=) ''same_run_merged'') xs)),
      rp_already_delivered = int (length (filter ((=) ''already_delivered'') xs)),
      rp_over_quota = int (length (filter ((=) ''over_quota'') xs)),
      rp_new = int (length (filter ((=) ''new'') xs)),
      rp_unclassified = int (length (filter ((=) UNCLASSIFIED) xs)) \<rparr>"
proof -
  have cnt: "opt_or (map_of (rev (map (\<lambda>b. (b, int (length (filter ((=) b) xs)))) (remdups xs))) b) 0
    = int (length (filter ((=) b) xs))" for b
    by (auto simp: group_lookup [of "\<lambda>b. int (length (filter ((=) b) xs))" xs b] filter_empty_conv)
  have "\<not> (\<exists>b \<in> set xs. b \<notin> set ROW_BUCKETS \<and> b \<noteq> UNCLASSIFIED)"
    using case_cases by (fastforce simp: assms)
  moreover have "fst ` set (map (\<lambda>b. (b, int (length (filter ((=) b) xs)))) (remdups xs)) = set xs" by force
  ultimately show ?thesis
    unfolding read_partition_def Let_def assms [symmetric] partition_from_rows_def cnt by simp
qed

lemma case_new: "partition_case r = ''new'' \<longleftrightarrow> \<not> ld_duplicate r \<and> actionable_sql r"
  by (auto simp: partition_case_def UNCLASSIFIED_def actionable_sql_def already_delivered_condition_def)

lemma case_unclassified:
  "partition_case r = UNCLASSIFIED \<longleftrightarrow> address_actionable_sql r \<and> ld_duplicate r \<and>
     (\<exists>s. ld_reason r = Some s \<and> s \<noteq> ''same_run'' \<and> s \<noteq> ''prior_run'')"
  by (cases "ld_reason r") (auto simp: partition_case_def UNCLASSIFIED_def actionable_sql_def already_delivered_condition_def)

lemma persisted_sum:
  "persisted p = rp_no_address p + rp_same_run_merged p + rp_already_delivered p + rp_over_quota p + rp_new p + rp_unclassified p"
  by (simp add: persisted_def ROW_BUCKETS_def)

lemma partition_counts:
  obtains p where "read_partition j u rows = Some p" "persisted p = int (length (filter (of_job j u) rows))"
    "rp_new p = int (length (filter (\<lambda>r. of_job j u r \<and> \<not> ld_duplicate r \<and> actionable_sql r) rows))"
    "rp_unclassified p = int (length (filter (\<lambda>r. of_job j u r \<and> partition_case r = UNCLASSIFIED) rows))"
    "\<forall>b. 0 \<le> bucket_of p b" "0 \<le> rp_unclassified p"
proof -
  let ?xs = "map partition_case (filter (of_job j u) rows)"
  obtain p where p: "read_partition j u rows = Some p" "p =
    \<lparr> rp_no_address = int (length (filter ((=) ''no_address'') ?xs)),
      rp_same_run_merged = int (length (filter ((=) ''same_run_merged'') ?xs)),
      rp_already_delivered = int (length (filter ((=) ''already_delivered'') ?xs)),
      rp_over_quota = int (length (filter ((=) ''over_quota'') ?xs)),
      rp_new = int (length (filter ((=) ''new'') ?xs)),
      rp_unclassified = int (length (filter ((=) UNCLASSIFIED) ?xs)) \<rparr>"
    using read_partition_eq [OF refl] by blast
  have d: "distinct (ROW_BUCKETS @ [UNCLASSIFIED])" by (simp add: ROW_BUCKETS_def UNCLASSIFIED_def)
  have "persisted p = sum_list (map (\<lambda>b. int (length (filter ((=) b) ?xs))) (ROW_BUCKETS @ [UNCLASSIFIED]))"
    by (simp add: persisted_sum p(2) ROW_BUCKETS_def)
  also have "\<dots> = int (length ?xs)" by (rule count_groups [OF d]) (use case_cases in auto)
  finally have per: "persisted p = int (length (filter (of_job j u) rows))" by simp
  have cnt: "length (filter ((=) b) ?xs) = length (filter (\<lambda>r. of_job j u r \<and> partition_case r = b) rows)" for b
    by (auto simp: filter_map comp_def eq_commute [of b] intro!: arg_cong [where f = length] filter_cong)
  have new: "rp_new p = int (length (filter (\<lambda>r. of_job j u r \<and> \<not> ld_duplicate r \<and> actionable_sql r) rows))"
    using cnt [of "''new''"] by (simp only: p(2) row_partition.simps case_new)
  show thesis using that [OF p(1) per new] p(2) cnt by simp
qed


subsection \<open>The snapshot\<close>

lemma snapshot_frozen:
  assumes "snapshot_columns billed token sa found rc p = (Some cols, None)"
  obtains n where "found = Some n" "rc = Some 0" "rp_unclassified p = 0" "persisted p \<le> n"
    "cols = map (\<lambda>(f, v). (''breakdown_'' @ f, v)) (full p (Some (n - persisted p)))"
    "invalid (full p (Some (n - persisted p))) n = None" "billed" "owns token sa rc"
proof -
  obtain n where n: "found = Some n"
    using assms by (cases found) (auto simp: snapshot_columns_def Let_def split: if_splits)
  show thesis
  proof (rule that [OF n])
    show "rc = Some 0" "rp_unclassified p = 0" "persisted p \<le> n" "billed" "owns token sa rc"
      "cols = map (\<lambda>(f, v). (''breakdown_'' @ f, v)) (full p (Some (n - persisted p)))"
      "invalid (full p (Some (n - persisted p))) n = None"
      using assms n by (auto simp: snapshot_columns_def Let_def split: if_splits option.splits)
  qed
qed

lemma stored_snapshot:
  assumes "j_breakdown j = map (\<lambda>(f, v). (''breakdown_'' @ f, v)) (full p d)"
  shows "stored_breakdown j = full p d"
  unfolding stored_breakdown_def assms
  by (simp add: SNAPSHOT_COLUMNS_def BREAKDOWN_FIELDS_def ROW_BUCKETS_def full_def)

lemma invalid_full:
  "invalid (full p (Some d)) n = None \<longleftrightarrow> 0 \<le> d \<and> (\<forall>b \<in> set ROW_BUCKETS. 0 \<le> bucket_of p b) \<and> d + persisted p - rp_unclassified p = n"
  by (auto simp: invalid_def full_def persisted_def ROW_BUCKETS_def)

text \<open>
  C39: The run-count partition puts every saved row of a job in exactly one bucket, so the buckets add up to
  the rows saved, its \<open>new\<close> bucket is exactly the billed set (not a duplicate, and actionable), and a row
  fits no bucket only when it has an address and carries a duplicate reason other than the two a run's own
  rows can carry.
\<close>

theorem partition_counts_every_row:
  "case read_partition j u rows of
     None \<Rightarrow> False
   | Some p \<Rightarrow> persisted p = int (length (filter (of_job j u) rows)) \<and>
       rp_new p = int (length (filter (\<lambda>r. of_job j u r \<and> \<not> ld_duplicate r \<and> actionable_sql r) rows)) \<and>
       rp_unclassified p = int (length (filter (\<lambda>r. of_job j u r \<and> address_actionable_sql r \<and> ld_duplicate r \<and>
         ld_reason r \<notin> {None, Some ''same_run'', Some ''prior_run''}) rows))"
proof -
  obtain p where p: "read_partition j u rows = Some p" "persisted p = int (length (filter (of_job j u) rows))"
    "rp_new p = int (length (filter (\<lambda>r. of_job j u r \<and> \<not> ld_duplicate r \<and> actionable_sql r) rows))"
    "rp_unclassified p = int (length (filter (\<lambda>r. of_job j u r \<and> partition_case r = UNCLASSIFIED) rows))"
    by (rule partition_counts)
  have "(\<exists>s. x = Some s \<and> s \<noteq> ''same_run'' \<and> s \<noteq> ''prior_run'') \<longleftrightarrow> x \<notin> {None, Some ''same_run'', Some ''prior_run''}"
    for x :: "string option" by (cases x) auto
  then show ?thesis using p by (simp add: case_unclassified)
qed

text \<open>
  A frozen snapshot is what the API shows and what it would compute live. If the worker freezes the six
  columns, they are non-negative and add up to the records the run found; the done row that carries them
  with the billed count is read back as exactly those numbers, equal to the live breakdown of the same
  rows, and the number billed is the number of new leads.
\<close>

theorem snapshot_is_what_the_api_shows:
  assumes "read_partition jid u rows = Some p" "decide_snapshot jobs jid u True token p = (Some cols, None)"
    and "job_of jid jobs = Some j" "j_user j = u"
    and "j_breakdown j' = cols" "j_record_count j' = rp_new p" "j_billed_count j' = rp_new p"
    and "j_records_found j' = j_records_found j"
  shows "breakdown_from_job j' = live_breakdown p DONE (j_records_found j) (Some (j_retry_count j)) \<and>
    (case breakdown_from_job j' of
       (Some vals, None) \<Rightarrow> list_all (\<lambda>(_, v). case v of None \<Rightarrow> False | Some n \<Rightarrow> 0 \<le> n) vals \<and>
         Some (sum_list (map (\<lambda>(_, v). opt_or v 0) vals)) = j_records_found j \<and>
         map_of vals ''new'' = Some (Some (int (length (filter (\<lambda>r. of_job jid u r \<and> \<not> ld_duplicate r \<and> actionable_sql r) rows))))
     | _ \<Rightarrow> False)"
proof -
  have "find (\<lambda>i. j_id i = jid \<and> j_user i = u) jobs = Some j"
    using assms(3,4) by (induction jobs) (auto simp: job_of_def split: if_splits)
  then have "snapshot_columns True token (j_started_at j) (j_records_found j) (Some (j_retry_count j)) p = (Some cols, None)"
    using assms(2) by (simp add: decide_snapshot_def)
  then obtain n where n: "j_records_found j = Some n" "Some (j_retry_count j) = Some 0" "rp_unclassified p = 0" "persisted p \<le> n"
    "cols = map (\<lambda>(f, v). (''breakdown_'' @ f, v)) (full p (Some (n - persisted p)))"
    "invalid (full p (Some (n - persisted p))) n = None"
    by (rule snapshot_frozen)
  have st: "stored_breakdown j' = full p (Some (n - persisted p))" using stored_snapshot assms(5) n(5) by simp
  have f: "\<not> list_all (\<lambda>(_, v). v = None) (full p (Some d))" "\<not> list_ex (\<lambda>(_, v). v = None) (full p (Some d))"
    "map_of (full p (Some d)) ''new'' = Some (Some (rp_new p))" for d
    by (simp_all add: full_def ROW_BUCKETS_def)
  have b: "breakdown_from_job j' = (Some (full p (Some (n - persisted p))), None)"
    using n(1,6) assms(6-8) by (simp add: breakdown_from_job_def st f Let_def)
  have l: "live_breakdown p DONE (j_records_found j) (Some (j_retry_count j)) = (Some (full p (Some (n - persisted p))), None)"
    using n(1-4) by (simp add: live_breakdown_def)
  have new: "rp_new p = int (length (filter (\<lambda>r. of_job jid u r \<and> \<not> ld_duplicate r \<and> actionable_sql r) rows))"
    using partition_counts [of jid u rows] assms(1) by (metis option.inject)
  have "list_all (\<lambda>(_, v). case v of None \<Rightarrow> False | Some n \<Rightarrow> 0 \<le> n) (full p (Some (n - persisted p)))"
    "sum_list (map (\<lambda>(_, v). opt_or v 0) (full p (Some (n - persisted p)))) = n"
    using n(3,6) unfolding invalid_full by (simp_all add: full_def ROW_BUCKETS_def persisted_def)
  then show ?thesis unfolding b l using n(1) f(3) new by simp
qed


definition sample_run :: "lead_row list" where
  "sample_run =
     [sample_lead ''r1'' ''A'', put_mark (sample_lead ''r2'' ''B''),
      (sample_lead ''r3'' ''C'')\<lparr> ld_duplicate := True, ld_reason := Some ''prior_run'' \<rparr>,
      (sample_lead ''r4'' ''D'')\<lparr> ld_property := None \<rparr>]"

definition sample_running :: job_row where
  "sample_running = sample_job\<lparr> j_status := ENRICHING, j_started_at := Some (sample_time 5), j_records_found := Some 6 \<rparr>"

definition sample_columns :: "(string \<times> int option) list" where
  "sample_columns =
     [(''breakdown_dropped_before_save'', Some 2), (''breakdown_no_address'', Some 1), (''breakdown_same_run_merged'', Some 0),
      (''breakdown_already_delivered'', Some 1), (''breakdown_over_quota'', Some 1), (''breakdown_new'', Some 1)]"

theorem snapshot_is_what_the_api_shows_witness:
  "case read_partition ''j1'' ''u1'' sample_run of
     None \<Rightarrow> False
   | Some p \<Rightarrow> decide_snapshot [sample_running] ''j1'' ''u1'' True (Some (AttemptToken (sample_time 5) 0)) p = (Some sample_columns, None) \<and>
       breakdown_from_job (sample_running\<lparr> j_breakdown := sample_columns, j_record_count := rp_new p, j_billed_count := rp_new p \<rparr>)
         = live_breakdown p DONE (Some 6) (Some 0)"
proof -
  obtain p where p: "read_partition ''j1'' ''u1'' sample_run = Some p"
    using partition_counts [of "''j1''" "''u1''" sample_run] by blast
  have "case read_partition ''j1'' ''u1'' sample_run of None \<Rightarrow> False
     | Some p \<Rightarrow> decide_snapshot [sample_running] ''j1'' ''u1'' True (Some (AttemptToken (sample_time 5) 0)) p = (Some sample_columns, None)"
    by code_simp
  then have d: "decide_snapshot [sample_running] ''j1'' ''u1'' True (Some (AttemptToken (sample_time 5) 0)) p = (Some sample_columns, None)"
    using p by simp
  have j: "job_of ''j1'' [sample_running] = Some sample_running" "j_user sample_running = ''u1''"
    "j_records_found sample_running = Some 6" "j_retry_count sample_running = 0" by code_simp+
  let ?j' = "sample_running\<lparr> j_breakdown := sample_columns, j_record_count := rp_new p, j_billed_count := rp_new p \<rparr>"
  have "breakdown_from_job ?j' = live_breakdown p DONE (j_records_found sample_running) (Some (j_retry_count sample_running))"
    using snapshot_is_what_the_api_shows [OF p d j(1,2), of ?j'] by simp
  then show ?thesis using p d j(3,4) by simp
qed

end
