(* ===== verification/Finalize.thy ===== *)
theory Finalize
  imports RunBreakdown QuotaLedger
begin

text \<open>
  The end of a run (\<^verbatim>\<open>tasks_helpers/finalize.py\<close>): ownership check, billing, the frozen breakdown and the
  done transition in one transaction, and every way out of it; the failure paths of \<^verbatim>\<open>status.py\<close> and
  \<^verbatim>\<open>tasks.py\<close> that hand a run's quota and claims back.

  \<open>mid n\<close> is whatever other transactions commit before this function's \<open>n\<close>-th own one, so a lemma that holds
  for every \<open>mid\<close> holds under every interleaving. A write that raises and is swallowed is a boolean
  parameter. The job's rows in \<^verbatim>\<open>results\<close> are read once, in the billing transaction.
\<close>

subsection \<open>Exits and cleanup\<close>

datatype finalize_kind = K_done | K_already_terminal | K_billing_failed | K_lost_ownership

record finalize_outcome =
  fo_kind :: finalize_kind
  fo_display :: int
  fo_frozen :: "(string \<times> int option) list option"

definition outcome :: "finalize_kind \<Rightarrow> finalize_outcome" where
  "outcome k = \<lparr> fo_kind = k, fo_display = 0, fo_frozen = None \<rparr>"

definition fenced_exit :: "string \<Rightarrow> string \<Rightarrow> attempt \<Rightarrow> run_db \<Rightarrow> finalize_kind option" where
  "fenced_exit jid uid token db =
     (case finalize_exit (attempt_state jid uid token (job_rows db)) of
        None \<Rightarrow> None
      | Some Terminalized \<Rightarrow> Some K_already_terminal
      | Some Lost_ownership \<Rightarrow> Some K_lost_ownership)"

definition release_claims_of_cancelled_job :: "string \<Rightarrow> string \<Rightarrow> run_db \<Rightarrow> run_db" where
  "release_claims_of_cancelled_job jid uid db =
     (if list_ex (\<lambda>j. j_id j = jid \<and> j_user j = uid \<and> j_status j = CANCELLED \<and> never_billed j) (job_rows db)
      then db\<lparr> claims := filter (\<lambda>d. \<not> (dc_first_job d = jid \<and> dc_user d = uid)) (claims db) \<rparr>
      else db)"

definition terminal_cleanup :: "string \<Rightarrow> string \<Rightarrow> run_db \<Rightarrow> run_db" where
  "terminal_cleanup jid uid db = release_claims_of_cancelled_job jid uid (snd (release_quota_reservation jid db))"

definition release_run_claims_if_owned :: "string \<Rightarrow> string \<Rightarrow> attempt \<Rightarrow> run_db \<Rightarrow> bool \<times> run_db" where
  "release_run_claims_if_owned jid uid token db =
     (if \<not> owned (attempt_state jid uid token (job_rows db)) then (False, db)
      else (True, db\<lparr> claims := filter (\<lambda>d. \<not> (dc_first_job d = jid \<and> dc_user d = uid)) (claims db) \<rparr>))"

text \<open>\<open>lands\<close> is whether the FAILED statement ran, \<open>m\<close> what commits between it and the release.\<close>

definition fail_job ::
    "bool \<Rightarrow> (run_db \<Rightarrow> run_db) \<Rightarrow> datetime \<Rightarrow> string \<Rightarrow> string \<Rightarrow> attempt option \<Rightarrow> run_db \<Rightarrow> bool \<times> run_db" where
  "fail_job lands m now jid reason expected db =
     (let (cas_ok, rows) = (if lands then set_status jid FAILED expected [U_finished_at now, U_error_message reason] (job_rows db)
                            else (False, job_rows db));
          db1 = db\<lparr> job_rows := rows \<rparr>
      in if expected \<noteq> None \<and> \<not> cas_ok then (cas_ok, db1)
         else (cas_ok, snd (release_quota_reservation jid (m db1))))"

definition fail_job_after_uncaught ::
    "(run_db \<Rightarrow> run_db) \<Rightarrow> datetime \<Rightarrow> string \<Rightarrow> string \<Rightarrow> attempt option \<Rightarrow> run_db \<Rightarrow> bool \<times> run_db" where
  "fail_job_after_uncaught m now jid reason expected db =
     (case expected of
        None \<Rightarrow> (False, db)
      | Some token \<Rightarrow>
          let P = (\<lambda>j. j_id j = jid \<and> attempt_clauses token j \<and> \<not> terminal j \<and> j_billing_applied_at j = None);
              db1 = db\<lparr> job_rows := snd (update_where P
                (\<lambda>j. j\<lparr> j_status := FAILED, j_finished_at := Some now, j_error_message := Some reason \<rparr>) (job_rows db)) \<rparr>
          in (case find P (job_rows db) of
                None \<Rightarrow> (False, db1)
              | Some row \<Rightarrow>
                  let db2 = snd (release_quota_reservation jid (m db1))
                  in (True, db2\<lparr> claims := filter (\<lambda>d. \<not> (dc_first_job d = jid \<and> dc_user d = j_user row)) (claims db2) \<rparr>)))"

definition skip_reason_for_config :: "bool \<Rightarrow> string option \<Rightarrow> string option" where
  "skip_reason_for_config active paused_reason =
     (if paused_reason = Some ''entitlement''
      then Some ''This scraper is paused on your current plan, so this run was skipped.''
      else if \<not> active then Some ''This scraper was deleted, so this run was skipped.''
      else None)"

subsection \<open>The billing transaction\<close>

datatype txn_result =
  Txn_stop finalize_kind
| Txn_uncharged
| Txn_missed
| Txn_bad_bucket
| Txn_done int "(string \<times> int option) list option"

definition done_fields :: "datetime \<Rightarrow> int \<Rightarrow> string \<Rightarrow> (string \<times> int option) list option \<Rightarrow> job_update list" where
  "done_fields now n key snapshot =
     [U_finished_at now, U_record_count n, U_export_key key] @
     (case snapshot of None \<Rightarrow> [] | Some cols \<Rightarrow> [U_breakdown cols])"

definition frozen_fields :: "(string \<times> int option) list option \<Rightarrow> string option \<Rightarrow> (string \<times> int option) list option" where
  "frozen_fields snapshot refused =
     (case (snapshot, refused) of
        (Some cols, None) \<Rightarrow> Some (map (\<lambda>(f, col). (f, Option.bind (map_of cols col) id)) SNAPSHOT_COLUMNS)
      | _ \<Rightarrow> None)"

text \<open>A missed done transition rolls everything back to \<open>db\<close>.\<close>

definition mark_done ::
    "datetime \<Rightarrow> string \<Rightarrow> attempt \<Rightarrow> string \<Rightarrow> int \<Rightarrow> (string \<times> int option) list option \<times> string option
      \<Rightarrow> run_db \<Rightarrow> run_db \<Rightarrow> txn_result \<times> run_db" where
  "mark_done now jid token key n snap db db1 =
     (case set_status jid DONE (Some token) (done_fields now n key (fst snap)) (job_rows db1) of
        (True, rows) \<Rightarrow> (Txn_done n (frozen_fields (fst snap) (snd snap)), db1\<lparr> job_rows := rows \<rparr>)
      | (False, _) \<Rightarrow> (Txn_missed, db))"

definition billing_transaction ::
    "(datetime \<Rightarrow> datetime \<Rightarrow> int) \<Rightarrow> datetime \<Rightarrow> datetime \<Rightarrow> string \<Rightarrow> string \<Rightarrow> attempt \<Rightarrow> string \<Rightarrow> lead_row list \<Rightarrow> run_db
      \<Rightarrow> txn_result \<times> run_db" where
  "billing_transaction age billed_at now jid uid token key leads db =
     (case fenced_exit jid uid token db of
        Some stop \<Rightarrow> (Txn_stop stop, db)
      | None \<Rightarrow>
          (case read_partition jid uid leads of
             None \<Rightarrow> (Txn_bad_bucket, db)
           | Some p \<Rightarrow>
               let (billed, db1) = bill_job age token jid (rp_new p) billed_at db;
                   snap = decide_snapshot (job_rows db1) jid uid (billed \<noteq> None) (Some token) p
               in (case billed of
                     Some None \<Rightarrow> (Txn_uncharged, db)
                   | Some (Some _) \<Rightarrow> mark_done now jid token key (rp_new p) snap db db1
                   | None \<Rightarrow>
                       (case fenced_exit jid uid token db of
                          Some stop \<Rightarrow> (Txn_stop stop, db)
                        | None \<Rightarrow>
                            mark_done now jid token key
                              (case job_of jid (job_rows db) of None \<Rightarrow> rp_new p | Some j \<Rightarrow> j_billed_count j) snap db db))))"

subsection \<open>Finalization\<close>

datatype finalize_error = Job_gone | Bad_bucket | Fail_did_not_land | Done_did_not_land

record finalize_env =
  mid :: "nat \<Rightarrow> run_db \<Rightarrow> run_db"
  stage_lands :: bool
  fail_lands :: bool
  clock :: "nat \<Rightarrow> datetime"

definition stop_run :: "string \<Rightarrow> string \<Rightarrow> (run_db \<Rightarrow> run_db) \<Rightarrow> finalize_kind \<Rightarrow> run_db \<Rightarrow> finalize_outcome \<times> run_db" where
  "stop_run jid uid m stop db =
     (outcome stop, if stop = K_already_terminal then terminal_cleanup jid uid (m db) else db)"

definition billing_failed_exit ::
    "finalize_env \<Rightarrow> string \<Rightarrow> string \<Rightarrow> attempt \<Rightarrow> run_db \<Rightarrow> (finalize_error + finalize_outcome) \<times> run_db" where
  "billing_failed_exit env jid uid token db =
     (case fenced_exit jid uid token db of
        Some stop \<Rightarrow> apfst Inr (stop_run jid uid (mid env 4) stop db)
      | None \<Rightarrow>
          (case fail_job (fail_lands env) (mid env 5) (clock env 2) jid
                  ''Billing failed: user record-usage counter could not be updated.'' (Some token) (mid env 4 db) of
             (True, db1) \<Rightarrow> (Inr (outcome K_billing_failed), db1)
           | (False, db1) \<Rightarrow>
               let db2 = mid env 6 db1
               in (case fenced_exit jid uid token db2 of
                     Some stop \<Rightarrow> apfst Inr (stop_run jid uid (mid env 7) stop db2)
                   | None \<Rightarrow> (Inl Fail_did_not_land, db2))))"

definition finalize_bill ::
    "(datetime \<Rightarrow> datetime \<Rightarrow> int) \<Rightarrow> finalize_env \<Rightarrow> string \<Rightarrow> string \<Rightarrow> attempt \<Rightarrow> string \<Rightarrow> lead_row list \<Rightarrow> run_db
      \<Rightarrow> (finalize_error + finalize_outcome) \<times> run_db" where
  "finalize_bill age env jid uid token key leads db =
     (case billing_transaction age (clock env 1) (clock env 2) jid uid token key leads db of
        (Txn_stop stop, db1) \<Rightarrow> apfst Inr (stop_run jid uid (mid env 3) stop db1)
      | (Txn_bad_bucket, db1) \<Rightarrow> (Inl Bad_bucket, db1)
      | (Txn_done n frozen, db1) \<Rightarrow> (Inr \<lparr> fo_kind = K_done, fo_display = n, fo_frozen = frozen \<rparr>, db1)
      | (Txn_uncharged, db1) \<Rightarrow> billing_failed_exit env jid uid token (mid env 3 db1)
      | (Txn_missed, db1) \<Rightarrow>
          let db2 = mid env 3 db1
          in (case fenced_exit jid uid token db2 of
                None \<Rightarrow> (Inl Done_did_not_land, db2)
              | Some stop \<Rightarrow> apfst Inr (stop_run jid uid (mid env 4) stop db2)))"

definition finalize_billing_and_done ::
    "(datetime \<Rightarrow> datetime \<Rightarrow> int) \<Rightarrow> finalize_env \<Rightarrow> string \<Rightarrow> string \<Rightarrow> attempt \<Rightarrow> string \<Rightarrow> lead_row list \<Rightarrow> run_db
      \<Rightarrow> (finalize_error + finalize_outcome) \<times> run_db" where
  "finalize_billing_and_done age env jid uid token key leads db =
     (case job_of jid (job_rows db) of
        None \<Rightarrow> (Inl Job_gone, db)
      | Some j \<Rightarrow>
          if terminal j then apfst Inr (stop_run jid uid (mid env 0) K_already_terminal db)
          else let db1 = mid env 0 db;
                   (moved, rows) = (if stage_lands env then set_stage jid uid token ''finalizing'' True (clock env 0) (job_rows db1)
                                    else (False, job_rows db1));
                   db2 = mid env 1 (db1\<lparr> job_rows := rows \<rparr>)
               in if moved then finalize_bill age env jid uid token key leads db2
                  else (case fenced_exit jid uid token db2 of
                          Some stop \<Rightarrow> apfst Inr (stop_run jid uid (mid env 2) stop db2)
                        | None \<Rightarrow> finalize_bill age env jid uid token key leads (mid env 2 db2)))"


subsection \<open>One transaction bills and finishes\<close>

lemma no_job: "job_of jid rows = None \<Longrightarrow> i \<in> set rows \<Longrightarrow> j_id i \<noteq> jid"
  by (auto simp: job_of_def find_None_iff)

lemma find_row:
  assumes "distinct (map j_id rows)"
  shows "find (\<lambda>j. j_id j = jid \<and> P j) rows
    = (case job_of jid rows of None \<Rightarrow> None | Some j \<Rightarrow> if P j then Some j else None)"
proof (cases "job_of jid rows")
  case None
  then show ?thesis using no_job by (auto simp: find_None_iff)
next
  case (Some j)
  then show ?thesis using find_only_row [OF assms Some] by simp
qed

lemma filter_row:
  assumes "distinct (map j_id rows)" "job_of jid rows = Some j" "P j"
  shows "length (filter (\<lambda>i. j_id i = jid \<and> P i) rows) = 1"
proof -
  have "set (filter (\<lambda>i. j_id i = jid \<and> P i) rows) = {j}"
    using only_row [OF assms(1,2)] job_of_mem [OF assms(2)] assms(3) by auto
  moreover have "distinct (filter (\<lambda>i. j_id i = jid \<and> P i) rows)"
    using assms(1) distinct_map distinct_filter by blast
  ultimately show ?thesis using distinct_card by fastforce
qed

lemma fenced_none:
  assumes "distinct (map j_id (job_rows db))"
  shows "fenced_exit jid uid token db = None \<longleftrightarrow>
    (case job_of jid (job_rows db) of None \<Rightarrow> False
     | Some j \<Rightarrow> j_user j = uid \<and> attempt_clauses token j \<and> \<not> terminal j)"
proof -
  show ?thesis
    by (auto simp: fenced_exit_def attempt_state_def finalize_exit_def find_row [OF assms] terminal_def split: option.splits)
qed

lemma fold_done [simp]:
  "j_record_count (fold apply_update (done_fields now n key snap) j) = n"
  "j_billed_count (fold apply_update (done_fields now n key snap) j) = j_billed_count j"
  "j_billing_applied_at (fold apply_update (done_fields now n key snap) j) = j_billing_applied_at j"
  "j_reserved_count (fold apply_update (done_fields now n key snap) j) = j_reserved_count j"
  by (simp_all add: done_fields_def split: option.splits)

lemma set_status_lands:
  assumes "distinct (map j_id rows)" "job_of jid rows = Some j" "\<not> terminal j" "attempt_clauses a j"
  shows "set_status jid s (Some a) kw rows
    = (True, map (\<lambda>i. if j_id i = jid then fold apply_update kw (i\<lparr> j_status := s \<rparr>) else i) rows)"
proof -
  have m: "map (\<lambda>i. if j_id i = jid \<and> (\<not> terminal i \<and> attempt_clauses a i) then f i else i) rows
      = map (\<lambda>i. if j_id i = jid then f i else i) rows" for f
    by (rule map_only_row [OF assms(1,2)]) (use assms(3,4) in simp)
  have "length (filter (\<lambda>i. j_id i = jid \<and> (\<not> terminal i \<and> attempt_clauses a i)) rows) = 1"
    by (rule filter_row [OF assms(1,2)]) (use assms(3,4) in simp)
  then show ?thesis by (simp add: set_status_def update_where_def m)
qed


text \<open>The row that a fresh bill and the done transition leave.\<close>

definition finished_row :: "datetime \<Rightarrow> datetime \<Rightarrow> string \<Rightarrow> int \<Rightarrow> (string \<times> int option) list option \<Rightarrow> job_row \<Rightarrow> job_row" where
  "finished_row billed_at now key n snap i =
     fold apply_update (done_fields now n key snap)
       (i\<lparr> j_billed_count := n, j_billing_applied_at := Some billed_at, j_status := DONE \<rparr>)"

abbreviation stamped :: "string \<Rightarrow> int \<Rightarrow> datetime \<Rightarrow> job_row list \<Rightarrow> job_row list" where
  "stamped jid n at \<equiv> map (\<lambda>i. if j_id i = jid then i\<lparr> j_billed_count := n, j_billing_applied_at := Some at \<rparr> else i)"

lemma bill_fires:
  assumes "distinct (map j_id (job_rows db))" "job_of jid (job_rows db) = Some j"
    and "j_billing_applied_at j = None" "attempt_clauses token j"
  shows "bill_job age token jid n at db =
    (case settle_user_charge age jid n at (db\<lparr> job_rows := stamped jid n at (job_rows db) \<rparr>) of
       (None, _) \<Rightarrow> (Some None, db) | (Some s, db') \<Rightarrow> (Some (Some s), db'))"
    "job_of jid (stamped jid n at (job_rows db)) = Some (j\<lparr> j_billed_count := n, j_billing_applied_at := Some at \<rparr>)"
proof -
  let ?P = "\<lambda>j. j_billing_applied_at j = None \<and> attempt_clauses token j"
  have m: "map (\<lambda>i. if j_id i = jid \<and> ?P i then i\<lparr> j_billed_count := n, j_billing_applied_at := Some at \<rparr> else i) (job_rows db)
      = stamped jid n at (job_rows db)"
    by (rule map_only_row [OF assms(1,2)]) (use assms(3,4) in simp)
  have "length (filter (\<lambda>i. j_id i = jid \<and> ?P i) (job_rows db)) = 1"
    by (rule filter_row [OF assms(1,2)]) (use assms(3,4) in simp)
  then show "bill_job age token jid n at db =
    (case settle_user_charge age jid n at (db\<lparr> job_rows := stamped jid n at (job_rows db) \<rparr>) of
       (None, _) \<Rightarrow> (Some None, db) | (Some s, db') \<Rightarrow> (Some (Some s), db'))"
    by (simp add: bill_job_def update_where_def m)
  show "job_of jid (stamped jid n at (job_rows db)) = Some (j\<lparr> j_billed_count := n, j_billing_applied_at := Some at \<rparr>)"
    by (simp add: job_of_map assms(2))
qed

lemma bill_rows:
  assumes "distinct (map j_id (job_rows db))" "job_of jid (job_rows db) = Some j"
    and "j_billing_applied_at j = None" "attempt_clauses token j" "accounts db (j_user j) = Some u"
  obtains s db1 where "bill_job age token jid n at db = (Some (Some s), db1)"
    "job_rows db1 = stamped jid n at (job_rows db)" "claims db1 = claims db"
  using that bill_fires [OF assms(1-4)] assms(5) by (simp add: settle_user_charge_def Let_def)

lemma no_account_bill:
  assumes "distinct (map j_id (job_rows db))" "job_of jid (job_rows db) = Some j"
    and "j_billing_applied_at j = None" "attempt_clauses token j" "accounts db (j_user j) = None"
  shows "bill_job age token jid n at db = (Some None, db)"
  using bill_fires [OF assms(1-4)] assms(5) by (simp add: settle_user_charge_def)

lemma no_rebill:
  assumes "distinct (map j_id (job_rows db))" "job_of jid (job_rows db) = Some j" "j_billing_applied_at j \<noteq> None"
  shows "bill_job age token jid n at db = (None, db)"
proof -
  have "filter (\<lambda>i. j_id i = jid \<and> (j_billing_applied_at i = None \<and> attempt_clauses token i)) (job_rows db) = []"
    by (rule only_row_filter [OF assms(1,2)]) (use assms(3) in simp)
  then show ?thesis by (simp add: bill_job_def update_where_def)
qed

text \<open>
  The four ends of the transaction: stopped by the fence, nothing charged because the account is gone, a
  fresh bill with its done row, and the done row of a job that an earlier attempt billed.
\<close>

lemma billing_transaction_ends:
  assumes "distinct (map j_id (job_rows db))"
  obtains (Stopped) k where "fenced_exit jid uid token db = Some k"
      "billing_transaction age billed_at now jid uid token key leads db = (Txn_stop k, db)"
  | (Uncharged) j where "job_of jid (job_rows db) = Some j" "j_user j = uid" "j_billing_applied_at j = None"
      "accounts db uid = None" "billing_transaction age billed_at now jid uid token key leads db = (Txn_uncharged, db)"
  | (Fresh) j p s db1 snap frozen where "job_of jid (job_rows db) = Some j" "j_user j = uid" "attempt_clauses token j"
      "\<not> terminal j" "j_billing_applied_at j = None" "read_partition jid uid leads = Some p"
      "bill_job age token jid (rp_new p) billed_at db = (Some (Some s), db1)" "claims db1 = claims db"
      "billing_transaction age billed_at now jid uid token key leads db = (Txn_done (rp_new p) frozen,
         db1\<lparr> job_rows := map (\<lambda>i. if j_id i = jid then finished_row billed_at now key (rp_new p) snap i else i) (job_rows db) \<rparr>)"
  | (Again) j snap where "job_of jid (job_rows db) = Some j" "j_user j = uid" "attempt_clauses token j" "\<not> terminal j"
      "j_billing_applied_at j \<noteq> None"
      "billing_transaction age billed_at now jid uid token key leads db = (Txn_done (j_billed_count j) None,
         db\<lparr> job_rows := map (\<lambda>i. if j_id i = jid then fold apply_update (done_fields now (j_billed_count j) key snap)
           (i\<lparr> j_status := DONE \<rparr>) else i) (job_rows db) \<rparr>)"
proof (cases "fenced_exit jid uid token db")
  case (Some k)
  then show thesis by (intro Stopped) (simp_all add: billing_transaction_def)
next
  case None
  then obtain j where j: "job_of jid (job_rows db) = Some j" "j_user j = uid" "attempt_clauses token j" "\<not> terminal j"
    unfolding fenced_none [OF assms] by (auto split: option.splits)
  obtain p where p: "read_partition jid uid leads = Some p" by (rule partition_counts)
  show thesis
  proof (cases "j_billing_applied_at j")
    case billed: (Some t)
    note nb = no_rebill [OF assms j(1), of age token "rp_new p" billed_at]
    have bj: "bill_job age token jid (rp_new p) billed_at db = (None, db)" using nb billed by simp
    have sc: "decide_snapshot rows jid uid False (Some token) p = (None, Some ''billed by an earlier attempt'')" for rows
      by (simp add: decide_snapshot_def snapshot_columns_def)
    have "billing_transaction age billed_at now jid uid token key leads db = (Txn_done (j_billed_count j) None,
         db\<lparr> job_rows := map (\<lambda>i. if j_id i = jid then fold apply_update (done_fields now (j_billed_count j) key None)
           (i\<lparr> j_status := DONE \<rparr>) else i) (job_rows db) \<rparr>)"
      unfolding billing_transaction_def mark_done_def
      by (simp add: None p bj sc j(1) set_status_lands [OF assms j(1,4,3)] frozen_fields_def)
    then show thesis using Again [OF j] billed by simp
  next
    case unbilled: None
    show thesis
    proof (cases "accounts db uid")
      case None': None
      have acc: "accounts db (j_user j) = None" using None' j(2) by simp
      show thesis
        by (rule Uncharged [OF j(1,2) unbilled None'])
          (simp add: billing_transaction_def None p no_account_bill [OF assms j(1) unbilled j(3) acc])
    next
      case acc': (Some u)
      have acc: "accounts db (j_user j) = Some u" using acc' j(2) by simp
      obtain s db1 where b: "bill_job age token jid (rp_new p) billed_at db = (Some (Some s), db1)"
        "job_rows db1 = stamped jid (rp_new p) billed_at (job_rows db)" "claims db1 = claims db"
        by (rule bill_rows [OF assms j(1) unbilled j(3) acc])
      obtain snap refused where sc: "decide_snapshot (job_rows db1) jid uid True (Some token) p = (snap, refused)"
        by fastforce
      let ?j = "j\<lparr> j_billed_count := rp_new p, j_billing_applied_at := Some billed_at \<rparr>"
      have d: "distinct (map j_id (job_rows db1))" using assms by (simp add: b(2) comp_def if_distrib cong: if_cong)
      have jo: "job_of jid (job_rows db1) = Some ?j" unfolding b(2) by (rule bill_fires(2) [OF assms j(1) unbilled j(3)])
      have own: "\<not> terminal ?j" "attempt_clauses token ?j" using j(3,4)
        by (simp_all add: terminal_def attempt_clauses_def split: prod.splits option.splits)
      have "set_status jid DONE (Some token) (done_fields now (rp_new p) key snap) (job_rows db1)
        = (True, map (\<lambda>i. if j_id i = jid then finished_row billed_at now key (rp_new p) snap i else i) (job_rows db))"
        by (simp only: set_status_lands [OF d jo own]) (simp add: b(2) finished_row_def)
      then have "billing_transaction age billed_at now jid uid token key leads db = (Txn_done (rp_new p) (frozen_fields snap refused),
         db1\<lparr> job_rows := map (\<lambda>i. if j_id i = jid then finished_row billed_at now key (rp_new p) snap i else i) (job_rows db) \<rparr>)"
        by (simp add: billing_transaction_def None p b(1) sc mark_done_def)
      then show thesis by (rule Fresh [OF j(1-4) unbilled p b(1,3)])
    qed
  qed
qed


subsection \<open>Nothing but the billing transaction bills\<close>

definition billing_of :: "string \<Rightarrow> run_db \<Rightarrow> (datetime option \<times> int) option" where
  "billing_of jid db = map_option (\<lambda>j. (j_billing_applied_at j, j_billed_count j)) (job_of jid (job_rows db))"

text \<open>The states that finalization was given: the one it began on, and those that other transactions left.\<close>

definition left_by :: "finalize_env \<Rightarrow> run_db \<Rightarrow> run_db \<Rightarrow> bool" where
  "left_by env db d \<longleftrightarrow> d = db \<or> (\<exists>n x. d = mid env n x)"

definition kept :: "finalize_env \<Rightarrow> string \<Rightarrow> run_db \<Rightarrow> run_db \<Rightarrow> bool" where
  "kept env jid db db' \<longleftrightarrow> distinct (map j_id (job_rows db')) \<and> (\<exists>d. left_by env db d \<and> billing_of jid db' = billing_of jid d)"





lemma kept_claims [simp]: "kept env jid db0 (db\<lparr> claims := c \<rparr>) = kept env jid db0 db"
  by (simp add: kept_def billing_of_def)





definition staged :: "string \<Rightarrow> bool \<Rightarrow> datetime \<Rightarrow> job_row \<Rightarrow> job_row" where
  "staged s c now = fold apply_progress ([G_stage s, G_stage_started_at now] @
     (if c then [G_units_done None, G_units_total None, G_progress_unit None] else []))"

lemma staged_simps [simp]:
  "j_id (staged s c now j) = j_id j" "j_user (staged s c now j) = j_user j"
  "j_billing_applied_at (staged s c now j) = j_billing_applied_at j" "j_billed_count (staged s c now j) = j_billed_count j"
  "grant_in u w (staged s c now j) = grant_in u w j" "job_ok db (staged s c now j) = job_ok db j"
  by (simp_all add: staged_def grant_in_def held_job_def job_ok_def)

lemma set_stage_rows:
  "snd (set_stage i uid a s c now rows) = snd (update_where
     (\<lambda>j. j_id j = i \<and> j_user j = uid \<and> \<not> terminal j \<and> attempt_clauses a j) (staged s c now) rows)"
  by (simp add: set_stage_def set_progress_def staged_def split_beta Let_def)






lemma fenced_kind: "fenced_exit jid uid token db = Some k \<Longrightarrow> k \<noteq> K_done"
  by (auto simp: fenced_exit_def split: option.splits finalize_stop.splits)






subsection \<open>A superseded attempt\<close>

definition superseded :: "string \<Rightarrow> attempt \<Rightarrow> run_db \<Rightarrow> bool" where
  "superseded jid token db \<longleftrightarrow>
     list_all (\<lambda>j. j_id j = jid \<longrightarrow> \<not> terminal j \<and> \<not> attempt_clauses token j) (job_rows db)"

lemma superseded_fence:
  assumes "superseded jid token db"
  shows "fenced_exit jid uid token db = Some K_lost_ownership"
proof (cases "find (\<lambda>j. j_id j = jid \<and> j_user j = uid) (job_rows db)")
  case None
  then show ?thesis by (simp add: fenced_exit_def attempt_state_def finalize_exit_def)
next
  case (Some j)
  then have "j \<in> set (job_rows db)" "j_id j = jid" by (auto simp: find_Some_iff)
  then have "\<not> terminal j" "\<not> attempt_clauses token j" using assms by (auto simp: superseded_def list_all_iff)
  then show ?thesis using Some by (simp add: fenced_exit_def attempt_state_def finalize_exit_def terminal_def)
qed

lemma superseded_stage:
  assumes "superseded jid token db"
  shows "set_stage jid uid token s c now (job_rows db) = (False, job_rows db)"
proof -
  have e: "filter (\<lambda>j. j_id j = jid \<and> j_user j = uid \<and> \<not> terminal j \<and> attempt_clauses token j) (job_rows db) = []"
    using assms by (auto simp: superseded_def list_all_iff filter_empty_conv)
  then have "map (\<lambda>j. if j_id j = jid \<and> j_user j = uid \<and> \<not> terminal j \<and> attempt_clauses token j then f j else j) (job_rows db)
    = job_rows db" for f
    by (intro map_idI) (auto simp: filter_empty_conv)
  with e show ?thesis by (simp add: set_stage_def set_progress_def update_where_def)
qed

lemma finalize_superseded:
  assumes "job_of jid (job_rows db) = Some j" "superseded jid token db"
    and "\<And>n d. superseded jid token d \<Longrightarrow> superseded jid token (mid env n d)"
  shows "finalize_billing_and_done age env jid uid token key leads db = (Inr (outcome K_lost_ownership), mid env 1 (mid env 0 db))"
proof -
  have "\<not> terminal j" using job_of_mem [OF assms(1)] assms(2) by (auto simp: superseded_def list_all_iff)
  moreover have "superseded jid token (mid env 0 db)" "superseded jid token (mid env 1 (mid env 0 db))"
    using assms(2,3) by blast+
  ultimately show ?thesis
    using superseded_stage superseded_fence assms(1) by (simp add: finalize_billing_and_done_def Let_def stop_run_def)
qed

subsection \<open>From the grant to the bill\<close>

text \<open>Nothing else commits while the run ends.\<close>

definition quiet :: "finalize_env \<Rightarrow> bool" where
  "quiet env \<longleftrightarrow> (\<forall>n d. mid env n d = d)"

lemma quiet_failed_bill: "quiet env \<Longrightarrow> fst (billing_failed_exit env jid uid token db) = Inr out \<Longrightarrow> fo_kind out \<noteq> K_done"
  using fenced_kind
  by (auto simp: billing_failed_exit_def quiet_def stop_run_def outcome_def apfst_def map_prod_def Let_def
      split: option.splits prod.splits bool.splits)

lemma quiet_run:
  assumes "quiet env" "finalize_billing_and_done age env jid uid token key leads db = (Inr out, db')" "fo_kind out = K_done"
  obtains db2 where "db2 = db \<or> db2 = db\<lparr> job_rows := snd (set_stage jid uid token ''finalizing'' True (clock env 0) (job_rows db)) \<rparr>"
    "finalize_bill age env jid uid token key leads db2 = (Inr out, db')"
proof -
  obtain j where j: "job_of jid (job_rows db) = Some j" "\<not> terminal j"
    using assms(2,3) by (auto simp: finalize_billing_and_done_def stop_run_def outcome_def split: option.splits if_splits)
  obtain moved rows where mv: "(if stage_lands env then set_stage jid uid token ''finalizing'' True (clock env 0) (job_rows db)
        else (False, job_rows db)) = (moved, rows)" by fastforce
  have "finalize_bill age env jid uid token key leads (db\<lparr> job_rows := rows \<rparr>) = (Inr out, db')"
    using assms j mv fenced_kind
    by (auto simp: finalize_billing_and_done_def quiet_def stop_run_def outcome_def Let_def split: if_splits option.splits)
  moreover have "db\<lparr> job_rows := rows \<rparr> = db \<or>
      db\<lparr> job_rows := rows \<rparr> = db\<lparr> job_rows := snd (set_stage jid uid token ''finalizing'' True (clock env 0) (job_rows db)) \<rparr>"
  proof (cases "stage_lands env")
    case True
    then have "rows = snd (set_stage jid uid token ''finalizing'' True (clock env 0) (job_rows db))" using mv by simp
    then show ?thesis by simp
  next
    case False
    then have "rows = job_rows db" using mv by simp
    then show ?thesis by simp
  qed
  ultimately show thesis by (rule that [rotated])
qed

lemma stage_rows:
  assumes "distinct (map j_id rows)" "job_of jid rows = Some j"
  shows "snd (set_stage jid uid a s c now rows) = rows \<or>
    snd (set_stage jid uid a s c now rows) = map (\<lambda>i. if j_id i = jid then staged s c now i else i) rows"
proof (cases "j_user j = uid \<and> \<not> terminal j \<and> attempt_clauses a j")
  case True
  then show ?thesis
    using map_only_row [OF assms, where P = "\<lambda>j. j_user j = uid \<and> \<not> terminal j \<and> attempt_clauses a j"]
    by (simp add: set_stage_rows update_where_def)
next
  case False
  then have "filter (\<lambda>i. j_id i = jid \<and> (j_user i = uid \<and> \<not> terminal i \<and> attempt_clauses a i)) rows = []"
    by (rule only_row_filter [OF assms])
  then have "map (\<lambda>i. if j_id i = jid \<and> j_user i = uid \<and> \<not> terminal i \<and> attempt_clauses a i then f i else i) rows = rows" for f
    by (intro map_idI) (auto simp: filter_empty_conv)
  then show ?thesis by (simp add: set_stage_rows update_where_def)
qed

lemma bill_settles_grant:
  assumes "age_covers age" "ledger_ok db" "valid_dt at" "0 \<le> n" "job_of jid (job_rows db) = Some j"
    and "accounts db (j_user j) = Some u" "\<not> roll_predicate u at" "grant_in (j_user j) (quota_period_start u) j = n"
    and "bill_job age token jid n at db = (Some (Some s), db1)"
  shows "map_option records_used (accounts db1 (j_user j)) = Some (records_used u)"
proof -
  have "j_billing_applied_at j = None \<and> attempt_clauses token j"
  proof (rule ccontr)
    assume "\<not> (j_billing_applied_at j = None \<and> attempt_clauses token j)"
    then have "ledger_step age (Settle token jid n at) db = db \<and> fst (bill_job age token jid n at db) = None"
      using settle_idle [OF assms(2)] assms(5) only_row_filter [OF _ assms(5)] assms(2)
      by (auto simp: bill_job_def update_where_def ledger_ok_def)
    then show False using assms(9) by simp
  qed
  then obtain s' db' u' where r: "bill_job age token jid n at db = (Some (Some s'), db')" "accounts db' (j_user j) = Some u'"
    using settle_fires [OF assms(5) _ _ assms(6)] by metis
  then have e: "db' = db1" using assms(9) by simp
  show ?thesis
    using settle_ledger(11) [OF assms(1-4) r(1) assms(5,6) r(2)] assms(7,8) r(2) by (simp add: e)
qed

lemma run_bills_its_grant:
  assumes "age_covers age" "ledger_ok db" "valid_dt now" "valid_dt (clock env 1)"
    and "job_of jid (job_rows db) = Some j" "j_user j = uid" "j_billing_applied_at j = None"
    and "reserve_job_quota age marker now jid uid (int (want_count jid uid rows)) db = Inr (Some g, db1)"
    and "distinct (map ld_id rows)" "reasons_ok rows" "apply_plan_cap coll jid uid g rt rows = (over, rows')"
    and "accounts db1 uid = Some u1" "\<not> roll_predicate u1 (clock env 1)" "quiet env"
    and "finalize_billing_and_done age env jid uid token key rows' db1 = (Inr out, db')" "fo_kind out = K_done"
  shows "fo_display out = g" "map_option records_used (accounts db' uid) = Some (records_used u1)"
proof -
  have d: "distinct (map j_id (job_rows db))" using assms(2) by (simp add: ledger_ok_def)
  have want: "0 \<le> int (want_count jid uid rows)" by simp
  obtain u j0 where a: "accounts db uid = Some u" "job_of jid (job_rows db) = Some j0"
    "db1 = db\<lparr> accounts := (accounts db)(uid \<mapsto> (window_set (window_cte age u now) u)
             \<lparr> records_used := w_base (window_cte age u now) + g \<rparr>),
           job_rows := map (\<lambda>i. if j_id i = jid then i\<lparr> j_reserved_count := g,
             j_window := Some (w_new_start (window_cte age u now)), j_reserved_at := Some now \<rparr> else i) (job_rows db) \<rparr>"
    by (rule reserve_cases [OF assms(8) d])
  note rl = reserve_ledger [OF assms(1-3) want assms(8,5,6,7) a(1) assms(12)]
  let ?j1 = "j\<lparr> j_reserved_count := g, j_window := Some (w_new_start (window_cte age u now)), j_reserved_at := Some now \<rparr>"
  have j1: "job_of jid (job_rows db1) = Some ?j1" by (simp add: a(3) job_of_map assms(5))
  have st: "w_new_start (window_cte age u now) = quota_period_start u1"
    using assms(12) by (auto simp: a(3) window_set_def)
  have gr: "grant_in uid (quota_period_start u1) ?j1 = g" "j_user ?j1 = uid"
    using assms(6,7) rl(4) by (simp_all add: grant_in_def held_job_def st)
  obtain db2 where db2: "db2 = db1 \<or> db2 = db1\<lparr> job_rows := snd (set_stage jid uid token ''finalizing'' True (clock env 0) (job_rows db1)) \<rparr>"
    "finalize_bill age env jid uid token key rows' db2 = (Inr out, db')"
    by (rule quiet_run [OF assms(14-16)])
  have d1: "distinct (map j_id (job_rows db1))" using rl(1) by (simp add: ledger_ok_def)
  have "\<exists>j2. ledger_ok db2 \<and> job_of jid (job_rows db2) = Some j2 \<and> j_user j2 = uid \<and> accounts db2 uid = Some u1 \<and>
      j_billing_applied_at j2 = None \<and> grant_in uid (quota_period_start u1) j2 = g"
  proof (cases "db2 = db1")
    case True
    then show ?thesis using rl(1) j1 gr assms(7,12) by simp
  next
    case False
    then have b: "db2 = db1\<lparr> job_rows := map (\<lambda>i. if j_id i = jid then staged ''finalizing'' True (clock env 0) i else i) (job_rows db1) \<rparr>"
      using db2(1) stage_rows [OF d1 j1, of uid token "''finalizing''" True "clock env 0"] by auto
    have jok: "job_ok db1 ?j1" using rl(1) job_of_mem [OF j1] by (simp add: ledger_ok_def)
    have "ledger_ok db2" by (rule row_ledger(1) [OF rl(1) j1 _ _ _ b]) (simp_all add: jok)
    then show ?thesis using j1 gr assms(7,12) by (simp add: b job_of_map)
  qed
  then obtain j2 where j2: "ledger_ok db2" "job_of jid (job_rows db2) = Some j2" "j_user j2 = uid" "accounts db2 uid = Some u1"
      "j_billing_applied_at j2 = None" "grant_in uid (quota_period_start u1) j2 = g" by blast
  have d2: "distinct (map j_id (job_rows db2))" using j2(1) by (simp add: ledger_ok_def)
  have "fo_display out = g \<and> map_option records_used (accounts db' uid) = Some (records_used u1)"
  proof (cases rule: billing_transaction_ends [OF d2, of jid uid token age "clock env 1" "clock env 2" key rows',
      case_names Stopped Uncharged Fresh Again])
    case (Stopped k)
    then show ?thesis using db2(2) assms(16) fenced_kind [OF Stopped(1)] by (auto simp: finalize_bill_def stop_run_def outcome_def)
  next
    case (Uncharged i)
    then have "fst (billing_failed_exit env jid uid token db2) = Inr out"
      using db2(2) assms(14) by (simp add: finalize_bill_def quiet_def)
    then show ?thesis using quiet_failed_bill [OF assms(14)] assms(16) by blast
  next
    case (Fresh i p s db3 snap frozen)
    have "rp_new p = int (min (nat g) (want_count jid uid rows))"
      using plan_cap_result(5) [OF assms(9-11)] partition_counts [of jid uid rows'] Fresh(6) by (metis option.inject)
    then have new: "rp_new p = g" using rl(4,5) by simp
    have out: "fo_display out = g" "accounts db' = accounts db3"
      using db2(2) by (auto simp: finalize_bill_def Fresh(9) new simp del: One_nat_def)
    have acc: "accounts db2 (j_user j2) = Some u1" and gr2: "grant_in (j_user j2) (quota_period_start u1) j2 = g"
      using j2(3,4,6) by simp_all
    show ?thesis
      using bill_settles_grant [OF assms(1) j2(1) assms(4) rl(4) j2(2) acc assms(13) gr2 Fresh(7) [unfolded new]] out j2(3)
      by simp
  next
    case (Again i snap)
    then show ?thesis using j2(2,5) by simp
  qed
  then show "fo_display out = g" "map_option records_used (accounts db' uid) = Some (records_used u1)" by simp_all
qed


subsection \<open>Properties\<close>

definition quiet_env :: finalize_env where
  "quiet_env = \<lparr> mid = (\<lambda>_ d. d), stage_lands = True, fail_lands = True, clock = (\<lambda>n. sample_time (30 + int n)) \<rparr>"

definition capped_run :: "lead_row list" where
  "capped_run = snd (apply_plan_cap id ''j1'' ''u1'' 2 None [sample_lead ''r1'' ''C'', sample_lead ''r2'' ''A'', sample_lead ''r3'' ''B''])"





text \<open>
  A superseded attempt cannot finish a run. If the job's row belongs to another live attempt, now and
  whenever this one looks, finalization reports that it lost the job and leaves the database exactly as
  the other transactions made it: no stage, no bill, no failure, no released reservation and no claim.
\<close>

theorem superseded_finalize_writes_nothing:
  assumes "job_of jid (job_rows db) = Some j" "superseded jid token db"
    and "\<And>n d. superseded jid token d \<Longrightarrow> superseded jid token (mid env n d)"
  shows "finalize_billing_and_done age env jid uid token key leads db = (Inr (outcome K_lost_ownership), mid env 1 (mid env 0 db))"
  by (rule finalize_superseded [OF assms])

theorem superseded_finalize_writes_nothing_witness:
  "finalize_billing_and_done sample_age quiet_env ''j1'' ''u1'' (AttemptToken (sample_time 4) 0) ''k'' capped_run sample_db
     = (Inr (outcome K_lost_ownership), sample_db)"
proof -
  have s: "superseded ''j1'' (AttemptToken (sample_time 4) 0) sample_db" by code_simp
  obtain j where j: "job_of ''j1'' (job_rows sample_db) = Some j" by (auto simp: sample_db_def job_of_def sample_job_def)
  show ?thesis
    by (subst superseded_finalize_writes_nothing [OF j s]) (simp_all add: quiet_env_def)
qed

text \<open>
  C22: From the grant to the bill: a run that reserves what its leads want, is capped to the grant and then
  finishes without interference in the same quota window bills exactly its grant, so the charge settles
  to nothing more than the reservation already held, within the account's limit.
\<close>

theorem run_bills_exactly_its_grant:
  assumes "age_covers age" "ledger_ok db" "all_within db" "valid_dt now" "valid_dt (clock env 1)"
    and "job_of jid (job_rows db) = Some j" "j_user j = uid" "j_billing_applied_at j = None"
    and "reserve_job_quota age marker now jid uid (int (want_count jid uid rows)) db = Inr (Some g, db1)"
    and "distinct (map ld_id rows)" "reasons_ok rows" "apply_plan_cap coll jid uid g rt rows = (over, rows')"
    and "accounts db1 uid = Some u1" "\<not> roll_predicate u1 (clock env 1)" "quiet env"
    and "finalize_billing_and_done age env jid uid token key rows' db1 = (Inr out, db')" "fo_kind out = K_done"
  shows "fo_display out = g \<and> map_option records_used (accounts db' uid) = Some (records_used u1) \<and> records_used u1 \<le> records_limit u1"
proof -
  note r = run_bills_its_grant [OF assms(1,2,4-17)]
  have "ledger_event_ok db (Reserve marker now jid uid (int (want_count jid uid rows)))" using assms(4,6-8) by simp
  from reserve_within [OF assms(1,2) this assms(3)] have "all_within db1" using assms(9) by simp
  then have "records_used u1 \<le> records_limit u1" using assms(13) by (simp add: all_within_def within_limit_def)
  then show ?thesis using r by simp
qed

definition nearly_full_db :: run_db where
  "nearly_full_db = sample_db\<lparr> accounts := [''u1'' \<mapsto> sample_user\<lparr> records_used := 998 \<rparr>] \<rparr>"

lemma nearly_full_db_ok: "ledger_ok nearly_full_db" "all_within nearly_full_db"
proof -
  let ?u = "sample_user\<lparr> records_used := 998 \<rparr>"
  have v: "window_ok ?u" "0 \<le> delivered nearly_full_db ''u1'' ?u" "within_limit ?u" by code_simp+
  have "job_ok nearly_full_db j" if "j \<in> set (job_rows nearly_full_db)" for j
    using that by (auto simp: nearly_full_db_def sample_db_def job_ok_def sample_job_def)
  moreover have "distinct (map j_id (job_rows nearly_full_db))" by code_simp
  moreover have "uid = ''u1'' \<and> u = ?u" if "accounts nearly_full_db uid = Some u" for uid u
    using that by (simp add: nearly_full_db_def split: if_splits)
  ultimately show "ledger_ok nearly_full_db" "all_within nearly_full_db"
    using v by (auto simp: ledger_ok_def all_within_def)
qed

definition three_leads :: "lead_row list" where
  "three_leads = [sample_lead ''r1'' ''C'', sample_lead ''r2'' ''A'', sample_lead ''r3'' ''B'']"

definition granted_db :: run_db where
  "granted_db = (case reserve_job_quota sample_age (sample_time 7) (sample_time 7) ''j1'' ''u1'' 3 nearly_full_db of
     Inr (_, db1) \<Rightarrow> db1 | Inl _ \<Rightarrow> nearly_full_db)"

theorem run_bills_exactly_its_grant_witness:
  "case finalize_billing_and_done sample_age quiet_env ''j1'' ''u1'' (AttemptToken (sample_time 5) 0) ''k'' capped_run granted_db of
     (Inl e, db') \<Rightarrow> False
   | (Inr out, db') \<Rightarrow> fo_display out = 2 \<and> map_option records_used (accounts db' ''u1'') = Some 1000"
proof -
  let ?tok = "AttemptToken (sample_time 5) 0"
  let ?run = "finalize_billing_and_done sample_age quiet_env ''j1'' ''u1'' ?tok ''k'' capped_run granted_db"
  have v: "valid_dt (sample_time 7)" "valid_dt (clock quiet_env 1)" by code_simp+
  have j: "job_of ''j1'' (job_rows nearly_full_db) = Some (hd (job_rows nearly_full_db))"
    "j_user (hd (job_rows nearly_full_db)) = ''u1''" "j_billing_applied_at (hd (job_rows nearly_full_db)) = None" by code_simp+
  have w: "want_count ''j1'' ''u1'' three_leads = 3" by code_simp
  have "case reserve_job_quota sample_age (sample_time 7) (sample_time 7) ''j1'' ''u1'' 3 nearly_full_db of
      Inr (g, _) \<Rightarrow> g = Some 2 | Inl _ \<Rightarrow> False" by code_simp
  then have g: "reserve_job_quota sample_age (sample_time 7) (sample_time 7) ''j1'' ''u1'' (int (want_count ''j1'' ''u1'' three_leads))
      nearly_full_db = Inr (Some 2, granted_db)"
    unfolding w granted_db_def by (auto split: sum.splits)
  have l: "distinct (map ld_id three_leads)" "reasons_ok three_leads" by code_simp+
  obtain over where c: "apply_plan_cap id ''j1'' ''u1'' 2 None three_leads = (over, capped_run)"
    unfolding capped_run_def three_leads_def [symmetric] by (metis prod.collapse)
  have "case accounts granted_db ''u1'' of None \<Rightarrow> False
      | Some u \<Rightarrow> \<not> roll_predicate u (clock quiet_env 1) \<and> records_used u = 1000" by code_simp
  then obtain u where u: "accounts granted_db ''u1'' = Some u" "\<not> roll_predicate u (clock quiet_env 1)" "records_used u = 1000"
    by (auto split: option.splits)
  have q: "quiet quiet_env" by (simp add: quiet_def quiet_env_def)
  have k: "case fst ?run of Inl _ \<Rightarrow> False | Inr out \<Rightarrow> fo_kind out = K_done" by code_simp
  obtain r db' where f: "?run = (r, db')" by fastforce
  then obtain out where out: "?run = (Inr out, db')" "fo_kind out = K_done" using k by (auto split: sum.splits)
  show ?thesis
    using run_bills_exactly_its_grant [OF sample_age_covers nearly_full_db_ok v j g l c u(1,2) q out] out(1) u(3) by simp
qed

end
