(* ===== verification/BillingLifecycle.thy ===== *)
theory BillingLifecycle
  imports Entitlements
begin

text \<open>
  The subscription lifecycle (\<^verbatim>\<open>src/api/billing_entitlement.py\<close>): what a conversion, a plan change, a failed
  payment and the end of a subscription do to the \<^verbatim>\<open>users\<close> row. A Stripe timestamp is the datetime that
  \<^verbatim>\<open>_stripe_ts\<close> makes of it.

  The lemmas show that only a conversion opens a fresh window, that there is at most one per paid entitlement
  however often events repeat, that a plan change never takes quota from the live window and always reaches
  its target at the next one, and that the dunning grace cannot be extended.
\<close>

subsection \<open>Days\<close>

definition next_day :: "datetime \<Rightarrow> datetime" where
  "next_day d =
     (if dt_day d < days_in_month (dt_year d) (dt_month d) then DateTime (dt_year d) (dt_month d) (dt_day d + 1) (dt_tod d)
      else if dt_month d < 12 then DateTime (dt_year d) (dt_month d + 1) 1 (dt_tod d)
      else DateTime (dt_year d + 1) 1 1 (dt_tod d))"

definition add_days :: "datetime \<Rightarrow> int \<Rightarrow> datetime" where
  "add_days d n = (next_day ^^ nat n) d"

lemma next_day_valid:
  assumes "valid_dt d"
  shows "valid_dt (next_day d)" "instant (next_day d) = instant d + usec_per_day"
proof -
  show "valid_dt (next_day d)"
    using assms by (auto simp: valid_dt_def next_day_def days_in_month_def)
  have m: "1 \<le> dt_month d" "dt_month d \<le> 12" "dt_day d \<le> days_in_month (dt_year d) (dt_month d)"
    using assms by (simp_all add: valid_dt_def)
  have o: "ymd2ord (dt_year (next_day d)) (dt_month (next_day d)) (dt_day (next_day d))
      = ymd2ord (dt_year d) (dt_month d) (dt_day d) + 1"
  proof (cases "dt_day d < days_in_month (dt_year d) (dt_month d)")
    case True
    then show ?thesis by (simp add: next_day_def ymd2ord_def)
  next
    case False
    then have day: "dt_day d = days_in_month (dt_year d) (dt_month d)" using m by simp
    show ?thesis
    proof (cases "dt_month d < 12")
      case True
      then show ?thesis
        using False day days_before_month_step [OF m(1) True] by (simp add: next_day_def ymd2ord_def)
    next
      case dec: False
      then have "dt_month d = 12" using m by simp
      then show ?thesis
        using False day
        by (simp add: next_day_def ymd2ord_def days_before_year_Suc days_before_month_def days_in_month_def)
    qed
  qed
  have t: "dt_tod (next_day d) = dt_tod d" by (simp add: next_day_def)
  show "instant (next_day d) = instant d + usec_per_day"
    unfolding instant_def o t by (simp add: distrib_right)
qed

lemma add_days_valid:
  assumes "valid_dt d"
  shows "valid_dt (add_days d n) \<and> instant (add_days d n) = instant d + int (nat n) * usec_per_day"
proof -
  have "valid_dt ((next_day ^^ k) d) \<and> instant ((next_day ^^ k) d) = instant d + int k * usec_per_day" for k
    by (induction k) (simp_all add: assms next_day_valid distrib_right)
  then show ?thesis by (simp add: add_days_def)
qed

subsection \<open>The transitions\<close>

definition ENTITLED_STATUSES :: "string list" where
  "ENTITLED_STATUSES = [''active'', ''trialing'', ''past_due'']"

definition BILLING_PAST_DUE_GRACE_DAYS :: int where
  "BILLING_PAST_DUE_GRACE_DAYS = 7"

text \<open>\<^verbatim>\<open>_rank\<close>: the unlimited plan is \<^verbatim>\<open>float("inf")\<close>.\<close>

definition plan_rank :: "int \<Rightarrow> bool \<times> int" where
  "plan_rank limit = (if limit = -1 then (True, 0) else (False, limit))"

definition start_fresh_paid_window :: "datetime option \<Rightarrow> datetime \<Rightarrow> user_row \<Rightarrow> user_row" where
  "start_fresh_paid_window anchor now u =
     (let a0 = opt_or anchor now;
          a = (if a0 > now then now else a0);
          (start, fin) = window_containing a now
      in u\<lparr> quota_anchor_at := a, quota_period_start := start, quota_period_end := fin, records_used := 0,
           records_period_start := start, paid_entitlement_ended_at := None \<rparr>)"

definition mark_payment_failed :: "datetime \<Rightarrow> user_row \<Rightarrow> datetime \<times> user_row" where
  "mark_payment_failed now u =
     (case entitlement_grace_ends_at u of
        None \<Rightarrow> let g = add_days now BILLING_PAST_DUE_GRACE_DAYS in (g, u\<lparr> entitlement_grace_ends_at := Some g \<rparr>)
      | Some g \<Rightarrow> (g, u))"

definition activate_paid_plan ::
    "string \<Rightarrow> int \<Rightarrow> string option \<Rightarrow> string option \<Rightarrow> datetime option \<Rightarrow> datetime \<Rightarrow> user_row \<Rightarrow> bool \<times> user_row" where
  "activate_paid_plan plan limit subscription_id status anchor now u =
     (let fresh = (first_paid_at u = None \<or> paid_entitlement_ended_at u \<noteq> None);
          u1 = u\<lparr> u_plan := plan, records_limit := limit, stripe_subscription_id := subscription_id,
                  subscription_status := status,
                  trial_consumed_at := Some (case trial_consumed_at u of Some t \<Rightarrow> t | None \<Rightarrow> opt_or (trial_ends_at u) now),
                  trial_ends_at := None, entitlement_ends_at := None, entitlement_grace_ends_at := None,
                  pending_plan := None, pending_records_limit := None \<rparr>;
          u2 = (if fresh then start_fresh_paid_window anchor now u1 else u1)
      in (fresh, u2\<lparr> first_paid_at := Some (opt_or (first_paid_at u2) now) \<rparr>))"

datatype plan_outcome = Upgrade | Downgrade_pending | Unchanged_plan | Converted

definition known_subscription :: "string option \<Rightarrow> user_row \<Rightarrow> bool" where
  "known_subscription subscription_id u \<longleftrightarrow> str_or subscription_id [] \<noteq> [] \<and> stripe_subscription_id u = subscription_id"

definition change_status :: "string option \<Rightarrow> string option \<Rightarrow> bool \<Rightarrow> datetime option \<Rightarrow> datetime \<Rightarrow> user_row \<Rightarrow> user_row" where
  "change_status subscription_id status cancel_at_period_end entitlement_end now u =
     (let u1 = u\<lparr> stripe_subscription_id := subscription_id, subscription_status := status \<rparr>;
          u2 = (if status = Some ''active'' \<or> status = Some ''trialing''
                then u1\<lparr> entitlement_grace_ends_at := None, trial_ends_at := None \<rparr>
                else if status = Some ''past_due'' then snd (mark_payment_failed now u1)
                else u1)
      in u2\<lparr> entitlement_ends_at := (if cancel_at_period_end then entitlement_end else None) \<rparr>)"

definition change_size :: "string \<Rightarrow> int \<Rightarrow> user_row \<Rightarrow> plan_outcome \<times> user_row" where
  "change_size plan limit u =
     (if plan_rank limit > plan_rank (records_limit u)
      then (Upgrade, u\<lparr> u_plan := plan, records_limit := limit, pending_plan := None, pending_records_limit := None \<rparr>)
      else if plan_rank limit < plan_rank (records_limit u)
      then (Downgrade_pending, u\<lparr> pending_plan := Some plan, pending_records_limit := Some limit \<rparr>)
      else (Unchanged_plan, u\<lparr> u_plan := plan, pending_plan := None, pending_records_limit := None \<rparr>))"

definition apply_plan_change ::
    "string \<Rightarrow> int \<Rightarrow> string option \<Rightarrow> string option \<Rightarrow> bool \<Rightarrow> datetime option \<Rightarrow> datetime option \<Rightarrow> datetime \<Rightarrow> user_row
      \<Rightarrow> plan_outcome \<times> user_row" where
  "apply_plan_change plan limit subscription_id status cancel_at_period_end entitlement_end anchor now u =
     (if (status = Some ''active'' \<or> status = Some ''trialing'') \<and> \<not> known_subscription subscription_id u \<and>
         (first_paid_at u = None \<or> paid_entitlement_ended_at u \<noteq> None)
      then (Converted, snd (activate_paid_plan plan limit subscription_id status anchor now u))
      else change_size plan limit (change_status subscription_id status cancel_at_period_end entitlement_end now u))"

definition starter_limit :: int where
  "starter_limit = opt_or (map_of PLAN_LIMITS ''starter'') 0"

definition end_subscription :: "datetime \<Rightarrow> user_row \<Rightarrow> user_row" where
  "end_subscription now u =
     u\<lparr> u_plan := ''starter'', records_limit := starter_limit, stripe_subscription_id := None,
        subscription_status := Some ''canceled'', paid_entitlement_ended_at := Some now, entitlement_ends_at := None,
        entitlement_grace_ends_at := None, pending_plan := None, pending_records_limit := None \<rparr>"


subsection \<open>The beat tasks' statements on one row\<close>

text \<open>
  \<^verbatim>\<open>scheduler_helpers/billing.py\<close>: retiring a lapsed entitlement and taking back a reversed cancellation are
  compare-and-set on the end date that was read (\<open>seen\<close>); a trial's downgrade carries its whole candidate
  predicate. The flag says whether the row was written.
\<close>

definition retire_lapsed :: "datetime \<Rightarrow> user_row \<Rightarrow> bool \<times> user_row" where
  "retire_lapsed seen u =
     (if entitlement_ends_at u = Some seen
      then (True, u\<lparr> u_plan := ''starter'', records_limit := starter_limit, stripe_subscription_id := None,
              subscription_status := Some ''canceled'',
              paid_entitlement_ended_at := (case paid_entitlement_ended_at u of Some t \<Rightarrow> Some t | None \<Rightarrow> entitlement_ends_at u),
              entitlement_ends_at := None, pending_plan := None, pending_records_limit := None \<rparr>)
      else (False, u))"

definition reverse_cancellation :: "datetime \<Rightarrow> string \<Rightarrow> user_row \<Rightarrow> user_row" where
  "reverse_cancellation seen status u =
     (if entitlement_ends_at u = Some seen
      then u\<lparr> entitlement_ends_at := None, subscription_status := Some status \<rparr> else u)"

definition trial_candidate :: "datetime \<Rightarrow> user_row \<Rightarrow> bool" where
  "trial_candidate now u \<longleftrightarrow>
     (case trial_ends_at u of None \<Rightarrow> False | Some t \<Rightarrow> t < now) \<and> u_plan u \<noteq> ''starter'' \<and>
     (case subscription_status u of None \<Rightarrow> True | Some s \<Rightarrow> s \<notin> set ENTITLED_STATUSES)"

definition downgrade_trial :: "datetime \<Rightarrow> bool \<Rightarrow> user_row \<Rightarrow> bool \<times> user_row" where
  "downgrade_trial now record_canceled u =
     (if trial_candidate now u
      then (True, u\<lparr> u_plan := ''starter'', records_limit := starter_limit,
              trial_consumed_at := Some (case trial_consumed_at u of Some t \<Rightarrow> t | None \<Rightarrow> opt_or (trial_ends_at u) now),
              subscription_status := (if record_canceled then Some ''canceled'' else subscription_status u),
              entitlement_ends_at := None, pending_plan := None, pending_records_limit := None \<rparr>)
      else (False, u))"

definition protect_payer :: "datetime \<Rightarrow> string \<Rightarrow> user_row \<Rightarrow> user_row" where
  "protect_payer now status u =
     u\<lparr> subscription_status := Some status, first_paid_at := Some (opt_or (first_paid_at u) (u_created_at u)),
        trial_consumed_at := Some (case trial_consumed_at u of Some t \<Rightarrow> t | None \<Rightarrow> opt_or (trial_ends_at u) now) \<rparr>"

subsection \<open>Any sequence of lifecycle events\<close>

text \<open>
  \<open>LE_used\<close> and \<open>LE_roll\<close> are the charging statements: they move the counter and the window, and nothing of
  the lifecycle.
\<close>

datatype lifecycle_event =
  LE_checkout string int "string option" "string option" "datetime option" datetime
| LE_change string int "string option" "string option" bool "datetime option" "datetime option" datetime
| LE_failed datetime
| LE_end datetime
| LE_lapse datetime
| LE_reverse datetime string
| LE_trial_over datetime bool
| LE_protect datetime string
| LE_roll datetime
| LE_used int

text \<open>The flag is True when the event opened a fresh paid window.\<close>

fun lifecycle_step :: "(datetime \<Rightarrow> datetime \<Rightarrow> int) \<Rightarrow> lifecycle_event \<Rightarrow> user_row \<Rightarrow> bool \<times> user_row" where
  "lifecycle_step age (LE_checkout plan limit sub st anchor now) u = activate_paid_plan plan limit sub st anchor now u"
| "lifecycle_step age (LE_change plan limit sub st c fin anchor now) u =
     (case apply_plan_change plan limit sub st c fin anchor now u of (out, u') \<Rightarrow> (out = Converted, u'))"
| "lifecycle_step age (LE_failed now) u = (False, snd (mark_payment_failed now u))"
| "lifecycle_step age (LE_end now) u = (False, end_subscription now u)"
| "lifecycle_step age (LE_lapse seen) u = (False, snd (retire_lapsed seen u))"
| "lifecycle_step age (LE_reverse seen st) u = (False, reverse_cancellation seen st u)"
| "lifecycle_step age (LE_trial_over now rec) u = (False, snd (downgrade_trial now rec u))"
| "lifecycle_step age (LE_protect now st) u = (False, protect_payer now st u)"
| "lifecycle_step age (LE_roll at) u =
     (False, if roll_predicate u at then (window_set (window_cte age u at) u)\<lparr> records_used := 0 \<rparr> else u)"
| "lifecycle_step age (LE_used n) u = (False, u\<lparr> records_used := n \<rparr>)"

fun lifecycle_run :: "(datetime \<Rightarrow> datetime \<Rightarrow> int) \<Rightarrow> lifecycle_event list \<Rightarrow> user_row \<Rightarrow> nat \<times> user_row" where
  "lifecycle_run age [] u = (0, u)"
| "lifecycle_run age (e # es) u =
     (case lifecycle_step age e u of (fresh, u1) \<Rightarrow>
        (case lifecycle_run age es u1 of (n, u2) \<Rightarrow> (if fresh then n + 1 else n, u2)))"

fun ends_entitlement :: "lifecycle_event \<Rightarrow> bool" where
  "ends_entitlement (LE_end _) = True"
| "ends_entitlement (LE_lapse _) = True"
| "ends_entitlement _ = False"

fun charges :: "lifecycle_event \<Rightarrow> bool" where
  "charges (LE_roll _) = True"
| "charges (LE_used _) = True"
| "charges _ = False"

text \<open>May the next conversion open a fresh window?\<close>

definition fresh_right :: "user_row \<Rightarrow> nat" where
  "fresh_right u = (if first_paid_at u = None \<or> paid_entitlement_ended_at u \<noteq> None then 1 else 0)"

definition quota_state :: "user_row \<Rightarrow> datetime \<times> datetime \<times> datetime \<times> int \<times> datetime" where
  "quota_state u = (quota_anchor_at u, quota_period_start u, quota_period_end u, records_used u, records_period_start u)"

lemma mark_payment_failed_keeps [simp]:
  "first_paid_at (snd (mark_payment_failed now u)) = first_paid_at u"
  "paid_entitlement_ended_at (snd (mark_payment_failed now u)) = paid_entitlement_ended_at u"
  "quota_state (snd (mark_payment_failed now u)) = quota_state u"
  "records_limit (snd (mark_payment_failed now u)) = records_limit u"
  "stripe_subscription_id (snd (mark_payment_failed now u)) = stripe_subscription_id u"
  "u_plan (snd (mark_payment_failed now u)) = u_plan u"
  "pending_plan (snd (mark_payment_failed now u)) = pending_plan u"
  "pending_records_limit (snd (mark_payment_failed now u)) = pending_records_limit u"
  by (simp_all add: mark_payment_failed_def quota_state_def Let_def split: option.splits)

lemma change_status_keeps [simp]:
  "first_paid_at (change_status sub st c fin now u) = first_paid_at u"
  "paid_entitlement_ended_at (change_status sub st c fin now u) = paid_entitlement_ended_at u"
  "quota_state (change_status sub st c fin now u) = quota_state u"
  "records_limit (change_status sub st c fin now u) = records_limit u"
  "u_plan (change_status sub st c fin now u) = u_plan u"
  by (simp_all add: change_status_def Let_def quota_state_def mark_payment_failed_def split: option.splits)

lemma change_size_keeps [simp]:
  "first_paid_at (snd (change_size plan limit u)) = first_paid_at u"
  "paid_entitlement_ended_at (snd (change_size plan limit u)) = paid_entitlement_ended_at u"
  "quota_state (snd (change_size plan limit u)) = quota_state u"
  "fst (change_size plan limit u) \<noteq> Converted"
  by (simp_all add: change_size_def quota_state_def)

lemma activate_fresh:
  assumes "activate_paid_plan plan limit sub st anchor now u = (fresh, u')"
  shows "fresh \<longleftrightarrow> fresh_right u = 1" "fresh_right u' = 0" "\<not> fresh \<Longrightarrow> quota_state u' = quota_state u"
  using assms
  by (auto simp: activate_paid_plan_def Let_def fresh_right_def quota_state_def start_fresh_paid_window_def
      split: if_splits prod.splits)

lemma change_fresh:
  assumes "apply_plan_change plan limit sub st c fin anchor now u = (out, u')"
  shows "out = Converted \<Longrightarrow> fresh_right u = 1 \<and> fresh_right u' = 0"
    "out \<noteq> Converted \<Longrightarrow> fresh_right u' = fresh_right u \<and> quota_state u' = quota_state u"
proof -
  let ?conv = "(st = Some ''active'' \<or> st = Some ''trialing'') \<and> \<not> known_subscription sub u \<and>
         (first_paid_at u = None \<or> paid_entitlement_ended_at u \<noteq> None)"
  let ?u1 = "change_status sub st c fin now u"
  have r: "fresh_right (snd (change_size plan limit ?u1)) = fresh_right u"
    "quota_state (snd (change_size plan limit ?u1)) = quota_state u" by (simp_all add: fresh_right_def)
  show "fresh_right u = 1 \<and> fresh_right u' = 0" if out: "out = Converted"
  proof -
    have c: ?conv
    proof (rule ccontr)
      assume "\<not> ?conv"
      then have "change_size plan limit ?u1 = (out, u')" using assms unfolding apply_plan_change_def by (simp only: if_False)
      then show False using change_size_keeps(4) [of plan limit ?u1] out by simp
    qed
    have "u' = snd (activate_paid_plan plan limit sub st anchor now u)"
      using assms c by (simp add: apply_plan_change_def)
    then show ?thesis using activate_fresh(2) [of plan limit sub st anchor now u] c
      by (metis fresh_right_def prod.collapse)
  qed
  show "fresh_right u' = fresh_right u \<and> quota_state u' = quota_state u" if out: "out \<noteq> Converted"
  proof -
    have "u' = snd (change_size plan limit ?u1)"
      using assms out by (auto simp: apply_plan_change_def split: if_splits)
    then show ?thesis using r by simp
  qed
qed

lemma lifecycle_step_right:
  assumes "lifecycle_step age e u = (fresh, u')"
  shows "(if fresh then 1 else 0) + fresh_right u' \<le> fresh_right u + (if ends_entitlement e then 1 else 0) \<and>
    (\<not> fresh \<and> \<not> charges e \<longrightarrow> quota_state u' = quota_state u)"
proof (cases e)
  case (LE_checkout plan limit sub st anchor now)
  then show ?thesis using activate_fresh [of plan limit sub st anchor now u fresh u'] assms by auto
next
  case (LE_change plan limit sub st c fin anchor now)
  obtain out w where w: "apply_plan_change plan limit sub st c fin anchor now u = (out, w)" by fastforce
  then show ?thesis using change_fresh [OF w] assms LE_change by (cases "out = Converted") auto
qed (use assms in \<open>auto simp: fresh_right_def quota_state_def mark_payment_failed_def end_subscription_def retire_lapsed_def
      reverse_cancellation_def downgrade_trial_def protect_payer_def window_set_def Let_def split: if_splits option.splits\<close>)

lemma lifecycle_run_right:
  "lifecycle_run age es u = (n, u') \<Longrightarrow>
    n + fresh_right u' \<le> fresh_right u + length (filter ends_entitlement es)"
proof (induction es arbitrary: u n u')
  case (Cons e es)
  obtain fresh u1 where s: "lifecycle_step age e u = (fresh, u1)" by fastforce
  obtain m u2 where r: "lifecycle_run age es u1 = (m, u2)" by fastforce
  show ?case using Cons.prems Cons.IH [OF r] lifecycle_step_right [OF s] s r by (auto split: if_splits)
qed simp


subsection \<open>The plan that a change reaches\<close>

lemma plan_rank_inj: "plan_rank a = plan_rank b \<longleftrightarrow> a = b"
  by (auto simp: plan_rank_def)

lemma roll_sets_pending:
  assumes "roll_predicate u at"
  shows "records_limit (window_set (window_cte age u at) u) = opt_or (pending_records_limit u) (records_limit u)"
    "u_plan (window_set (window_cte age u at) u) = opt_or (pending_plan u) (u_plan u)"
    "pending_plan (window_set (window_cte age u at) u) = None"
  using assms by (simp_all add: window_set_def window_cte_def Let_def)

lemma change_size_target:
  assumes "change_size plan limit u = (out, u')"
  shows "plan_rank (records_limit u) \<le> plan_rank (records_limit u')"
    "opt_or (pending_records_limit u') (records_limit u') = limit" "opt_or (pending_plan u') (u_plan u') = plan"
    "out = Downgrade_pending \<longleftrightarrow> plan_rank limit < plan_rank (records_limit u)"
    "out \<noteq> Downgrade_pending \<Longrightarrow> records_limit u' = limit \<and> u_plan u' = plan"
    "out = Downgrade_pending \<Longrightarrow> records_limit u' = records_limit u \<and> u_plan u' = u_plan u"
proof -
  consider "plan_rank limit > plan_rank (records_limit u)" | "plan_rank limit < plan_rank (records_limit u)"
    | "plan_rank limit = plan_rank (records_limit u)" by fastforce
  then have "plan_rank (records_limit u) \<le> plan_rank (records_limit u') \<and>
    opt_or (pending_records_limit u') (records_limit u') = limit \<and> opt_or (pending_plan u') (u_plan u') = plan \<and>
    (out = Downgrade_pending \<longleftrightarrow> plan_rank limit < plan_rank (records_limit u)) \<and>
    (out \<noteq> Downgrade_pending \<longrightarrow> records_limit u' = limit \<and> u_plan u' = plan) \<and>
    (out = Downgrade_pending \<longrightarrow> records_limit u' = records_limit u \<and> u_plan u' = u_plan u)"
  proof cases
    case 3
    then show ?thesis using assms plan_rank_inj [of limit "records_limit u"] by (auto simp: change_size_def)
  next
    case 2
    have "\<not> plan_rank limit > plan_rank (records_limit u)" using 2 by (rule less_not_sym)
    then show ?thesis using assms 2 by (auto simp: change_size_def)
  qed (use assms in \<open>auto simp: change_size_def\<close>)
  then show "plan_rank (records_limit u) \<le> plan_rank (records_limit u')"
    "opt_or (pending_records_limit u') (records_limit u') = limit" "opt_or (pending_plan u') (u_plan u') = plan"
    "out = Downgrade_pending \<longleftrightarrow> plan_rank limit < plan_rank (records_limit u)"
    "out \<noteq> Downgrade_pending \<Longrightarrow> records_limit u' = limit \<and> u_plan u' = plan"
    "out = Downgrade_pending \<Longrightarrow> records_limit u' = records_limit u \<and> u_plan u' = u_plan u" by blast+
qed

lemma change_target:
  assumes "apply_plan_change plan limit sub st c fin anchor now u = (out, u')" "out \<noteq> Converted"
  shows "quota_state u' = quota_state u" "plan_rank (records_limit u) \<le> plan_rank (records_limit u')"
    "roll_predicate u' at \<Longrightarrow> records_limit (window_set (window_cte age u' at) u') = limit
       \<and> u_plan (window_set (window_cte age u' at) u') = plan"
    "out = Downgrade_pending \<longleftrightarrow> plan_rank limit < plan_rank (records_limit u)"
    "out \<noteq> Downgrade_pending \<Longrightarrow> records_limit u' = limit \<and> u_plan u' = plan"
    "out = Downgrade_pending \<Longrightarrow> records_limit u' = records_limit u \<and> u_plan u' = u_plan u"
proof -
  let ?u1 = "change_status sub st c fin now u"
  have cs: "change_size plan limit ?u1 = (out, u')"
    using assms by (auto simp: apply_plan_change_def split: if_splits)
  show "quota_state u' = quota_state u" by (rule conjunct2 [OF change_fresh(2) [OF assms]])
  note t = change_size_target [OF cs, unfolded change_status_keeps]
  show "plan_rank (records_limit u) \<le> plan_rank (records_limit u')" by (rule t(1))
  show "roll_predicate u' at \<Longrightarrow> records_limit (window_set (window_cte age u' at) u') = limit
       \<and> u_plan (window_set (window_cte age u' at) u') = plan"
    using roll_sets_pending t(2,3) by simp
  show "out = Downgrade_pending \<longleftrightarrow> plan_rank limit < plan_rank (records_limit u)" by (rule t(4))
  show "out \<noteq> Downgrade_pending \<Longrightarrow> records_limit u' = limit \<and> u_plan u' = plan" by (rule t(5))
  show "out = Downgrade_pending \<Longrightarrow> records_limit u' = records_limit u \<and> u_plan u' = u_plan u" by (rule t(6))
qed

lemma change_due:
  assumes "apply_plan_change plan limit sub st c fin anchor now u = (out, u')" "out \<noteq> Converted"
  shows "opt_or (pending_plan u') (u_plan u') = plan \<and> opt_or (pending_records_limit u') (records_limit u') = limit"
proof -
  have "change_size plan limit (change_status sub st c fin now u) = (out, u')"
    using assms by (auto simp: apply_plan_change_def split: if_splits)
  then show ?thesis using change_size_target(2,3) by blast
qed

subsection \<open>Dunning\<close>

lemma failures_keep_first_grace:
  assumes "entitlement_grace_ends_at u = Some g"
  shows "entitlement_grace_ends_at (fold (\<lambda>s u. snd (mark_payment_failed s u)) ts u) = Some g \<and>
    subscription_status (fold (\<lambda>s u. snd (mark_payment_failed s u)) ts u) = subscription_status u"
  using assms by (induction ts arbitrary: u) (simp_all add: mark_payment_failed_def)

lemma grace_decides:
  assumes "entitlement_grace_ends_at u = None" "subscription_status u = Some ''past_due''" "valid_dt t" "valid_dt at"
  shows "is_frozen (fold (\<lambda>s u. snd (mark_payment_failed s u)) (t # ts) u) at
    \<longleftrightarrow> instant t + BILLING_PAST_DUE_GRACE_DAYS * usec_per_day \<le> instant at"
proof -
  let ?g = "add_days t BILLING_PAST_DUE_GRACE_DAYS"
  have g: "valid_dt ?g" "instant ?g = instant t + BILLING_PAST_DUE_GRACE_DAYS * usec_per_day"
    using add_days_valid [OF assms(3), of BILLING_PAST_DUE_GRACE_DAYS] by (simp_all add: BILLING_PAST_DUE_GRACE_DAYS_def)
  have u1: "entitlement_grace_ends_at (snd (mark_payment_failed t u)) = Some ?g"
    "subscription_status (snd (mark_payment_failed t u)) = Some ''past_due''"
    using assms(1,2) by (simp_all add: mark_payment_failed_def Let_def)
  have s: "py_strip ''past_due'' = ''past_due''" by code_simp
  show ?thesis
    using failures_keep_first_grace [OF u1(1), of ts] u1(2) dt_le_iff_instant [OF g(1) assms(4)] g(2)
    by (simp add: is_frozen_def s FROZEN_STATUSES_def str_or_def)
qed


subsection \<open>Properties\<close>

text \<open>
  C23: One fresh window per paid entitlement. Over any sequence of checkouts, subscription updates, payment
  failures, cancellations, lapses, beat repairs, rolls and charges, in any order and with any repetitions,
  the windows that conversions open fresh are at most one (for an account that has never paid, or whose
  entitlement has ended) plus one for each end of an entitlement. Every other lifecycle event leaves
  anchor, window and counter as they are: a plan change cannot be farmed for quota.
\<close>

theorem one_fresh_window_per_entitlement:
  "fst (lifecycle_run age es u) + fresh_right (snd (lifecycle_run age es u))
      \<le> fresh_right u + length (filter ends_entitlement es) \<and>
   (fst (lifecycle_step age e u) \<or> charges e \<or> quota_state (snd (lifecycle_step age e u)) = quota_state u)"
proof -
  obtain fresh u' where s: "lifecycle_step age e u = (fresh, u')" by fastforce
  obtain n u2 where r: "lifecycle_run age es u = (n, u2)" by fastforce
  show ?thesis using lifecycle_step_right [OF s] lifecycle_run_right [OF r] s r by auto
qed

text \<open>
  C26: A plan change never takes quota from the live window and always reaches its target. Unless it is a
  conversion it leaves anchor, window and counter alone and never lowers the live limit (unlimited counting as the
  largest), whatever status or cancellation came with it. A larger or equal plan holds at once; a smaller one is
  parked with the live plan and limit kept. Either way the plan and limit the account is due next are exactly those of
  the change, and they are the ones in force after the first roll of the window, whenever the account's entitlement
  lets it roll (a frozen account's window does not roll, and one cancelled by the end of its window keeps it).
\<close>

theorem plan_change_reaches_its_target:
  assumes "apply_plan_change plan limit sub st c fin anchor now u = (out, u')" "out \<noteq> Converted"
  shows "quota_state u' = quota_state u \<and> plan_rank (records_limit u) \<le> plan_rank (records_limit u') \<and>
    (if plan_rank limit < plan_rank (records_limit u) then records_limit u' = records_limit u \<and> u_plan u' = u_plan u
     else records_limit u' = limit \<and> u_plan u' = plan) \<and>
    opt_or (pending_plan u') (u_plan u') = plan \<and> opt_or (pending_records_limit u') (records_limit u') = limit \<and>
    (roll_predicate u' at \<longrightarrow>
       records_limit (window_set (window_cte age u' at) u') = limit \<and> u_plan (window_set (window_cte age u' at) u') = plan)"
  using change_target [OF assms] change_due [OF assms] by (cases "out = Downgrade_pending") auto

theorem plan_change_reaches_its_target_witness:
  "let u' = snd (apply_plan_change ''starter'' 50 (Some ''sub'') (Some ''active'') False None None (DateTime 2026 3 5 0) sample_user)
   in records_limit u' = 1000 \<and> records_used u' = 900 \<and>
      records_limit (window_set (window_cte sample_age u' (DateTime 2026 4 1 0)) u') = 50"
proof -
  let ?c = "apply_plan_change ''starter'' 50 (Some ''sub'') (Some ''active'') False None None (DateTime 2026 3 5 0) sample_user"
  obtain out u' where c: "?c = (out, u')" by fastforce
  have "fst ?c = Downgrade_pending" "roll_predicate (snd ?c) (DateTime 2026 4 1 0)"
    "plan_rank 50 < plan_rank (records_limit sample_user)" "records_limit sample_user = 1000" "records_used sample_user = 900"
    by code_simp+
  then show ?thesis
    using plan_change_reaches_its_target [OF c, where at = "DateTime 2026 4 1 0" and age = sample_age] c by (simp add: quota_state_def Let_def)
qed

text \<open>
  The dunning grace cannot be extended. However many failed payments follow the first one, a past-due
  account is served exactly until seven days after the first failure, and frozen from then on.
\<close>

theorem dunning_grace_is_fixed:
  assumes "entitlement_grace_ends_at u = None" "subscription_status u = Some ''past_due''" "valid_dt t" "valid_dt at"
  shows "is_frozen (fold (\<lambda>s u. snd (mark_payment_failed s u)) (t # ts) u) at \<longleftrightarrow> instant t + 7 * usec_per_day \<le> instant at"
  using grace_decides [OF assms] by (simp add: BILLING_PAST_DUE_GRACE_DAYS_def)

theorem dunning_grace_is_fixed_witness:
  "let u' = fold (\<lambda>s u. snd (mark_payment_failed s u)) [DateTime 2026 2 25 5, DateTime 2026 3 3 0] (sample_user\<lparr> subscription_status := Some ''past_due'' \<rparr>)
   in \<not> is_frozen u' (DateTime 2026 3 4 4) \<and> is_frozen u' (DateTime 2026 3 4 5)"
proof -
  let ?u = "sample_user\<lparr> subscription_status := Some ''past_due'' \<rparr>"
  have u: "entitlement_grace_ends_at ?u = None" "subscription_status ?u = Some ''past_due''" "valid_dt (DateTime 2026 2 25 5)"
    "valid_dt (DateTime 2026 3 4 4)" "valid_dt (DateTime 2026 3 4 5)" by code_simp+
  have i: "\<not> instant (DateTime 2026 2 25 5) + 7 * usec_per_day \<le> instant (DateTime 2026 3 4 4)"
    "instant (DateTime 2026 2 25 5) + 7 * usec_per_day \<le> instant (DateTime 2026 3 4 5)" by code_simp+
  show ?thesis
    using dunning_grace_is_fixed [OF u(1-4), of "[DateTime 2026 3 3 0]"] dunning_grace_is_fixed [OF u(1-3,5), of "[DateTime 2026 3 3 0]"] i
    by (simp add: Let_def)
qed

end
