(* ===== verification/BillingWebhook.thy ===== *)
theory BillingWebhook
  imports BillingLifecycle
begin

text \<open>
  The Stripe webhook (\<^verbatim>\<open>src/api/routes/billing.py\<close>): the event ledger that makes a delivery count once, and
  the handlers that turn an event into lifecycle transitions. A delivery is one transaction under the lock of
  its event, so deliveries are a sequence; one that raises is rolled back and Stripe sends it again.

  Stripe is an argument: what its API answers at the time of the delivery, None where the call raises. The
  price map and the clock are arguments too. Alerts and log lines carry no state and are left out; the mails
  a delivery sends after its commit are its result.
\<close>

subsection \<open>Stripe's objects\<close>

record stripe_subscription =
  ss_id :: "string option"
  ss_customer :: "string option"
  ss_status :: "string option"
  ss_prices :: "string option list"
  ss_cancel_at_period_end :: bool
  ss_cancel_at :: "datetime option"
  ss_current_period_end :: "datetime option"
  ss_anchor :: "datetime option"

record stripe_invoice =
  inv_id :: "string option"
  inv_customer :: "string option"
  inv_legacy_subscription :: "string option"
  inv_parent_subscription :: "string option"
  inv_attempt_count :: "int option"

record stripe_api =
  sa_retrieve :: "string \<Rightarrow> stripe_subscription option"
  sa_list :: "string \<Rightarrow> stripe_subscription list option"
  sa_invoice_status :: "string \<Rightarrow> string option option"

record checkout_session =
  cs_user :: "string option"
  cs_subscription :: "string option"
  cs_customer :: "string option"

datatype billing_event =
  Checkout_completed checkout_session
| Subscription_created stripe_subscription
| Subscription_updated stripe_subscription
| Subscription_deleted stripe_subscription
| Invoice_payment_failed stripe_invoice
| Other_event

type_synonym price_map = "string \<Rightarrow> (string \<times> int \<times> string) option"

text \<open>Python's truth of an optional text.\<close>

definition given :: "string option \<Rightarrow> bool" where
  "given x \<longleftrightarrow> str_or x [] \<noteq> []"

definition plan_item_price_id :: "price_map \<Rightarrow> string option list \<Rightarrow> string option" where
  "plan_item_price_id prices items =
     Option.bind (find (\<lambda>p. given p \<and> prices (opt_or p []) \<noteq> None) items) id"

definition invoice_subscription_id :: "stripe_invoice \<Rightarrow> string option" where
  "invoice_subscription_id iv =
     (if given (inv_legacy_subscription iv) then inv_legacy_subscription iv
      else if given (inv_parent_subscription iv) then inv_parent_subscription iv else None)"

definition ENTITLED_CHECKOUT_STATUSES :: "string list" where
  "ENTITLED_CHECKOUT_STATUSES = [''active'', ''trialing'']"

definition DUNNING_SUBSCRIPTION_STATUSES :: "string list" where
  "DUNNING_SUBSCRIPTION_STATUSES = [''past_due'', ''unpaid'']"

definition TERMINAL_SUBSCRIPTION_STATUSES :: "string list" where
  "TERMINAL_SUBSCRIPTION_STATUSES = [''canceled'', ''incomplete_expired'']"

definition status_in :: "stripe_subscription \<Rightarrow> string list \<Rightarrow> bool" where
  "status_in s statuses \<longleftrightarrow> (case ss_status s of None \<Rightarrow> False | Some x \<Rightarrow> x \<in> set statuses)"

subsection \<open>State\<close>

text \<open>
  \<open>bl_referred_by\<close> is \<^verbatim>\<open>users.referred_by_user_id\<close>, \<open>bl_referrals\<close> the (referrer, referee) rows of
  \<^verbatim>\<open>referral_events\<close> and \<open>bl_credit\<close> is \<^verbatim>\<open>users.referral_credit_cents\<close>.
\<close>

record billing_db =
  bl_users :: "user_row list"
  bl_configs :: "string \<Rightarrow> config_row list"
  bl_ledger :: "string list"
  bl_referred_by :: "string \<Rightarrow> string option"
  bl_referrals :: "(string \<times> string) list"
  bl_credit :: "string \<Rightarrow> int"

definition user_of :: "string \<Rightarrow> billing_db \<Rightarrow> user_row option" where
  "user_of uid db = find (\<lambda>u. u_id u = uid) (bl_users db)"

definition customer_of :: "string \<Rightarrow> billing_db \<Rightarrow> user_row option" where
  "customer_of cid db = find (\<lambda>u. stripe_customer_id u = Some cid) (bl_users db)"

definition put_user :: "user_row \<Rightarrow> billing_db \<Rightarrow> billing_db" where
  "put_user u db = db\<lparr> bl_users := map (\<lambda>v. if u_id v = u_id u then u else v) (bl_users db) \<rparr>"

definition reconcile_configs :: "bool \<Rightarrow> string \<Rightarrow> string \<Rightarrow> billing_db \<Rightarrow> billing_db" where
  "reconcile_configs enforcing uid plan db =
     db\<lparr> bl_configs := (bl_configs db)(uid := fst (apply_reconciliation enforcing (bl_configs db uid) plan)) \<rparr>"

definition REFERRAL_BONUS_CENTS :: int where
  "REFERRAL_BONUS_CENTS = 2000"

definition grant_referral_credit :: "string \<Rightarrow> billing_db \<Rightarrow> billing_db" where
  "grant_referral_credit referee db =
     (case bl_referred_by db referee of
        None \<Rightarrow> db
      | Some r \<Rightarrow>
          if referee \<in> set (map snd (bl_referrals db)) then db
          else db\<lparr> bl_referrals := bl_referrals db @ [(r, referee)],
                   bl_credit := (bl_credit db)(r := bl_credit db r + REFERRAL_BONUS_CENTS) \<rparr>)"

subsection \<open>The handlers\<close>

datatype webhook_error = Stripe_unavailable | Constraint_violation | No_invoice_id

datatype payment_notice = Payment_failed_email string int | Payment_failed_notice string int

definition handle_checkout_completed ::
    "stripe_api \<Rightarrow> price_map \<Rightarrow> datetime \<Rightarrow> checkout_session \<Rightarrow> billing_db \<Rightarrow> webhook_error + billing_db" where
  "handle_checkout_completed api prices now data db =
     (if \<not> given (cs_user data) \<or> \<not> given (cs_subscription data) then Inr db
      else (case sa_retrieve api (opt_or (cs_subscription data) []) of
          None \<Rightarrow> Inl Stripe_unavailable
        | Some s \<Rightarrow>
            (case Option.bind (plan_item_price_id prices (ss_prices s)) prices of
               None \<Rightarrow> Inr db
             | Some (plan, limit, _) \<Rightarrow>
                 (case user_of (opt_or (cs_user data) []) db of
                    None \<Rightarrow> Inr db
                  | Some u \<Rightarrow>
                      if given (cs_customer data) \<and> given (stripe_customer_id u) \<and> stripe_customer_id u \<noteq> cs_customer data
                      then Inr db
                      else let bind = given (cs_customer data) \<and> \<not> given (stripe_customer_id u);
                               u1 = (if bind then u\<lparr> stripe_customer_id := cs_customer data \<rparr> else u)
                           in if bind \<and> list_ex (\<lambda>v. u_id v \<noteq> u_id u \<and> stripe_customer_id v = cs_customer data) (bl_users db)
                              then Inl Constraint_violation
                              else if \<not> status_in s ENTITLED_CHECKOUT_STATUSES then Inr (put_user u1 db)
                              else let u2 = snd (activate_paid_plan plan limit (cs_subscription data) (ss_status s) (ss_anchor s) now u1)
                                   in Inr (grant_referral_credit (u_id u) (put_user u2 db))))))"

definition dunning_on_plan_already_paid_for :: "stripe_subscription \<Rightarrow> string \<Rightarrow> user_row \<Rightarrow> bool" where
  "dunning_on_plan_already_paid_for s plan u \<longleftrightarrow>
     status_in s DUNNING_SUBSCRIPTION_STATUSES \<and> stripe_subscription_id u = None \<and> first_paid_at u \<noteq> None \<and>
     normalize_plan (Some (u_plan u)) = normalize_plan (Some plan)"

definition apply_subscription ::
    "stripe_api \<Rightarrow> bool \<Rightarrow> datetime \<Rightarrow> string \<Rightarrow> stripe_subscription \<Rightarrow> string \<Rightarrow> int \<Rightarrow> user_row \<Rightarrow> billing_db
      \<Rightarrow> webhook_error + billing_db" where
  "apply_subscription api enforcing now customer s plan limit u db =
     (let dunning = dunning_on_plan_already_paid_for s plan u;
          ask = dunning \<and> ss_id s \<noteq> stripe_subscription_id u
      in if ask \<and> sa_list api customer = None then Inl Stripe_unavailable
         else if ask \<and> map ss_id (filter (\<lambda>x. \<not> status_in x TERMINAL_SUBSCRIPTION_STATUSES) (opt_or (sa_list api customer) [])) \<noteq> [ss_id s]
         then Inr db
         else if ss_id s \<noteq> stripe_subscription_id u \<and> \<not> status_in s ENTITLED_CHECKOUT_STATUSES \<and> \<not> dunning then Inr db
         else (case apply_plan_change plan limit (ss_id s) (ss_status s) (ss_cancel_at_period_end s)
                  (case ss_cancel_at s of None \<Rightarrow> ss_current_period_end s | Some t \<Rightarrow> Some t) (ss_anchor s) now u of
             (out, u') \<Rightarrow>
               Inr (if out \<noteq> Downgrade_pending then reconcile_configs enforcing (u_id u') (u_plan u') (put_user u' db)
                    else put_user u' db)))"

definition handle_subscription_updated ::
    "stripe_api \<Rightarrow> price_map \<Rightarrow> bool \<Rightarrow> datetime \<Rightarrow> bool \<Rightarrow> stripe_subscription \<Rightarrow> billing_db \<Rightarrow> webhook_error + billing_db" where
  "handle_subscription_updated api prices enforcing now require_entitled ev db =
     (if \<not> given (ss_customer ev) then Inr db
      else let customer = opt_or (ss_customer ev) []
           in (case (if given (ss_id ev) then sa_retrieve api (opt_or (ss_id ev) []) else Some ev) of
                 None \<Rightarrow> Inl Stripe_unavailable
               | Some s \<Rightarrow>
                   if require_entitled \<and> \<not> status_in s ENTITLED_CHECKOUT_STATUSES then Inr db
                   else (case Option.bind (plan_item_price_id prices (ss_prices s)) prices of
                       None \<Rightarrow> Inr db
                     | Some (plan, limit, _) \<Rightarrow>
                         (case customer_of customer db of
                            None \<Rightarrow> Inr db
                          | Some u \<Rightarrow> apply_subscription api enforcing now customer s plan limit u db))))"

definition handle_subscription_deleted ::
    "stripe_api \<Rightarrow> price_map \<Rightarrow> bool \<Rightarrow> datetime \<Rightarrow> stripe_subscription \<Rightarrow> billing_db \<Rightarrow> webhook_error + billing_db" where
  "handle_subscription_deleted api prices enforcing now ev db =
     (if \<not> given (ss_customer ev) then Inr db
      else (case customer_of (opt_or (ss_customer ev) []) db of
          None \<Rightarrow> Inr db
        | Some u \<Rightarrow>
            (case sa_list api (opt_or (ss_customer ev) []) of
               None \<Rightarrow> Inl Stripe_unavailable
             | Some subs \<Rightarrow>
                 (case find (\<lambda>s. ss_id s \<noteq> ss_id ev \<and> status_in s ENTITLED_CHECKOUT_STATUSES
                                \<and> plan_item_price_id prices (ss_prices s) \<noteq> None) subs of
                    Some survivor \<Rightarrow>
                      if ss_id survivor \<noteq> stripe_subscription_id u
                      then handle_subscription_updated api prices enforcing now False
                             (ev\<lparr> ss_id := ss_id survivor, ss_status := None, ss_prices := [] \<rparr>) db
                      else Inr db
                  | None \<Rightarrow>
                      let u' = end_subscription now u
                      in Inr (reconcile_configs enforcing (u_id u') (u_plan u') (put_user u' db))))))"

definition clamp_attempts :: "int option \<Rightarrow> int" where
  "clamp_attempts n = (case n of None \<Rightarrow> 1 | Some k \<Rightarrow> max 1 (min k 20))"

definition handle_payment_failed ::
    "stripe_api \<Rightarrow> datetime \<Rightarrow> stripe_invoice \<Rightarrow> billing_db \<Rightarrow> webhook_error + (payment_notice list \<times> billing_db)" where
  "handle_payment_failed api now data db =
     (if \<not> given (inv_customer data) then Inr ([], db)
      else (case customer_of (opt_or (inv_customer data) []) db of
          None \<Rightarrow> Inr ([], db)
        | Some u \<Rightarrow>
            if \<not> given (inv_id data) then Inl No_invoice_id
            else (case sa_invoice_status api (opt_or (inv_id data) []) of
                None \<Rightarrow> Inl Stripe_unavailable
              | Some invoice_status \<Rightarrow>
                  let sub = invoice_subscription_id data;
                      recorded = sub \<noteq> None \<and> sub = stripe_subscription_id u;
                      current = (if recorded then sa_retrieve api (opt_or sub []) else None);
                      notes = (if invoice_status \<noteq> Some ''open'' then []
                               else [Payment_failed_email (u_id u) (clamp_attempts (inv_attempt_count data)),
                                     Payment_failed_notice (u_id u) (clamp_attempts (inv_attempt_count data))])
                  in if recorded \<and> current = None then Inl Stripe_unavailable
                     else (case current of
                         None \<Rightarrow> Inr (notes, db)
                       | Some s \<Rightarrow>
                           if status_in s DUNNING_SUBSCRIPTION_STATUSES
                           then Inr (notes, put_user ((snd (mark_payment_failed now u))\<lparr> subscription_status := ss_status s \<rparr>) db)
                           else Inr (notes, db)))))"

subsection \<open>The route\<close>

definition dispatch_stripe_event ::
    "stripe_api \<Rightarrow> price_map \<Rightarrow> bool \<Rightarrow> datetime \<Rightarrow> billing_event \<Rightarrow> billing_db \<Rightarrow> webhook_error + (payment_notice list \<times> billing_db)" where
  "dispatch_stripe_event api prices enforcing now ev db =
     (case ev of
        Checkout_completed d \<Rightarrow> map_sum id (Pair []) (handle_checkout_completed api prices now d db)
      | Subscription_created d \<Rightarrow> map_sum id (Pair []) (handle_subscription_updated api prices enforcing now True d db)
      | Subscription_updated d \<Rightarrow> map_sum id (Pair []) (handle_subscription_updated api prices enforcing now False d db)
      | Subscription_deleted d \<Rightarrow> map_sum id (Pair []) (handle_subscription_deleted api prices enforcing now d db)
      | Invoice_payment_failed d \<Rightarrow> handle_payment_failed api now d db
      | Other_event \<Rightarrow> Inr ([], db))"

datatype webhook_result = Acknowledged | Processed "payment_notice list" | Refused webhook_error | Busy

text \<open>\<open>locked\<close>: the lock of the event was obtained within its timeout; otherwise the answer is 409.\<close>

definition stripe_webhook ::
    "price_map \<Rightarrow> bool \<Rightarrow> stripe_api \<Rightarrow> datetime \<Rightarrow> bool \<Rightarrow> string \<Rightarrow> billing_event \<Rightarrow> billing_db \<Rightarrow> webhook_result \<times> billing_db" where
  "stripe_webhook prices enforcing api now locked event_id ev db =
     (if event_id \<noteq> [] \<and> \<not> locked then (Busy, db)
      else if event_id \<noteq> [] \<and> event_id \<in> set (bl_ledger db) then (Acknowledged, db)
      else (case dispatch_stripe_event api prices enforcing now ev db of
          Inl e \<Rightarrow> (Refused e, db)
        | Inr (notes, db1) \<Rightarrow>
            (Processed notes, if event_id \<noteq> [] then db1\<lparr> bl_ledger := bl_ledger db1 @ [event_id] \<rparr> else db1)))"


subsection \<open>What a handler keeps\<close>

lemma put_user_keeps [simp]:
  "bl_ledger (put_user u db) = bl_ledger db" "bl_referrals (put_user u db) = bl_referrals db"
  "bl_credit (put_user u db) = bl_credit db" "bl_referred_by (put_user u db) = bl_referred_by db"
  "bl_ledger (reconcile_configs e i p db) = bl_ledger db" "bl_referrals (reconcile_configs e i p db) = bl_referrals db"
  "bl_credit (reconcile_configs e i p db) = bl_credit db" "bl_referred_by (reconcile_configs e i p db) = bl_referred_by db"
  "bl_users (reconcile_configs e i p db) = bl_users db"
  "bl_ledger (grant_referral_credit r db) = bl_ledger db" "bl_users (grant_referral_credit r db) = bl_users db"
  by (simp_all add: put_user_def reconcile_configs_def grant_referral_credit_def split: option.splits)

text \<open>The columns a handler does not write: the ledger, and the referrals but for one grant.\<close>

definition keeps_ledger :: "billing_db \<Rightarrow> billing_db \<Rightarrow> bool" where
  "keeps_ledger db db' \<longleftrightarrow> bl_ledger db' = bl_ledger db \<and> bl_referred_by db' = bl_referred_by db \<and>
     ((bl_referrals db' = bl_referrals db \<and> bl_credit db' = bl_credit db) \<or>
      (\<exists>r d. bl_referrals d = bl_referrals db \<and> bl_credit d = bl_credit db \<and> bl_referred_by d = bl_referred_by db \<and>
         bl_referrals db' = bl_referrals (grant_referral_credit r d) \<and> bl_credit db' = bl_credit (grant_referral_credit r d)))"

lemma keeps_refl [simp]: "keeps_ledger db db" "keeps_ledger db (put_user u db)"
    "keeps_ledger db (reconcile_configs e i p (put_user u db))"
  by (simp_all add: keeps_ledger_def)

lemma keeps_checkout: "handle_checkout_completed api prices now d db = Inr db' \<Longrightarrow> keeps_ledger db db'"
proof -
  have g: "keeps_ledger db (grant_referral_credit r (put_user u db))" for r u
  proof -
    have "bl_referred_by (grant_referral_credit r (put_user u db)) = bl_referred_by db"
      by (simp add: grant_referral_credit_def split: option.split)
    then show ?thesis unfolding keeps_ledger_def by (metis put_user_keeps(1-4,10))
  qed
  show "handle_checkout_completed api prices now d db = Inr db' \<Longrightarrow> keeps_ledger db db'"
    by (auto simp: handle_checkout_completed_def Let_def g split: if_splits option.splits)
qed

lemma keeps_apply: "apply_subscription api enf now c s plan limit u db = Inr db' \<Longrightarrow> keeps_ledger db db'"
  by (auto simp: apply_subscription_def Let_def split: if_splits prod.splits)

lemma keeps_updated: "handle_subscription_updated api prices enf now req ev db = Inr db' \<Longrightarrow> keeps_ledger db db'"
  by (auto simp: handle_subscription_updated_def Let_def dest: keeps_apply split: if_splits option.splits)

lemma keeps_deleted: "handle_subscription_deleted api prices enf now ev db = Inr db' \<Longrightarrow> keeps_ledger db db'"
  by (auto simp: handle_subscription_deleted_def Let_def dest: keeps_updated split: if_splits option.splits)

lemma keeps_failed: "handle_payment_failed api now d db = Inr (notes, db') \<Longrightarrow> keeps_ledger db db'"
  by (auto simp: handle_payment_failed_def Let_def split: if_splits option.splits)

lemma keeps_dispatch: "dispatch_stripe_event api prices enf now ev db = Inr (notes, db') \<Longrightarrow> keeps_ledger db db'"
  by (cases ev)
    (auto simp: dispatch_stripe_event_def map_sum_def dest: keeps_checkout keeps_updated keeps_deleted keeps_failed
      split: sum.splits)

subsection \<open>Deliveries\<close>

record delivery =
  dl_locked :: bool
  dl_id :: string
  dl_event :: billing_event
  dl_api :: stripe_api
  dl_now :: datetime

definition deliver :: "price_map \<Rightarrow> bool \<Rightarrow> delivery \<Rightarrow> billing_db \<Rightarrow> webhook_result \<times> billing_db" where
  "deliver prices enf d db = stripe_webhook prices enf (dl_api d) (dl_now d) (dl_locked d) (dl_id d) (dl_event d) db"

definition deliver_all :: "price_map \<Rightarrow> bool \<Rightarrow> delivery list \<Rightarrow> billing_db \<Rightarrow> billing_db" where
  "deliver_all prices enf ds db = fold (\<lambda>d db. snd (deliver prices enf d db)) ds db"

lemma deliver_ledger:
  "set (bl_ledger db) \<subseteq> set (bl_ledger (snd (deliver prices enf d db)))"
  "fst (deliver prices enf d db) = Processed notes \<Longrightarrow> dl_id d \<noteq> [] \<Longrightarrow> dl_id d \<in> set (bl_ledger (snd (deliver prices enf d db)))"
proof -
  have "set (bl_ledger db) \<subseteq> set (bl_ledger (snd (deliver prices enf d db))) \<and>
    (fst (deliver prices enf d db) = Processed notes \<and> dl_id d \<noteq> [] \<longrightarrow> dl_id d \<in> set (bl_ledger (snd (deliver prices enf d db))))"
  proof (cases "dispatch_stripe_event (dl_api d) prices enf (dl_now d) (dl_event d) db")
    case (Inl e)
    then show ?thesis by (simp add: deliver_def stripe_webhook_def)
  next
    case (Inr r)
    obtain notes' db1 where r: "r = (notes', db1)" by fastforce
    then have "bl_ledger db1 = bl_ledger db" using keeps_dispatch Inr by (auto simp: keeps_ledger_def)
    then show ?thesis using Inr r by (auto simp: deliver_def stripe_webhook_def)
  qed
  then show "set (bl_ledger db) \<subseteq> set (bl_ledger (snd (deliver prices enf d db)))"
    "fst (deliver prices enf d db) = Processed notes \<Longrightarrow> dl_id d \<noteq> [] \<Longrightarrow> dl_id d \<in> set (bl_ledger (snd (deliver prices enf d db)))"
    by blast+
qed

lemma deliver_all_ledger: "set (bl_ledger db) \<subseteq> set (bl_ledger (deliver_all prices enf ds db))"
proof (induction ds arbitrary: db)
  case (Cons d ds)
  then show ?case using deliver_ledger(1) [of db prices enf d] by (fastforce simp: deliver_all_def)
qed (simp add: deliver_all_def)

lemma deliver_recorded:
  "dl_id d \<noteq> [] \<Longrightarrow> dl_id d \<in> set (bl_ledger db) \<Longrightarrow>
    deliver prices enf d db = (if dl_locked d then Acknowledged else Busy, db)"
  by (simp add: deliver_def stripe_webhook_def)

lemma deliver_refused: "fst (deliver prices enf d db) \<in> {Refused e, Busy, Acknowledged} \<Longrightarrow> snd (deliver prices enf d db) = db"
  by (auto simp: deliver_def stripe_webhook_def split: if_splits sum.splits prod.splits)

subsection \<open>Referrals\<close>

definition referrals_ok :: "(string \<Rightarrow> int) \<Rightarrow> billing_db \<Rightarrow> bool" where
  "referrals_ok base db \<longleftrightarrow> distinct (map snd (bl_referrals db)) \<and>
     (\<forall>r. bl_credit db r = base r + REFERRAL_BONUS_CENTS * int (length (filter (\<lambda>p. fst p = r) (bl_referrals db))))"

lemma grant_ok: "referrals_ok base db \<Longrightarrow> referrals_ok base (grant_referral_credit referee db)"
  by (auto simp: referrals_ok_def grant_referral_credit_def distrib_left split: option.splits)

lemma referrals_ok_cong:
  "bl_referrals db' = bl_referrals db \<Longrightarrow> bl_credit db' = bl_credit db \<Longrightarrow> referrals_ok base db' = referrals_ok base db"
  by (simp add: referrals_ok_def)

lemma keeps_referrals:
  assumes "keeps_ledger db db'" "referrals_ok base db"
  shows "referrals_ok base db'"
proof -
  from assms(1) consider "bl_referrals db' = bl_referrals db" "bl_credit db' = bl_credit db"
    | r d where "bl_referrals d = bl_referrals db" "bl_credit d = bl_credit db"
         "bl_referrals db' = bl_referrals (grant_referral_credit r d)" "bl_credit db' = bl_credit (grant_referral_credit r d)"
    unfolding keeps_ledger_def by blast
  then show ?thesis
  proof cases
    case 1
    then show ?thesis using assms(2) referrals_ok_cong by blast
  next
    case 2
    have "referrals_ok base d" using referrals_ok_cong [OF 2(1,2)] assms(2) by blast
    then have "referrals_ok base (grant_referral_credit r d)" by (rule grant_ok)
    then show ?thesis using referrals_ok_cong [OF 2(3,4)] by blast
  qed
qed

lemma deliver_referrals: "referrals_ok base db \<Longrightarrow> referrals_ok base (snd (deliver prices enf d db))"
proof (cases "dispatch_stripe_event (dl_api d) prices enf (dl_now d) (dl_event d) db")
  case (Inr r)
  assume ok: "referrals_ok base db"
  obtain ns db1 where r: "r = (ns, db1)" by fastforce
  have "referrals_ok base db1" using keeps_referrals [OF keeps_dispatch ok] Inr r by blast
  then show ?thesis using Inr r ok by (simp add: deliver_def stripe_webhook_def referrals_ok_def)
qed (simp add: deliver_def stripe_webhook_def)

lemma deliver_all_referrals: "referrals_ok base db \<Longrightarrow> referrals_ok base (deliver_all prices enf ds db)"
  by (induction ds arbitrary: db) (simp_all add: deliver_all_def deliver_referrals)

subsection \<open>Who may hold a larger plan\<close>

lemma user_of_put:
  "user_of uid (put_user v db) = (if u_id v = uid then map_option (\<lambda>_. v) (user_of uid db) else user_of uid db)"
proof -
  have "find (\<lambda>u. u_id u = uid) (map (\<lambda>w. if u_id w = u_id v then v else w) us) =
      (if u_id v = uid then map_option (\<lambda>_. v) (find (\<lambda>u. u_id u = uid) us) else find (\<lambda>u. u_id u = uid) us)" for us
    by (induction us) auto
  then show ?thesis by (simp add: user_of_def put_user_def)
qed

lemma user_of_other [simp]:
  "user_of uid (reconcile_configs e i p db) = user_of uid db" "user_of uid (grant_referral_credit r db) = user_of uid db"
  by (simp_all add: user_of_def)

lemma user_of_id: "user_of uid db = Some u \<Longrightarrow> u_id u = uid"
  by (auto simp: user_of_def find_Some_iff)

lemma user_of_mem:
  assumes "u \<in> set (bl_users db)" "distinct (map u_id (bl_users db))"
  shows "user_of (u_id u) db = Some u"
proof -
  have "u \<in> set us \<Longrightarrow> distinct (map u_id us) \<Longrightarrow> find (\<lambda>w. u_id w = u_id u) us = Some u" for us
    by (induction us) auto
  then show ?thesis using assms by (simp add: user_of_def)
qed

lemma customer_is_user:
  assumes "customer_of c db = Some u" "distinct (map u_id (bl_users db))"
  shows "user_of (u_id u) db = Some u"
  using user_of_mem [OF _ assms(2)] assms(1) by (auto simp: customer_of_def find_Some_iff)

lemma lifecycle_keeps_id [simp]:
  "u_id (snd (mark_payment_failed now u)) = u_id u" "records_limit (snd (mark_payment_failed now u)) = records_limit u"
  "u_id (snd (activate_paid_plan plan limit sub st anchor now u)) = u_id u"
  "records_limit (snd (activate_paid_plan plan limit sub st anchor now u)) = limit"
  "u_id (end_subscription now u) = u_id u" "records_limit (end_subscription now u) = starter_limit"
  by (simp_all add: mark_payment_failed_def activate_paid_plan_def start_fresh_paid_window_def end_subscription_def Let_def
      split: option.splits prod.splits)

lemma change_size_not_converted [simp]: "change_size plan limit u \<noteq> (Converted, u')"
  by (metis change_size_keeps(4) fst_conv)

lemma change_raises_to_limit:
  assumes "apply_plan_change plan limit sub st c fin anchor now u = (out, u')"
  shows "u_id u' = u_id u \<and> (plan_rank (records_limit u) < plan_rank (records_limit u') \<longrightarrow> records_limit u' = limit)"
proof (cases "out = Converted")
  case True
  have "u' = snd (activate_paid_plan plan limit sub st anchor now u)"
    using assms True by (auto simp: apply_plan_change_def split: if_splits)
  then show ?thesis by simp
next
  case False
  have i: "u_id (change_status sub st c fin now u) = u_id u" by (simp add: change_status_def Let_def)
  have "u' = snd (change_size plan limit (change_status sub st c fin now u))"
    using assms False by (auto simp: apply_plan_change_def split: if_splits)
  moreover have "u_id (snd (change_size plan limit w)) = u_id w" for w by (simp add: change_size_def)
  ultimately have "u_id u' = u_id u" using i by simp
  then show ?thesis using change_target(5,6) [OF assms False] by (cases "out = Downgrade_pending") auto
qed

text \<open>What Stripe says now: a subscription its API returns, or the signed event of one that names no id.\<close>

definition stripe_said :: "stripe_api \<Rightarrow> billing_event \<Rightarrow> stripe_subscription \<Rightarrow> bool" where
  "stripe_said api ev s \<longleftrightarrow> (\<exists>i. sa_retrieve api i = Some s) \<or>
     (\<not> given (ss_id s) \<and> (ev = Subscription_created s \<or> ev = Subscription_updated s))"

definition pays_for :: "price_map \<Rightarrow> stripe_subscription \<Rightarrow> user_row \<Rightarrow> int \<Rightarrow> bool" where
  "pays_for prices s u limit \<longleftrightarrow> (\<exists>plan label.
     Option.bind (plan_item_price_id prices (ss_prices s)) prices = Some (plan, limit, label) \<and>
     (status_in s ENTITLED_CHECKOUT_STATUSES \<or> ss_id s = stripe_subscription_id u \<or> dunning_on_plan_already_paid_for s plan u))"

text \<open>Every row keeps its id, and a limit rises only to what is paid for, or to the free plan's.\<close>

definition justified :: "price_map \<Rightarrow> (stripe_subscription \<Rightarrow> bool) \<Rightarrow> billing_db \<Rightarrow> billing_db \<Rightarrow> bool" where
  "justified prices said db db' \<longleftrightarrow> (\<forall>uid u u'. user_of uid db = Some u \<longrightarrow> user_of uid db' = Some u' \<longrightarrow>
     plan_rank (records_limit u) < plan_rank (records_limit u') \<longrightarrow>
     records_limit u' = starter_limit \<or> (\<exists>s. said s \<and> pays_for prices s u (records_limit u')))"

lemma justified_refl [simp]: "justified prices said db db"
  by (simp add: justified_def)

lemma justified_put:
  assumes "user_of (u_id w) db = Some u" "u_id w = u_id u"
    "plan_rank (records_limit u) < plan_rank (records_limit w) \<Longrightarrow>
       records_limit w = starter_limit \<or> (\<exists>s. said s \<and> pays_for prices s u (records_limit w))"
    "\<And>uid. user_of uid db' = user_of uid (put_user w db)"
  shows "justified prices said db db'"
  unfolding justified_def using assms by (auto simp: user_of_put split: if_splits)

lemma justified_apply:
  assumes "apply_subscription api enf now c s plan limit u db = Inr db'" "user_of (u_id u) db = Some u"
    "Option.bind (plan_item_price_id prices (ss_prices s)) prices = Some (plan, limit, label)" "said s"
  shows "justified prices said db db'"
proof (cases "db' = db")
  case False
  obtain out w where w: "apply_plan_change plan limit (ss_id s) (ss_status s) (ss_cancel_at_period_end s)
      (case ss_cancel_at s of None \<Rightarrow> ss_current_period_end s | Some t \<Rightarrow> Some t) (ss_anchor s) now u = (out, w)" by fastforce
  have g: "ss_id s = stripe_subscription_id u \<or> status_in s ENTITLED_CHECKOUT_STATUSES \<or> dunning_on_plan_already_paid_for s plan u"
    and d: "db' = (if out \<noteq> Downgrade_pending then reconcile_configs enf (u_id w) (u_plan w) (put_user w db) else put_user w db)"
    using assms(1) False unfolding apply_subscription_def Let_def w by (auto split: if_splits)
  have i: "u_id w = u_id u" "plan_rank (records_limit u) < plan_rank (records_limit w) \<Longrightarrow> records_limit w = limit"
    using change_raises_to_limit [OF w] by auto
  show ?thesis
  proof (rule justified_put)
    show "user_of (u_id w) db = Some u" "u_id w = u_id u" using assms(2) i(1) by simp_all
    show "user_of uid db' = user_of uid (put_user w db)" for uid using d by simp
    assume r: "plan_rank (records_limit u) < plan_rank (records_limit w)"
    have "pays_for prices s u (records_limit w)" unfolding pays_for_def i(2) [OF r] using assms(3) g by blast
    then show "records_limit w = starter_limit \<or> (\<exists>s. said s \<and> pays_for prices s u (records_limit w))" using assms(4) by blast
  qed
qed simp

lemma justified_updated:
  assumes "handle_subscription_updated api prices enf now req ev db = Inr db'" "distinct (map u_id (bl_users db))"
    "\<And>i s. sa_retrieve api i = Some s \<Longrightarrow> said s" "\<not> given (ss_id ev) \<Longrightarrow> said ev"
  shows "justified prices said db db'"
proof (cases "db' = db")
  case False
  obtain s plan limit label u where
    s: "(if given (ss_id ev) then sa_retrieve api (opt_or (ss_id ev) []) else Some ev) = Some s" and
    p: "Option.bind (plan_item_price_id prices (ss_prices s)) prices = Some (plan, limit, label)" and
    u: "customer_of (opt_or (ss_customer ev) []) db = Some u" and
    a: "apply_subscription api enf now (opt_or (ss_customer ev) []) s plan limit u db = Inr db'"
    using assms(1) False by (auto simp: handle_subscription_updated_def Let_def split: if_splits option.splits)
  have "said s" using s assms(3,4) by (auto split: if_splits)
  then show ?thesis using justified_apply [OF a customer_is_user [OF u assms(2)] p] by blast
qed simp

lemma justified_deleted:
  assumes "handle_subscription_deleted api prices enf now ev db = Inr db'" "distinct (map u_id (bl_users db))"
    "\<And>i s. sa_retrieve api i = Some s \<Longrightarrow> said s"
  shows "justified prices said db db'"
proof (cases "db' = db")
  case False
  obtain u subs where u: "customer_of (opt_or (ss_customer ev) []) db = Some u" and
    subs: "sa_list api (opt_or (ss_customer ev) []) = Some subs"
    using assms(1) False by (auto simp: handle_subscription_deleted_def split: if_splits option.splits)
  note uu = customer_is_user [OF u assms(2)]
  let ?live = "\<lambda>s. ss_id s \<noteq> ss_id ev \<and> status_in s ENTITLED_CHECKOUT_STATUSES \<and> plan_item_price_id prices (ss_prices s) \<noteq> None"
  show ?thesis
  proof (cases "find ?live subs")
    case None
    have d: "db' = reconcile_configs enf (u_id (end_subscription now u)) (u_plan (end_subscription now u)) (put_user (end_subscription now u) db)"
      using assms(1) False u subs None by (auto simp: handle_subscription_deleted_def Let_def split: if_splits)
    show ?thesis by (rule justified_put [of "end_subscription now u" _ u]) (use uu d in simp_all)
  next
    case (Some survivor)
    have h: "handle_subscription_updated api prices enf now False (ev\<lparr> ss_id := ss_id survivor, ss_status := None, ss_prices := [] \<rparr>) db = Inr db'"
      using assms(1) False u subs Some by (auto simp: handle_subscription_deleted_def Let_def split: if_splits)
    have n: "plan_item_price_id prices [] = None" by (simp add: plan_item_price_id_def)
    have g: "given (ss_id survivor)"
    proof (rule ccontr)
      assume "\<not> given (ss_id survivor)"
      then have "db' = db" using h n by (auto simp: handle_subscription_updated_def Let_def split: if_splits)
      then show False using False by simp
    qed
    show ?thesis by (rule justified_updated [OF h assms(2)]) (use assms(3) g in auto)
  qed
qed simp

lemma justified_checkout:
  assumes "handle_checkout_completed api prices now d db = Inr db'"
    "\<And>i s. sa_retrieve api i = Some s \<Longrightarrow> said s"
  shows "justified prices said db db'"
proof (cases "db' = db")
  case False
  obtain s plan limit label u where
    s: "sa_retrieve api (opt_or (cs_subscription d) []) = Some s" and
    p: "Option.bind (plan_item_price_id prices (ss_prices s)) prices = Some (plan, limit, label)" and
    u: "user_of (opt_or (cs_user d) []) db = Some u" and
    c: "\<not> (given (cs_customer d) \<and> given (stripe_customer_id u) \<and> stripe_customer_id u \<noteq> cs_customer d)"
    using assms(1) False by (auto simp: handle_checkout_completed_def split: if_splits option.splits)
  let ?bind = "given (cs_customer d) \<and> \<not> given (stripe_customer_id u)"
  let ?u1 = "if ?bind then u\<lparr> stripe_customer_id := cs_customer d \<rparr> else u"
  let ?u2 = "snd (activate_paid_plan plan limit (cs_subscription d) (ss_status s) (ss_anchor s) now ?u1)"
  have r: "(\<not> status_in s ENTITLED_CHECKOUT_STATUSES \<and> db' = put_user ?u1 db) \<or>
      (status_in s ENTITLED_CHECKOUT_STATUSES \<and> db' = grant_referral_credit (u_id u) (put_user ?u2 db))"
    using assms(1) False s p u c unfolding handle_checkout_completed_def Let_def by (auto split: if_splits)
  have i: "user_of (u_id u) db = Some u" using u user_of_id [OF u] by simp
  from r show ?thesis
  proof
    assume "\<not> status_in s ENTITLED_CHECKOUT_STATUSES \<and> db' = put_user ?u1 db"
    then show ?thesis by (intro justified_put [of ?u1 _ u]) (use i in auto)
  next
    assume a: "status_in s ENTITLED_CHECKOUT_STATUSES \<and> db' = grant_referral_credit (u_id u) (put_user ?u2 db)"
    have "pays_for prices s u limit" unfolding pays_for_def using a p by blast
    then have "\<exists>s. said s \<and> pays_for prices s u limit" using assms(2) s by blast
    then show ?thesis by (intro justified_put [of ?u2 _ u]) (use i a in auto)
  qed
qed simp

lemma justified_failed:
  assumes "handle_payment_failed api now d db = Inr (notes, db')" "distinct (map u_id (bl_users db))"
  shows "justified prices said db db'"
proof (cases "db' = db")
  case False
  obtain u where u: "customer_of (opt_or (inv_customer d) []) db = Some u"
    using assms(1) False by (auto simp: handle_payment_failed_def split: if_splits option.splits)
  have "db' \<in> range (\<lambda>st. put_user ((snd (mark_payment_failed now u))\<lparr> subscription_status := st \<rparr>) db)"
    using assms(1) False u by (auto simp: handle_payment_failed_def Let_def split: if_splits option.splits)
  then obtain st where d: "db' = put_user ((snd (mark_payment_failed now u))\<lparr> subscription_status := st \<rparr>) db" by auto
  show ?thesis unfolding d
    by (rule justified_put [of _ _ u]) (use customer_is_user [OF u assms(2)] in simp_all)
qed simp

lemma justified_dispatch:
  assumes "dispatch_stripe_event api prices enf now ev db = Inr (notes, db')" "distinct (map u_id (bl_users db))"
  shows "justified prices (stripe_said api ev) db db'"
proof -
  have said: "\<And>i s. sa_retrieve api i = Some s \<Longrightarrow> stripe_said api ev s" by (auto simp: stripe_said_def)
  show ?thesis
  proof (cases ev)
    case (Checkout_completed d)
    then show ?thesis using assms(1) justified_checkout [OF _ said]
      by (auto simp: dispatch_stripe_event_def map_sum_def split: sum.splits)
  next
    case (Subscription_created d)
    then have "\<not> given (ss_id d) \<Longrightarrow> stripe_said api ev d" by (simp add: stripe_said_def)
    then show ?thesis using assms Subscription_created justified_updated [OF _ assms(2) said]
      by (auto simp: dispatch_stripe_event_def map_sum_def split: sum.splits)
  next
    case (Subscription_updated d)
    then have "\<not> given (ss_id d) \<Longrightarrow> stripe_said api ev d" by (simp add: stripe_said_def)
    then show ?thesis using assms Subscription_updated justified_updated [OF _ assms(2) said]
      by (auto simp: dispatch_stripe_event_def map_sum_def split: sum.splits)
  next
    case (Subscription_deleted d)
    then show ?thesis using assms justified_deleted [OF _ assms(2) said]
      by (auto simp: dispatch_stripe_event_def map_sum_def split: sum.splits)
  next
    case (Invoice_payment_failed d)
    then show ?thesis using assms justified_failed by (simp add: dispatch_stripe_event_def)
  next
    case Other_event
    then show ?thesis using assms by (simp add: dispatch_stripe_event_def)
  qed
qed

subsection \<open>Properties\<close>

lemma delivered_twice:
  assumes "fst (deliver prices enf d db) = Processed notes" "dl_id d \<noteq> []" "dl_id again = dl_id d"
  shows "let later = deliver_all prices enf ds (snd (deliver prices enf d db))
    in deliver prices enf again later = (if dl_locked again then Acknowledged else Busy, later)"
proof -
  have "dl_id d \<in> set (bl_ledger (deliver_all prices enf ds (snd (deliver prices enf d db))))"
    using deliver_ledger(2) [OF assms(1,2)] deliver_all_ledger by blast
  then show ?thesis using deliver_recorded [of again] assms(2,3) by (simp add: Let_def)
qed

text \<open>
  C25: An event is applied at most once. Once a delivery was processed, every later delivery of the same event
  id, whatever came between and whatever body, clock and Stripe answers it has, is acknowledged (or told to
  come back, while another attempt holds the lock) and changes nothing. A delivery that fails or is turned
  away leaves the database as it was, the ledger included, so the next one is not skipped.
\<close>

theorem webhook_applies_each_event_once:
  assumes "fst (deliver prices enf d db) = Processed notes" "dl_id d \<noteq> []" "dl_id again = dl_id d"
  shows "let later = deliver_all prices enf ds (snd (deliver prices enf d db))
    in deliver prices enf again later = (if dl_locked again then Acknowledged else Busy, later) \<and>
       (fst (deliver prices enf x db) = Refused e \<or> fst (deliver prices enf x db) = Busy
          \<or> fst (deliver prices enf x db) = Acknowledged \<longrightarrow> snd (deliver prices enf x db) = db)"
  using delivered_twice [OF assms, of ds] deliver_refused [of prices enf x db e] by (auto simp: Let_def)

definition sample_prices :: price_map where
  "sample_prices p = (if p = ''price_pro'' then Some (''pro'', 1000, ''Pro'')
     else if p = ''price_starter'' then Some (''starter'', 50, ''Starter'') else None)"

definition sample_plan_sub :: "string \<Rightarrow> string \<Rightarrow> string \<Rightarrow> stripe_subscription" where
  "sample_plan_sub i st price = \<lparr> ss_id = Some i, ss_customer = Some ''cus'', ss_status = Some st, ss_prices = [Some price],
     ss_cancel_at_period_end = False, ss_cancel_at = None, ss_current_period_end = None, ss_anchor = None \<rparr>"

definition sample_api :: "stripe_subscription \<Rightarrow> stripe_api" where
  "sample_api s = \<lparr> sa_retrieve = (\<lambda>i. if Some i = ss_id s then Some s else None), sa_list = (\<lambda>_. Some [s]),
     sa_invoice_status = (\<lambda>_. Some (Some ''open'')) \<rparr>"

definition sample_payer :: user_row where
  "sample_payer = sample_user\<lparr> u_plan := ''starter'', records_limit := 50, stripe_customer_id := Some ''cus'',
     stripe_subscription_id := None, subscription_status := None, first_paid_at := None \<rparr>"

definition sample_billing_db :: billing_db where
  "sample_billing_db = \<lparr> bl_users = [sample_payer], bl_configs = (\<lambda>_. []), bl_ledger = [],
     bl_referred_by = (\<lambda>_. Some ''friend''), bl_referrals = [], bl_credit = (\<lambda>_. 0) \<rparr>"

definition sample_checkout :: billing_event where
  "sample_checkout = Checkout_completed \<lparr> cs_user = Some (u_id sample_payer), cs_subscription = Some ''sub'', cs_customer = Some ''cus'' \<rparr>"

definition sample_delivery :: delivery where
  "sample_delivery = \<lparr> dl_locked = True, dl_id = ''evt'', dl_event = sample_checkout,
     dl_api = sample_api (sample_plan_sub ''sub'' ''active'' ''price_pro''), dl_now = DateTime 2026 3 5 0 \<rparr>"

theorem webhook_applies_each_event_once_witness:
  "let db1 = snd (deliver sample_prices True sample_delivery sample_billing_db);
       retry = sample_delivery\<lparr> dl_event := Subscription_deleted (sample_plan_sub ''sub'' ''canceled'' ''price_pro'') \<rparr>
   in map records_limit (bl_users db1) = [1000] \<and> deliver sample_prices True retry db1 = (Acknowledged, db1)"
proof -
  have p: "fst (deliver sample_prices True sample_delivery sample_billing_db) = Processed []" "dl_id sample_delivery \<noteq> []"
    "map records_limit (bl_users (snd (deliver sample_prices True sample_delivery sample_billing_db))) = [1000]"
    "dl_locked sample_delivery" by code_simp+
  show ?thesis
    using webhook_applies_each_event_once [OF p(1,2), of "sample_delivery\<lparr> dl_event := Subscription_deleted (sample_plan_sub ''sub'' ''canceled'' ''price_pro'') \<rparr>" "[]"]
      p(3,4) by (simp add: Let_def deliver_all_def)
qed

text \<open>
  A referral is paid for once. Over any sequence of deliveries, replays and reorderings included, a
  referred account earns its referrer one credit at most, and what a referrer holds is what they held plus
  twenty dollars for each account of theirs that has converted.
\<close>

theorem referral_paid_once:
  assumes "bl_referrals db = []"
  shows "let later = deliver_all prices enf ds db in distinct (map snd (bl_referrals later)) \<and>
    bl_credit later r = bl_credit db r + 2000 * int (length (filter (\<lambda>p. fst p = r) (bl_referrals later)))"
proof -
  have "referrals_ok (bl_credit db) db" using assms by (simp add: referrals_ok_def)
  from deliver_all_referrals [OF this] show ?thesis by (simp add: referrals_ok_def REFERRAL_BONUS_CENTS_def Let_def)
qed

theorem referral_paid_once_witness:
  "let ds = [sample_delivery, sample_delivery\<lparr> dl_id := ''evt2'' \<rparr>];
       later = deliver_all sample_prices True ds sample_billing_db
   in bl_referrals later = [(''friend'', u_id sample_payer)] \<and> bl_credit later ''friend'' = 2000"
proof -
  let ?ds = "[sample_delivery, sample_delivery\<lparr> dl_id := ''evt2'' \<rparr>]"
  have e: "bl_referrals sample_billing_db = []" "bl_credit sample_billing_db ''friend'' = 0"
    "bl_referrals (deliver_all sample_prices True ?ds sample_billing_db) = [(''friend'', u_id sample_payer)]" by code_simp+
  show ?thesis using referral_paid_once [OF e(1), of sample_prices True ?ds "''friend''"] e(2,3) by (simp add: Let_def)
qed

text \<open>
  C24: The webhook raises a limit only for a subscription that pays for it. Whatever event arrives, in
  whatever order, an account's limit grows only to the one that the price map gives for a plan item of what
  Stripe says now (never of the event's own snapshot, when it names a subscription), and only if that
  subscription is active or trialing, is the one the account already holds, or restores a plan the account
  has paid for and is in dunning on; or it is the free plan's limit.
\<close>

theorem webhook_raises_only_what_is_paid:
  assumes "dispatch_stripe_event api prices enf now ev db = Inr (notes, db')" "distinct (map u_id (bl_users db))"
    "user_of uid db = Some u" "user_of uid db' = Some u'" "plan_rank (records_limit u) < plan_rank (records_limit u')"
  shows "records_limit u' = starter_limit \<or> (\<exists>s. stripe_said api ev s \<and> pays_for prices s u (records_limit u'))"
  using justified_dispatch [OF assms(1,2)] assms(3-5) unfolding justified_def by blast

theorem webhook_raises_only_what_is_paid_witness:
  "\<exists>s. stripe_said (sample_api (sample_plan_sub ''sub'' ''active'' ''price_pro'')) sample_checkout s \<and> pays_for sample_prices s sample_payer 1000"
proof -
  let ?api = "sample_api (sample_plan_sub ''sub'' ''active'' ''price_pro'')"
  let ?r = "dispatch_stripe_event ?api sample_prices True (DateTime 2026 3 5 0) sample_checkout sample_billing_db"
  let ?db = "snd (projr ?r)"
  have e: "isl ?r = False" "map_option records_limit (user_of (u_id sample_payer) ?db) = Some 1000"
    "user_of (u_id sample_payer) sample_billing_db = Some sample_payer" "distinct (map u_id (bl_users sample_billing_db))"
    "plan_rank (records_limit sample_payer) < plan_rank 1000" "1000 \<noteq> starter_limit"
    by code_simp+
  have r: "?r = Inr (fst (projr ?r), ?db)" using e(1) by (cases ?r) simp_all
  obtain u' where u': "user_of (u_id sample_payer) ?db = Some u'" "records_limit u' = 1000" using e(2) by blast
  show ?thesis using webhook_raises_only_what_is_paid [OF r e(4,3) u'(1)] e(5,6) u'(2) by simp
qed

end
