(* ===== verification/BillingBeats.thy ===== *)
theory BillingBeats
  imports BillingWebhook
begin

text \<open>
  The billing beat tasks (\<^verbatim>\<open>src/workers/scheduler_helpers/billing.py\<close>): retiring paid entitlements whose end
  has passed, rolling the windows of absent customers, reconciling configurations, ending trials, and the
  daily rollover of the lookup counter.

  A beat reads its candidates in one transaction, asks Stripe about each of them, and writes each decision in
  a transaction of its own. \<open>env\<close> is whatever other transactions commit while a candidate's Stripe call runs,
  \<open>pick\<close> is the database's random order with its limit, \<open>locked\<close> says which rows others hold (\<^verbatim>\<open>SKIP LOCKED\<close>),
  and \<open>lookup\<close> is the injectable Stripe question: None when it raises.
\<close>

subsection \<open>Asking Stripe\<close>

type_synonym sub_lookup = "string \<Rightarrow> string option option"

definition stripe_entitled_status :: "stripe_api \<Rightarrow> sub_lookup" where
  "stripe_entitled_status api customer =
     map_option (\<lambda>subs. Option.bind (find (\<lambda>s. status_in s ENTITLED_STATUSES) (take 20 subs)) ss_status) (sa_list api customer)"

definition entitled_answer :: "string option \<Rightarrow> bool" where
  "entitled_answer st \<longleftrightarrow> (case st of None \<Rightarrow> False | Some s \<Rightarrow> s \<in> set ENTITLED_STATUSES)"

definition put_where :: "string \<Rightarrow> (user_row \<Rightarrow> user_row) \<Rightarrow> billing_db \<Rightarrow> billing_db" where
  "put_where uid f db = db\<lparr> bl_users := map (\<lambda>u. if u_id u = uid then f u else u) (bl_users db) \<rparr>"

subsection \<open>Reconciling quota periods\<close>

record lapse_candidate =
  lc_user :: string
  lc_customer :: "string option"
  lc_seen :: datetime

definition RECONCILE_LAPSED_LIMIT :: nat where
  "RECONCILE_LAPSED_LIMIT = 200"

definition lapse_candidates :: "(lapse_candidate list \<Rightarrow> lapse_candidate list) \<Rightarrow> datetime \<Rightarrow> billing_db \<Rightarrow> lapse_candidate list" where
  "lapse_candidates pick now db =
     take RECONCILE_LAPSED_LIMIT (pick (List.map_filter (\<lambda>u. case entitlement_ends_at u of
         None \<Rightarrow> None
       | Some e \<Rightarrow> if e \<le> now then Some \<lparr> lc_user = u_id u, lc_customer = stripe_customer_id u, lc_seen = e \<rparr> else None)
       (bl_users db)))"

text \<open>The decision on one candidate, and whether its row was retired.\<close>

definition decide_lapsed :: "sub_lookup \<Rightarrow> lapse_candidate \<Rightarrow> billing_db \<Rightarrow> bool \<times> billing_db" where
  "decide_lapsed lookup c db =
     (let retire = (list_ex (\<lambda>u. u_id u = lc_user c \<and> fst (retire_lapsed (lc_seen c) u)) (bl_users db),
                    put_where (lc_user c) (\<lambda>u. snd (retire_lapsed (lc_seen c) u)) db)
      in if given (lc_customer c)
         then (case lookup (opt_or (lc_customer c) []) of
                 None \<Rightarrow> (False, db)
               | Some st \<Rightarrow>
                   if entitled_answer st
                   then (False, put_where (lc_user c) (reverse_cancellation (lc_seen c) (opt_or st [])) db)
                   else retire)
         else retire)"

fun retire_all ::
    "sub_lookup \<Rightarrow> (string \<Rightarrow> billing_db \<Rightarrow> billing_db) \<Rightarrow> lapse_candidate list \<Rightarrow> billing_db \<Rightarrow> string list \<times> billing_db" where
  "retire_all lookup env [] db = ([], db)"
| "retire_all lookup env (c # cs) db =
     (case decide_lapsed lookup c (env (lc_user c) db) of (applied, db1) \<Rightarrow>
        (case retire_all lookup env cs db1 of (lapsed, db2) \<Rightarrow> (if applied then lc_user c # lapsed else lapsed, db2)))"

definition roll_window :: "(datetime \<Rightarrow> datetime \<Rightarrow> int) \<Rightarrow> datetime \<Rightarrow> user_row \<Rightarrow> user_row" where
  "roll_window age now u = (let w = window_cte age u now in (window_set w u)\<lparr> records_used := w_base w \<rparr>)"

definition roll_windows ::
    "(datetime \<Rightarrow> datetime \<Rightarrow> int) \<Rightarrow> (string \<Rightarrow> bool) \<Rightarrow> datetime \<Rightarrow> billing_db \<Rightarrow> string list \<times> string list \<times> billing_db" where
  "roll_windows age locked now db =
     (let hit = (\<lambda>u. roll_predicate u now \<and> \<not> locked (u_id u))
      in (map u_id (filter hit (bl_users db)),
          map u_id (filter (\<lambda>u. hit u \<and> pending_plan u \<noteq> None) (bl_users db)),
          db\<lparr> bl_users := map (\<lambda>u. if hit u then roll_window age now u else u) (bl_users db) \<rparr>))"

definition reconcile_changed :: "bool \<Rightarrow> string \<Rightarrow> billing_db \<Rightarrow> billing_db" where
  "reconcile_changed enforcing uid db =
     (case user_of uid db of
        None \<Rightarrow> db
      | Some u \<Rightarrow> if u_plan u = [] then db else reconcile_configs enforcing uid (u_plan u) db)"

record reconcile_summary =
  rs_rolled :: nat
  rs_lapsed :: nat
  rs_plans :: nat

definition reconcile_quota_periods ::
    "(datetime \<Rightarrow> datetime \<Rightarrow> int) \<Rightarrow> (lapse_candidate list \<Rightarrow> lapse_candidate list) \<Rightarrow> sub_lookup
      \<Rightarrow> (string \<Rightarrow> billing_db \<Rightarrow> billing_db) \<Rightarrow> (string \<Rightarrow> bool) \<Rightarrow> bool \<Rightarrow> datetime \<Rightarrow> billing_db
      \<Rightarrow> reconcile_summary \<times> billing_db" where
  "reconcile_quota_periods age pick lookup env locked enforcing now db =
     (case retire_all lookup env (lapse_candidates pick now db) db of (lapsed, db1) \<Rightarrow>
        (case roll_windows age locked now db1 of (rolled, parked, db2) \<Rightarrow>
           let changed = remdups (lapsed @ parked)
           in (\<lparr> rs_rolled = length rolled, rs_lapsed = length lapsed, rs_plans = length changed \<rparr>,
               fold (reconcile_changed enforcing) changed db2)))"

subsection \<open>Ending trials\<close>

definition EXPIRE_TRIALS_LIMIT :: nat where
  "EXPIRE_TRIALS_LIMIT = 200"

definition downgrade :: "bool \<Rightarrow> datetime \<Rightarrow> bool \<Rightarrow> string \<Rightarrow> billing_db \<Rightarrow> bool \<times> billing_db" where
  "downgrade enforcing now record_canceled uid db =
     (if list_ex (\<lambda>u. u_id u = uid \<and> trial_candidate now u) (bl_users db)
      then (True, reconcile_configs enforcing uid ''starter''
                    (put_where uid (\<lambda>u. snd (downgrade_trial now record_canceled u)) db))
      else (False, db))"

text \<open>\<open>seen\<close> is the candidate as it was read; the write re-checks the row as it is now.\<close>

definition decide_trial :: "sub_lookup \<Rightarrow> bool \<Rightarrow> datetime \<Rightarrow> user_row \<Rightarrow> billing_db \<Rightarrow> bool \<times> billing_db" where
  "decide_trial lookup enforcing now seen db =
     (if \<not> given (stripe_customer_id seen) then downgrade enforcing now False (u_id seen) db
      else (case lookup (opt_or (stripe_customer_id seen) []) of
          None \<Rightarrow> (False, db)
        | Some st \<Rightarrow>
            if entitled_answer st then (False, put_where (u_id seen) (protect_payer now (opt_or st [])) db)
            else downgrade enforcing now True (u_id seen) db))"

fun decide_trials ::
    "sub_lookup \<Rightarrow> bool \<Rightarrow> datetime \<Rightarrow> (string \<Rightarrow> billing_db \<Rightarrow> billing_db) \<Rightarrow> user_row list \<Rightarrow> billing_db \<Rightarrow> nat \<times> billing_db" where
  "decide_trials lookup enforcing now env [] db = (0, db)"
| "decide_trials lookup enforcing now env (c # cs) db =
     (case decide_trial lookup enforcing now c (env (u_id c) db) of (applied, db1) \<Rightarrow>
        (case decide_trials lookup enforcing now env cs db1 of (n, db2) \<Rightarrow> (if applied then n + 1 else n, db2)))"

definition expire_trials ::
    "(user_row list \<Rightarrow> user_row list) \<Rightarrow> sub_lookup \<Rightarrow> (string \<Rightarrow> billing_db \<Rightarrow> billing_db) \<Rightarrow> bool \<Rightarrow> datetime \<Rightarrow> billing_db
      \<Rightarrow> nat \<times> billing_db" where
  "expire_trials pick lookup env enforcing now db =
     decide_trials lookup enforcing now env
       (take EXPIRE_TRIALS_LIMIT (pick (filter (trial_candidate now) (bl_users db)))) db"

subsection \<open>The lookup counter\<close>

definition adopt_period :: "user_row \<Rightarrow> user_row" where
  "adopt_period u =
     (if skip_trace_period_start u = None then u\<lparr> skip_trace_period_start := Some (quota_period_start u) \<rparr> else u)"

definition roll_lookup_period :: "user_row \<Rightarrow> user_row" where
  "roll_lookup_period u =
     (case skip_trace_period_start u of
        None \<Rightarrow> u
      | Some p \<Rightarrow> if p < quota_period_start u
                  then u\<lparr> skip_trace_used_this_month := 0, skip_trace_period_start := Some (quota_period_start u) \<rparr> else u)"

definition reset_skip_trace_usage :: "billing_db \<Rightarrow> billing_db" where
  "reset_skip_trace_usage db = db\<lparr> bl_users := map (roll_lookup_period \<circ> adopt_period) (bl_users db) \<rparr>"


subsection \<open>A payer keeps the plan\<close>

text \<open>
  The account as it was: the same customer, on the same plan and limit with the same change parked, in the same
  window; or, once that window has ended, on the plan and limit that were parked (the same ones when none were).
\<close>

definition plan_terms :: "user_row \<Rightarrow> string \<times> int \<times> string option \<times> int option" where
  "plan_terms u = (u_plan u, records_limit u, pending_plan u, pending_records_limit u)"

definition parked_terms :: "user_row \<Rightarrow> string \<times> int \<times> string option \<times> int option" where
  "parked_terms u = (opt_or (pending_plan u) (u_plan u), opt_or (pending_records_limit u) (records_limit u), None, None)"

definition holds_plan :: "user_row \<Rightarrow> datetime \<Rightarrow> billing_db \<Rightarrow> bool" where
  "holds_plan p now db \<longleftrightarrow>
     (case user_of (u_id p) db of
        None \<Rightarrow> False
      | Some u \<Rightarrow> stripe_customer_id u = stripe_customer_id p \<and>
          (plan_terms u = plan_terms p \<and> quota_period_end u = quota_period_end p \<or>
           quota_period_end p \<le> now \<and> plan_terms u = parked_terms p))"

lemma user_of_where:
  assumes "\<And>u. u_id (f u) = u_id u"
  shows "user_of uid (put_where i f db) = map_option (\<lambda>u. if uid = i then f u else u) (user_of uid db)"
proof -
  have "find (\<lambda>u. u_id u = uid) (map (\<lambda>u. if u_id u = i then f u else u) us)
      = map_option (\<lambda>u. if uid = i then f u else u) (find (\<lambda>u. u_id u = uid) us)" for us
    by (induction us) (auto simp: assms)
  then show ?thesis by (simp add: user_of_def put_where_def)
qed

lemma user_of_map:
  assumes "\<And>u. u_id (f u) = u_id u"
  shows "user_of uid (db\<lparr> bl_users := map f (bl_users db) \<rparr>) = map_option f (user_of uid db)"
proof -
  have "find (\<lambda>u. u_id u = uid) (map f us) = map_option f (find (\<lambda>u. u_id u = uid) us)" for us
    by (induction us) (auto simp: assms)
  then show ?thesis by (simp add: user_of_def)
qed

lemma beat_ids [simp]:
  "u_id (snd (retire_lapsed e u)) = u_id u" "u_id (reverse_cancellation e st u) = u_id u"
  "u_id (snd (downgrade_trial now rec u)) = u_id u" "u_id (protect_payer now st u) = u_id u"
  "u_id (roll_window age now u) = u_id u"
  by (simp_all add: retire_lapsed_def reverse_cancellation_def downgrade_trial_def protect_payer_def roll_window_def
      window_set_def Let_def)

lemma holds_keeps:
  assumes "\<And>u. u_id (f u) = u_id u"
    "\<And>u. (stripe_customer_id (f u), plan_terms (f u), quota_period_end (f u)) = (stripe_customer_id u, plan_terms u, quota_period_end u)"
  shows "holds_plan p now (put_where i f db) = holds_plan p now db"
  using assms(2) by (simp add: holds_plan_def user_of_where [OF assms(1)] split: option.split)

lemma holds_other:
  assumes "\<And>u. u_id (f u) = u_id u" "i \<noteq> u_id p"
  shows "holds_plan p now (put_where i f db) = holds_plan p now db"
  using assms(2) by (simp add: holds_plan_def user_of_where [OF assms(1)] split: option.split)

lemma holds_reconcile [simp]: "holds_plan p now (reconcile_configs e i q db) = holds_plan p now db"
  by (simp add: holds_plan_def)

definition spared :: "sub_lookup \<Rightarrow> string \<Rightarrow> bool" where
  "spared lookup customer \<longleftrightarrow> (case lookup customer of None \<Rightarrow> True | Some st \<Rightarrow> entitled_answer st)"

lemma given_Some: "given (Some c) \<longleftrightarrow> c \<noteq> []"
  by (simp add: given_def str_or_def)

lemma decide_lapsed_spares:
  assumes "holds_plan p now db" "lc_user c = u_id p \<Longrightarrow> lc_customer c = Some customer"
    "spared lookup customer" "customer \<noteq> []"
  shows "holds_plan p now (snd (decide_lapsed lookup c db))"
proof (cases "lc_user c = u_id p")
  case True
  then have c: "lc_customer c = Some customer" using assms(2) by blast
  have r: "holds_plan p now (put_where i (reverse_cancellation e st) db)" for i e st
    using assms(1) holds_keeps [of "reverse_cancellation e st"] by (simp add: reverse_cancellation_def plan_terms_def)
  show ?thesis using assms(1,3,4) c r
    by (auto simp: decide_lapsed_def Let_def given_Some spared_def split: option.splits)
next
  case False
  then show ?thesis using assms(1)
    by (auto simp: decide_lapsed_def Let_def holds_other split: option.splits)
qed

lemma retire_all_spares:
  assumes "\<And>i d. holds_plan p now d \<Longrightarrow> holds_plan p now (env i d)"
    "spared lookup customer" "customer \<noteq> []"
  shows "holds_plan p now db \<Longrightarrow> \<forall>c \<in> set cs. lc_user c = u_id p \<longrightarrow> lc_customer c = Some customer \<Longrightarrow>
    holds_plan p now (snd (retire_all lookup env cs db))"
proof (induction cs arbitrary: db)
  case (Cons c cs)
  have "holds_plan p now (snd (decide_lapsed lookup c (env (lc_user c) db)))"
    by (rule decide_lapsed_spares [OF assms(1) [OF Cons.prems(1)] _ assms(2,3)]) (use Cons.prems(2) in simp)
  from Cons.IH [OF this] Cons.prems(2) show ?case by (simp add: split_beta)
qed simp

lemma decide_trial_spares:
  assumes "holds_plan p now db" "u_id seen = u_id p \<Longrightarrow> stripe_customer_id seen = Some customer"
    "spared lookup customer" "customer \<noteq> []"
  shows "holds_plan p now (snd (decide_trial lookup enforcing now seen db))"
proof (cases "u_id seen = u_id p")
  case True
  then have c: "stripe_customer_id seen = Some customer" using assms(2) by blast
  have r: "holds_plan p now (put_where i (protect_payer n st) db)" for i n st
    using assms(1) holds_keeps [of "protect_payer n st"] by (simp add: protect_payer_def plan_terms_def)
  show ?thesis using assms(1,3,4) c r
    by (auto simp: decide_trial_def given_Some spared_def split: option.splits)
next
  case False
  then show ?thesis using assms(1)
    by (auto simp: decide_trial_def downgrade_def holds_other split: option.splits)
qed

lemma decide_trials_spares:
  assumes "\<And>i d. holds_plan p now d \<Longrightarrow> holds_plan p now (env i d)"
    "spared lookup customer" "customer \<noteq> []"
  shows "holds_plan p now db \<Longrightarrow> \<forall>c \<in> set cs. u_id c = u_id p \<longrightarrow> stripe_customer_id c = Some customer \<Longrightarrow>
    holds_plan p now (snd (decide_trials lookup enforcing now env cs db))"
proof (induction cs arbitrary: db)
  case (Cons c cs)
  have "holds_plan p now (snd (decide_trial lookup enforcing now c (env (u_id c) db)))"
    by (rule decide_trial_spares [OF assms(1) [OF Cons.prems(1)] _ assms(2,3)]) (use Cons.prems(2) in simp)
  from Cons.IH [OF this] Cons.prems(2) show ?case by (simp add: split_beta)
qed simp

lemma holds_roll:
  assumes "holds_plan p now db"
  shows "holds_plan p now (snd (snd (roll_windows age locked now db)))"
proof -
  let ?f = "\<lambda>u. if roll_predicate u now \<and> \<not> locked (u_id u) then roll_window age now u else u"
  have f: "user_of (u_id p) (snd (snd (roll_windows age locked now db))) = map_option ?f (user_of (u_id p) db)"
    by (simp add: roll_windows_def Let_def user_of_map)
  have roll: "plan_terms (roll_window age now u) = parked_terms u" "stripe_customer_id (roll_window age now u) = stripe_customer_id u"
    "quota_period_end u \<le> now" if "roll_predicate u now" for u
    using that by (simp_all add: plan_terms_def parked_terms_def roll_window_def window_set_def window_cte_def Let_def
        roll_predicate_def quota_should_roll_def)
  have again: "parked_terms u = plan_terms u" if "plan_terms u = parked_terms p" for u
    using that by (auto simp: plan_terms_def parked_terms_def)
  have same: "parked_terms u = parked_terms p" if "plan_terms u = plan_terms p" for u
    using that by (simp add: plan_terms_def parked_terms_def)
  obtain u where u: "user_of (u_id p) db = Some u" and c: "stripe_customer_id u = stripe_customer_id p"
    and h: "plan_terms u = plan_terms p \<and> quota_period_end u = quota_period_end p \<or> quota_period_end p \<le> now \<and> plan_terms u = parked_terms p"
    using assms by (auto simp: holds_plan_def split: option.splits)
  show ?thesis
  proof (cases "roll_predicate u now \<and> \<not> locked (u_id u)")
    case True
    then have "quota_period_end p \<le> now" using h roll(3) [of u] by auto
    moreover have "parked_terms u = parked_terms p" using h same [of u] again [of u] by metis
    ultimately show ?thesis using u c True roll [of u] by (simp add: holds_plan_def f)
  next
    case False
    then have "user_of (u_id p) (snd (snd (roll_windows age locked now db))) = Some u"
      unfolding f u by (cases "roll_predicate u now") (use False in simp_all)
    then show ?thesis using c h by (simp add: holds_plan_def)
  qed
qed

lemma holds_changed: "holds_plan p now db \<Longrightarrow> holds_plan p now (fold (reconcile_changed enf) ids db)"
  by (induction ids arbitrary: db) (simp_all add: reconcile_changed_def split: option.split)

lemma only_candidate:
  assumes "c \<in> set (lapse_candidates pick now db)" "distinct (map u_id (bl_users db))" "\<And>xs. set (pick xs) \<subseteq> set xs"
    "user_of (lc_user c) db = Some u"
  shows "c = \<lparr> lc_user = u_id u, lc_customer = stripe_customer_id u, lc_seen = the (entitlement_ends_at u) \<rparr>"
proof -
  let ?f = "\<lambda>u. case entitlement_ends_at u of None \<Rightarrow> None
       | Some e \<Rightarrow> if e \<le> now then Some \<lparr> lc_user = u_id u, lc_customer = stripe_customer_id u, lc_seen = e \<rparr> else None"
  have "c \<in> set (List.map_filter ?f (bl_users db))"
    using assms(1,3) unfolding lapse_candidates_def by (meson in_set_takeD subsetD)
  then obtain v where v: "v \<in> set (bl_users db)" "?f v = Some c" by (auto simp: List.map_filter_def)
  then have "user_of (lc_user c) db = Some v" using user_of_mem [OF v(1) assms(2)] by (auto split: option.splits if_splits)
  then show ?thesis using assms(4) v(2) by (auto split: option.splits if_splits)
qed

lemma reconcile_spares:
  assumes "holds_plan p now db" "distinct (map u_id (bl_users db))" "\<And>xs. set (pick xs) \<subseteq> set xs"
    "\<And>i d. holds_plan p now d \<Longrightarrow> holds_plan p now (env i d)"
    "spared lookup customer" "customer \<noteq> []" "stripe_customer_id p = Some customer"
  shows "holds_plan p now (snd (reconcile_quota_periods age pick lookup env locked enf now db))"
proof -
  obtain u where u: "user_of (u_id p) db = Some u" "stripe_customer_id u = Some customer"
    using assms(1,7) by (auto simp: holds_plan_def split: option.splits)
  have "\<forall>c \<in> set (lapse_candidates pick now db). lc_user c = u_id p \<longrightarrow> lc_customer c = Some customer"
    using only_candidate [OF _ assms(2,3)] u by fastforce
  from retire_all_spares [OF assms(4-6,1) this]
  show ?thesis using holds_roll by (simp add: reconcile_quota_periods_def split_beta Let_def holds_changed)
qed

lemma expire_spares:
  assumes "holds_plan p now db" "distinct (map u_id (bl_users db))" "\<And>xs. set (pick xs) \<subseteq> set xs"
    "\<And>i d. holds_plan p now d \<Longrightarrow> holds_plan p now (env i d)"
    "spared lookup customer" "customer \<noteq> []" "stripe_customer_id p = Some customer"
  shows "holds_plan p now (snd (expire_trials pick lookup env enf now db))"
proof -
  obtain u where u: "user_of (u_id p) db = Some u" "stripe_customer_id u = Some customer"
    using assms(1,7) by (auto simp: holds_plan_def split: option.splits)
  have "\<forall>c \<in> set (take EXPIRE_TRIALS_LIMIT (pick (filter (trial_candidate now) (bl_users db)))). u_id c = u_id p \<longrightarrow> stripe_customer_id c = Some customer"
  proof (intro ballI impI)
    fix c assume c: "c \<in> set (take EXPIRE_TRIALS_LIMIT (pick (filter (trial_candidate now) (bl_users db))))" "u_id c = u_id p"
    then have "c \<in> set (bl_users db)" using assms(3) [of "filter (trial_candidate now) (bl_users db)"] by (auto dest: in_set_takeD)
    then show "stripe_customer_id c = Some customer" using user_of_mem [OF _ assms(2)] c(2) u by fastforce
  qed
  from decide_trials_spares [OF assms(4-6) assms(1) this] show ?thesis by (simp add: expire_trials_def)
qed

subsection \<open>A lapsed account is not stranded\<close>

lemma roll_window_covers:
  assumes "age_covers age" "valid_dt (quota_anchor_at u)" "valid_dt (quota_period_end u)" "valid_dt at" "roll_predicate u at"
  shows "at < quota_period_end (roll_window age at u) \<and> records_used (roll_window age at u) = 0"
proof -
  have le: "quota_period_end u \<le> at" using assms(5) by (simp add: roll_predicate_def quota_should_roll_def)
  show ?thesis
    by (rule next_window_cases [OF assms(2,3) le])
      (use quota_next_eq [OF assms(1-4), symmetric] assms(5) in
        \<open>auto simp: roll_window_def window_set_def window_cte_def Let_def is_cell_def\<close>)
qed

lemma decide_lapsed_row:
  assumes "\<not> given (lc_customer c) \<or> (\<exists>st. lookup (opt_or (lc_customer c) []) = Some st \<and> \<not> entitled_answer st)"
  shows "user_of uid (snd (decide_lapsed lookup c db))
    = map_option (\<lambda>u. if uid = lc_user c then snd (retire_lapsed (lc_seen c) u) else u) (user_of uid db)"
  using assms by (auto simp: decide_lapsed_def Let_def user_of_where split: option.splits)

lemma decide_lapsed_others:
  "lc_user c \<noteq> uid \<Longrightarrow> user_of uid (snd (decide_lapsed lookup c db)) = user_of uid db"
  by (auto simp: decide_lapsed_def Let_def user_of_where option.map_id0 [unfolded id_def] split: option.splits)

lemma retire_all_lands:
  assumes "\<not> given (lc_customer lc) \<or> (\<exists>st. lookup (opt_or (lc_customer lc) []) = Some st \<and> \<not> entitled_answer st)"
    "\<And>i d. user_of (lc_user lc) (env i d) = user_of (lc_user lc) d" "entitlement_ends_at u = Some (lc_seen lc)"
  shows "\<forall>c \<in> set cs. lc_user c = lc_user lc \<longrightarrow> c = lc \<Longrightarrow>
    (user_of (lc_user lc) db = Some u \<and> lc \<in> set cs) \<or> user_of (lc_user lc) db = Some (snd (retire_lapsed (lc_seen lc) u)) \<Longrightarrow>
    user_of (lc_user lc) (snd (retire_all lookup env cs db)) = Some (snd (retire_lapsed (lc_seen lc) u))"
proof (induction cs arbitrary: db)
  case (Cons c cs)
  let ?db = "snd (decide_lapsed lookup c (env (lc_user c) db))"
  have twice: "snd (retire_lapsed (lc_seen lc) (snd (retire_lapsed (lc_seen lc) u))) = snd (retire_lapsed (lc_seen lc) u)"
    by (simp add: retire_lapsed_def)
  have "(user_of (lc_user lc) ?db = Some u \<and> lc \<in> set cs) \<or> user_of (lc_user lc) ?db = Some (snd (retire_lapsed (lc_seen lc) u))"
  proof (cases "lc_user c = lc_user lc")
    case True
    then have c: "c = lc" using Cons.prems(1) by simp
    show ?thesis unfolding c using Cons.prems(2) twice
      by (auto simp: decide_lapsed_row [where c = lc and lookup = lookup, OF assms(1)] assms(2))
  next
    case False
    then have "lc \<noteq> c" by blast
    then show ?thesis using Cons.prems(2) decide_lapsed_others [OF False] assms(2) by simp
  qed
  from Cons.IH [OF _ this] Cons.prems(1) show ?case by (simp add: split_beta)
qed auto

lemma user_of_changed [simp]: "user_of uid (fold (reconcile_changed enf) ids db) = user_of uid db"
  by (induction ids arbitrary: db) (simp_all add: reconcile_changed_def split: option.split)

lemma lapsed_released:
  assumes "user_of uid db = Some u" "entitlement_ends_at u = Some e" "distinct (map u_id (bl_users db))"
    "\<And>xs. set (pick xs) \<subseteq> set xs"
    "\<lparr> lc_user = uid, lc_customer = stripe_customer_id u, lc_seen = e \<rparr> \<in> set (lapse_candidates pick now db)"
    "\<not> given (stripe_customer_id u) \<or> (\<exists>st. lookup (opt_or (stripe_customer_id u) []) = Some st \<and> \<not> entitled_answer st)"
    "\<And>i d. user_of uid (env i d) = user_of uid d" "\<not> locked uid"
    "age_covers age" "valid_dt (quota_anchor_at u)" "valid_dt (quota_period_end u)" "valid_dt now"
  shows "\<exists>u'. user_of uid (snd (reconcile_quota_periods age pick lookup env locked enf now db)) = Some u' \<and>
    u_plan u' = ''starter'' \<and> records_limit u' = starter_limit \<and> entitlement_ends_at u' = None \<and>
    now < quota_period_end u' \<and> records_used u' = (if quota_period_end u \<le> now then 0 else records_used u)"
proof -
  let ?lc = "\<lparr> lc_user = uid, lc_customer = stripe_customer_id u, lc_seen = e \<rparr>"
  let ?u = "snd (retire_lapsed e u)"
  have id: "u_id u = uid" using user_of_id [OF assms(1)] .
  have only: "\<forall>c \<in> set (lapse_candidates pick now db). lc_user c = uid \<longrightarrow> c = ?lc"
  proof (intro ballI impI)
    fix c assume c: "c \<in> set (lapse_candidates pick now db)" "lc_user c = uid"
    then have "user_of (lc_user c) db = Some u" using assms(1) by simp
    from only_candidate [OF c(1) assms(3,4) this] show "c = ?lc" using assms(2) id by simp
  qed
  have r: "user_of uid (snd (retire_all lookup env (lapse_candidates pick now db) db)) = Some ?u"
  proof -
    have g: "\<not> given (lc_customer ?lc) \<or> (\<exists>st. lookup (opt_or (lc_customer ?lc) []) = Some st \<and> \<not> entitled_answer st)"
      "\<And>i d. user_of (lc_user ?lc) (env i d) = user_of (lc_user ?lc) d" "entitlement_ends_at u = Some (lc_seen ?lc)"
      "user_of (lc_user ?lc) db = Some u" "\<forall>c \<in> set (lapse_candidates pick now db). lc_user c = lc_user ?lc \<longrightarrow> c = ?lc"
      using assms(1,2,6,7) only by simp_all
    from retire_all_lands [where lc = ?lc and lookup = lookup and env = env, OF g(1-3,5) disjI1 [OF conjI [OF g(4) assms(5)]]] show ?thesis by simp
  qed
  let ?w = "if quota_period_end u \<le> now then roll_window age now ?u else ?u"
  have roll: "roll_predicate ?u now \<longleftrightarrow> quota_period_end u \<le> now" using assms(2)
    by (simp add: retire_lapsed_def roll_predicate_def quota_should_roll_def)
  have v: "valid_dt (quota_anchor_at ?u)" "valid_dt (quota_period_end ?u)" using assms(10,11) by (simp_all add: retire_lapsed_def)
  have w: "now < quota_period_end ?w" "records_used ?w = (if quota_period_end u \<le> now then 0 else records_used u)"
    using roll_window_covers [OF assms(9) v assms(12)] roll assms(2) by (auto simp: retire_lapsed_def)
  have p: "u_plan ?w = ''starter''" "records_limit ?w = starter_limit" "entitlement_ends_at ?w = None"
    using assms(2) by (simp_all add: roll_window_def window_set_def window_cte_def Let_def retire_lapsed_def)
  have "user_of uid (snd (snd (roll_windows age locked now (snd (retire_all lookup env (lapse_candidates pick now db) db))))) = Some ?w"
    using r roll assms(8) id by (simp add: roll_windows_def Let_def user_of_map)
  then show ?thesis using w p by (simp add: reconcile_quota_periods_def split_beta Let_def)
qed

subsection \<open>The lookup counter\<close>

lemma roll_lookup_cases:
  "(roll_lookup_period \<circ> adopt_period) u =
     (case skip_trace_period_start u of
        None \<Rightarrow> u\<lparr> skip_trace_period_start := Some (quota_period_start u) \<rparr>
      | Some p \<Rightarrow> if p < quota_period_start u
                  then u\<lparr> skip_trace_used_this_month := 0, skip_trace_period_start := Some (quota_period_start u) \<rparr> else u)"
  by (simp add: roll_lookup_period_def adopt_period_def split: option.split)

subsection \<open>Properties\<close>

text \<open>
  C27: The beats never take a plan from a payer. If Stripe says a customer is entitled, or cannot be asked, the
  hourly reconciliation and the trial expiry leave that account's plan, limit and window alone while the window
  runs, whatever its local end dates and status say; once the window has ended the only change is to the plan and
  limit the account itself had parked (a downgrade it asked for), so an account with nothing parked keeps its plan.
  Other transactions may do anything in between, short of changing the account's plan, customer or window
  themselves.
\<close>

theorem beats_spare_payers:
  assumes "user_of (u_id p) db = Some p" "distinct (map u_id (bl_users db))"
    "\<And>xs. set (pick xs) \<subseteq> set xs" "\<And>xs. set (pick' xs) \<subseteq> set xs"
    "\<And>i d. holds_plan p now d \<Longrightarrow> holds_plan p now (env i d)"
    "spared lookup customer" "customer \<noteq> []" "stripe_customer_id p = Some customer"
  shows "holds_plan p now (snd (reconcile_quota_periods age pick lookup env locked enf now db)) \<and>
    holds_plan p now (snd (expire_trials pick' lookup env enf now db))"
proof -
  have h: "holds_plan p now db" using assms(1) by (simp add: holds_plan_def)
  show ?thesis using reconcile_spares [where env = env and pick = pick, OF h assms(2,3,5-8)]
    expire_spares [where env = env and pick = pick', OF h assms(2,4-8)] by blast
qed

definition lapsed_payer :: user_row where
  "lapsed_payer = sample_user\<lparr> stripe_customer_id := Some ''cus'', stripe_subscription_id := Some ''sub'',
     subscription_status := Some ''canceled'', entitlement_ends_at := Some (DateTime 2026 3 20 0),
     trial_ends_at := Some (DateTime 2026 3 1 0), pending_plan := Some ''pro'', pending_records_limit := Some 1000, u_plan := ''business'', records_limit := 5000 \<rparr>"

definition lapsed_db :: billing_db where
  "lapsed_db = \<lparr> bl_users = [lapsed_payer], bl_configs = (\<lambda>_. []), bl_ledger = [], bl_referred_by = (\<lambda>_. None),
     bl_referrals = [], bl_credit = (\<lambda>_. 0) \<rparr>"

theorem beats_spare_payers_witness:
  "let lookup = (\<lambda>_. Some (Some ''active'')); now = DateTime 2026 4 2 0;
       db = snd (reconcile_quota_periods sample_age id lookup (\<lambda>_. id) (\<lambda>_. False) True now lapsed_db)
   in holds_plan lapsed_payer now db \<and>
      map (\<lambda>u. (entitlement_ends_at u, plan_terms u)) (bl_users db) = [(None, ''pro'', 1000, None, None)]"
proof -
  let ?lookup = "\<lambda>_. Some (Some ''active'')"
  have h: "user_of (u_id lapsed_payer) lapsed_db = Some lapsed_payer" "distinct (map u_id (bl_users lapsed_db))"
    "spared ?lookup ''cus''" "''cus'' \<noteq> []" "stripe_customer_id lapsed_payer = Some ''cus''"
    "map (\<lambda>u. (entitlement_ends_at u, plan_terms u)) (bl_users (snd (reconcile_quota_periods sample_age id ?lookup (\<lambda>_. id) (\<lambda>_. False) True (DateTime 2026 4 2 0) lapsed_db)))
      = [(None, ''pro'', 1000, None, None)]"
    by code_simp+
  show ?thesis
    using beats_spare_payers [OF h(1,2), where pick = id and pick' = id and env = "\<lambda>_. id" and lookup = ?lookup] h(3-6)
    by (simp add: Let_def)
qed

text \<open>
  C28: A lost cancellation webhook strands nobody. An account whose paid entitlement has ended and whom Stripe
  no longer entitles is, after the pass that considers it, on the free plan with the free plan's limit, with no
  end date left to hold its window, and in a window that still runs: a new one with nothing used if its window had
  ended; otherwise the window it was in, with the usage it had (which may exceed the free plan's limit until that
  window ends).
\<close>

theorem lapsed_account_is_released:
  assumes "user_of uid db = Some u" "entitlement_ends_at u = Some e" "distinct (map u_id (bl_users db))"
    "\<And>xs. set (pick xs) \<subseteq> set xs"
    "\<lparr> lc_user = uid, lc_customer = stripe_customer_id u, lc_seen = e \<rparr> \<in> set (lapse_candidates pick now db)"
    "\<not> given (stripe_customer_id u) \<or> (\<exists>st. lookup (opt_or (stripe_customer_id u) []) = Some st \<and> \<not> entitled_answer st)"
    "\<And>i d. user_of uid (env i d) = user_of uid d" "\<not> locked uid"
    "age_covers age" "valid_dt (quota_anchor_at u)" "valid_dt (quota_period_end u)" "valid_dt now"
  shows "\<exists>u'. user_of uid (snd (reconcile_quota_periods age pick lookup env locked enf now db)) = Some u' \<and>
    u_plan u' = ''starter'' \<and> records_limit u' = starter_limit \<and> entitlement_ends_at u' = None \<and>
    now < quota_period_end u' \<and> records_used u' = (if quota_period_end u \<le> now then 0 else records_used u)"
  by (rule lapsed_released [where env = env and pick = pick and lookup = lookup and locked = locked and uid = uid, OF assms])

theorem lapsed_account_is_released_witness:
  "let pass = (\<lambda>now. snd (reconcile_quota_periods sample_age id (\<lambda>_. Some None) (\<lambda>_. id) (\<lambda>_. False) True now lapsed_db)) in
   (\<exists>u. user_of (u_id lapsed_payer) (pass (DateTime 2026 4 2 0)) = Some u \<and> u_plan u = ''starter'' \<and> records_used u = 0 \<and>
      DateTime 2026 4 2 0 < quota_period_end u) \<and>
   (\<exists>u. user_of (u_id lapsed_payer) (pass (DateTime 2026 3 21 0)) = Some u \<and> u_plan u = ''starter'' \<and> records_used u = 900)"
proof -
  let ?lc = "\<lparr> lc_user = u_id lapsed_payer, lc_customer = stripe_customer_id lapsed_payer, lc_seen = DateTime 2026 3 20 0 \<rparr>"
  have c: "user_of (u_id lapsed_payer) lapsed_db = Some lapsed_payer" "entitlement_ends_at lapsed_payer = Some (DateTime 2026 3 20 0)"
    "distinct (map u_id (bl_users lapsed_db))"
    "lapse_candidates id (DateTime 2026 4 2 0) lapsed_db = [?lc]" "lapse_candidates id (DateTime 2026 3 21 0) lapsed_db = [?lc]"
    "valid_dt (quota_anchor_at lapsed_payer)" "valid_dt (quota_period_end lapsed_payer)" "valid_dt (DateTime 2026 4 2 0)" "valid_dt (DateTime 2026 3 21 0)"
    "quota_period_end lapsed_payer \<le> DateTime 2026 4 2 0" "\<not> quota_period_end lapsed_payer \<le> DateTime 2026 3 21 0"
    "\<not> entitled_answer None" "records_used lapsed_payer = 900"
    by code_simp+
  note rel = lapsed_account_is_released [OF c(1-3), where pick = id and env = "\<lambda>_. id"
        and lookup = "\<lambda>_. Some None" and locked = "\<lambda>_. False" and enf = True and age = sample_age]
  show ?thesis unfolding Let_def
    using rel [where now = "DateTime 2026 4 2 0"] rel [where now = "DateTime 2026 3 21 0"] c(4-13) sample_age_covers
    by (intro conjI) (simp, blast)+
qed

end
