(* ===== verification/LookupSubject.thy ===== *)
theory LookupSubject
  imports SkipTraceClaim
begin

text \<open>
  Whose answer a paid lookup buys (\<^verbatim>\<open>src/scrapers/enrichment/skip_trace.py\<close>): the subject key of the cache,
  the submission key of a batch, and the contacts read from the provider's result file.

  Text is ASCII, so NFKC is the identity and \<^verbatim>\<open>casefold\<close> lowers. SHA-256 is an argument; a row of the
  result file is a map from column names, as \<^verbatim>\<open>csv.DictReader\<close> gives it.
\<close>

subsection \<open>JSON\<close>

datatype json_atom = J_null | J_int int | J_str string

definition hex_digit :: "nat \<Rightarrow> char" where
  "hex_digit n = (if n < 10 then char_of (48 + n) else char_of (87 + n))"

text \<open>\<^verbatim>\<open>json.dumps\<close> with \<^verbatim>\<open>ensure_ascii=False\<close>: the quote, the backslash and the control characters.\<close>

definition json_escape :: "char \<Rightarrow> string" where
  "json_escape c =
     (let n = of_char c :: nat
      in if n = 34 then [CHR 0x5C, CHR 0x22]
         else if n = 92 then [CHR 0x5C, CHR 0x5C]
         else if n = 10 then [CHR 0x5C, CHR ''n'']
         else if n = 13 then [CHR 0x5C, CHR ''r'']
         else if n = 9 then [CHR 0x5C, CHR ''t'']
         else if n = 12 then [CHR 0x5C, CHR ''f'']
         else if n = 8 then [CHR 0x5C, CHR ''b'']
         else if n < 32 then [CHR 0x5C, CHR ''u'', CHR ''0'', CHR ''0'', hex_digit (n div 16), hex_digit (n mod 16)]
         else [c])"

fun json_dump :: "json_atom \<Rightarrow> string" where
  "json_dump J_null = ''null''"
| "json_dump (J_int i) = show_int i"
| "json_dump (J_str s) = CHR 0x22 # concat (map json_escape s) @ [CHR 0x22]"

definition json_array :: "json_atom list \<Rightarrow> string" where
  "json_array xs = CHR ''['' # str_join '','' (map json_dump xs) @ '']''"

definition json_text :: "string option \<Rightarrow> json_atom" where
  "json_text x = (case x of None \<Rightarrow> J_null | Some s \<Rightarrow> J_str s)"

subsection \<open>The keys\<close>

definition SUBJECT_ADDRESS_MAX :: nat where
  "SUBJECT_ADDRESS_MAX = 512"

definition SUBJECT_FIELD_MAX :: nat where
  "SUBJECT_FIELD_MAX = 128"

definition LOOKUP_KEY_VERSION :: int where
  "LOOKUP_KEY_VERSION = 2"

definition normalize_subject_text :: "string option \<Rightarrow> nat \<Rightarrow> string option" where
  "normalize_subject_text value limit =
     map_option (\<lambda>v. py_lower (str_join '' '' (py_words [] (take limit v)))) value"

text \<open>The array that is hashed, and the key; None is the ValueError of an unknown type.\<close>

definition subject_parts ::
    "string \<Rightarrow> string option \<Rightarrow> string option \<Rightarrow> string option \<Rightarrow> string \<Rightarrow> string option \<Rightarrow> string option \<Rightarrow> json_atom list" where
  "subject_parts user_id address city state trace_type first_name last_name =
     (let named = trace_type \<noteq> ''advanced''
      in [J_int LOOKUP_KEY_VERSION, J_str user_id,
          json_text (normalize_subject_text address SUBJECT_ADDRESS_MAX),
          json_text (normalize_subject_text city SUBJECT_FIELD_MAX),
          json_text (normalize_subject_text state SUBJECT_FIELD_MAX),
          J_str trace_type,
          json_text (normalize_subject_text (if named then first_name else None) SUBJECT_FIELD_MAX),
          json_text (normalize_subject_text (if named then last_name else None) SUBJECT_FIELD_MAX)])"

definition lookup_subject_key ::
    "(string \<Rightarrow> string) \<Rightarrow> string \<Rightarrow> string option \<Rightarrow> string option \<Rightarrow> string option \<Rightarrow> string \<Rightarrow> string option \<Rightarrow> string option
      \<Rightarrow> string option" where
  "lookup_subject_key sha user_id address city state trace_type first_name last_name =
     (if trace_type \<notin> set TRACE_TYPES then None
      else Some (sha (json_array (subject_parts user_id address city state trace_type first_name last_name))))"

definition submission_parts :: "string option \<Rightarrow> string option \<Rightarrow> string option \<Rightarrow> string \<Rightarrow> json_atom list" where
  "submission_parts address city state trace_type =
     [J_str ''submission-v1'', json_text (normalize_subject_text address SUBJECT_ADDRESS_MAX),
      json_text (normalize_subject_text city SUBJECT_FIELD_MAX),
      json_text (normalize_subject_text state SUBJECT_FIELD_MAX), J_str trace_type]"

definition submission_collision_key ::
    "(string \<Rightarrow> string) \<Rightarrow> string option \<Rightarrow> string option \<Rightarrow> string option \<Rightarrow> string \<Rightarrow> string" where
  "submission_collision_key sha address city state trace_type =
     sha (json_array (submission_parts address city state trace_type))"

definition p_field :: "pending_row \<Rightarrow> string \<Rightarrow> string option" where
  "p_field p column = opt_or (map_of (p_fields p) column) None"

definition pending_row_subject_key :: "(string \<Rightarrow> string) \<Rightarrow> pending_row \<Rightarrow> string option" where
  "pending_row_subject_key sha p =
     lookup_subject_key sha (p_user p) (p_field p ''property_address'') (p_field p ''city'') (p_field p ''state'')
       (p_trace_type p) (p_field p ''first_name'') (p_field p ''last_name'')"

definition payload_subject_key :: "(string \<Rightarrow> string) \<Rightarrow> payload \<Rightarrow> string option" where
  "payload_subject_key sha p =
     lookup_subject_key sha (pl_user p) (pl_get p ''property_address'') (pl_get p ''city'') (pl_get p ''state'')
       (pl_trace_type p) (pl_get p ''first_name'') (pl_get p ''last_name'')"

subsection \<open>Contacts\<close>

type_synonym csv_row = "string \<rightharpoonup> string"

definition is_digit :: "char \<Rightarrow> bool" where
  "is_digit c = (let n = of_char c :: nat in 48 \<le> n \<and> n \<le> 57)"

definition phone_digits :: "string \<Rightarrow> string" where
  "phone_digits p = (let d = filter is_digit p in if length d \<ge> 10 then drop (length d - 10) d else d)"

text \<open>\<^verbatim>\<open>_get\<close>: the first column with something other than blanks, stripped.\<close>

fun csv_get :: "csv_row \<Rightarrow> string list \<Rightarrow> string" where
  "csv_get row [] = []"
| "csv_get row (k # ks) = (let v = py_strip (opt_or (row k) []) in if v \<noteq> [] then v else csv_get row ks)"

definition numbered :: "string \<Rightarrow> string \<Rightarrow> nat \<Rightarrow> string list" where
  "numbered dashed snake i = [dashed @ show_nat i, snake @ show_nat i]"

definition phone_candidates :: "csv_row \<Rightarrow> (string \<times> string option) list" where
  "phone_candidates row =
     (let primary = csv_get row [''primary_phone''];
          ptype = csv_get row [''primary_phone_type''];
          primary_type = (if ptype = [] then None else Some ptype);
          m1 = csv_get row (numbered ''Mobile-'' ''mobile_'' 1);
          l1 = csv_get row (numbered ''Landline-'' ''landline_'' 1);
          legacy = (if m1 \<noteq> [] then [(m1, Some ''Mobile'')]
                    else if primary \<noteq> [] then [(primary, primary_type)]
                    else if l1 \<noteq> [] then [(l1, Some ''Landline'')] else [])
      in legacy @
         map (\<lambda>i. (csv_get row (numbered ''Mobile-'' ''mobile_'' i), Some ''Mobile'')) [1, 2, 3, 4, 5] @
         [(primary, primary_type)] @
         map (\<lambda>i. (csv_get row (numbered ''Landline-'' ''landline_'' i), Some ''Landline'')) [1, 2, 3])"

fun distinct_by :: "('a \<Rightarrow> string) \<Rightarrow> string list \<Rightarrow> 'a list \<Rightarrow> 'a list" where
  "distinct_by key seen [] = []"
| "distinct_by key seen (x # xs) =
     (if key x = [] \<or> key x \<in> set seen then distinct_by key seen xs else x # distinct_by key (key x # seen) xs)"

definition pick_phones :: "csv_row \<Rightarrow> nat \<Rightarrow> (string \<times> string option) list" where
  "pick_phones row n = take n (distinct_by (\<lambda>p. phone_digits (fst p)) [] (phone_candidates row))"

text \<open>
  Of each numbered pair of columns the first new address counts; the second column is read when the first
  is empty or repeats an earlier address.
\<close>

fun pick_email_columns :: "csv_row \<Rightarrow> string list \<Rightarrow> string list \<Rightarrow> (string \<times> string list) option" where
  "pick_email_columns row seen [] = None"
| "pick_email_columns row seen (k # ks) =
     (let v = py_strip (opt_or (row k) [])
      in if v \<noteq> [] \<and> py_lower v \<notin> set seen then Some (v, py_lower v # seen) else pick_email_columns row seen ks)"

fun pick_emails_from :: "csv_row \<Rightarrow> nat \<Rightarrow> nat list \<Rightarrow> string list \<Rightarrow> string list" where
  "pick_emails_from row n [] seen = []"
| "pick_emails_from row n (i # is) seen =
     (case pick_email_columns row seen (numbered ''Email-'' ''email_'' i) of
        None \<Rightarrow> pick_emails_from row n is seen
      | Some (v, seen') \<Rightarrow> v # (if n \<le> 1 then [] else pick_emails_from row (n - 1) is seen'))"

definition pick_emails :: "csv_row \<Rightarrow> nat \<Rightarrow> string list" where
  "pick_emails row n = pick_emails_from row n [1, 2, 3, 4, 5] []"

record answer_row =
  an_address :: string
  an_city :: string
  an_state :: string
  an_phones :: "(string \<times> string option) list"
  an_emails :: "string list"

definition ingest_webhook_row :: "csv_row \<Rightarrow> answer_row" where
  "ingest_webhook_row row =
     \<lparr> an_address = py_strip (opt_or (row ''address'') []), an_city = py_strip (opt_or (row ''city'') []),
       an_state = py_strip (opt_or (row ''state'') []), an_phones = pick_phones row 3, an_emails = pick_emails row 3 \<rparr>"

definition ingest_webhook_csv :: "csv_row list \<Rightarrow> answer_row list" where
  "ingest_webhook_csv rows = map ingest_webhook_row rows"

subsection \<open>The serialisation is unambiguous\<close>

lemma of_char_inject: "(of_char c :: nat) = of_char d \<Longrightarrow> c = d"
  by (metis of_char_eq_iff)

text \<open>A decoder of one escaped character, so that the escapes are prefix free.\<close>

definition hex_value :: "char \<Rightarrow> nat" where
  "hex_value c = (let n = of_char c in if n < 58 then n - 48 else n - 87)"

definition unescape :: "string \<Rightarrow> char \<times> string" where
  "unescape s =
     (if hd s \<noteq> CHR 0x5C then (hd s, tl s)
      else let t = s ! 1; r = drop 2 s
           in if t = CHR 0x22 then (CHR 0x22, r) else if t = CHR 0x5C then (CHR 0x5C, r)
              else if t = CHR ''n'' then (char_of (10 :: nat), r) else if t = CHR ''r'' then (char_of (13 :: nat), r)
              else if t = CHR ''t'' then (char_of (9 :: nat), r) else if t = CHR ''f'' then (char_of (12 :: nat), r)
              else if t = CHR ''b'' then (char_of (8 :: nat), r)
              else (char_of (16 * hex_value (s ! 4) + hex_value (s ! 5)), drop 6 s))"

lemma hex_value_digit: "n < 16 \<Longrightarrow> hex_value (hex_digit n) = n"
  by (simp add: hex_value_def hex_digit_def Let_def)

lemma unescape_escape: "unescape (json_escape c @ x) = (c, x)"
proof -
  define n :: nat where n: "n = of_char c"
  have c: "c = char_of n" by (simp add: n)
  have b: "n = 92 \<longleftrightarrow> c = CHR 0x5C" "n = 34 \<longleftrightarrow> c = CHR 0x22"
    using of_char_inject [of c "CHR 0x5C"] of_char_inject [of c "CHR 0x22"] by (auto simp: n)
  consider "n = 34" | "n = 92" | "n = 10" | "n = 13" | "n = 9" | "n = 12" | "n = 8"
    | "n \<notin> {34, 92, 10, 13, 9, 12, 8}" "n < 32" | "n \<notin> {34, 92}" "\<not> n < 32" by force
  then show ?thesis
  proof cases
    case 8
    have h: "hex_value (hex_digit (n div 16)) = n div 16" "hex_value (hex_digit (n mod 16)) = n mod 16"
      using 8(2) by (simp_all add: hex_value_digit less_mult_imp_div_less)
    have e: "json_escape c = [CHR 0x5C, CHR ''u'', CHR ''0'', CHR ''0'', hex_digit (n div 16), hex_digit (n mod 16)]"
      using 8 by (simp add: json_escape_def Let_def n)
    have m: "16 * (n div 16) + n mod 16 = n" by (rule mult_div_mod_eq)
    show ?thesis unfolding e by (simp add: unescape_def Let_def h m c)
  next
    case 9
    have "json_escape c = [c]" "c \<noteq> CHR 0x5C" using 9 b by (simp_all add: json_escape_def Let_def n)
    then show ?thesis by (simp add: unescape_def)
  next
    case 1
    then show ?thesis using b by (simp add: json_escape_def unescape_def Let_def)
  next
    case 2
    then show ?thesis using b by (simp add: json_escape_def unescape_def Let_def)
  qed (simp_all add: json_escape_def unescape_def Let_def n [symmetric] c)
qed

lemma escape_prefix_free: "json_escape c @ x = json_escape d @ y \<Longrightarrow> c = d \<and> x = y"
  by (metis unescape_escape prod.inject)

lemma escape_not_quote: "hd (json_escape c @ x) \<noteq> CHR 0x22" "json_escape c \<noteq> []"
proof -
  have "c = CHR 0x22 \<Longrightarrow> (of_char c :: nat) = 34" by simp
  then show "hd (json_escape c @ x) \<noteq> CHR 0x22" "json_escape c \<noteq> []" by (auto simp: json_escape_def Let_def)
qed

lemma quoted_prefix_free:
  "concat (map json_escape s) @ CHR 0x22 # x = concat (map json_escape t) @ CHR 0x22 # y \<Longrightarrow> s = t \<and> x = y"
proof (induction s arbitrary: t)
  case Nil
  then show ?case
  proof (cases t)
    case (Cons d ds)
    have "hd (json_escape d @ concat (map json_escape ds) @ CHR 0x22 # y) = CHR 0x22"
      using Nil Cons by (metis append.assoc append_Nil concat.simps(1,2) list.map(1,2) list.sel(1))
    then show ?thesis using escape_not_quote(1) by blast
  qed simp
next
  case (Cons c s)
  show ?case
  proof (cases t)
    case Nil
    have "hd (json_escape c @ concat (map json_escape s) @ CHR 0x22 # x) = CHR 0x22"
      using Cons.prems Nil by (metis append.assoc append_Nil concat.simps(1,2) list.map(1,2) list.sel(1))
    then show ?thesis using escape_not_quote(1) by blast
  next
    case (Cons d ds)
    have "json_escape c @ (concat (map json_escape s) @ CHR 0x22 # x) = json_escape d @ (concat (map json_escape ds) @ CHR 0x22 # y)"
      using Cons.prems Cons by simp
    from escape_prefix_free [OF this] show ?thesis using Cons.IH Cons by blast
  qed
qed

fun is_text :: "json_atom \<Rightarrow> bool" where
  "is_text (J_int _) = False"
| "is_text _ = True"

lemma dump_prefix_free:
  assumes "is_text a" "is_text b" "json_dump a @ x = json_dump b @ y"
  shows "a = b \<and> x = y"
proof (cases a)
  case J_null
  then show ?thesis using assms by (cases b) auto
next
  case (J_str s)
  show ?thesis
  proof (cases b)
    case J_null
    then show ?thesis using J_str assms(3) by simp
  next
    case (J_int i)
    then show ?thesis using assms(2) by simp
  next
    case (J_str t)
    have "concat (map json_escape s) @ CHR 0x22 # x = concat (map json_escape t) @ CHR 0x22 # y"
      using assms(3) \<open>a = J_str s\<close> J_str by simp
    from quoted_prefix_free [OF this] show ?thesis using \<open>a = J_str s\<close> J_str by simp
  qed
qed (use assms(1) in simp)

lemma join_Cons2: "str_join sep (x # y # ys) = x @ sep @ str_join sep (y # ys)"
  by simp

lemma dump_join_inject:
  "length as = length bs \<Longrightarrow> list_all is_text as \<Longrightarrow> list_all is_text bs \<Longrightarrow>
    str_join '','' (map json_dump as) @ x = str_join '','' (map json_dump bs) @ y \<Longrightarrow> as = bs \<and> x = y"
proof (induction as bs rule: list_induct2)
  case (Cons a as b bs)
  show ?case
  proof (cases as)
    case Nil
    then have "bs = []" using Cons.hyps by simp
    then show ?thesis using dump_prefix_free [of a b x y] Cons.prems Nil by simp
  next
    case (Cons a' as')
    then obtain b' bs' where bs: "bs = b' # bs'" using Cons.hyps by (cases bs) auto
    have "json_dump a @ ('','' @ str_join '','' (map json_dump as) @ x) = json_dump b @ ('','' @ str_join '','' (map json_dump bs) @ y)"
      using Cons.prems(3) unfolding Cons bs by (simp only: list.map join_Cons2 append_assoc)
    from dump_prefix_free [OF _ _ this] Cons.prems(1,2)
    have "a = b" "'','' @ str_join '','' (map json_dump as) @ x = '','' @ str_join '','' (map json_dump bs) @ y" by auto
    then show ?thesis using Cons.IH Cons.prems(1,2) by auto
  qed
qed simp

lemma array_inject:
  assumes "json_array (J_int i # as) = json_array (J_int i # bs)" "length as = length bs"
    "list_all is_text as" "list_all is_text bs"
  shows "as = bs"
proof (cases as)
  case (Cons a as')
  then obtain b bs' where bs: "bs = b # bs'" using assms(2) by (cases bs) auto
  have "str_join '','' (map json_dump as) @ '']'' = str_join '','' (map json_dump bs) @ '']''"
    using assms(1) unfolding json_array_def Cons bs by (simp del: json_dump.simps(1,3))
  from dump_join_inject [OF assms(2-4) this] show ?thesis by blast
qed (use assms(2) in simp)

lemma is_text_json_text [simp]: "is_text (json_text x)" "json_text x = json_text y \<longleftrightarrow> x = y"
  by (simp_all add: json_text_def split: option.split)

text \<open>What a lookup is bought for: the account, the type, the address, and the name of a normal trace.\<close>

record subject =
  sj_user :: string
  sj_type :: string
  sj_address :: "string option \<times> string option \<times> string option"
  sj_name :: "(string option \<times> string option) option"

definition subject_of :: "pending_row \<Rightarrow> subject" where
  "subject_of p =
     \<lparr> sj_user = p_user p, sj_type = p_trace_type p,
       sj_address = (normalize_subject_text (p_field p ''property_address'') SUBJECT_ADDRESS_MAX,
                     normalize_subject_text (p_field p ''city'') SUBJECT_FIELD_MAX,
                     normalize_subject_text (p_field p ''state'') SUBJECT_FIELD_MAX),
       sj_name = (if p_trace_type p = ''advanced'' then None
                  else Some (normalize_subject_text (p_field p ''first_name'') SUBJECT_FIELD_MAX,
                             normalize_subject_text (p_field p ''last_name'') SUBJECT_FIELD_MAX)) \<rparr>"

lemma subject_parts_inject:
  "json_array (subject_parts u a c s t f l) = json_array (subject_parts u' a' c' s' t' f' l') \<longleftrightarrow>
    u = u' \<and> t = t' \<and>
    normalize_subject_text a SUBJECT_ADDRESS_MAX = normalize_subject_text a' SUBJECT_ADDRESS_MAX \<and>
    normalize_subject_text c SUBJECT_FIELD_MAX = normalize_subject_text c' SUBJECT_FIELD_MAX \<and>
    normalize_subject_text s SUBJECT_FIELD_MAX = normalize_subject_text s' SUBJECT_FIELD_MAX \<and>
    (t = ''advanced'' \<or> normalize_subject_text f SUBJECT_FIELD_MAX = normalize_subject_text f' SUBJECT_FIELD_MAX \<and>
       normalize_subject_text l SUBJECT_FIELD_MAX = normalize_subject_text l' SUBJECT_FIELD_MAX)"
  (is "?l = ?r")
proof
  assume ?l
  then have "tl (subject_parts u a c s t f l) = tl (subject_parts u' a' c' s' t' f' l')"
    unfolding subject_parts_def Let_def by (simp only: list.sel) (erule array_inject; simp)
  then show ?r unfolding subject_parts_def Let_def by (auto split: if_splits)
qed (auto simp: subject_parts_def Let_def)

lemma subject_key_inject:
  assumes "inj sha" "p_trace_type p \<in> set TRACE_TYPES" "p_trace_type q \<in> set TRACE_TYPES"
  shows "pending_row_subject_key sha p = pending_row_subject_key sha q \<longleftrightarrow> subject_of p = subject_of q"
proof -
  have "pending_row_subject_key sha p = pending_row_subject_key sha q \<longleftrightarrow>
      json_array (subject_parts (p_user p) (p_field p ''property_address'') (p_field p ''city'') (p_field p ''state'')
         (p_trace_type p) (p_field p ''first_name'') (p_field p ''last_name'')) =
      json_array (subject_parts (p_user q) (p_field q ''property_address'') (p_field q ''city'') (p_field q ''state'')
         (p_trace_type q) (p_field q ''first_name'') (p_field q ''last_name''))"
    unfolding pending_row_subject_key_def lookup_subject_key_def using assms by (simp add: inj_eq)
  then show ?thesis unfolding subject_parts_inject subject_of_def by auto
qed

lemma submission_not_subject:
  "json_array (submission_parts a c s t) \<noteq> json_array (subject_parts u a' c' s' t' f l)"
proof
  assume eq: "json_array (submission_parts a c s t) = json_array (subject_parts u a' c' s' t' f l)"
  have two: "show_int 2 = ''2''" by code_simp
  have "json_array (submission_parts a c s t) ! 1 = CHR 0x22" by (simp add: json_array_def submission_parts_def)
  moreover have "json_array (subject_parts u a' c' s' t' f l) ! 1 = CHR ''2''"
    by (simp add: json_array_def subject_parts_def Let_def LOOKUP_KEY_VERSION_def two)
  ultimately show False unfolding eq by simp
qed

lemma normalize_truncated:
  "map_of WIDTHS column = Some limit \<Longrightarrow> normalize_subject_text (truncate_value column v) limit = normalize_subject_text v limit"
  by (cases v) (simp_all add: truncate_value_def normalize_subject_text_def)

lemma p_field_new_row:
  assumes "column \<in> set TEXT_COLUMNS"
  shows "p_field (new_row fresh now action pl) column = truncate_value column (pl_get pl column)"
  using assms by (auto simp: p_field_def new_row_def TEXT_COLUMNS_def)

lemma row_key_is_payload_key:
  "pending_row_subject_key sha (new_row fresh now action pl) = payload_subject_key sha pl"
proof -
  have w: "map_of WIDTHS ''property_address'' = Some SUBJECT_ADDRESS_MAX" "map_of WIDTHS ''city'' = Some SUBJECT_FIELD_MAX"
    "map_of WIDTHS ''first_name'' = Some SUBJECT_FIELD_MAX" "map_of WIDTHS ''last_name'' = Some SUBJECT_FIELD_MAX"
    "map_of WIDTHS ''state'' = None"
    by (simp_all add: WIDTHS_def SUBJECT_ADDRESS_MAX_def SUBJECT_FIELD_MAX_def)
  have c: "''property_address'' \<in> set TEXT_COLUMNS" "''city'' \<in> set TEXT_COLUMNS" "''state'' \<in> set TEXT_COLUMNS"
    "''first_name'' \<in> set TEXT_COLUMNS" "''last_name'' \<in> set TEXT_COLUMNS" by (simp_all add: TEXT_COLUMNS_def)
  have s: "truncate_value ''state'' v = v" for v by (simp add: truncate_value_def w(5))
  note p = p_field_new_row [OF c(1)] p_field_new_row [OF c(2)] p_field_new_row [OF c(3)] p_field_new_row [OF c(4)] p_field_new_row [OF c(5)]
  have i: "p_user (new_row fresh now action pl) = pl_user pl" "p_trace_type (new_row fresh now action pl) = pl_trace_type pl"
    by (simp_all add: new_row_def)
  have "subject_parts (pl_user pl) (truncate_value ''property_address'' (pl_get pl ''property_address''))
      (truncate_value ''city'' (pl_get pl ''city'')) (pl_get pl ''state'') (pl_trace_type pl)
      (truncate_value ''first_name'' (pl_get pl ''first_name'')) (truncate_value ''last_name'' (pl_get pl ''last_name''))
    = subject_parts (pl_user pl) (pl_get pl ''property_address'') (pl_get pl ''city'') (pl_get pl ''state'') (pl_trace_type pl)
        (pl_get pl ''first_name'') (pl_get pl ''last_name'')"
    unfolding subject_parts_def Let_def by (simp add: normalize_truncated [OF w(1)] normalize_truncated [OF w(2)]
        normalize_truncated [OF w(3)] normalize_truncated [OF w(4)])
  then show ?thesis
    unfolding pending_row_subject_key_def payload_subject_key_def lookup_subject_key_def p i s by simp
qed

subsection \<open>The contacts picked\<close>

lemma distinct_by_keys:
  "distinct (map key (distinct_by key seen xs)) \<and> key ` set (distinct_by key seen xs) \<inter> (insert [] (set seen)) = {} \<and>
    set (distinct_by key seen xs) \<subseteq> set xs"
proof (induction xs arbitrary: seen)
  case (Cons x xs)
  show ?case using Cons.IH [of seen] Cons.IH [of "key x # seen"] by (auto simp: image_iff)
qed simp

lemma pick_phones_sound:
  "length (pick_phones row n) \<le> n" "distinct (map (phone_digits \<circ> fst) (pick_phones row n))"
  "\<forall>p \<in> set (pick_phones row n). phone_digits (fst p) \<noteq> [] \<and> p \<in> set (phone_candidates row)"
proof -
  note d = distinct_by_keys [of "\<lambda>p. phone_digits (fst p)" "[]" "phone_candidates row"]
  show "length (pick_phones row n) \<le> n" by (simp add: pick_phones_def)
  show "distinct (map (phone_digits \<circ> fst) (pick_phones row n))"
    using d by (simp add: pick_phones_def take_map [symmetric] comp_def)
  show "\<forall>p \<in> set (pick_phones row n). phone_digits (fst p) \<noteq> [] \<and> p \<in> set (phone_candidates row)"
  proof
    fix p assume "p \<in> set (pick_phones row n)"
    then have p: "p \<in> set (distinct_by (\<lambda>p. phone_digits (fst p)) [] (phone_candidates row))"
      unfolding pick_phones_def by (rule in_set_takeD)
    have "phone_digits (fst p) \<notin> {[]}" using d p by (auto simp only: list.set)
    then show "phone_digits (fst p) \<noteq> [] \<and> p \<in> set (phone_candidates row)" using d p by blast
  qed
qed

subsection \<open>Properties\<close>

text \<open>
  A key is one subject. With a hash that does not collide, two queue rows have one cache key exactly
  when they were bought for the same account and type, at the same address, and (for a normal trace) under
  the same names, each normalised and cut to its column; a name with a quote or a comma cannot imitate a
  field boundary. A submission key is never a subject key.
\<close>

theorem subject_key_identity:
  assumes "inj sha" "p_trace_type p \<in> set TRACE_TYPES" "p_trace_type q \<in> set TRACE_TYPES"
  shows "(pending_row_subject_key sha p = pending_row_subject_key sha q \<longleftrightarrow> subject_of p = subject_of q) \<and>
    pending_row_subject_key sha p \<noteq> Some (submission_collision_key sha a c s t)"
proof -
  have "pending_row_subject_key sha p \<noteq> Some (submission_collision_key sha a c s t)"
    using submission_not_subject [of a c s t, THEN not_sym] assms(1,2)
    by (simp add: pending_row_subject_key_def lookup_subject_key_def submission_collision_key_def inj_eq)
  then show ?thesis using subject_key_inject [OF assms] by blast
qed

definition sample_lookup :: "string \<Rightarrow> string \<Rightarrow> string \<Rightarrow> pending_row" where
  "sample_lookup fname lname t =
     \<lparr> p_id = ''p'', p_job = ''j1'', p_result = ''r1'', p_user = ''u1'',
       p_fields = [(''property_address'', Some ''1  Main St''), (''city'', Some ''Tacoma''), (''state'', Some ''WA''),
                   (''first_name'', Some fname), (''last_name'', Some lname)],
       p_trace_type = t, p_status = P_queued, p_queue = None, p_enqueued_at = DateTime 2026 3 1 0, p_submitted_at = None,
       p_action = None \<rparr>"

theorem subject_key_identity_witness:
  "pending_row_subject_key id (sample_lookup ''Ann'' ''Lee'' ''normal'') = pending_row_subject_key id (sample_lookup ''ANN'' ''lee '' ''normal'') \<and>
   pending_row_subject_key id (sample_lookup ''Ann'' ''Lee'' ''normal'') \<noteq> pending_row_subject_key id (sample_lookup ''An'' ''n Lee'' ''normal'')"
proof -
  have s: "subject_of (sample_lookup ''Ann'' ''Lee'' ''normal'') = subject_of (sample_lookup ''ANN'' ''lee '' ''normal'')"
    "subject_of (sample_lookup ''Ann'' ''Lee'' ''normal'') \<noteq> subject_of (sample_lookup ''An'' ''n Lee'' ''normal'')"
    "p_trace_type (sample_lookup ''Ann'' ''Lee'' ''normal'') \<in> set TRACE_TYPES" "p_trace_type (sample_lookup ''ANN'' ''lee '' ''normal'') \<in> set TRACE_TYPES"
    "p_trace_type (sample_lookup ''An'' ''n Lee'' ''normal'') \<in> set TRACE_TYPES"
    by code_simp+
  have i: "inj id" by simp
  show ?thesis using subject_key_identity [OF i s(3,4)] subject_key_identity [OF i s(3,5)] s(1,2) by blast
qed

text \<open>
  C18: What is read is what will be written. The key under which the enqueue looks for an earlier answer,
  computed from the payload before any row exists, is the key under which the ingest will store the answer
  of the row that the payload becomes, whatever the truncation of its columns.
\<close>

theorem cache_read_meets_write:
  "payload_subject_key sha pl = pending_row_subject_key sha (new_row fresh now action pl)"
  by (rule row_key_is_payload_key [symmetric])

end
