(* ===== verification/SubmitOutcome.thy ===== *)
theory SubmitOutcome
  imports LookupSubject "HOL-Library.Sublist"
begin

text \<open>
  What a batch submission can end in, the error text it raises (\<^verbatim>\<open>scrapers/enrichment/skip_trace.py\<close>), and what
  the dispatcher makes of that text (\<^verbatim>\<open>workers/skip_trace_dispatcher.py\<close>): the decision between releasing a
  claim, failing its rows and keeping it because the provider may have taken the batch.
\<close>

subsection \<open>Outcomes and their text\<close>

text \<open>
  \<open>Refused_endpoint\<close> covers every refusal before a socket opens, \<open>Not_delivered\<close> \<^verbatim>\<open>requests.ConnectionError\<close> and
  \<open>Timed_out\<close> any other \<^verbatim>\<open>RequestException\<close>, each with the exception's own text; \<open>Http_failure\<close> is a status of 400
  or more with its body, \<open>Non_json\<close> a success whose body of that length is not JSON, \<open>No_queue_id\<close> one that names
  no queue, with its keys as printed.
\<close>

record accepted_batch =
  ab_queue :: int
  ab_uploaded :: "int option"
  ab_credits :: "int option"
  ab_created :: "datetime option"
  ab_download :: "string option"

datatype submit_outcome =
  Refused_endpoint string
| Not_delivered string
| Timed_out string
| Http_failure nat string
| Non_json nat
| No_queue_id string
| Accepted accepted_batch

definition contains :: "string \<Rightarrow> string \<Rightarrow> bool" where
  "contains needle s = sublist needle s"

text \<open>\<^verbatim>\<open>need\s+(\d+)\s+more\s+credits?\<close>, case-insensitive: the digits of the leftmost match.\<close>

definition skip_spaces :: "string \<Rightarrow> string option" where
  "skip_spaces s = (case s of [] \<Rightarrow> None | c # cs \<Rightarrow> if py_space c then Some (dropWhile py_space cs) else None)"

definition strip_word :: "string \<Rightarrow> string \<Rightarrow> string option" where
  "strip_word w s = (if prefix w s then Some (drop (length w) s) else None)"

definition shortfall_here :: "string \<Rightarrow> string option" where
  "shortfall_here s =
     Option.bind (strip_word ''need'' s) (\<lambda>s1. Option.bind (skip_spaces s1) (\<lambda>s2.
       let digits = takeWhile is_digit s2
       in if digits = [] then None
          else Option.bind (skip_spaces (dropWhile is_digit s2)) (\<lambda>s3.
            Option.bind (strip_word ''more'' s3) (\<lambda>s4. Option.bind (skip_spaces s4) (\<lambda>s5.
              map_option (\<lambda>_. digits) (strip_word ''credit'' s5))))))"

fun find_shortfall :: "string \<Rightarrow> string option" where
  "find_shortfall [] = None"
| "find_shortfall (c # cs) =
     (case shortfall_here (c # cs) of None \<Rightarrow> find_shortfall cs | Some d \<Rightarrow> Some d)"

definition need_more_credits :: "string \<Rightarrow> string option" where
  "need_more_credits s = find_shortfall (py_lower s)"

definition BODY_HINTS :: "string list" where
  "BODY_HINTS = [''insufficient credit'', ''rate limit'']"

definition http_failure_message :: "nat \<Rightarrow> string \<Rightarrow> string" where
  "http_failure_message status body =
     (let suffix = '' (body '' @ show_nat (length body) @ '' chars)''
      in if status = 402
         then ''Tracerfy returned 402: insufficient credits.'' @
              (case need_more_credits body of None \<Rightarrow> [] | Some d \<Rightarrow> '' You need '' @ d @ '' more credits.'') @ suffix
         else let hints = filter (\<lambda>h. contains h (py_lower body)) BODY_HINTS
              in ''Tracerfy returned '' @ show_nat status @
                 (if hints = [] then [] else '': '' @ str_join '', '' hints) @ suffix)"

text \<open>None: the call returned the batch.\<close>

fun submit_error :: "submit_outcome \<Rightarrow> string option" where
  "submit_error (Refused_endpoint e) = Some (''Refusing unsafe Tracerfy endpoint: '' @ e)"
| "submit_error (Not_delivered e) = Some (''Connection error submitting batch: '' @ e)"
| "submit_error (Timed_out e) = Some (''Network error submitting batch: '' @ e)"
| "submit_error (Http_failure status body) =
     Some (if status = 429 then ''Tracerfy rate limit hit (429). Dispatcher should back off and retry next tick.''
           else http_failure_message status body)"
| "submit_error (Non_json n) = Some (''Tracerfy returned non-JSON (body '' @ show_nat n @ '' chars)'')"
| "submit_error (No_queue_id keys) = Some (''Tracerfy response missing queue_id (keys: '' @ keys @ '')'')"
| "submit_error (Accepted _) = None"

subsection \<open>The dispatcher's reading of it\<close>

datatype failure_kind = Rate_limited | Out_of_credits | Connection_failed | Unknown_outcome | Provider_unavailable | Provider_error

text \<open>\<^verbatim>\<open>re.search(r"tracerfy returned (\d{3})", m)\<close>.\<close>

fun returned_status :: "string \<Rightarrow> string option" where
  "returned_status [] = None"
| "returned_status (c # cs) =
     (case strip_word ''tracerfy returned '' (c # cs) of
        Some r \<Rightarrow> if length (takeWhile is_digit r) \<ge> 3 then Some (take 3 r) else returned_status cs
      | None \<Rightarrow> returned_status cs)"

definition classify_submit_failure :: "string \<Rightarrow> failure_kind" where
  "classify_submit_failure message =
     (let m = py_lower message
      in if contains ''429'' m \<or> contains ''rate limit'' m then Rate_limited
         else if contains ''402'' m \<or> contains ''insufficient credit'' m then Out_of_credits
         else if prefix ''connection error'' m then Connection_failed
         else if prefix ''network error'' m \<or> contains ''non-json'' m \<or> contains ''missing queue_id'' m then Unknown_outcome
         else (case returned_status m of
                 Some (d # _) \<Rightarrow> if d = CHR ''5'' then Provider_unavailable else Provider_error
               | _ \<Rightarrow> Provider_error))"

fun decimal :: "nat \<Rightarrow> string \<Rightarrow> nat" where
  "decimal acc [] = acc"
| "decimal acc (c # cs) = decimal (10 * acc + (of_char c - 48)) cs"

text \<open>None: \<^verbatim>\<open>credits_for\<close> raises.\<close>

definition affordable_row_count :: "string \<Rightarrow> int \<Rightarrow> string \<Rightarrow> int option" where
  "affordable_row_count error_message n_rows trace_type =
     (case credits_for trace_type of
        None \<Rightarrow> None
      | Some per_row \<Rightarrow>
          Some (case need_more_credits error_message of
             None \<Rightarrow> 0
           | Some d \<Rightarrow>
               if n_rows \<le> 0 then 0
               else let available = n_rows * per_row - int (decimal 0 d)
                    in if available \<le> 0 then 0 else min n_rows (available div per_row)))"

text \<open>What becomes of the claim: back to the queue, failed for good, or kept for the reconciler.\<close>

datatype claim_fate = Keep_claim | Requeue | Fail_rows

fun fate_of :: "failure_kind \<Rightarrow> claim_fate" where
  "fate_of Unknown_outcome = Keep_claim"
| "fate_of Provider_error = Fail_rows"
| "fate_of _ = Requeue"

text \<open>Could the provider have taken (and charged) the batch?\<close>

fun may_be_charged :: "submit_outcome \<Rightarrow> bool" where
  "may_be_charged (Timed_out _) = True"
| "may_be_charged (Non_json _) = True"
| "may_be_charged (No_queue_id _) = True"
| "may_be_charged (Accepted _) = True"
| "may_be_charged _ = False"

subsection \<open>What the two together decide\<close>

lemma contains_simps [simp]:
  "contains (c # cs) [] = False"
  "contains (c # cs) (d # ds) = ((c = d \<and> prefix cs ds) \<or> contains (c # cs) ds)"
  by (auto simp: contains_def sublist_Cons_right)

lemma contains_set: "contains w s \<Longrightarrow> set w \<subseteq> set s"
  by (simp add: contains_def set_mono_sublist)

lemma set_show_nat: "set (show_nat n) \<subseteq> {c. is_digit c}"
proof (induction n rule: show_nat.induct)
  case (1 n)
  have "is_digit (char_of (48 + k))" if "k < 10" for k :: nat using that by (simp add: is_digit_def)
  then show ?case using 1 by (subst show_nat.simps) auto
qed

lemma lower_digit: "is_digit c \<Longrightarrow> lower_char c = c"
  by (auto simp: is_digit_def lower_char_def ascii_upper_letter_def Let_def)

lemma lower_show_nat [simp]: "py_lower (show_nat n) = show_nat n"
  using set_show_nat [of n] by (auto simp: py_lower_def lower_digit intro!: map_idI)

lemma lower_append [simp]: "py_lower (s @ t) = py_lower s @ py_lower t"
  "py_lower (c # t) = lower_char c # py_lower t" "py_lower [] = []"
  by (simp_all add: py_lower_def)

text \<open>A needle of characters the separator lacks lies on one side of it.\<close>

lemma contains_before: 
  assumes "w \<noteq> []" "c \<notin> set w"
  shows "contains w (s @ c # t) \<longleftrightarrow> contains w s \<or> contains w t"
proof -
  have before: "prefix w (x @ c # t) \<longleftrightarrow> prefix w x" for x
    using assms(2) by (auto simp: prefix_append prefix_Cons)
  have step: "contains w (d # x) \<longleftrightarrow> prefix w (d # x) \<or> contains w x" for d x
    by (simp add: contains_def sublist_Cons_right)
  show ?thesis
  proof (induction s)
    case Nil
    have "\<not> contains w []" "prefix w [] \<longleftrightarrow> False" using assms(1) by (simp_all add: contains_def)
    then show ?case using step [of c t] before [of "[]"] by (simp del: contains_simps)
  next
    case (Cons d s)
    then show ?case using step [of d "s @ c # t"] step [of d s] before [of "d # s"] by (simp del: contains_simps)
  qed
qed

text \<open>The texts whose presence means the provider refused the batch.\<close>

definition refusal_text :: "string \<Rightarrow> bool" where
  "refusal_text m = (\<exists>w \<in> {''429'', ''rate limit'', ''402'', ''insufficient credit''}. contains w m)"

lemma classify_split:
  "classify_submit_failure e =
     (let m = py_lower e
      in if refusal_text m then (if contains ''429'' m \<or> contains ''rate limit'' m then Rate_limited else Out_of_credits)
         else if prefix ''connection error'' m then Connection_failed
         else if prefix ''network error'' m \<or> contains ''non-json'' m \<or> contains ''missing queue_id'' m then Unknown_outcome
         else (case returned_status m of
                 Some (d # _) \<Rightarrow> if d = CHR ''5'' then Provider_unavailable else Provider_error
               | _ \<Rightarrow> Provider_error))"
  by (auto simp: classify_submit_failure_def refusal_text_def Let_def simp del: contains_simps)

lemma kept_iff_unknown: "fate_of k = Keep_claim \<longleftrightarrow> k = Unknown_outcome"
  by (cases k) simp_all

lemma kept_iff:
  "fate_of (classify_submit_failure e) = Keep_claim \<longleftrightarrow>
     (let m = py_lower e
      in \<not> refusal_text m \<and> \<not> prefix ''connection error'' m \<and>
         (prefix ''network error'' m \<or> contains ''non-json'' m \<or> contains ''missing queue_id'' m))"
  unfolding kept_iff_unknown classify_split Let_def
  by (simp del: contains_simps split: option.split list.split)

definition submit_fate :: "submit_outcome \<Rightarrow> claim_fate option" where
  "submit_fate r = map_option (\<lambda>e. fate_of (classify_submit_failure e)) (submit_error r)"

lemma refused_fate:
  "refusal_text (py_lower e) \<Longrightarrow> fate_of (classify_submit_failure e) = Requeue"
  by (simp add: classify_split Let_def del: contains_simps)

lemma lower_caps: "lower_char CHR ''N'' = CHR ''n''" "lower_char CHR ''T'' = CHR ''t''" "lower_char CHR ''J'' = CHR ''j''"
    "lower_char CHR ''S'' = CHR ''s''" "lower_char CHR ''O'' = CHR ''o''" "lower_char CHR ''C'' = CHR ''c''" "lower_char CHR ''Y'' = CHR ''y''"
  by code_simp+

lemma lower_small: "\<not> ascii_upper_letter c \<Longrightarrow> lower_char c = c"
  by (simp add: lower_char_def)

lemmas lower_simps = lower_caps lower_small ascii_upper_letter_def Let_def

lemma refusal_before:
  "refusal_text (s @ CHR '')'' # []) \<longleftrightarrow> refusal_text s"
proof -
  have "contains w (s @ [CHR '')'']) \<longleftrightarrow> contains w s" if "w \<noteq> []" "CHR '')'' \<notin> set w" for w
    using contains_before [of w "CHR '')''" s "[]"] that by (cases w) simp_all
  then show ?thesis by (simp add: refusal_text_def)
qed

lemma refusal_digits:
  "refusal_text (show_nat n @ '' chars)'') \<longleftrightarrow> contains ''429'' (show_nat n) \<or> contains ''402'' (show_nat n)"
proof -
  have no: "\<not> contains w (show_nat n @ '' chars)'')" if "\<not> set w \<subseteq> {c. is_digit c} \<union> set '' chars)''" for w
    using that contains_set set_show_nat [of n] by fastforce
  have "\<not> contains ''rate limit'' (show_nat n @ '' chars)'')" "\<not> contains ''insufficient credit'' (show_nat n @ '' chars)'')"
    by (rule no, simp add: is_digit_def)+
  then show ?thesis
    by (simp add: refusal_text_def contains_before)
qed

lemma timed_out_fate:
  "submit_fate (Timed_out e) = Some (if refusal_text (py_lower e) then Requeue else Keep_claim)"
proof -
  have r: "refusal_text (py_lower (''Network error submitting batch: '' @ e)) \<longleftrightarrow> refusal_text (py_lower e)"
    by (simp add: refusal_text_def lower_simps)
  show ?thesis
  proof (cases "refusal_text (py_lower e)")
    case True
    then show ?thesis using refused_fate r by (simp add: submit_fate_def)
  next
    case False
    then have "fate_of (classify_submit_failure (''Network error submitting batch: '' @ e)) = Keep_claim"
      unfolding kept_iff Let_def r by (simp add: lower_simps del: contains_simps)
    then show ?thesis using False by (simp add: submit_fate_def)
  qed
qed

lemma unreadable_reply_fate:
  "submit_fate (Non_json n) =
     Some (if contains ''429'' (show_nat n) \<or> contains ''402'' (show_nat n) then Requeue else Keep_claim)"
proof -
  let ?m = "''Tracerfy returned non-JSON (body '' @ show_nat n @ '' chars)''"
  have r: "refusal_text (py_lower ?m) \<longleftrightarrow> refusal_text (show_nat n @ '' chars)'')"
    by (simp add: refusal_text_def lower_simps)
  show ?thesis
  proof (cases "refusal_text (show_nat n @ '' chars)'')")
    case True
    then show ?thesis using refused_fate [of ?m] r by (simp add: submit_fate_def refusal_digits)
  next
    case False
    then have "fate_of (classify_submit_failure ?m) = Keep_claim"
      unfolding kept_iff Let_def r by (simp add: lower_simps)
    then show ?thesis using False by (simp add: submit_fate_def refusal_digits)
  qed
qed

lemma no_queue_fate:
  "submit_fate (No_queue_id keys) = Some (if refusal_text (py_lower keys) then Requeue else Keep_claim)"
proof -
  let ?m = "''Tracerfy response missing queue_id (keys: '' @ keys @ '')''"
  have r: "refusal_text (py_lower ?m) \<longleftrightarrow> refusal_text (py_lower keys)"
  proof -
    have "refusal_text (py_lower ?m) \<longleftrightarrow> refusal_text (py_lower keys @ '')'')"
      by (simp add: refusal_text_def lower_simps)
    then show ?thesis by (simp add: refusal_before)
  qed
  show ?thesis
  proof (cases "refusal_text (py_lower keys)")
    case True
    then show ?thesis using refused_fate [of ?m] r by (simp add: submit_fate_def)
  next
    case False
    then have "fate_of (classify_submit_failure ?m) = Keep_claim"
      unfolding kept_iff Let_def r by (simp add: lower_simps)
    then show ?thesis using False by (simp add: submit_fate_def)
  qed
qed

lemma undelivered_fate: "submit_fate (Not_delivered e) = Some Requeue"
proof -
  let ?m = "''Connection error submitting batch: '' @ e"
  have "prefix ''connection error'' (py_lower ?m)" by (simp add: lower_simps)
  then have "classify_submit_failure ?m \<in> {Rate_limited, Out_of_credits, Connection_failed}"
    unfolding classify_split Let_def by (simp del: contains_simps)
  then show ?thesis by (auto simp: submit_fate_def simp del: append.simps)
qed

lemma takeWhile_digits: "set (takeWhile is_digit s) \<subseteq> {c. is_digit c}"
  by (auto dest: set_takeWhileD)

lemma shortfall_digits: "find_shortfall s = Some d \<Longrightarrow> set d \<subseteq> {c. is_digit c}"
proof (induction s)
  case (Cons c s)
  have "shortfall_here t = Some d \<Longrightarrow> set d \<subseteq> {c. is_digit c}" for t
    using takeWhile_digits by (auto simp: shortfall_here_def Let_def bind_eq_Some_conv split: if_splits)
  then show ?case using Cons by (auto split: option.splits simp del: shortfall_here_def)
qed simp

lemma not_printed: "\<not> is_digit c \<Longrightarrow> c \<notin> set (show_nat n)"
  "\<not> is_digit c \<Longrightarrow> need_more_credits s = Some d \<Longrightarrow> c \<notin> set d"
  using set_show_nat shortfall_digits [of "py_lower s" d] by (auto simp: need_more_credits_def)

lemma http_text_letters:
  assumes m: "submit_error (Http_failure status body) = Some m" and c: "c \<in> {CHR ''j'', CHR ''J'', CHR ''q'', CHR ''Q''}"
  shows "c \<notin> set m"
proof -
  have d: "\<not> is_digit c" using c by (auto simp: is_digit_def)
  note no = not_printed [OF d]
  consider (rate) "status = 429" | (credit) "status = 402" | (other) "status \<noteq> 429" "status \<noteq> 402" by blast
  then show ?thesis
  proof cases
    case rate
    then show ?thesis using m c by auto
  next
    case credit
    show ?thesis
    proof (cases "need_more_credits body")
      case None
      then have "m = ''Tracerfy returned 402: insufficient credits. (body '' @ show_nat (length body) @ '' chars)''"
        using m credit by (simp add: http_failure_message_def)
      then show ?thesis using c no by auto
    next
      case (Some k)
      then have "m = ''Tracerfy returned 402: insufficient credits. You need '' @ k @ '' more credits. (body '' @ show_nat (length body) @ '' chars)''"
        using m credit by (simp add: http_failure_message_def)
      then show ?thesis using c no(1) no(2) [OF Some] by auto
    qed
  next
    case other
    define hints where "hints = (if filter (\<lambda>h. contains h (py_lower body)) BODY_HINTS = [] then []
      else '': '' @ str_join '', '' (filter (\<lambda>h. contains h (py_lower body)) BODY_HINTS))"
    have "m = ''Tracerfy returned '' @ show_nat status @ hints @ '' (body '' @ show_nat (length body) @ '' chars)''"
      using m other by (simp add: http_failure_message_def Let_def hints_def)
    moreover have "c \<notin> set hints"
      using c by (cases "contains ''insufficient credit'' (py_lower body)"; cases "contains ''rate limit'' (py_lower body)")
        (auto simp: hints_def BODY_HINTS_def)
    ultimately show ?thesis using c no(1) by auto
  qed
qed

lemma lower_letter: "lower_char c = CHR ''j'' \<Longrightarrow> c \<in> {CHR ''j'', CHR ''J''}"
  "lower_char c = CHR ''q'' \<Longrightarrow> c \<in> {CHR ''q'', CHR ''Q''}"
proof -
  have "of_char c = (106::nat) \<or> of_char c = (74::nat)" if "lower_char c = CHR ''j''"
    using that of_char_lower [of c] by (auto simp: ascii_upper_letter_def Let_def split: if_splits)
  then show "lower_char c = CHR ''j'' \<Longrightarrow> c \<in> {CHR ''j'', CHR ''J''}"
    using of_char_inject [of c "CHR ''j''"] of_char_inject [of c "CHR ''J''"] by auto
  have "of_char c = (113::nat) \<or> of_char c = (81::nat)" if "lower_char c = CHR ''q''"
    using that of_char_lower [of c] by (auto simp: ascii_upper_letter_def Let_def split: if_splits)
  then show "lower_char c = CHR ''q'' \<Longrightarrow> c \<in> {CHR ''q'', CHR ''Q''}"
    using of_char_inject [of c "CHR ''q''"] of_char_inject [of c "CHR ''Q''"] by auto
qed

lemma http_failure_fate:
  "submit_fate (Http_failure status body) \<noteq> Some Keep_claim"
proof -
  obtain m where m: "submit_error (Http_failure status body) = Some m" by simp
  have "x \<notin> set m" if "x \<in> {CHR ''j'', CHR ''J'', CHR ''q'', CHR ''Q''}" for x
    using http_text_letters [OF m that] .
  then have "lower_char x \<noteq> CHR ''j'' \<and> lower_char x \<noteq> CHR ''q''" if "x \<in> set m" for x
    using that lower_letter [of x] by blast
  then have jq: "CHR ''j'' \<notin> set (py_lower m)" "CHR ''q'' \<notin> set (py_lower m)"
    unfolding py_lower_def list.set_map by (metis imageE)+
  have n: "\<not> contains ''non-json'' (py_lower m)" "\<not> contains ''missing queue_id'' (py_lower m)"
    using jq contains_set [of "''non-json''" "py_lower m"] contains_set [of "''missing queue_id''" "py_lower m"] by auto
  have "\<exists>r. m = CHR ''T'' # r"
    using m by (auto simp: http_failure_message_def Let_def split: if_splits)
  then have "\<not> prefix ''network error'' (py_lower m)" by (auto simp: lower_simps)
  then have "fate_of (classify_submit_failure m) \<noteq> Keep_claim"
    using n unfolding kept_iff Let_def by (simp del: contains_simps)
  then show ?thesis using m by (simp add: submit_fate_def)
qed

text \<open>
  C17: The release decision on a failed submission. A request that never reached the provider goes back to the queue,
  whatever its error text; an HTTP failure never leaves a claim held. A reply that may have been charged (a timeout,
  a success without JSON, a success without a queue id) keeps its claim unless the rebuilt text happens to carry one
  of the refusal texts: for a success that is not JSON this is decided by the decimal digits of the body's length
  alone, so a reply of 429 characters (or 1402) releases rows the provider may have taken.
\<close>

lemma unknown_outcome_keeps_claim:
  "submit_fate (Not_delivered e) = Some Requeue \<and>
   submit_fate (Http_failure status body) \<noteq> Some Keep_claim \<and>
   submit_fate (Timed_out e) = Some (if refusal_text (py_lower e) then Requeue else Keep_claim) \<and>
   submit_fate (No_queue_id keys) = Some (if refusal_text (py_lower keys) then Requeue else Keep_claim) \<and>
   submit_fate (Non_json n) =
     Some (if contains ''429'' (show_nat n) \<or> contains ''402'' (show_nat n) then Requeue else Keep_claim) \<and>
   submit_fate (Non_json 429) = Some Requeue \<and> submit_fate (Non_json 430) = Some Keep_claim \<and>
   submit_fate (Accepted b) = None"
proof -
  have "show_nat 429 = ''429''" "show_nat 430 = ''430''" by code_simp+
  then have "submit_fate (Non_json 429) = Some Requeue" "submit_fate (Non_json 430) = Some Keep_claim"
    by (simp_all add: unreadable_reply_fate)
  then show ?thesis
    using undelivered_fate http_failure_fate timed_out_fate no_queue_fate unreadable_reply_fate
    by (simp add: submit_fate_def [of "Accepted b"])
qed

end
