(* ===== verification/DispatchPass.thy ===== *)
theory DispatchPass
  imports SubmitOutcome SkipTraceCapacity QuotaLedger Leads
begin

text \<open>
  The dispatcher of \<^verbatim>\<open>workers/skip_trace_dispatcher.py\<close> up to the claim: the sweep of undeliverable rows, the settlement
  of rows whose answer is known, and one pass that fills a batch (discovery, access, the refill rounds with their
  filters, the hold, the caps, the locked access check, the durable claim). A pass is one transaction under the
  advisory lock; \<open>held\<close>, \<open>busy\<close> and \<open>account_busy\<close> are the pending rows, results and accounts another transaction
  has locked (SKIP LOCKED passes them over), \<open>expired\<close> says whether the refill deadline has passed before a round.
\<close>

record cache_entry =
  ce_contact :: contact
  ce_fetched :: datetime

record dispatch_db =
  sk :: skip_db
  answers :: "string \<rightharpoonup> cache_entry"
  djobs :: "job_row list"
  dleads :: "string \<rightharpoonup> lead_row"

text \<open>A row of \<^verbatim>\<open>results\<close> is the \<open>result_row\<close> and the \<open>lead_row\<close> of its id together.\<close>

record dispatch_config =
  cf_pierce :: bool
  cf_cache_days :: int
  cf_caps :: caps

definition REFILL_MAX_ROUNDS :: nat where
  "REFILL_MAX_ROUNDS = 12"

definition CLOCK_SKEW :: int where
  "CLOCK_SKEW = 5 * 60 * 1000000"

subsection \<open>Deliverability\<close>

definition job_delivered :: "job_row \<Rightarrow> bool" where
  "job_delivered j \<longleftrightarrow> j_status j = DONE \<or> j_billing_applied_at j \<noteq> None \<or>
     ((j_status j = FAILED \<or> j_status j = CANCELLED) \<and> j_created_at j < BILLING_STAMP_RELIABLE_SINCE)"

definition job_undelivered :: "job_row \<Rightarrow> bool" where
  "job_undelivered j \<longleftrightarrow> (j_status j = FAILED \<or> j_status j = CANCELLED) \<and> never_billed j"

definition atip_paid_allowed :: "bool \<Rightarrow> lead_row \<Rightarrow> bool" where
  "atip_paid_allowed pierce l \<longleftrightarrow> pierce \<or>
     opt_or (get_text (ld_data l) ''source'') [] \<noteq> ''tacoma_code_violations'' \<or>
     opt_or (get_text (ld_data l) ''owner_source'') [] \<noteq> ''pierce_atip''"

definition result_of :: "dispatch_db \<Rightarrow> string \<Rightarrow> string \<Rightarrow> (result_row \<times> lead_row) option" where
  "result_of db rid uid =
     (case (results (sk db) rid, dleads db rid) of
        (Some r, Some l) \<Rightarrow> if r_user r = uid then Some (r, l) else None
      | _ \<Rightarrow> None)"

definition job_of :: "dispatch_db \<Rightarrow> string \<Rightarrow> string \<Rightarrow> job_row option" where
  "job_of db jid uid = find (\<lambda>j. j_id j = jid \<and> j_user j = uid) (djobs db)"

definition update_pending :: "(pending_row \<Rightarrow> bool) \<Rightarrow> (pending_row \<Rightarrow> pending_row) \<Rightarrow> dispatch_db \<Rightarrow> dispatch_db" where
  "update_pending P f db = db\<lparr> sk := (sk db)\<lparr> pending := map (\<lambda>p. if P p then f p else p) (pending (sk db)) \<rparr> \<rparr>"

definition update_results :: "(string \<Rightarrow> result_row \<Rightarrow> bool) \<Rightarrow> (result_row \<Rightarrow> result_row) \<Rightarrow> dispatch_db \<Rightarrow> dispatch_db" where
  "update_results P f db = db\<lparr> sk := (sk db)\<lparr> results :=
     (\<lambda>i. map_option (\<lambda>r. if P i r then f r else r) (results (sk db) i)) \<rparr> \<rparr>"

definition lead_pair :: "pending_row list \<Rightarrow> string \<Rightarrow> result_row \<Rightarrow> bool" where
  "lead_pair rows rid r \<longleftrightarrow> list_ex (\<lambda>p. p_result p = rid \<and> p_user p = r_user r) rows"

definition row_in :: "pending_row list \<Rightarrow> pending_row \<Rightarrow> bool" where
  "row_in rows p \<longleftrightarrow> list_ex (\<lambda>q. p_id q = p_id p) rows"

subsection \<open>The sweep of undeliverable rows\<close>

definition sweep_hit :: "dispatch_config \<Rightarrow> dispatch_db \<Rightarrow> pending_row \<Rightarrow> bool" where
  "sweep_hit cfg db p \<longleftrightarrow> p_status p = P_queued \<and>
     (case (job_of db (p_job p) (p_user p), result_of db (p_result p) (p_user p)) of
        (Some j, Some (r, l)) \<Rightarrow>
          job_undelivered j \<or> \<not> skip_trace_eligible_condition l \<or> r_skip_trace_status r \<noteq> ''queued'' \<or>
          quota_excluded_sql l \<or> \<not> atip_paid_allowed (cf_pierce cfg) l
      | _ \<Rightarrow> False)"

definition cancel_undeliverable_queued :: "dispatch_config \<Rightarrow> dispatch_db \<Rightarrow> nat \<times> dispatch_db" where
  "cancel_undeliverable_queued cfg db =
     (let gone = filter (sweep_hit cfg db) (pending (sk db));
          db1 = update_pending (sweep_hit cfg db) (\<lambda>p. p\<lparr> p_status := P_cancelled \<rparr>) db
      in (length gone,
          update_results (\<lambda>i r. lead_pair gone i r \<and> r_skip_trace_status r = ''queued'' \<and>
              \<not> lead_pair (filter active_row (pending (sk db1))) i r)
            (\<lambda>r. r\<lparr> r_skip_trace_status := ''not_attempted'' \<rparr>) db1))"

subsection \<open>Answers already known\<close>

definition fresh_answers :: "dispatch_config \<Rightarrow> datetime \<Rightarrow> dispatch_db \<Rightarrow> string \<rightharpoonup> cache_entry" where
  "fresh_answers cfg now db key =
     (case answers db key of
        None \<Rightarrow> None
      | Some c \<Rightarrow>
          if instant now - cf_cache_days cfg * usec_per_day \<le> instant (ce_fetched c) \<and>
             instant (ce_fetched c) \<le> instant now + CLOCK_SKEW
          then Some c else None)"

text \<open>
  The answer key of a row. The table admits the two trace types only, so \<^verbatim>\<open>lookup_subject_key\<close> does not raise on
  a row; a row of another type would have no answer.
\<close>

definition answer_of :: "(string \<Rightarrow> string) \<Rightarrow> dispatch_config \<Rightarrow> datetime \<Rightarrow> dispatch_db \<Rightarrow> pending_row \<Rightarrow> cache_entry option" where
  "answer_of sha cfg now db p = Option.bind (pending_row_subject_key sha p) (fresh_answers cfg now db)"

definition charged_unanswered :: "(string \<Rightarrow> string) \<Rightarrow> dispatch_config \<Rightarrow> datetime \<Rightarrow> dispatch_db \<Rightarrow> pending_row list \<Rightarrow> string option list" where
  "charged_unanswered sha cfg now db queued =
     map (pending_row_subject_key sha)
       (filter (\<lambda>p. p_user p \<in> p_user ` set queued \<and> p_status p = P_unmatched \<and>
            instant now - cf_cache_days cfg * usec_per_day \<le> instant (opt_or (p_submitted_at p) (p_enqueued_at p)))
         (pending (sk db)))"

definition may_settle :: "dispatch_config \<Rightarrow> dispatch_db \<Rightarrow> pending_row \<Rightarrow> bool" where
  "may_settle cfg db p \<longleftrightarrow>
     (case result_of db (p_result p) (p_user p) of
        None \<Rightarrow> False
      | Some (r, l) \<Rightarrow> r_skip_trace_status r = ''queued'' \<and> skip_trace_eligible_condition l \<and>
          \<not> quota_excluded_sql l \<and> atip_paid_allowed (cf_pierce cfg) l)"

definition answered_result :: "string option \<Rightarrow> cache_entry \<Rightarrow> result_row \<Rightarrow> result_row" where
  "answered_result key c r =
     r\<lparr> r_contact := ce_contact c,
        r_skip_trace_status := (if str_or (ct_phone (ce_contact c)) [] \<noteq> [] \<or> str_or (ct_email (ce_contact c)) [] \<noteq> []
                                then ''hit'' else ''miss''),
        r_attempted_at := Some (ce_fetched c), r_source := Some ''reused'', r_subject := key \<rparr>"

definition settle_row ::
    "(string \<Rightarrow> string) \<Rightarrow> dispatch_config \<Rightarrow> datetime \<Rightarrow> (string \<rightharpoonup> cache_entry) \<Rightarrow> string option list \<Rightarrow>
     pending_row \<Rightarrow> nat \<times> dispatch_db \<Rightarrow> nat \<times> dispatch_db" where
  "settle_row sha cfg now cached charged p st =
     (let (n, db) = st;
          key = pending_row_subject_key sha p;
          answer = Option.bind key cached
      in if answer = None \<and> key \<notin> set charged then st
         else if \<not> may_settle cfg db p then st
         else (n + 1,
           update_pending (\<lambda>q. p_id q = p_id p \<and> p_status q = P_queued)
             (\<lambda>q. q\<lparr> p_status := (if answer = None then P_cancelled else P_reused) \<rparr>)
             (update_results (\<lambda>i r. i = p_result p \<and> r_user r = p_user p)
               (case answer of
                  Some c \<Rightarrow> answered_result key c
                | None \<Rightarrow> (\<lambda>r. r\<lparr> r_skip_trace_status := ''errored'', r_attempted_at := Some now \<rparr>)) db)))"

text \<open>None: another tick holds the advisory lock.\<close>

definition settle_queued_from_known_answers ::
    "(string \<Rightarrow> string) \<Rightarrow> dispatch_config \<Rightarrow> datetime \<Rightarrow> bool \<Rightarrow> dispatch_db \<Rightarrow> nat option \<times> dispatch_db" where
  "settle_queued_from_known_answers sha cfg now lock_free db =
     (if \<not> lock_free then (None, db)
      else let queued = take 5000 (sort_key p_enqueued_at (filter (\<lambda>p. p_status p = P_queued) (pending (sk db))));
               charged = charged_unanswered sha cfg now db queued;
               (n, db') = fold (settle_row sha cfg now (fresh_answers cfg now db) charged) queued (0, db)
           in (Some n, db'))"

subsection \<open>Filters of the claim\<close>

definition REQUIRED_SUBMIT_FIELDS :: "string list" where
  "REQUIRED_SUBMIT_FIELDS = [''property_address'', ''city'', ''state'']"

definition row_is_submittable :: "pending_row \<Rightarrow> bool" where
  "row_is_submittable p \<longleftrightarrow> list_all (\<lambda>f. py_strip (str_or (p_field p f) []) \<noteq> []) REQUIRED_SUBMIT_FIELDS"

definition partition_submittable :: "pending_row list \<Rightarrow> pending_row list \<times> pending_row list" where
  "partition_submittable rows = (filter row_is_submittable rows, filter (\<lambda>p. \<not> row_is_submittable p) rows)"

definition fail_unsubmittable :: "datetime \<Rightarrow> pending_row list \<Rightarrow> dispatch_db \<Rightarrow> dispatch_db" where
  "fail_unsubmittable now rows db =
     (if rows = [] then db
      else update_results (\<lambda>i r. lead_pair rows i r \<and> r_skip_trace_status r \<in> {''queued'', ''submitted''})
        (\<lambda>r. r\<lparr> r_skip_trace_status := ''errored'', r_attempted_at := Some now \<rparr>)
        (update_pending (row_in rows) (\<lambda>p. p\<lparr> p_status := P_errored \<rparr>) db))"

text \<open>What is decided about a row: bought now, withdrawn, or left for a later tick. The job is the result's.\<close>

datatype delivery_verdict = Buy | Withdraw | Later

definition delivery_verdict_of :: "(string \<Rightarrow> bool) \<Rightarrow> dispatch_db \<Rightarrow> pending_row \<Rightarrow> delivery_verdict" where
  "delivery_verdict_of busy db p =
     (case result_of db (p_result p) (p_user p) of
        None \<Rightarrow> Later
      | Some (r, l) \<Rightarrow>
          if busy (p_result p) then Later
          else (case find (\<lambda>j. j_id j = r_job r) (djobs db) of
                  None \<Rightarrow> Later
                | Some j \<Rightarrow>
                    let ended = (j_status j = FAILED \<or> j_status j = CANCELLED);
                        billed = (j_billing_applied_at j \<noteq> None);
                        stamped = (BILLING_STAMP_RELIABLE_SINCE \<le> j_created_at j)
                    in if \<not> skip_trace_eligible_condition l \<or> quota_excluded_sql l \<or> (ended \<and> \<not> billed \<and> stamped)
                       then Withdraw
                       else if billed \<or> j_status j = DONE \<or> ended then Buy else Later))"

definition partition_still_deliverable ::
    "(string \<Rightarrow> bool) \<Rightarrow> dispatch_db \<Rightarrow> pending_row list \<Rightarrow> pending_row list \<times> pending_row list \<times> nat" where
  "partition_still_deliverable busy db rows =
     (filter (\<lambda>p. delivery_verdict_of busy db p = Buy) rows,
      filter (\<lambda>p. delivery_verdict_of busy db p = Withdraw) rows,
      length (filter (\<lambda>p. delivery_verdict_of busy db p = Later) rows))"

definition cancel_undeliverable :: "pending_row list \<Rightarrow> dispatch_db \<Rightarrow> dispatch_db" where
  "cancel_undeliverable rows db =
     (if rows = [] then db
      else update_results (\<lambda>i r. lead_pair rows i r \<and> r_skip_trace_status r = ''queued'')
        (\<lambda>r. r\<lparr> r_skip_trace_status := ''not_attempted'' \<rparr>)
        (update_pending (row_in rows) (\<lambda>p. p\<lparr> p_status := P_cancelled \<rparr>) db))"

subsection \<open>One answer, bought once\<close>

record in_flight_cache =
  if_read :: "string list"
  if_keys :: "string option list"

definition in_flight_keys :: "(string \<Rightarrow> string) \<Rightarrow> dispatch_db \<Rightarrow> string list \<Rightarrow> string option list" where
  "in_flight_keys sha db uids =
     map (pending_row_subject_key sha)
       (filter (\<lambda>p. p_user p \<in> set uids \<and> (p_status p = P_submitting \<or> p_status p = P_submitted)) (pending (sk db)))"

definition submission_key :: "(string \<Rightarrow> string) \<Rightarrow> pending_row \<Rightarrow> string" where
  "submission_key sha p =
     submission_collision_key sha (p_field p ''property_address'') (p_field p ''city'') (p_field p ''state'') (p_trace_type p)"

fun hold_rows ::
    "(string \<Rightarrow> string) \<Rightarrow> (pending_row \<Rightarrow> bool) \<Rightarrow> string option list \<Rightarrow> string list \<Rightarrow> pending_row list \<Rightarrow> pending_row list" where
  "hold_rows sha is_known seen seen_addresses [] = []"
| "hold_rows sha is_known seen seen_addresses (p # ps) =
     (let key = pending_row_subject_key sha p; addr_key = submission_key sha p
      in if is_known p \<or> key \<in> set seen \<or> addr_key \<in> set seen_addresses then hold_rows sha is_known seen seen_addresses ps
         else p # hold_rows sha is_known (key # seen) (addr_key # seen_addresses) ps)"

definition hold_answers_in_flight ::
    "(string \<Rightarrow> string) \<Rightarrow> dispatch_config \<Rightarrow> datetime \<Rightarrow> dispatch_db \<Rightarrow> in_flight_cache \<Rightarrow> pending_row list \<Rightarrow>
     pending_row list \<times> nat \<times> in_flight_cache" where
  "hold_answers_in_flight sha cfg now db cache rows =
     (if rows = [] then ([], 0, cache)
      else let unread = filter (\<lambda>u. u \<notin> set (if_read cache)) (remdups (map p_user rows));
               cache' = \<lparr> if_read = unread @ if_read cache, if_keys = in_flight_keys sha db unread @ if_keys cache \<rparr>;
               is_known = (\<lambda>p. pending_row_subject_key sha p \<in> set (if_keys cache') \<or> answer_of sha cfg now db p \<noteq> None);
               kept = hold_rows sha is_known [] [] rows
           in (kept, length rows - length kept, cache'))"

subsection \<open>The candidates and the accounts\<close>

definition duplicated_result_ids :: "bool \<Rightarrow> pending_row list \<Rightarrow> string list" where
  "duplicated_result_ids enforced rows =
     (if enforced then []
      else filter (\<lambda>i. 1 < length (filter (\<lambda>p. p_result p = i) (filter active_row rows)))
             (remdups (map p_result (filter active_row rows))))"

definition candidate_row :: "dispatch_config \<Rightarrow> string list \<Rightarrow> string \<Rightarrow> dispatch_db \<Rightarrow> pending_row \<Rightarrow> bool" where
  "candidate_row cfg dup trace_type db p \<longleftrightarrow>
     p_status p = P_queued \<and> p_trace_type p = trace_type \<and> p_result p \<notin> set dup \<and>
     (case (job_of db (p_job p) (p_user p), result_of db (p_result p) (p_user p)) of
        (Some j, Some (r, l)) \<Rightarrow>
          job_delivered j \<and> r_skip_trace_status r = ''queued'' \<and> skip_trace_eligible_condition l \<and>
          \<not> quota_excluded_sql l \<and> atip_paid_allowed (cf_pierce cfg) l
      | _ \<Rightarrow> False)"

definition candidates ::
    "dispatch_config \<Rightarrow> string list \<Rightarrow> string \<Rightarrow> dispatch_db \<Rightarrow> string \<Rightarrow> (datetime \<times> string) option \<Rightarrow> int \<Rightarrow> candidate list" where
  "candidates cfg dup trace_type db uid after lim =
     take (nat lim)
       (map (\<lambda>p. \<lparr> c_id = p_id p, c_user = p_user p, c_enqueued = p_enqueued_at p \<rparr>)
         (sort_key (\<lambda>p. (p_enqueued_at p, p_id p))
           (filter (\<lambda>p. p_user p = uid \<and> candidate_row cfg dup trace_type db p \<and>
                (case after of None \<Rightarrow> True | Some k \<Rightarrow> k < (p_enqueued_at p, p_id p)))
             (pending (sk db)))))"

text \<open>None: the account's row is gone (or, under \<open>account_busy\<close>, locked).\<close>

definition account_access :: "(string \<Rightarrow> bool) \<Rightarrow> datetime \<Rightarrow> dispatch_db \<Rightarrow> string \<Rightarrow> access option" where
  "account_access account_busy now db u =
     (if account_busy u then None else map_option (\<lambda>a. paid_lookup_access a now) (users (sk db) u))"

definition blocked_access :: "access option \<Rightarrow> bool" where
  "blocked_access a = (case a of None \<Rightarrow> True | Some a \<Rightarrow> a \<in> set BLOCKED_ACCESS)"

definition drop_blocked_accounts ::
    "(string \<Rightarrow> bool) \<Rightarrow> datetime \<Rightarrow> dispatch_db \<Rightarrow> pending_row list \<Rightarrow> pending_row list" where
  "drop_blocked_accounts account_busy now db rows =
     filter (\<lambda>p. \<not> blocked_access (account_access account_busy now db (p_user p))) rows"

subsection \<open>The refill\<close>

record pass_locks =
  lk_held :: "string \<Rightarrow> bool"
  lk_busy :: "string \<Rightarrow> bool"
  lk_account :: "string \<Rightarrow> bool"
  lk_expired :: "nat \<Rightarrow> bool"

record refill =
  rf_rows :: "pending_row list"
  rf_withdrawn :: "pending_row list"
  rf_bad :: "pending_row list"
  rf_active :: "string list"
  rf_frontier :: frontier
  rf_cache :: in_flight_cache
  rf_later :: nat
  rf_held :: nat
  rf_db :: dispatch_db

record pass_caps =
  pc_global :: int
  pc_default :: "int option"
  pc_account :: "(string \<rightharpoonup> int) option"

text \<open>What one round locked is filtered; the survivors are held against all earlier ones and cut to the caps.\<close>

definition absorb_round ::
    "(string \<Rightarrow> string) \<Rightarrow> dispatch_config \<Rightarrow> datetime \<Rightarrow> pass_locks \<Rightarrow> pass_caps \<Rightarrow> pending_row list \<Rightarrow> refill \<Rightarrow> refill" where
  "absorb_round sha cfg now lk pc new st =
     (let (keep, drop, later) = partition_still_deliverable (lk_busy lk) (rf_db st) new;
          db1 = cancel_undeliverable drop (rf_db st);
          (ok, bad) = partition_submittable keep;
          db2 = fail_unsubmittable now bad db1;
          (kept, n_held, cache) = hold_answers_in_flight sha cfg now db2 (rf_cache st) (rf_rows st @ ok)
      in st\<lparr> rf_rows := take_within_caps kept (pc_account pc) (pc_default pc) (pc_global pc),
             rf_withdrawn := rf_withdrawn st @ drop, rf_bad := rf_bad st @ bad,
             rf_cache := cache, rf_later := rf_later st + later, rf_held := rf_held st + n_held, rf_db := db2 \<rparr>)"

definition room_left :: "pass_caps \<Rightarrow> refill \<Rightarrow> (string \<rightharpoonup> int) option" where
  "room_left pc st =
     (case (pc_account pc, pc_default pc) of
        (Some m, Some d) \<Rightarrow>
          Some (\<lambda>u. if u \<in> set (rf_active st)
                    then Some (max 0 (opt_or (m u) d - int (length (user_rows u (rf_rows st))))) else None)
      | _ \<Rightarrow> None)"

text \<open>\<open>left\<close> rounds remain; the first round is never refused for the deadline.\<close>

fun refill_rounds ::
    "(string \<Rightarrow> string) \<Rightarrow> dispatch_config \<Rightarrow> string list \<Rightarrow> datetime \<Rightarrow> string \<Rightarrow> datetime \<Rightarrow> pass_locks \<Rightarrow> pass_caps \<Rightarrow>
     nat \<Rightarrow> refill \<Rightarrow> refill" where
  "refill_rounds sha cfg dup watermark trace_type now lk pc 0 st = st"
| "refill_rounds sha cfg dup watermark trace_type now lk pc (Suc left) st =
     (let rounds = REFILL_MAX_ROUNDS - Suc left;
          global_left = pc_global pc - int (length (rf_rows st))
      in if global_left \<le> 0 \<or> (rounds \<noteq> 0 \<and> lk_expired lk rounds) then st
         else let (limits, round_limit) = round_limits (rf_active st) (room_left pc st) (pc_default pc) global_left rounds
              in if limits = [] then st
                 else let got = allocate (candidates cfg dup trace_type (rf_db st)) (rf_frontier st) limits round_limit watermark
                      in if got = [] then st
                         else let (frontier, returned) = advance (rf_frontier st) got;
                                  active = (if int (length got) < round_limit
                                            then filter (\<lambda>u. u \<notin> fst ` set limits \<or> returned u \<noteq> None) (rf_active st)
                                            else rf_active st);
                                  new = lock_allocated (pending (sk (rf_db st))) (lk_held lk) (map c_id got) trace_type
                              in refill_rounds sha cfg dup watermark trace_type now lk pc left
                                   (absorb_round sha cfg now lk pc new (st\<lparr> rf_frontier := frontier, rf_active := active \<rparr>)))"

subsection \<open>One pass\<close>

text \<open>
  \<open>No_room\<close>: nothing fits under the global cap; \<open>Nothing_to_claim\<close>: the withdrawals and failures are committed on
  their own; \<open>Claimed\<close>: the batch and the database after the claim's commit. The access filter before the refill is
  an unlocked read.
\<close>

datatype pass_result =
  No_room
| Nothing_to_claim "pending_row list" "pending_row list" dispatch_db
| Claimed "pending_row list" "pending_row list" dispatch_db

definition claim_batch :: "datetime \<Rightarrow> pending_row list \<Rightarrow> dispatch_db \<Rightarrow> dispatch_db" where
  "claim_batch claim_time rows db =
     update_pending (\<lambda>p. row_in rows p \<and> p_status p = P_queued)
       (\<lambda>p. p\<lparr> p_status := P_submitting, p_submitted_at := Some claim_time \<rparr>) db"

definition withdraw_for :: "(string \<Rightarrow> bool) \<Rightarrow> string list \<Rightarrow> string \<Rightarrow> pending_row list \<Rightarrow> pending_row list" where
  "withdraw_for held uids trace_type rows =
     filter (\<lambda>p. p_user p \<in> set uids \<and> p_status p = P_queued \<and> p_trace_type p = trace_type \<and> \<not> held (p_id p)) rows"

definition start_refill :: "datetime \<Rightarrow> pass_locks \<Rightarrow> string \<Rightarrow> datetime \<Rightarrow> dispatch_db \<Rightarrow> refill" where
  "start_refill watermark lk trace_type now db =
     (let active = discover_accounts (pending (sk db)) trace_type watermark;
          acc = account_access (\<lambda>_. False) now db;
          blocked = filter (\<lambda>u. blocked_access (acc u)) active;
          gone = withdraw_for (lk_held lk)
                   (filter (\<lambda>u. acc u \<noteq> None \<and> acc u \<noteq> Some ACCESS_FROZEN) blocked) trace_type (pending (sk db))
      in \<lparr> rf_rows = [], rf_withdrawn = gone, rf_bad = [], rf_active = filter (\<lambda>u. u \<notin> set blocked) active,
           rf_frontier = Map.empty, rf_cache = \<lparr> if_read = [], if_keys = [] \<rparr>, rf_later = 0, rf_held = 0,
           rf_db = cancel_undeliverable gone db \<rparr>)"

definition dispatch_pass ::
    "(string \<Rightarrow> string) \<Rightarrow> dispatch_config \<Rightarrow> string list \<Rightarrow> datetime \<Rightarrow> string \<Rightarrow> datetime \<Rightarrow> pass_locks \<Rightarrow> dispatch_db \<Rightarrow> pass_result" where
  "dispatch_pass sha cfg dup watermark trace_type now lk db =
     (let (global_rows, default_rows, account_room) =
            pass_room (pending (sk db)) (instant now) (cf_caps cfg) (opt_or (credits_for trace_type) 1)
      in if global_rows = 0 then No_room
         else let pc = \<lparr> pc_global = global_rows, pc_default = default_rows, pc_account = account_room \<rparr>;
                  st = refill_rounds sha cfg dup watermark trace_type now lk pc REFILL_MAX_ROUNDS
                         (start_refill watermark lk trace_type now db);
                  rows = drop_blocked_accounts (lk_account lk) now (rf_db st) (rf_rows st)
              in if rows = [] then Nothing_to_claim (rf_withdrawn st) (rf_bad st) (rf_db st)
                 else Claimed rows (rf_bad st) (claim_batch now rows (rf_db st)))"

subsection \<open>What a pass leaves alone\<close>

definition in_flight :: "pending_row \<Rightarrow> bool" where
  "in_flight p \<longleftrightarrow> p_status p = P_submitting \<or> p_status p = P_submitted"

text \<open>What the spending rules read of a row, whatever its status.\<close>

definition row_bill :: "pending_row \<Rightarrow> string \<times> string \<times> string \<times> datetime option" where
  "row_bill p = (p_id p, p_user p, p_trace_type p, p_submitted_at p)"

text \<open>\<open>retires db db'\<close>: from \<open>db\<close> to \<open>db'\<close> only unsent rows were retired, and their leads' statuses closed.\<close>

definition retires :: "dispatch_db \<Rightarrow> dispatch_db \<Rightarrow> bool" where
  "retires db db' \<longleftrightarrow>
     djobs db' = djobs db \<and> dleads db' = dleads db \<and> answers db' = answers db \<and> users (sk db') = users (sk db) \<and>
     map row_bill (pending (sk db')) = map row_bill (pending (sk db)) \<and>
     (\<forall>p \<in> set (pending (sk db')). p_status p = P_queued \<longrightarrow> p \<in> set (pending (sk db))) \<and>
     filter in_flight (pending (sk db')) = filter in_flight (pending (sk db)) \<and>
     (\<forall>i. map_option (\<lambda>r. (r_user r, r_job r)) (results (sk db') i) = map_option (\<lambda>r. (r_user r, r_job r)) (results (sk db) i)) \<and>
     (\<forall>i r. results (sk db') i = Some r \<and> r_skip_trace_status r = ''queued'' \<longrightarrow> results (sk db) i = Some r)"

lemma retires_refl: "retires db db"
  by (simp add: retires_def)

lemma retires_trans:
  assumes "retires a b" "retires b c"
  shows "retires a c"
proof -
  have q: "p \<in> set (pending (sk a))" if "p \<in> set (pending (sk c))" "p_status p = P_queued" for p
    using assms that unfolding retires_def by blast
  have r: "results (sk a) i = Some r" if "results (sk c) i = Some r" "r_skip_trace_status r = ''queued''" for i r
    using assms that unfolding retires_def by blast
  show ?thesis
    using assms q r unfolding retires_def by (elim conjE, intro conjI) (simp_all only:, blast+)
qed

lemma update_pending_simps [simp]:
  "djobs (update_pending P f db) = djobs db" "dleads (update_pending P f db) = dleads db"
  "answers (update_pending P f db) = answers db" "users (sk (update_pending P f db)) = users (sk db)"
  "results (sk (update_pending P f db)) = results (sk db)"
  "pending (sk (update_pending P f db)) = map (\<lambda>p. if P p then f p else p) (pending (sk db))"
  "queues (sk (update_pending P f db)) = queues (sk db)" "outbox (sk (update_pending P f db)) = outbox (sk db)"
  by (simp_all add: update_pending_def)

lemma update_results_simps [simp]:
  "djobs (update_results Q g db) = djobs db" "dleads (update_results Q g db) = dleads db"
  "answers (update_results Q g db) = answers db" "users (sk (update_results Q g db)) = users (sk db)"
  "pending (sk (update_results Q g db)) = pending (sk db)"
  "queues (sk (update_results Q g db)) = queues (sk db)" "outbox (sk (update_results Q g db)) = outbox (sk db)"
  "results (sk (update_results Q g db)) i = map_option (\<lambda>r. if Q i r then g r else r) (results (sk db) i)"
  by (simp_all add: update_results_def)

lemma same_row: "distinct (map p_id rows) \<Longrightarrow> p \<in> set rows \<Longrightarrow> q \<in> set rows \<Longrightarrow> p_id p = p_id q \<Longrightarrow> p = q"
  by (simp add: distinct_map inj_on_def)

lemma row_in_iff:
  assumes "distinct (map p_id all)" "set rows \<subseteq> set all" "p \<in> set all"
  shows "row_in rows p \<longleftrightarrow> p \<in> set rows"
  unfolding row_in_def list_ex_iff using same_row [OF assms(1)] assms(2,3) by (metis subsetD)

lemma retire_rows:
  assumes d: "distinct (map p_id (pending (sk db)))" and rows: "set rows \<subseteq> set (pending (sk db))"
    and q: "\<forall>p \<in> set rows. p_status p = P_queued" and s: "s \<notin> {P_queued, P_submitting, P_submitted}"
    and g: "\<And>r. r_user (g r) = r_user r \<and> r_job (g r) = r_job r \<and> r_skip_trace_status (g r) \<noteq> ''queued''"
  shows "retires db (update_results Q g (update_pending (row_in rows) (\<lambda>p. p\<lparr> p_status := s \<rparr>) db))"
    and "p \<in> set (pending (sk db)) \<Longrightarrow> p \<notin> set rows \<Longrightarrow>
      p \<in> set (pending (sk (update_results Q g (update_pending (row_in rows) (\<lambda>p. p\<lparr> p_status := s \<rparr>) db))))"
proof -
  note r = row_in_iff [OF d rows]
  let ?f = "\<lambda>p. if row_in rows p then p\<lparr> p_status := s \<rparr> else p"
  have flight: "filter in_flight (map ?f ps) = filter in_flight ps" if "set ps \<subseteq> set (pending (sk db))" for ps
    using that
  proof (induction ps)
    case (Cons p ps)
    have "in_flight (?f p) = in_flight p \<and> (in_flight p \<longrightarrow> ?f p = p)"
      using r [of p] q s Cons.prems by (auto simp: in_flight_def)
    then show ?case using Cons by auto
  qed simp
  show "retires db (update_results Q g (update_pending (row_in rows) (\<lambda>p. p\<lparr> p_status := s \<rparr>) db))"
    unfolding retires_def
    by (intro conjI) (use s g flight in \<open>auto simp: row_bill_def comp_def option.map_comp split: if_splits intro!: option.map_cong0\<close>)
  show "p \<in> set (pending (sk (update_results Q g (update_pending (row_in rows) (\<lambda>p. p\<lparr> p_status := s \<rparr>) db))))"
    if "p \<in> set (pending (sk db))" "p \<notin> set rows"
    using that r [of p] by (auto simp: image_iff)
qed

lemma retires_facts:
  assumes "retires db db'"
  shows "delivery_verdict_of busy db' p = delivery_verdict_of busy db p"
    "account_access b now db' u = account_access b now db u"
    "in_flight_keys sha db' us = in_flight_keys sha db us"
    "answer_of sha cfg now db' p = answer_of sha cfg now db p"
    "candidate_row cfg dup t db' p \<Longrightarrow> candidate_row cfg dup t db p"
    "distinct (map p_id (pending (sk db'))) = distinct (map p_id (pending (sk db)))"
proof -
  have res: "map_option (\<lambda>r. (r_user r, r_job r)) (results (sk db') i) = map_option (\<lambda>r. (r_user r, r_job r)) (results (sk db) i)" for i
    using assms by (simp add: retires_def)
  have same: "dleads db' = dleads db" "djobs db' = djobs db" "users (sk db') = users (sk db)" "answers db' = answers db"
    using assms by (simp_all add: retires_def)
  show "delivery_verdict_of busy db' p = delivery_verdict_of busy db p"
    using res [of "p_result p"] same unfolding delivery_verdict_of_def result_of_def
    by (cases "results (sk db') (p_result p)"; cases "results (sk db) (p_result p)"; cases "dleads db (p_result p)") auto
  show "account_access b now db' u = account_access b now db u" by (simp add: account_access_def same)
  show "in_flight_keys sha db' us = in_flight_keys sha db us"
  proof -
    have k: "in_flight_keys sha d us
        = map (pending_row_subject_key sha) (filter (\<lambda>p. p_user p \<in> set us) (filter in_flight (pending (sk d))))" for d
      by (simp add: in_flight_keys_def in_flight_def conj_commute)
    have "filter in_flight (pending (sk db')) = filter in_flight (pending (sk db))" using assms unfolding retires_def by blast
    then show ?thesis unfolding k by simp
  qed
  have "fresh_answers cfg now db' = fresh_answers cfg now db" by (rule ext) (simp add: fresh_answers_def same)
  then show "answer_of sha cfg now db' p = answer_of sha cfg now db p" by (simp add: answer_of_def)
  have ids: "map p_id ps = map fst (map row_bill ps)" for ps by (simp add: row_bill_def)
  have "map row_bill (pending (sk db')) = map row_bill (pending (sk db))" using assms unfolding retires_def by blast
  then show "distinct (map p_id (pending (sk db'))) = distinct (map p_id (pending (sk db)))" unfolding ids by simp
  have q: "results (sk db) i = Some r" if "results (sk db') i = Some r" "r_skip_trace_status r = ''queued''" for i r
    using assms that by (simp add: retires_def)
  show "candidate_row cfg dup t db p" if "candidate_row cfg dup t db' p"
    using that q [of "p_result p"] unfolding candidate_row_def job_of_def result_of_def same
    by (auto split: option.splits if_splits)
qed

subsection \<open>The hold\<close>

lemma hold_rows_spec:
  "distinct (map (pending_row_subject_key sha) (hold_rows sha K seen addrs ps)) \<and>
   distinct (map (submission_key sha) (hold_rows sha K seen addrs ps)) \<and>
   pending_row_subject_key sha ` set (hold_rows sha K seen addrs ps) \<inter> set seen = {} \<and>
   submission_key sha ` set (hold_rows sha K seen addrs ps) \<inter> set addrs = {} \<and>
   set (hold_rows sha K seen addrs ps) \<subseteq> {p \<in> set ps. \<not> K p}"
proof (induction ps arbitrary: seen addrs)
  case (Cons p ps)
  note a = Cons.IH [of seen addrs]
  note b = Cons.IH [of "pending_row_subject_key sha p # seen" "submission_key sha p # addrs"]
  show ?case
  proof (cases "K p \<or> pending_row_subject_key sha p \<in> set seen \<or> submission_key sha p \<in> set addrs")
    case True
    then show ?thesis using a by (auto simp: Let_def)
  next
    case False
    then show ?thesis using b by (auto simp: Let_def)
  qed
qed simp

definition cache_covers :: "(string \<Rightarrow> string) \<Rightarrow> dispatch_db \<Rightarrow> in_flight_cache \<Rightarrow> bool" where
  "cache_covers sha db c \<longleftrightarrow> set (in_flight_keys sha db (if_read c)) \<subseteq> set (if_keys c)"

definition unanswered :: "(string \<Rightarrow> string) \<Rightarrow> dispatch_config \<Rightarrow> datetime \<Rightarrow> dispatch_db \<Rightarrow> pending_row \<Rightarrow> bool" where
  "unanswered sha cfg now db p \<longleftrightarrow>
     answer_of sha cfg now db p = None \<and> pending_row_subject_key sha p \<notin> set (in_flight_keys sha db [p_user p])"

lemma in_flight_keys_mono: "set us \<subseteq> set vs \<Longrightarrow> set (in_flight_keys sha db us) \<subseteq> set (in_flight_keys sha db vs)"
  by (auto simp: in_flight_keys_def)

lemma in_flight_keys_append:
  "set (in_flight_keys sha db (us @ vs)) = set (in_flight_keys sha db us) \<union> set (in_flight_keys sha db vs)"
  by (auto simp: in_flight_keys_def)

lemma hold_spec:
  assumes "hold_answers_in_flight sha cfg now db c rows = (kept, n, c')" "cache_covers sha db c"
  shows "cache_covers sha db c'" "distinct (map (pending_row_subject_key sha) kept)" "distinct (map (submission_key sha) kept)"
    "set kept \<subseteq> set rows" "\<forall>p \<in> set kept. unanswered sha cfg now db p"
proof -
  let ?u = "filter (\<lambda>u. u \<notin> set (if_read c)) (remdups (map p_user rows))"
  let ?c = "\<lparr> if_read = ?u @ if_read c, if_keys = in_flight_keys sha db ?u @ if_keys c \<rparr>"
  let ?K = "\<lambda>p. pending_row_subject_key sha p \<in> set (if_keys ?c) \<or> answer_of sha cfg now db p \<noteq> None"
  note h = hold_rows_spec [of sha ?K "[]" "[]" rows]
  have covers: "cache_covers sha db ?c"
    using assms(2) by (auto simp: cache_covers_def in_flight_keys_append)
  show "cache_covers sha db c'"
    using assms covers by (auto simp: hold_answers_in_flight_def Let_def split: if_splits)
  show "distinct (map (pending_row_subject_key sha) kept)" "distinct (map (submission_key sha) kept)" "set kept \<subseteq> set rows"
    using assms(1) h by (auto simp: hold_answers_in_flight_def Let_def split: if_splits)
  show "\<forall>p \<in> set kept. unanswered sha cfg now db p"
  proof
    fix p assume p: "p \<in> set kept"
    then have k: "kept = hold_rows sha ?K [] [] rows"
      using assms(1) by (auto simp: hold_answers_in_flight_def Let_def split: if_splits)
    then have "p \<in> set rows" "\<not> ?K p" using h p by blast+
    moreover have "set [p_user p] \<subseteq> set (if_read ?c)" using \<open>p \<in> set rows\<close> by auto
    then have "set (in_flight_keys sha db [p_user p]) \<subseteq> set (if_keys ?c)"
      using covers in_flight_keys_mono unfolding cache_covers_def by blast
    ultimately show "unanswered sha cfg now db p" unfolding unanswered_def by auto
  qed
qed

subsection \<open>The refill keeps its promises\<close>

definition buyable_row ::
    "dispatch_config \<Rightarrow> string list \<Rightarrow> string \<Rightarrow> (string \<Rightarrow> bool) \<Rightarrow> dispatch_db \<Rightarrow> pending_row \<Rightarrow> bool" where
  "buyable_row cfg dup trace_type busy db p \<longleftrightarrow>
     p \<in> set (pending (sk db)) \<and> candidate_row cfg dup trace_type db p \<and> delivery_verdict_of busy db p = Buy \<and>
     row_is_submittable p"

definition refill_ok ::
    "(string \<Rightarrow> string) \<Rightarrow> dispatch_config \<Rightarrow> string list \<Rightarrow> string \<Rightarrow> datetime \<Rightarrow> pass_locks \<Rightarrow> pass_caps \<Rightarrow> dispatch_db \<Rightarrow> refill \<Rightarrow> bool" where
  "refill_ok sha cfg dup trace_type now lk pc db st \<longleftrightarrow>
     retires db (rf_db st) \<and> cache_covers sha db (rf_cache st) \<and>
     distinct (map (pending_row_subject_key sha) (rf_rows st)) \<and> distinct (map (submission_key sha) (rf_rows st)) \<and>
     (\<forall>p \<in> set (rf_rows st). p \<in> set (pending (sk (rf_db st))) \<and> buyable_row cfg dup trace_type (lk_busy lk) db p \<and>
        unanswered sha cfg now db p) \<and>
     int (length (rf_rows st)) \<le> max (pc_global pc) 0 \<and>
     (\<forall>d u. pc_default pc = Some d \<longrightarrow>
        int (length (user_rows u (rf_rows st))) \<le> max (opt_or (opt_or (pc_account pc) Map.empty u) d) 0)"

lemma lock_allocated_rows:
  assumes "p \<in> set (lock_allocated rows held ids t)"
  shows "p \<in> set rows" "p_status p = P_queued" "p_trace_type p = t" "\<not> held (p_id p)" "p_id p \<in> set ids"
proof -
  obtain i where i: "i \<in> set ids" "find (\<lambda>p. p_id p = i \<and> p_status p = P_queued \<and> p_trace_type p = t \<and> \<not> held i) rows = Some p"
    using assms by (auto simp: lock_allocated_def map_filter_def)
  from i(2) show "p \<in> set rows" by (auto simp: find_Some_iff)
  from find_holds [OF i(2)] i(1) show "p_status p = P_queued" "p_trace_type p = t" "\<not> held (p_id p)" "p_id p \<in> set ids" by auto
qed

lemma cancel_retires:
  assumes "distinct (map p_id (pending (sk db)))" "set rows \<subseteq> set (pending (sk db))" "\<forall>p \<in> set rows. p_status p = P_queued"
  shows "retires db (cancel_undeliverable rows db)"
    and "p \<in> set (pending (sk db)) \<Longrightarrow> p \<notin> set rows \<Longrightarrow> p \<in> set (pending (sk (cancel_undeliverable rows db)))"
  using retire_rows [OF assms, of P_cancelled "\<lambda>r. r\<lparr> r_skip_trace_status := ''not_attempted'' \<rparr>"]
  by (auto simp: cancel_undeliverable_def retires_refl)

lemma fail_retires:
  assumes "distinct (map p_id (pending (sk db)))" "set rows \<subseteq> set (pending (sk db))" "\<forall>p \<in> set rows. p_status p = P_queued"
  shows "retires db (fail_unsubmittable now rows db)"
    and "p \<in> set (pending (sk db)) \<Longrightarrow> p \<notin> set rows \<Longrightarrow> p \<in> set (pending (sk (fail_unsubmittable now rows db)))"
  using retire_rows [OF assms, of P_errored "\<lambda>r. r\<lparr> r_skip_trace_status := ''errored'', r_attempted_at := Some now \<rparr>"]
  by (auto simp: fail_unsubmittable_def retires_refl)

lemma candidates_ids:
  assumes "c \<in> set (allocate (candidates cfg dup t db) f limits n wm)"
  obtains p where "p \<in> set (pending (sk db))" "p_id p = c_id c" "candidate_row cfg dup t db p"
proof -
  have "c \<in> set (walked_rows (candidates cfg dup t db) f limits wm)"
    using assms by (auto simp: allocate_def Let_def split: if_splits dest: in_set_takeD)
  then obtain u lim where "c \<in> set (candidates cfg dup t db u (f u) lim)" by (auto simp: walked_rows_def)
  then show ?thesis using that by (auto simp: candidates_def dest!: in_set_takeD)
qed

lemma distinct_subseq: "subseq xs ys \<Longrightarrow> distinct ys \<Longrightarrow> distinct xs"
  by (induction rule: list_emb.induct) (auto dest: set_subseq_mono)

lemma absorb_ok:
  assumes ok: "refill_ok sha cfg dup t now lk pc db st" and d: "distinct (map p_id (pending (sk db)))"
    and new: "\<forall>p \<in> set new. p \<in> set (pending (sk (rf_db st))) \<and> p_status p = P_queued \<and> candidate_row cfg dup t (rf_db st) p"
  shows "refill_ok sha cfg dup t now lk pc db (absorb_round sha cfg now lk pc new st)"
proof -
  let ?db = "rf_db st"
  let ?drop = "filter (\<lambda>p. delivery_verdict_of (lk_busy lk) ?db p = Withdraw) new"
  let ?keep = "filter (\<lambda>p. delivery_verdict_of (lk_busy lk) ?db p = Buy) new"
  let ?db1 = "cancel_undeliverable ?drop ?db"
  let ?bad = "filter (\<lambda>p. \<not> row_is_submittable p) ?keep"
  let ?ok = "filter row_is_submittable ?keep"
  let ?db2 = "fail_unsubmittable now ?bad ?db1"
  obtain kept n cache where h: "hold_answers_in_flight sha cfg now ?db2 (rf_cache st) (rf_rows st @ ?ok) = (kept, n, cache)"
    by (cases "hold_answers_in_flight sha cfg now ?db2 (rf_cache st) (rf_rows st @ ?ok)") auto
  have r0: "retires db ?db" using ok by (simp add: refill_ok_def)
  note f0 = retires_facts [OF r0]
  have d0: "distinct (map p_id (pending (sk ?db)))" using f0(6) d by simp
  have dq: "set ?drop \<subseteq> set (pending (sk ?db))" "\<forall>p \<in> set ?drop. p_status p = P_queued" using new by auto
  note c = cancel_retires [OF d0 dq]
  have d1: "distinct (map p_id (pending (sk ?db1)))" using retires_facts(6) [OF c(1)] d0 by simp
  have kq: "p \<in> set (pending (sk ?db1))" if "p \<in> set ?keep" for p using c(2) [of p] that new by auto
  then have bq: "set ?bad \<subseteq> set (pending (sk ?db1))" "\<forall>p \<in> set ?bad. p_status p = P_queued" using new by auto
  note e = fail_retires [OF d1 bq, where now = now]
  have r2: "retires db ?db2" by (rule retires_trans [OF r0 retires_trans [OF c(1) e(1)]])
  note f2 = retires_facts [OF r2]
  have "cache_covers sha db (rf_cache st)" using ok by (simp add: refill_ok_def)
  then have cov: "cache_covers sha ?db2 (rf_cache st)" unfolding cache_covers_def f2(3) .
  note hs = hold_spec [OF h cov]
  have un: "\<forall>p \<in> set kept. unanswered sha cfg now db p" using hs(5) unfolding unanswered_def f2(3,4) .
  have old: "p \<in> set (pending (sk ?db2))" if "p \<in> set (rf_rows st)" for p
  proof -
    have p: "p \<in> set (pending (sk ?db))" "buyable_row cfg dup t (lk_busy lk) db p"
      using ok that by (auto simp: refill_ok_def)
    then have "p \<notin> set ?drop" by (simp add: buyable_row_def f0(1))
    then have "p \<in> set (pending (sk ?db1))" using c(2) p(1) by blast
    moreover have "p \<notin> set ?bad" using p(2) by (simp add: buyable_row_def)
    ultimately show ?thesis using e(2) by blast
  qed
  have fresh: "p \<in> set (pending (sk ?db2)) \<and> buyable_row cfg dup t (lk_busy lk) db p" if p: "p \<in> set ?ok" for p
  proof -
    have "p \<in> set (pending (sk db))" using r0 new p unfolding retires_def by auto
    moreover have "candidate_row cfg dup t db p" using new p f0(5) by auto
    ultimately show ?thesis using p kq [of p] e(2) [of p] by (auto simp: buyable_row_def f0(1))
  qed
  let ?taken = "take_within_caps kept (pc_account pc) (pc_default pc) (pc_global pc)"
  have t: "subseq ?taken kept" "int (length ?taken) \<le> max (pc_global pc) 0"
    "\<And>d' u. pc_default pc = Some d' \<Longrightarrow> int (length (user_rows u ?taken)) \<le> max (opt_or (opt_or (pc_account pc) Map.empty u) d') 0"
    using take_within_spec [OF refl, where rows = kept and ar = "pc_account pc" and dr = "pc_default pc" and g = "pc_global pc"]
    by blast+
  have rows: "p \<in> set (pending (sk ?db2)) \<and> buyable_row cfg dup t (lk_busy lk) db p \<and> unanswered sha cfg now db p"
    if "p \<in> set ?taken" for p
  proof -
    have "p \<in> set kept" using that set_subseq_mono [OF t(1)] by blast
    then have "unanswered sha cfg now db p" "p \<in> set (rf_rows st) \<or> p \<in> set ?ok" using un hs(4) by auto
    moreover have "buyable_row cfg dup t (lk_busy lk) db p" if "p \<in> set (rf_rows st)"
      using ok that by (simp add: refill_ok_def)
    ultimately show ?thesis using old fresh by blast
  qed
  have dist: "distinct (map f ?taken)" if "distinct (map f kept)" for f :: "pending_row \<Rightarrow> 'k"
    using distinct_subseq [OF subseq_map [OF t(1), of f] that] .
  have a: "absorb_round sha cfg now lk pc new st = st\<lparr> rf_rows := ?taken, rf_withdrawn := rf_withdrawn st @ ?drop,
      rf_bad := rf_bad st @ ?bad, rf_cache := cache,
      rf_later := rf_later st + length (filter (\<lambda>p. delivery_verdict_of (lk_busy lk) ?db p = Later) new),
      rf_held := rf_held st + n, rf_db := ?db2 \<rparr>"
    using h by (simp add: absorb_round_def partition_still_deliverable_def partition_submittable_def Let_def)
  have cov2: "cache_covers sha db cache" using hs(1) unfolding cache_covers_def f2(3) .
  have e: "rf_rows (absorb_round sha cfg now lk pc new st) = ?taken" "rf_db (absorb_round sha cfg now lk pc new st) = ?db2"
    "rf_cache (absorb_round sha cfg now lk pc new st) = cache"
    unfolding a by simp_all
  have all: "\<forall>p \<in> set ?taken. p \<in> set (pending (sk ?db2)) \<and> buyable_row cfg dup t (lk_busy lk) db p \<and> unanswered sha cfg now db p"
    using rows by blast
  have caps: "\<forall>d u. pc_default pc = Some d \<longrightarrow> int (length (user_rows u ?taken)) \<le> max (opt_or (opt_or (pc_account pc) Map.empty u) d) 0"
    using t(3) by blast
  show ?thesis
    unfolding refill_ok_def e by (intro conjI r2 cov2 dist [OF hs(2)] dist [OF hs(3)] all t(2) caps)
qed

lemma refill_rounds_ok:
  assumes "distinct (map p_id (pending (sk db)))"
  shows "refill_ok sha cfg dup t now lk pc db st \<Longrightarrow>
    refill_ok sha cfg dup t now lk pc db (refill_rounds sha cfg dup wm t now lk pc left st)"
proof (induction left arbitrary: st)
  case (Suc left)
  let ?rounds = "REFILL_MAX_ROUNDS - Suc left"
  let ?gl = "pc_global pc - int (length (rf_rows st))"
  obtain limits rl where l: "round_limits (rf_active st) (room_left pc st) (pc_default pc) ?gl ?rounds = (limits, rl)" by fastforce
  let ?got = "allocate (candidates cfg dup t (rf_db st)) (rf_frontier st) limits rl wm"
  obtain f ret where a: "advance (rf_frontier st) ?got = (f, ret)" by fastforce
  let ?act = "if int (length ?got) < rl then filter (\<lambda>u. u \<notin> fst ` set limits \<or> ret u \<noteq> None) (rf_active st) else rf_active st"
  let ?new = "lock_allocated (pending (sk (rf_db st))) (lk_held lk) (map c_id ?got) t"
  let ?st = "st\<lparr> rf_frontier := f, rf_active := ?act \<rparr>"
  have same: "refill_ok sha cfg dup t now lk pc db ?st" using Suc.prems by (simp add: refill_ok_def)
  have new: "\<forall>p \<in> set ?new. p \<in> set (pending (sk (rf_db ?st))) \<and> p_status p = P_queued \<and> candidate_row cfg dup t (rf_db ?st) p"
  proof
    fix p assume p: "p \<in> set ?new"
    note q = lock_allocated_rows [OF p]
    then obtain c where "c \<in> set ?got" "p_id p = c_id c" by auto
    then obtain p' where p': "p' \<in> set (pending (sk (rf_db st)))" "p_id p' = p_id p" "candidate_row cfg dup t (rf_db st) p'"
      using candidates_ids by metis
    have "distinct (map p_id (pending (sk (rf_db st))))"
      using Suc.prems assms retires_facts(6) by (simp add: refill_ok_def) blast
    then have "p' = p" using same_row p'(1,2) q(1) by blast
    then show "p \<in> set (pending (sk (rf_db ?st))) \<and> p_status p = P_queued \<and> candidate_row cfg dup t (rf_db ?st) p"
      using q p'(3) by simp
  qed
  have step: "refill_rounds sha cfg dup wm t now lk pc (Suc left) st =
      (if ?gl \<le> 0 \<or> (?rounds \<noteq> 0 \<and> lk_expired lk ?rounds) then st else if limits = [] then st else if ?got = [] then st
       else refill_rounds sha cfg dup wm t now lk pc left (absorb_round sha cfg now lk pc ?new ?st))"
    unfolding refill_rounds.simps(2) Let_def l prod.case a by (rule refl)
  have "refill_ok sha cfg dup t now lk pc db (refill_rounds sha cfg dup wm t now lk pc left (absorb_round sha cfg now lk pc ?new ?st))"
    by (rule Suc.IH [OF absorb_ok [OF same assms new]])
  then show ?case unfolding step using Suc.prems by (auto simp del: refill_rounds.simps)
qed simp

lemma start_refill_ok:
  assumes "distinct (map p_id (pending (sk db)))"
  shows "refill_ok sha cfg dup t now lk pc db (start_refill wm lk t now db)"
proof -
  have "retires db (cancel_undeliverable (withdraw_for h us t (pending (sk db))) db)" for h us
    by (rule cancel_retires(1) [OF assms]) (auto simp: withdraw_for_def)
  then show ?thesis
    by (simp add: refill_ok_def start_refill_def Let_def cache_covers_def in_flight_keys_def user_rows_def)
qed

lemma pass_claims:
  assumes d: "distinct (map p_id (pending (sk db)))"
    and c: "dispatch_pass sha cfg dup wm t now lk db = Claimed rows bad db'"
  shows "\<exists>st. rows = drop_blocked_accounts (lk_account lk) now (rf_db st) (rf_rows st) \<and> bad = rf_bad st \<and>
    db' = claim_batch now rows (rf_db st) \<and> rows \<noteq> [] \<and>
    (\<exists>pc. pass_room (pending (sk db)) (instant now) (cf_caps cfg) (opt_or (credits_for t) 1) = (pc_global pc, pc_default pc, pc_account pc) \<and>
       refill_ok sha cfg dup t now lk pc db st)"
proof -
  obtain g dr ar where r: "pass_room (pending (sk db)) (instant now) (cf_caps cfg) (opt_or (credits_for t) 1) = (g, dr, ar)"
    by (cases "pass_room (pending (sk db)) (instant now) (cf_caps cfg) (opt_or (credits_for t) 1)") auto
  let ?pc = "\<lparr> pc_global = g, pc_default = dr, pc_account = ar \<rparr>"
  let ?st = "refill_rounds sha cfg dup wm t now lk ?pc REFILL_MAX_ROUNDS (start_refill wm lk t now db)"
  have "rows = drop_blocked_accounts (lk_account lk) now (rf_db ?st) (rf_rows ?st) \<and> bad = rf_bad ?st \<and>
      db' = claim_batch now rows (rf_db ?st) \<and> rows \<noteq> []"
    using c by (auto simp: dispatch_pass_def r Let_def split: if_splits)
  moreover have "refill_ok sha cfg dup t now lk ?pc db ?st"
    by (rule refill_rounds_ok [OF d start_refill_ok [OF d]])
  ultimately show ?thesis using r by (intro exI [of _ ?st] conjI exI [of _ ?pc]) auto
qed

subsection \<open>What a claim spends\<close>

lemma spent_bill:
  assumes "map row_bill ps = map row_bill qs" "\<And>p q. row_bill p = row_bill q \<Longrightarrow> P p = P q"
  shows "credits (filter P (spent_rows ps since)) = credits (filter P (spent_rows qs since))"
  using assms(1)
proof (induction ps arbitrary: qs)
  case (Cons p ps)
  then obtain q qs' where q: "qs = q # qs'" "row_bill p = row_bill q" "map row_bill ps = map row_bill qs'" by auto
  then have "weight p = weight q" "p_submitted_at p = p_submitted_at q" "submitted_instant p = submitted_instant q"
    by (simp_all add: row_bill_def weight_def submitted_instant_def)
  then show ?case using Cons.IH [OF q(3)] assms(2) [OF q(2)] by (simp add: q(1) spent_rows_def)
qed simp

lemma claim_spends:
  assumes P: "\<And>p s. P (p\<lparr> p_status := P_submitting, p_submitted_at := s \<rparr>) = P p"
  shows "credits (filter P (spent_rows (map (\<lambda>p. if C p then p\<lparr> p_status := P_submitting, p_submitted_at := Some t \<rparr> else p) ps) since))
    \<le> credits (filter P (spent_rows ps since)) + credits (filter P (filter C ps))"
proof (induction ps)
  case (Cons p ps)
  have "weight (p\<lparr> p_status := P_submitting, p_submitted_at := Some t \<rparr>) = weight p" by (simp add: weight_def)
  then show ?case using Cons P [where p = p and s = "Some t"] weight_nonneg [of p] by (auto simp: spent_rows_def)
qed (simp add: spent_rows_def)

lemma credits_same_set:
  assumes "distinct xs" "distinct ys" "set xs = set ys"
  shows "credits xs = credits ys"
proof -
  have "mset xs = mset ys" using assms set_eq_iff_mset_eq_distinct by blast
  then show ?thesis unfolding credits_def by (metis mset_map sum_mset_sum_list)
qed

lemma credits_cap:
  assumes spend: "since_after \<le> since_before + price * int n" and c: "0 < price"
    and room: "row_allowance cap since_before price = Some a" and n: "int n \<le> max a 0" and cap: "cap \<noteq> 0"
  shows "since_after \<le> max since_before cap"
proof -
  have "int n \<le> a" using room n cap by (auto simp: row_allowance_def)
  from row_allowance_bound [OF room c this] show ?thesis using spend by (simp add: mult.commute)
qed

text \<open>What a claim adds to the spending that a predicate on accounts selects.\<close>

lemma claim_batch_spends:
  assumes ret: "retires db dbr" and d: "distinct (map p_id (pending (sk dbr)))"
    and rows: "distinct rows" "set rows \<subseteq> set (pending (sk dbr))" "\<forall>p \<in> set rows. p_status p = P_queued \<and> weight p = price"
    and P: "\<And>p q. p_user p = p_user q \<Longrightarrow> P p = P q"
  shows "credits (filter P (spent_rows (pending (sk (claim_batch now rows dbr))) since))
      \<le> credits (filter P (spent_rows (pending (sk db)) since)) + price * int (length (filter P rows))"
proof -
  let ?C = "\<lambda>p. row_in rows p \<and> p_status p = P_queued"
  have upd: "P (p\<lparr> p_status := P_submitting, p_submitted_at := s \<rparr>) = P p" for p s by (rule P) simp
  have bill: "row_bill p = row_bill q \<Longrightarrow> P p = P q" for p q by (rule P) (simp add: row_bill_def)
  have bills: "map row_bill (pending (sk dbr)) = map row_bill (pending (sk db))" using ret unfolding retires_def by blast
  have "filter P (filter ?C (pending (sk dbr))) = filter (\<lambda>p. p \<in> set rows) (filter P (pending (sk dbr)))"
    using row_in_iff [OF d rows(2)] rows(3) by (auto intro!: filter_cong)
  also have "credits \<dots> = credits (filter P rows)"
    by (rule credits_same_set) (use rows d in \<open>auto simp: distinct_map\<close>)
  finally have "credits (filter P (spent_rows (pending (sk (claim_batch now rows dbr))) since))
      \<le> credits (filter P (spent_rows (pending (sk dbr)) since)) + credits (filter P rows)"
    using claim_spends [where P = P and C = ?C and t = now and ps = "pending (sk dbr)" and since = since, OF upd]
    by (simp add: claim_batch_def)
  moreover have "credits (filter P (spent_rows (pending (sk dbr)) since)) = credits (filter P (spent_rows (pending (sk db)) since))"
    using bills bill by (rule spent_bill)
  moreover have "credits (filter P rows) = price * int (length (filter P rows))"
    by (rule credits_const) (use rows(3) in simp)
  ultimately show ?thesis by simp
qed

lemma claimed_rows:
  assumes d: "distinct (map p_id (pending (sk db)))"
    and ok: "refill_ok sha cfg dup t now lk pc db st" and rows: "rows = drop_blocked_accounts b now (rf_db st) (rf_rows st)"
  shows "distinct (map (pending_row_subject_key sha) rows)" "distinct (map (submission_key sha) rows)"
    "int (length rows) \<le> max (pc_global pc) 0" "length (user_rows u rows) \<le> length (user_rows u (rf_rows st))"
    "set rows \<subseteq> set (pending (sk (rf_db st)))"
    "p \<in> set rows \<Longrightarrow> buyable_row cfg dup t (lk_busy lk) db p \<and> unanswered sha cfg now db p \<and>
       \<not> blocked_access (account_access b now db (p_user p)) \<and>
       p\<lparr> p_status := P_submitting, p_submitted_at := Some now \<rparr> \<in> set (pending (sk (claim_batch now rows (rf_db st))))"
proof -
  note ok' = ok [unfolded refill_ok_def]
  have ret: "retires db (rf_db st)" using ok' by blast
  have sub: "set rows \<subseteq> set (rf_rows st)" by (auto simp: rows drop_blocked_accounts_def)
  have dist: "distinct (map f rows)" if "distinct (map f (rf_rows st))" for f :: "pending_row \<Rightarrow> 'k"
    using that by (simp add: rows drop_blocked_accounts_def distinct_map_filter)
  show "distinct (map (pending_row_subject_key sha) rows)" "distinct (map (submission_key sha) rows)" using ok' dist by blast+
  have short: "length rows \<le> length (rf_rows st)" by (simp add: rows drop_blocked_accounts_def)
  have "int (length (rf_rows st)) \<le> max (pc_global pc) 0" using ok' by blast
  then show "int (length rows) \<le> max (pc_global pc) 0" using short by linarith
  have "user_rows u rows = filter (\<lambda>p. \<not> blocked_access (account_access b now (rf_db st) (p_user p))) (user_rows u (rf_rows st))"
    by (simp add: rows drop_blocked_accounts_def user_rows_def conj_commute)
  then show "length (user_rows u rows) \<le> length (user_rows u (rf_rows st))" by simp
  show sub2: "set rows \<subseteq> set (pending (sk (rf_db st)))" using ok' sub by blast
  have d0: "distinct (map p_id (pending (sk (rf_db st))))" using retires_facts(6) [OF ret] d by simp
  assume p: "p \<in> set rows"
  have b: "buyable_row cfg dup t (lk_busy lk) db p" "unanswered sha cfg now db p" using ok' sub p by blast+
  then have "p_status p = P_queued" by (simp add: buyable_row_def candidate_row_def)
  moreover have "p \<in> set (pending (sk (rf_db st)))" "row_in rows p" using sub2 p by (auto simp: row_in_def list_ex_iff)
  ultimately have "p\<lparr> p_status := P_submitting, p_submitted_at := Some now \<rparr> \<in> set (pending (sk (claim_batch now rows (rf_db st))))"
    by (force simp: claim_batch_def image_iff)
  moreover have "\<not> blocked_access (account_access b now db (p_user p))"
    using p by (simp add: rows drop_blocked_accounts_def retires_facts(2) [OF ret])
  ultimately show "buyable_row cfg dup t (lk_busy lk) db p \<and> unanswered sha cfg now db p \<and>
       \<not> blocked_access (account_access b now db (p_user p)) \<and>
       p\<lparr> p_status := P_submitting, p_submitted_at := Some now \<rparr> \<in> set (pending (sk (claim_batch now rows (rf_db st))))"
    using b by blast
qed

text \<open>
  C13: The batch of a pass. Of whatever is queued, a pass claims rows that were queued with a candidate's job and lead,
  that are delivered and submittable, whose account may buy lookups under the lock, and whose answer is neither in the
  fresh cache nor bought right now by the account; no two of them buy one answer or go out for one address; and after
  the claim the rolling day's credits are within the global cap and every account's within the account cap, unless
  they were already past it.
\<close>

theorem dispatch_batch_sound:
  assumes d: "distinct (map p_id (pending (sk db)))" and t: "credits_for t = Some price"
    and c: "dispatch_pass sha cfg dup wm t now lk db = Claimed rows bad db'"
  shows "distinct (map (pending_row_subject_key sha) rows) \<and> distinct (map (submission_key sha) rows) \<and>
    int (length rows) \<le> BATCH_ROW_LIMIT \<and>
    (\<forall>p \<in> set rows. buyable_row cfg dup t (lk_busy lk) db p \<and> unanswered sha cfg now db p \<and>
       \<not> blocked_access (account_access (lk_account lk) now db (p_user p)) \<and>
       p\<lparr> p_status := P_submitting, p_submitted_at := Some now \<rparr> \<in> set (pending (sk db'))) \<and>
    (let since = instant now - SPEND_WINDOW; gcap = global_cap (cf_caps cfg); acap = account_cap (cf_caps cfg)
     in (gcap = 0 \<or> credits (spent_rows (pending (sk db')) since) \<le> max (credits (spent_rows (pending (sk db)) since)) gcap) \<and>
        (acap = 0 \<or> (\<forall>u. credits (user_rows u (spent_rows (pending (sk db')) since))
                            \<le> max (credits (user_rows u (spent_rows (pending (sk db)) since))) acap)))"
proof -
  obtain st pc where st: "rows = drop_blocked_accounts (lk_account lk) now (rf_db st) (rf_rows st)"
    "db' = claim_batch now rows (rf_db st)"
    "pass_room (pending (sk db)) (instant now) (cf_caps cfg) (opt_or (credits_for t) 1) = (pc_global pc, pc_default pc, pc_account pc)"
    "refill_ok sha cfg dup t now lk pc db st"
    using pass_claims [OF d c] by blast
  note cr = claimed_rows [OF d st(4,1)]
  have ret: "retires db (rf_db st)" using st(4) unfolding refill_ok_def by blast
  have pos: "0 < price" using credits_for_bounds [OF t] by simp
  note room = st(3) [unfolded t opt_or_simps]
  note g = pass_room_batch [OF room]
  have limit: "int (length rows) \<le> BATCH_ROW_LIMIT"
    using cr(3) by (auto simp: g batch_rows_def BATCH_ROW_LIMIT_def split: option.splits)
  have d0: "distinct (map p_id (pending (sk (rf_db st))))" using retires_facts(6) [OF ret] d by simp
  have q: "\<forall>p \<in> set rows. p_status p = P_queued \<and> weight p = price"
    using cr(6) t by (simp add: buyable_row_def candidate_row_def weight_def)
  have "distinct rows" using cr(1) by (simp add: distinct_map)
  note spend = claim_batch_spends [OF ret d0 this cr(5) q, where now = now and since = "instant now - SPEND_WINDOW", folded st(2)]
  let ?S = "\<lambda>db. spent_rows (pending (sk db)) (instant now - SPEND_WINDOW)"
  have glob: "credits (?S db') \<le> max (credits (?S db)) (global_cap (cf_caps cfg))" if z: "global_cap (cf_caps cfg) \<noteq> 0"
  proof (rule credits_cap [OF _ pos _ _ z])
    show "credits (?S db') \<le> credits (?S db) + price * int (length rows)" using spend [of "\<lambda>_. True"] by simp
    show "row_allowance (global_cap (cf_caps cfg)) (credits (?S db)) price
        = Some (max 0 ((global_cap (cf_caps cfg) - credits (?S db)) div price))" using z by (simp add: row_allowance_def)
    show "int (length rows) \<le> max (max 0 ((global_cap (cf_caps cfg) - credits (?S db)) div price)) 0"
      using cr(3) z by (simp add: g batch_rows_def row_allowance_def)
  qed
  have acct: "credits (user_rows u (?S db')) \<le> max (credits (user_rows u (?S db))) (account_cap (cf_caps cfg))"
    if z: "account_cap (cf_caps cfg) \<noteq> 0" for u
  proof -
    have "pc_default pc = row_allowance (account_cap (cf_caps cfg)) 0 price"
      using room by (auto simp: pass_room_def Let_def split: prod.splits)
    then obtain dd where dd: "pc_default pc = Some dd" using z by (auto simp: row_allowance_def)
    have "int (length (user_rows u (rf_rows st))) \<le> max (opt_or (opt_or (pc_account pc) Map.empty u) dd) 0"
      using st(4) dd unfolding refill_ok_def by blast
    then have n: "int (length (user_rows u rows)) \<le> max (opt_or (opt_or (pc_account pc) Map.empty u) dd) 0"
      using cr(4) [of u] by linarith
    have "credits (user_rows u (?S db')) \<le> credits (user_rows u (?S db)) + price * int (length (user_rows u rows))"
      using spend [of "\<lambda>p. p_user p = u"] by (simp add: user_rows_def)
    from credits_cap [OF this pos pass_room_account [OF room z dd, of u] n z] show ?thesis .
  qed
  have "\<forall>p \<in> set rows. buyable_row cfg dup t (lk_busy lk) db p \<and> unanswered sha cfg now db p \<and>
       \<not> blocked_access (account_access (lk_account lk) now db (p_user p)) \<and>
       p\<lparr> p_status := P_submitting, p_submitted_at := Some now \<rparr> \<in> set (pending (sk db'))"
    using cr(6) by (simp add: st(2))
  then show ?thesis unfolding Let_def using cr(1,2) limit glob acct by (intro conjI) blast+
qed

text \<open>Three queued rows: a lookup, another owner of the same house (held), and a row without a city (failed).\<close>

definition sample_pending :: "string \<Rightarrow> string \<Rightarrow> string \<Rightarrow> pending_row" where
  "sample_pending n fname town =
     (sample_lookup fname ''Lee'' ''normal'')\<lparr> p_id := ''p'' @ n, p_result := ''r'' @ n, p_enqueued_at := DateTime 2026 3 1 5,
       p_fields := [(''property_address'', Some ''1 Main St''), (''city'', Some town), (''state'', Some ''WA''),
                    (''first_name'', Some fname), (''last_name'', Some ''Lee'')] \<rparr>"

definition sample_result :: result_row where
  "sample_result = \<lparr> r_user = ''u1'', r_job = ''j1'', r_skip_trace_status = ''queued'', r_contact = no_contact,
     r_attempted_at = None, r_source = None, r_subject = None \<rparr>"

definition dispatch_sample :: dispatch_db where
  "dispatch_sample =
     \<lparr> sk = claim_db\<lparr> users := [''u1'' \<mapsto> sample_user],
              pending := [sample_pending ''1'' ''Ann'' ''Tacoma'', sample_pending ''2'' ''Bob'' ''Tacoma'', sample_pending ''3'' ''Cat'' '' ''],
              results := [''r1'' \<mapsto> sample_result, ''r2'' \<mapsto> sample_result, ''r3'' \<mapsto> sample_result] \<rparr>,
       answers = Map.empty, djobs = [sample_job\<lparr> j_status := DONE \<rparr>],
       dleads = [''r1'' \<mapsto> sample_lead ''r1'' ''LEE, ANN'', ''r2'' \<mapsto> sample_lead ''r2'' ''LEE, BOB'', ''r3'' \<mapsto> sample_lead ''r3'' ''LEE, CAT''] \<rparr>"

definition sample_config :: dispatch_config where
  "sample_config = \<lparr> cf_pierce = False, cf_cache_days = 90,
     cf_caps = \<lparr> global_cap = 5, account_cap = 5, global_source = ''unset'' \<rparr> \<rparr>"

definition sample_locks :: pass_locks where
  "sample_locks = \<lparr> lk_held = (\<lambda>_. False), lk_busy = (\<lambda>_. False), lk_account = (\<lambda>_. False), lk_expired = (\<lambda>_. True) \<rparr>"

definition sample_now :: datetime where
  "sample_now = DateTime 2026 3 2 9"

definition sample_caps :: pass_caps where
  "sample_caps = (case pass_room (pending (sk dispatch_sample)) (instant sample_now) (cf_caps sample_config) 1 of
     (g, d, a) \<Rightarrow> \<lparr> pc_global = g, pc_default = d, pc_account = a \<rparr>)"

definition sample_start :: refill where
  "sample_start = start_refill (DateTime 2026 3 2 0) sample_locks ''normal'' sample_now dispatch_sample"

definition sample_got :: "candidate list" where
  "sample_got = allocate (candidates sample_config [] ''normal'' (rf_db sample_start)) (rf_frontier sample_start) [(''u1'', 5)] 5 (DateTime 2026 3 2 0)"

definition sample_round :: refill where
  "sample_round = absorb_round id sample_config sample_now sample_locks sample_caps
     (lock_allocated (pending (sk (rf_db sample_start))) (lk_held sample_locks) (map c_id sample_got) ''normal'')
     (sample_start\<lparr> rf_frontier := fst (advance (rf_frontier sample_start) sample_got), rf_active := [''u1''] \<rparr>)"

text \<open>The parts of the round, evaluated one by one.\<close>

definition sample_new :: "pending_row list" where
  "sample_new = lock_allocated (pending (sk (rf_db sample_start))) (lk_held sample_locks) (map c_id sample_got) ''normal''"

definition sample_parts :: "pending_row list \<times> pending_row list \<times> nat" where
  "sample_parts = partition_still_deliverable (lk_busy sample_locks) (rf_db sample_start) sample_new"

definition sample_kept :: "pending_row list" where
  "sample_kept = (let (ok, bad) = partition_submittable (fst sample_parts)
     in fst (hold_answers_in_flight id sample_config sample_now
          (fail_unsubmittable sample_now bad (cancel_undeliverable (fst (snd sample_parts)) (rf_db sample_start)))
          (rf_cache sample_start) (rf_rows sample_start @ ok)))"

lemma sample_round_parts:
  "rf_rows sample_round = take_within_caps sample_kept (pc_account sample_caps) (pc_default sample_caps) (pc_global sample_caps)"
  "rf_bad sample_round = rf_bad sample_start @ filter (\<lambda>p. \<not> row_is_submittable p) (fst sample_parts)"
  unfolding sample_round_def absorb_round_def sample_kept_def sample_parts_def sample_new_def partition_submittable_def Let_def
  by (simp_all split: prod.splits)

definition sample_claimed :: "pending_row list" where
  "sample_claimed = drop_blocked_accounts (lk_account sample_locks) sample_now (rf_db sample_round) (rf_rows sample_round)"

lemma refill_one_round:
  assumes "0 < pc_global pc - int (length (rf_rows st))"
    "round_limits (rf_active st) (room_left pc st) (pc_default pc) (pc_global pc - int (length (rf_rows st))) 0 = (limits, rl)"
    "limits \<noteq> []" "got = allocate (candidates cfg dup t (rf_db st)) (rf_frontier st) limits rl wm" "got \<noteq> []"
    "active = (if int (length got) < rl then filter (\<lambda>u. u \<notin> fst ` set limits \<or> snd (advance (rf_frontier st) got) u \<noteq> None) (rf_active st)
       else rf_active st)" "\<And>n. lk_expired lk n"
  shows "refill_rounds sha cfg dup wm t now lk pc REFILL_MAX_ROUNDS st =
    absorb_round sha cfg now lk pc (lock_allocated (pending (sk (rf_db st))) (lk_held lk) (map c_id got) t)
      (st\<lparr> rf_frontier := fst (advance (rf_frontier st) got), rf_active := active \<rparr>)"
proof -
  have m: "REFILL_MAX_ROUNDS = Suc (Suc 10)" by (simp add: REFILL_MAX_ROUNDS_def)
  have stop: "refill_rounds sha cfg dup wm t now lk pc (Suc 10) st' = st'" for st'
    unfolding refill_rounds.simps(2) Let_def using assms(7) by (simp add: REFILL_MAX_ROUNDS_def)
  obtain f ret where a: "advance (rf_frontier st) got = (f, ret)" by fastforce
  have z: "Suc (Suc 10) - Suc (Suc 10) = (0 :: nat)" by simp
  have c: "\<not> (pc_global pc - int (length (rf_rows st)) \<le> 0 \<or> (0::nat) \<noteq> 0 \<and> lk_expired lk 0)" using assms(1) by simp
  note act = assms(6) [unfolded a snd_conv]
  show ?thesis
    unfolding m refill_rounds.simps(2) [of _ _ _ _ _ _ _ _ "Suc 10"] Let_def z assms(2) prod.case assms(4) [symmetric] a fst_conv
    by (simp only: if_not_P [OF c] if_not_P [OF assms(3)] if_not_P [OF assms(5)] stop act)
qed

lemma sample_claims:
  "dispatch_pass id sample_config [] (DateTime 2026 3 2 0) ''normal'' sample_now sample_locks dispatch_sample
    = Claimed sample_claimed (rf_bad sample_round) (claim_batch sample_now sample_claimed (rf_db sample_round))"
  "map p_id sample_claimed = [''p1'']" "map p_id (rf_bad sample_round) = [''p3'']"
proof -
  have k: "pc_global sample_caps - int (length (rf_rows sample_start)) = 5" by code_simp
  have l: "round_limits (rf_active sample_start) (room_left sample_caps sample_start) (pc_default sample_caps)
      (pc_global sample_caps - int (length (rf_rows sample_start))) 0 = ([(''u1'', 5)], 5)" by code_simp
  have g: "map c_id sample_got = [''p1'', ''p2'', ''p3'']" by code_simp
  then have g0: "sample_got \<noteq> []" "int (length sample_got) = 3" by (auto dest: arg_cong [where f = length])
  have act: "[''u1''] = (if int (length sample_got) < 5
      then filter (\<lambda>u. u \<notin> fst ` set [(''u1'', 5 :: int)] \<or> snd (advance (rf_frontier sample_start) sample_got) u \<noteq> None) (rf_active sample_start)
      else rf_active sample_start)" by code_simp
  have e: "lk_expired sample_locks n" for n by (simp add: sample_locks_def)
  have "0 < pc_global sample_caps - int (length (rf_rows sample_start))" using k by simp
  note room = this
  have ne: "[(''u1'', 5 :: int)] \<noteq> []" by simp
  have r: "refill_rounds id sample_config [] (DateTime 2026 3 2 0) ''normal'' sample_now sample_locks sample_caps REFILL_MAX_ROUNDS sample_start
      = sample_round" unfolding sample_round_def by (rule refill_one_round [OF room l ne sample_got_def g0(1) act e])
  have d: "distinct (map p_id (pending (sk dispatch_sample)))" by code_simp
  have "refill_ok id sample_config [] ''normal'' sample_now sample_locks sample_caps dispatch_sample sample_start"
    unfolding sample_start_def by (rule start_refill_ok [OF d])
  from refill_rounds_ok [OF d this, where wm = "DateTime 2026 3 2 0" and left = REFILL_MAX_ROUNDS]
  have "refill_ok id sample_config [] ''normal'' sample_now sample_locks sample_caps dispatch_sample sample_round"
    unfolding r .
  then have ret: "retires dispatch_sample (rf_db sample_round)" unfolding refill_ok_def by blast
  have open_account: "\<not> blocked_access (account_access (lk_account sample_locks) sample_now dispatch_sample ''u1'')" by code_simp
  have "map (\<lambda>p. (p_id p, p_user p)) (take_within_caps sample_kept (pc_account sample_caps) (pc_default sample_caps) (pc_global sample_caps))
      = [(''p1'', ''u1'')]" by code_simp
  then have got: "map p_id (rf_rows sample_round) = [''p1'']" "map p_user (rf_rows sample_round) = [''u1'']"
    by (auto simp: sample_round_parts)
  then have "filter (\<lambda>p. \<not> blocked_access (account_access (lk_account sample_locks) sample_now (rf_db sample_round) (p_user p))) (rf_rows sample_round)
      = rf_rows sample_round"
    using open_account unfolding retires_facts(2) [OF ret] by (intro filter_True) auto
  then show ids: "map p_id sample_claimed = [''p1'']" using got(1) by (simp add: sample_claimed_def drop_blocked_accounts_def)
  have "rf_bad sample_start = []" by code_simp
  moreover have "map p_id (filter (\<lambda>p. \<not> row_is_submittable p) (fst sample_parts)) = [''p3'']" by code_simp
  ultimately show "map p_id (rf_bad sample_round) = [''p3'']" by (simp add: sample_round_parts)
  have one: "opt_or (credits_for ''normal'') 1 = 1" by code_simp
  obtain g d a where pr: "pass_room (pending (sk dispatch_sample)) (instant sample_now) (cf_caps sample_config) 1 = (g, d, a)"
    by (cases "pass_room (pending (sk dispatch_sample)) (instant sample_now) (cf_caps sample_config) 1") auto
  have caps: "sample_caps = \<lparr> pc_global = g, pc_default = d, pc_account = a \<rparr>" by (simp add: sample_caps_def pr)
  have "pc_global sample_caps = 5" by code_simp
  then have "g \<noteq> 0" unfolding caps by simp
  moreover have "sample_claimed \<noteq> []" using ids by auto
  ultimately show "dispatch_pass id sample_config [] (DateTime 2026 3 2 0) ''normal'' sample_now sample_locks dispatch_sample
    = Claimed sample_claimed (rf_bad sample_round) (claim_batch sample_now sample_claimed (rf_db sample_round))"
    unfolding dispatch_pass_def one pr prod.case Let_def caps [symmetric] sample_start_def [symmetric] r sample_claimed_def [symmetric]
    by simp
qed

theorem dispatch_batch_sound_witness:
  "map p_id sample_claimed = [''p1''] \<and> unanswered id sample_config sample_now dispatch_sample (hd sample_claimed) \<and>
   delivery_verdict_of (\<lambda>_. False) dispatch_sample (hd sample_claimed) = Buy \<and>
   int (length sample_claimed) \<le> BATCH_ROW_LIMIT"
proof -
  have d: "distinct (map p_id (pending (sk dispatch_sample)))" "credits_for ''normal'' = Some 1" by code_simp+
  have "sample_claimed \<noteq> []" using sample_claims(2) by auto
  then have m: "hd sample_claimed \<in> set sample_claimed" by (rule hd_in_set)
  have b: "lk_busy sample_locks = (\<lambda>_. False)" by (simp add: sample_locks_def)
  note s = dispatch_batch_sound [OF d sample_claims(1)]
  have "unanswered id sample_config sample_now dispatch_sample (hd sample_claimed)" using s m by blast
  moreover have "buyable_row sample_config [] ''normal'' (lk_busy sample_locks) dispatch_sample (hd sample_claimed)" using s m by blast
  ultimately show ?thesis using s sample_claims(2) by (simp add: buyable_row_def b)
qed

end
