(* ===== verification/DispatchSubmit.thy ===== *)
theory DispatchSubmit
  imports DispatchPass
begin

text \<open>
  The dispatcher of \<^verbatim>\<open>workers/skip_trace_dispatcher.py\<close> after the claim's commit: what a submission's outcome does to the
  claim (\<^verbatim>\<open>_release_claim\<close>, \<^verbatim>\<open>_persist_submission\<close> and its retry, the partial resubmit after a 402), the result of a
  tick, and the whole tick. The provider is a parameter that answers each POST with a \<open>submit_outcome\<close>;
  \<open>Other_failure\<close> is any exception around the POST that is not a \<^verbatim>\<open>TracerfyError\<close>.
\<close>

subsection \<open>Releasing and recording\<close>

text \<open>The rows of a claim that an update may move: still submitting and, when pinned, under that claim time.\<close>

definition claim_row :: "datetime option \<Rightarrow> pending_row list \<Rightarrow> pending_row \<Rightarrow> bool" where
  "claim_row pin claimed p \<longleftrightarrow> row_in claimed p \<and> p_status p = P_submitting \<and>
     (case pin of None \<Rightarrow> True | Some c \<Rightarrow> p_submitted_at p = Some c)"

definition release_claim ::
    "pending_row list \<Rightarrow> pending_status \<Rightarrow> datetime option \<Rightarrow> datetime \<Rightarrow> dispatch_db \<Rightarrow> pending_row list \<times> dispatch_db" where
  "release_claim claimed to_status pin now db =
     (let moved = filter (claim_row pin claimed) (pending (sk db));
          db1 = update_pending (claim_row pin claimed) (\<lambda>p. p\<lparr> p_status := to_status, p_submitted_at := None \<rparr>) db
      in (moved,
          if to_status = P_errored
          then update_results (\<lambda>i r. lead_pair moved i r \<and> r_skip_trace_status r \<in> {''queued'', ''submitted''})
                 (\<lambda>r. r\<lparr> r_skip_trace_status := ''errored'', r_attempted_at := Some now \<rparr>) db1
          else db1))"

definition provider_submitted_time :: "datetime option \<Rightarrow> datetime option \<Rightarrow> bool \<Rightarrow> datetime option" where
  "provider_submitted_time created_at claim_time adopted =
     (case created_at of Some ts \<Rightarrow> Some ts | None \<Rightarrow> if adopted then None else claim_time)"

text \<open>\<^verbatim>\<open>x or d\<close> for a count: None and 0 are falsy. The result lists the claimed rows that had left the claim.\<close>

definition int_or :: "int option \<Rightarrow> int \<Rightarrow> int" where
  "int_or x d = (case x of None \<Rightarrow> d | Some n \<Rightarrow> if n = 0 then d else n)"

definition persist_submission ::
    "accepted_batch \<Rightarrow> pending_row list \<Rightarrow> string \<Rightarrow> bool \<Rightarrow> datetime option \<Rightarrow> dispatch_db \<Rightarrow> string list \<times> dispatch_db" where
  "persist_submission resp claimed trace_type adopted claim_time db =
     (let q = \<lparr> q_trace_type = trace_type, q_status = Q_pending,
                q_rows_uploaded = int_or (ab_uploaded resp) (int (length claimed)), q_rows_sent = Some (int (length claimed)),
                q_credits = int_or (ab_credits resp) 0, q_download_url = ab_download resp, q_unmatched_billed = None,
                q_provider_submitted_at = provider_submitted_time (ab_created resp) claim_time adopted \<rparr>;
          qs = (case queues (sk db) (ab_queue resp) of
                  None \<Rightarrow> (queues (sk db))(ab_queue resp \<mapsto> q) | Some _ \<Rightarrow> queues (sk db));
          hit = (\<lambda>p. claim_row claim_time claimed p \<and> p_trace_type p = trace_type \<and> p_queue p = None);
          moved = filter hit (pending (sk db));
          db1 = update_pending hit (\<lambda>p. p\<lparr> p_status := P_submitted, p_queue := Some (ab_queue resp) \<rparr>)
                  (db\<lparr> sk := (sk db)\<lparr> queues := qs \<rparr> \<rparr>)
      in (filter (\<lambda>i. i \<notin> p_id ` set moved) (map p_id claimed),
          update_results (\<lambda>i r. lead_pair moved i r \<and> r_skip_trace_status r = ''queued'')
            (\<lambda>r. r\<lparr> r_skip_trace_status := ''submitted'' \<rparr>) db1))"

subsection \<open>The outcome of one POST\<close>

datatype post_result = Reply submit_outcome | Other_failure

text \<open>
  How a pass ends: \<open>Deferred\<close> ends the tick with that reason and an optional error text, \<open>Batch_rejected\<close> goes on
  with the next type, \<open>Batch_recorded\<close> counts a batch of that many rows, \<open>Raised\<close> is an exception that leaves the tick
  (one that is no \<^verbatim>\<open>TracerfyError\<close>, raised by the resubmit inside the handler); with each the database. \<open>bookkeeping_ok\<close> says
  whether the bookkeeping or its retry commits; when neither does, nothing of it is written.
\<close>

datatype deferral =
  D_unknown_outcome | D_rate_limited | D_out_of_credits | D_provider_unavailable | D_connection_error | D_provider_error
| D_bookkeeping_failed | D_claim_locked | D_sweep_failed

fun deferral_of :: "failure_kind \<Rightarrow> deferral" where
  "deferral_of Rate_limited = D_rate_limited"
| "deferral_of Out_of_credits = D_out_of_credits"
| "deferral_of Connection_failed = D_connection_error"
| "deferral_of Unknown_outcome = D_unknown_outcome"
| "deferral_of Provider_unavailable = D_provider_unavailable"
| "deferral_of Provider_error = D_provider_error"

datatype pass_end =
  Deferred deferral "string list" dispatch_db
| Batch_rejected "string list" dispatch_db
| Batch_recorded "string list" nat dispatch_db
| Raised dispatch_db

definition record_batch ::
    "bool \<Rightarrow> accepted_batch \<Rightarrow> pending_row list \<Rightarrow> string \<Rightarrow> datetime \<Rightarrow> string list \<Rightarrow> dispatch_db \<Rightarrow> pass_end" where
  "record_batch bookkeeping_ok resp claimed trace_type claim_time errors db =
     (if bookkeeping_ok
      then Batch_recorded errors (length claimed) (snd (persist_submission resp claimed trace_type False (Some claim_time) db))
      else Deferred D_bookkeeping_failed (errors @ [''bookkeeping failed for queue '' @ show_int (ab_queue resp)]) db)"

text \<open>
  The partial resubmit: the affordable head of the claim goes out once more. \<open>released_at\<close> is the clock that a release
  of the claim reads.
\<close>

definition resubmit_head ::
    "bool \<Rightarrow> post_result \<Rightarrow> string \<Rightarrow> pending_row list \<Rightarrow> nat \<Rightarrow> datetime \<Rightarrow> datetime \<Rightarrow> string \<Rightarrow> dispatch_db \<Rightarrow> pass_end" where
  "resubmit_head bookkeeping_ok second msg claimed affordable claim_time released_at trace_type db =
     (let db1 = snd (release_claim (drop affordable claimed) P_queued None released_at db);
          rows = take affordable claimed
      in case second of
           Other_failure \<Rightarrow> Raised db1
         | Reply r \<Rightarrow>
             (case r of
                Accepted resp \<Rightarrow> record_batch bookkeeping_ok resp rows trace_type claim_time [msg] db1
              | _ \<Rightarrow>
                  let msg2 = opt_or (submit_error r) []; kind2 = classify_submit_failure msg2
                  in Deferred (deferral_of kind2) [msg, msg2]
                       (if kind2 = Unknown_outcome then db1
                        else snd (release_claim rows (if kind2 = Provider_error then P_errored else P_queued) None released_at db1))))"

definition settle_post ::
    "bool \<Rightarrow> post_result \<Rightarrow> post_result \<Rightarrow> pending_row list \<Rightarrow> datetime \<Rightarrow> datetime \<Rightarrow> string \<Rightarrow> dispatch_db \<Rightarrow> pass_end" where
  "settle_post bookkeeping_ok first second claimed claim_time released_at trace_type db =
     (case first of
        Other_failure \<Rightarrow> Deferred D_unknown_outcome [''unexpected failure''] db
      | Reply r \<Rightarrow>
          (case submit_error r of
             None \<Rightarrow> (case r of Accepted resp \<Rightarrow> record_batch bookkeeping_ok resp claimed trace_type claim_time [] db
                              | _ \<Rightarrow> Deferred D_unknown_outcome [] db)
           | Some msg \<Rightarrow>
               let kind = classify_submit_failure msg
               in if kind = Unknown_outcome then Deferred D_unknown_outcome [msg] db
                  else if kind = Out_of_credits then
                    let affordable = nat (opt_or (affordable_row_count msg (int (length claimed)) trace_type) 0)
                    in if affordable = 0
                       then Deferred D_out_of_credits [msg] (snd (release_claim claimed P_queued None released_at db))
                       else resubmit_head bookkeeping_ok second msg claimed affordable claim_time released_at trace_type db
                  else if kind = Provider_error
                       then Batch_rejected [msg] (snd (release_claim claimed P_errored None released_at db))
                       else Deferred (deferral_of kind) [msg] (snd (release_claim claimed P_queued None released_at db))))"

subsection \<open>What becomes of every row\<close>

fun end_db :: "pass_end \<Rightarrow> dispatch_db" where
  "end_db (Deferred d es db) = db"
| "end_db (Batch_rejected es db) = db"
| "end_db (Batch_recorded es n db) = db"
| "end_db (Raised db) = db"

text \<open>A claim as its commit leaves it: rows of the table, submitting under the claim time, in no queue.\<close>

definition open_claim :: "datetime \<Rightarrow> string \<Rightarrow> pending_row list \<Rightarrow> dispatch_db \<Rightarrow> bool" where
  "open_claim claim_time trace_type claimed db \<longleftrightarrow>
     distinct (map p_id (pending (sk db))) \<and> distinct claimed \<and> set claimed \<subseteq> set (pending (sk db)) \<and>
     (\<forall>p \<in> set claimed. p_status p = P_submitting \<and> p_submitted_at p = Some claim_time \<and> p_trace_type p = trace_type \<and> p_queue p = None)"

text \<open>The POST that decides a row: the resubmit for the affordable head, else the first.\<close>

definition affordable_head :: "post_result \<Rightarrow> pending_row list \<Rightarrow> string \<Rightarrow> pending_row list" where
  "affordable_head first claimed trace_type =
     (case first of
        Other_failure \<Rightarrow> []
      | Reply r \<Rightarrow>
          (case submit_error r of
             None \<Rightarrow> []
           | Some msg \<Rightarrow>
               if classify_submit_failure msg = Out_of_credits
               then take (nat (opt_or (affordable_row_count msg (int (length claimed)) trace_type) 0)) claimed else []))"

fun row_after :: "bool \<Rightarrow> post_result \<Rightarrow> pending_row \<Rightarrow> pending_row" where
  "row_after bookkeeping_ok Other_failure p = p"
| "row_after bookkeeping_ok (Reply r) p =
     (case r of
        Accepted resp \<Rightarrow> if bookkeeping_ok then p\<lparr> p_status := P_submitted, p_queue := Some (ab_queue resp) \<rparr> else p
      | _ \<Rightarrow> (case submit_fate r of
                Some Requeue \<Rightarrow> p\<lparr> p_status := P_queued, p_submitted_at := None \<rparr>
              | Some Fail_rows \<Rightarrow> p\<lparr> p_status := P_errored, p_submitted_at := None \<rparr>
              | _ \<Rightarrow> p))"

lemma row_in_self: "p \<in> set rows \<Longrightarrow> row_in rows p"
  by (auto simp: row_in_def list_ex_iff)

lemma open_claim_row:
  assumes "open_claim c t claimed db" "p \<in> set (pending (sk db))"
  shows "claim_row None claimed p \<longleftrightarrow> p \<in> set claimed" "claim_row (Some c) claimed p \<longleftrightarrow> p \<in> set claimed"
  using assms row_in_iff [of "pending (sk db)" claimed p] by (auto simp: open_claim_def claim_row_def)

lemma released_pending:
  assumes "open_claim c t claimed db"
  shows "pending (sk (snd (release_claim claimed s None now db)))
      = map (\<lambda>p. if p \<in> set claimed then p\<lparr> p_status := s, p_submitted_at := None \<rparr> else p) (pending (sk db))"
  using open_claim_row(1) [OF assms] by (simp add: release_claim_def Let_def)

lemma persisted_pending:
  assumes "open_claim c t claimed db"
  shows "pending (sk (snd (persist_submission resp claimed t a (Some c) db)))
      = map (\<lambda>p. if p \<in> set claimed then p\<lparr> p_status := P_submitted, p_queue := Some (ab_queue resp) \<rparr> else p) (pending (sk db))"
proof -
  have "claim_row (Some c) claimed p \<and> p_trace_type p = t \<and> p_queue p = None \<longleftrightarrow> p \<in> set claimed" if "p \<in> set (pending (sk db))" for p
    using open_claim_row(2) [OF assms that] assms by (auto simp: open_claim_def)
  then show ?thesis by (simp add: persist_submission_def Let_def)
qed

lemma open_claim_head:
  assumes "open_claim c t claimed db"
  shows "open_claim c t (take k claimed) (snd (release_claim (drop k claimed) P_queued None now db))"
    and "open_claim c t (drop k claimed) db"
proof -
  show d: "open_claim c t (drop k claimed) db"
    using assms by (auto simp: open_claim_def dest: in_set_dropD)
  have disj: "set (take k claimed) \<inter> set (drop k claimed) = {}"
    using assms by (simp add: open_claim_def set_take_disj_set_drop_if_distinct)
  have ids: "map p_id (map (\<lambda>p. if p \<in> D then p\<lparr> p_status := s, p_submitted_at := None \<rparr> else p) ps) = map p_id ps" for D s ps
    by (simp add: comp_def if_distrib cong: if_cong)
  let ?F = "\<lambda>p. if p \<in> set (drop k claimed) then p\<lparr> p_status := P_queued, p_submitted_at := None \<rparr> else p"
  have sub: "set (take k claimed) \<subseteq> set (pending (sk db))" using assms unfolding open_claim_def by (blast dest: in_set_takeD)
  have "p \<in> ?F ` set (pending (sk db))" if "p \<in> set (take k claimed)" for p
  proof (rule image_eqI)
    show "p = ?F p" using that disj by auto
    show "p \<in> set (pending (sk db))" using that sub by blast
  qed
  then have mem: "set (take k claimed) \<subseteq> set (map ?F (pending (sk db)))" unfolding set_map by blast
  have "distinct (map p_id (pending (sk db)))" "distinct (take k claimed)"
    "\<forall>p \<in> set (take k claimed). p_status p = P_submitting \<and> p_submitted_at p = Some c \<and> p_trace_type p = t \<and> p_queue p = None"
    using assms unfolding open_claim_def by (blast, simp, blast dest: in_set_takeD)
  then show "open_claim c t (take k claimed) (snd (release_claim (drop k claimed) P_queued None now db))"
    unfolding open_claim_def released_pending [OF d] ids using mem by blast
qed

lemma kept_pending: "(\<And>p. p \<in> set rows \<Longrightarrow> F p = p) \<Longrightarrow> map (\<lambda>p. if p \<in> set rows then F p else p) ps = ps"
  by (rule map_idI) simp

lemma record_batch_pending:
  assumes "open_claim c t claimed db"
  shows "pending (sk (end_db (record_batch ok resp claimed t c es db)))
      = map (\<lambda>p. if p \<in> set claimed then row_after ok (Reply (Accepted resp)) p else p) (pending (sk db))"
  using persisted_pending [OF assms] by (cases ok) (simp_all add: record_batch_def kept_pending)

lemma error_fate: "submit_error r = Some m \<Longrightarrow> submit_fate r = Some (fate_of (classify_submit_failure m))"
  by (simp add: submit_fate_def)

lemma failed_row_after:
  assumes "submit_error r = Some m"
  shows "row_after ok (Reply r) p =
    (case fate_of (classify_submit_failure m) of
       Keep_claim \<Rightarrow> p | Requeue \<Rightarrow> p\<lparr> p_status := P_queued, p_submitted_at := None \<rparr>
     | Fail_rows \<Rightarrow> p\<lparr> p_status := P_errored, p_submitted_at := None \<rparr>)"
  using error_fate [OF assms] assms by (cases r) (simp_all split: claim_fate.split)

lemma failed_reply_pending:
  assumes "open_claim c t claimed db" "submit_error r = Some m"
  shows "pending (sk (if classify_submit_failure m = Unknown_outcome then db
        else snd (release_claim claimed (if classify_submit_failure m = Provider_error then P_errored else P_queued) None now db)))
      = map (\<lambda>p. if p \<in> set claimed then row_after ok (Reply r) p else p) (pending (sk db))"
  unfolding failed_row_after [OF assms(2)]
  by (cases "classify_submit_failure m") (simp_all add: released_pending [OF assms(1)] kept_pending cong: if_cong)

lemma resubmit_pending:
  assumes o: "open_claim c t claimed db"
  shows "pending (sk (end_db (resubmit_head ok second msg claimed k c e t db)))
      = map (\<lambda>p. if p \<in> set (take k claimed) then row_after ok second p
                 else if p \<in> set (drop k claimed) then p\<lparr> p_status := P_queued, p_submitted_at := None \<rparr> else p) (pending (sk db))"
proof -
  let ?db = "snd (release_claim (drop k claimed) P_queued None e db)"
  let ?T = "take k claimed"
  note h = open_claim_head [OF o, of k]
  have db1: "pending (sk ?db) = map (\<lambda>p. if p \<in> set (drop k claimed) then p\<lparr> p_status := P_queued, p_submitted_at := None \<rparr> else p) (pending (sk db))"
    by (rule released_pending [OF h(2)])
  have disj: "set ?T \<inter> set (drop k claimed) = {}"
    using o by (simp add: open_claim_def set_take_disj_set_drop_if_distinct)
  have sub: "\<forall>p \<in> set ?T. p_status p = P_submitting" using o by (auto simp: open_claim_def dest: in_set_takeD)
  have "pending (sk (end_db (resubmit_head ok second msg claimed k c e t db)))
      = map (\<lambda>p. if p \<in> set ?T then row_after ok second p else p) (pending (sk ?db))"
  proof (cases second)
    case (Reply r)
    show ?thesis
    proof (cases "submit_error r")
      case None
      then obtain resp where r: "r = Accepted resp" by (cases r) simp_all
      then show ?thesis using record_batch_pending [OF h(1)] by (simp add: resubmit_head_def Let_def Reply del: row_after.simps)
    next
      case (Some m)
      then have "\<And>resp. r \<noteq> Accepted resp" by auto
      then have "end_db (resubmit_head ok second msg claimed k c e t db) =
          (if classify_submit_failure m = Unknown_outcome then ?db
           else snd (release_claim ?T (if classify_submit_failure m = Provider_error then P_errored else P_queued) None e ?db))"
        using Some by (cases r) (simp_all add: resubmit_head_def Let_def Reply)
      then show ?thesis using failed_reply_pending [OF h(1) Some, where now = e and ok = ok] by (simp only: Reply)
    qed
  next
    case Other_failure
    then show ?thesis by (simp add: resubmit_head_def Let_def kept_pending)
  qed
  then show ?thesis unfolding db1 using disj sub by (auto simp del: row_after.simps)
qed

text \<open>
  C15: The claim settles exactly. After the POST (and the partial resubmit, when the account is short of credits), every
  claimed row is where the reply that decides it puts it: in the recorded queue when the batch was accepted and its
  bookkeeping committed; still submitting when the batch may have been charged or its bookkeeping failed; back in the queue
  without a claim time when it was not taken; errored when it was refused for good. No other row changes.
\<close>

theorem claim_settles_exactly:
  assumes o: "open_claim c t claimed db"
  shows "pending (sk (end_db (settle_post ok first second claimed c e t db))) =
    map (\<lambda>p. if p \<in> set claimed
             then row_after ok (if p \<in> set (affordable_head first claimed t) then second else first) p else p)
      (pending (sk db))"
proof (cases first)
  case Other_failure
  then show ?thesis by (simp add: settle_post_def affordable_head_def kept_pending)
next
  case (Reply r)
  show ?thesis
  proof (cases "submit_error r")
    case None
    then obtain resp where r: "r = Accepted resp" by (cases r) simp_all
    then show ?thesis
      using record_batch_pending [OF o, of ok resp "[]"] by (simp add: settle_post_def Reply affordable_head_def del: row_after.simps)
  next
    case (Some m)
    let ?k = "nat (opt_or (affordable_row_count m (int (length claimed)) t) 0)"
    note f = failed_reply_pending [OF o Some, where now = e and ok = ok]
    show ?thesis
    proof (cases "classify_submit_failure m = Out_of_credits \<and> ?k \<noteq> 0")
      case True
      have "row_after ok (Reply r) p = p\<lparr> p_status := P_queued, p_submitted_at := None \<rparr>" for p
        unfolding failed_row_after [OF Some] using True by simp
      moreover have "set claimed = set (take ?k claimed) \<union> set (drop ?k claimed)" by (metis append_take_drop_id set_append)
      ultimately show ?thesis
        using resubmit_pending [OF o, of ok second m ?k e] True Some
        by (auto simp add: settle_post_def Reply affordable_head_def Let_def simp del: row_after.simps intro!: map_cong)
    next
      case False
      then have fin: "end_db (settle_post ok first second claimed c e t db) =
          (if classify_submit_failure m = Unknown_outcome then db
           else snd (release_claim claimed (if classify_submit_failure m = Provider_error then P_errored else P_queued) None e db))"
        by (cases "classify_submit_failure m") (auto simp: settle_post_def Reply Some Let_def)
      have "affordable_head first claimed t = []"
        using False by (auto simp: affordable_head_def Reply Some)
      then show ?thesis unfolding fin using f by (simp add: Reply del: row_after.simps)
    qed
  qed
qed

text \<open>A batch of two, one credit short: the second row goes back, the first is bought by the resubmit.\<close>

definition sample_sending :: "string \<Rightarrow> pending_row" where
  "sample_sending n = (sample_pending n n ''Tacoma'')\<lparr> p_status := P_submitting, p_submitted_at := Some sample_now \<rparr>"

definition sample_claim_db :: dispatch_db where
  "sample_claim_db = update_pending (\<lambda>_. False) id (dispatch_sample\<lparr> sk := (sk dispatch_sample)\<lparr> pending := [sample_sending ''1'', sample_sending ''2''] \<rparr> \<rparr>)"

definition sample_batch :: accepted_batch where
  "sample_batch = \<lparr> ab_queue = 77, ab_uploaded = Some 1, ab_credits = None, ab_created = None, ab_download = None \<rparr>"

theorem claim_settles_exactly_witness:
  "map (\<lambda>p. (p_id p, p_status p, p_queue p)) (pending (sk (end_db (settle_post True (Reply (Http_failure 402 ''need 1 more credits''))
      (Reply (Accepted sample_batch)) [sample_sending ''1'', sample_sending ''2''] sample_now sample_now ''normal'' sample_claim_db))))
   = [(''p1'', P_submitted, Some 77), (''p2'', P_queued, None)]"
proof -
  have o: "open_claim sample_now ''normal'' [sample_sending ''1'', sample_sending ''2''] sample_claim_db" by code_simp
  have h: "map p_id (affordable_head (Reply (Http_failure 402 ''need 1 more credits'')) [sample_sending ''1'', sample_sending ''2''] ''normal'') = [''p1'']"
    by code_simp
  have f: "submit_fate (Http_failure 402 ''need 1 more credits'') = Some Requeue" by code_simp
  have p: "pending (sk sample_claim_db) = [sample_sending ''1'', sample_sending ''2'']" by (simp add: sample_claim_db_def update_pending_def)
  have i: "p_id (sample_sending n) = ''p'' @ n" for n by (simp add: sample_sending_def sample_pending_def)
  have qn: "p_queue (sample_sending n) = None" for n by (simp add: sample_sending_def sample_pending_def sample_lookup_def)
  have ne: "sample_sending ''1'' \<noteq> sample_sending ''2''" using i [of "''1''"] i [of "''2''"] by auto
  have "sample_sending ''1'' \<in> set (affordable_head (Reply (Http_failure 402 ''need 1 more credits'')) [sample_sending ''1'', sample_sending ''2''] ''normal'')
    \<and> sample_sending ''2'' \<notin> set (affordable_head (Reply (Http_failure 402 ''need 1 more credits'')) [sample_sending ''1'', sample_sending ''2''] ''normal'')"
    using h ne unfolding affordable_head_def by (auto simp: i take_Cons' split: if_splits)
  then show ?thesis
    unfolding claim_settles_exactly [OF o] p by (simp add: i f qn sample_batch_def)
qed

end
