(* ===== verification/Reconcile.thy ===== *)
theory Reconcile
  imports DispatchSubmit
begin

text \<open>
  The stale-claim reconciler of \<^verbatim>\<open>workers/skip_trace_dispatcher.py\<close>: which of the provider's queues a claim may be
  (\<^verbatim>\<open>candidate_queues\<close>, \<^verbatim>\<open>match_remote_queue\<close>), when a claim may be released (\<^verbatim>\<open>_release_is_safe\<close>), which queues
  nobody may adopt (\<^verbatim>\<open>contested_queue_ids\<close>), the run over the stale claims and the re-drive of ingests. The provider's
  queue list is a parameter; \<open>env\<close> is what other transactions do between the run's statements. The run's actions are
  recorded beside the database.
\<close>

text \<open>
  \<open>rq_created\<close> is the parsed \<^verbatim>\<open>created_at\<close> (None when it does not parse), \<open>rq_uploaded\<close> None when it is not an integer.
\<close>

record remote_queue =
  rq_id :: int
  rq_created :: "datetime option"
  rq_pending :: "bool option"
  rq_download :: "string option"
  rq_uploaded :: "int option"
  rq_credits :: "int option"
  rq_queue_type :: "string option"
  rq_trace_type :: "string option"

definition STALE_CLAIM_AFTER :: int where
  "STALE_CLAIM_AFTER = 30 * 60 * 1000000"

definition RECONCILE_BEFORE :: int where
  "RECONCILE_BEFORE = 60 * 1000000"

definition RECONCILE_AFTER :: int where
  "RECONCILE_AFTER = 120 * 1000000"

definition RELEASE_QUIET_WINDOW :: int where
  "RELEASE_QUIET_WINDOW = 30 * 60 * 1000000"

definition release_is_safe :: "remote_queue list \<Rightarrow> datetime \<Rightarrow> string \<Rightarrow> int list \<Rightarrow> bool" where
  "release_is_safe remote claim_time trace_type known_ids \<longleftrightarrow>
     \<not> list_ex (\<lambda>q. rq_trace_type q = Some trace_type \<and> rq_id q \<notin> set known_ids \<and>
         (case rq_created q of
            None \<Rightarrow> True
          | Some c \<Rightarrow> instant claim_time - RELEASE_QUIET_WINDOW \<le> instant c \<and> instant c \<le> instant claim_time + RELEASE_QUIET_WINDOW))
       remote"

definition in_window :: "datetime \<Rightarrow> remote_queue \<Rightarrow> bool" where
  "in_window claim_time q \<longleftrightarrow>
     (case rq_created q of
        None \<Rightarrow> False
      | Some c \<Rightarrow> instant claim_time - RECONCILE_BEFORE \<le> instant c \<and> instant c \<le> instant claim_time + RECONCILE_AFTER)"

definition plausible_queue :: "datetime \<Rightarrow> string \<Rightarrow> int list \<Rightarrow> remote_queue \<Rightarrow> bool" where
  "plausible_queue claim_time trace_type known_ids q \<longleftrightarrow>
     rq_trace_type q = Some trace_type \<and> rq_id q \<notin> set known_ids \<and>
     (rq_queue_type q = None \<or> rq_queue_type q = Some ''api'') \<and> in_window claim_time q"

definition undecided_queue :: "remote_queue \<Rightarrow> bool" where
  "undecided_queue q \<longleftrightarrow> rq_pending q = Some True \<or> rq_uploaded q = None"

definition candidate_queues ::
    "remote_queue list \<Rightarrow> datetime \<Rightarrow> string \<Rightarrow> nat \<Rightarrow> int list \<Rightarrow> remote_queue list \<times> remote_queue list" where
  "candidate_queues remote claim_time trace_type n_claimed known_ids =
     (let fit = filter (plausible_queue claim_time trace_type known_ids) remote
      in (filter (\<lambda>q. \<not> undecided_queue q \<and> 0 < opt_or (rq_uploaded q) 0 \<and> opt_or (rq_uploaded q) 0 \<le> int n_claimed) fit,
          filter undecided_queue fit))"

datatype verdict = One_queue remote_queue | No_queue | Pending_queue | Ambiguous_queues

definition match_remote_queue :: "remote_queue list \<Rightarrow> datetime \<Rightarrow> string \<Rightarrow> nat \<Rightarrow> int list \<Rightarrow> verdict" where
  "match_remote_queue remote claim_time trace_type n_claimed known_ids =
     (case candidate_queues remote claim_time trace_type n_claimed known_ids of
        (hits, deferred) \<Rightarrow>
          if deferred \<noteq> [] \<and> hits \<noteq> [] then Ambiguous_queues
          else if deferred \<noteq> [] then Pending_queue
          else (case hits of [] \<Rightarrow> No_queue | [q] \<Rightarrow> One_queue q | _ \<Rightarrow> Ambiguous_queues))"

subsection \<open>Claims\<close>

text \<open>The rows of one claim share their claim time and type; a group counts them.\<close>

type_synonym claim_group = "datetime \<times> string \<times> nat"

definition claim_rows :: "pending_row list \<Rightarrow> datetime \<Rightarrow> string \<Rightarrow> pending_row list" where
  "claim_rows rows claim_time trace_type =
     filter (\<lambda>p. p_status p = P_submitting \<and> p_submitted_at p = Some claim_time \<and> p_trace_type p = trace_type) rows"

definition claim_groups :: "(datetime \<Rightarrow> bool) \<Rightarrow> pending_row list \<Rightarrow> claim_group list" where
  "claim_groups old rows =
     map (\<lambda>(c, t). (c, t, length (claim_rows rows c t)))
       (remdups (map (\<lambda>p. (opt_or (p_submitted_at p) (p_enqueued_at p), p_trace_type p))
          (filter (\<lambda>p. p_status p = P_submitting \<and> (case p_submitted_at p of None \<Rightarrow> False | Some c \<Rightarrow> old c)) rows)))"

definition stale_groups :: "datetime \<Rightarrow> pending_row list \<Rightarrow> claim_group list" where
  "stale_groups now rows = sort_key fst (claim_groups (\<lambda>c. instant c < instant now - STALE_CLAIM_AFTER) rows)"

definition queues_of :: "remote_queue list \<Rightarrow> int list \<Rightarrow> claim_group \<Rightarrow> int list" where
  "queues_of remote known_ids g =
     (case g of (c, t, n) \<Rightarrow> case candidate_queues remote c t n known_ids of (hits, deferred) \<Rightarrow> map rq_id (hits @ deferred))"

definition contested_queue_ids :: "remote_queue list \<Rightarrow> int list \<Rightarrow> pending_row list \<Rightarrow> int list" where
  "contested_queue_ids remote known_ids rows =
     (let ids = concat (map (queues_of remote known_ids) (claim_groups (\<lambda>_. True) rows))
      in filter (\<lambda>i. 1 < count_list ids i) (remdups ids))"

subsection \<open>The run\<close>

datatype reconcile_action =
  Released datetime string "pending_row list"
| Adopted remote_queue datetime string nat "pending_row list"
| Deferred_claim datetime string
| Ambiguous_claim datetime string

record reconcile_run =
  rr_db :: dispatch_db
  rr_known :: "int list"
  rr_actions :: "reconcile_action list"
  rr_step :: nat
  rr_ingests :: "int list"

definition batch_of :: "remote_queue \<Rightarrow> accepted_batch" where
  "batch_of q = \<lparr> ab_queue = rq_id q, ab_uploaded = rq_uploaded q, ab_credits = rq_credits q, ab_created = rq_created q,
                  ab_download = rq_download q \<rparr>"

text \<open>The ingest that a completed queue with a link enqueues.\<close>

definition redrive_completed_queue :: "remote_queue \<Rightarrow> int list" where
  "redrive_completed_queue q =
     (if rq_pending q \<noteq> Some False then [] else if str_or (rq_download q) [] = [] then [] else [rq_id q])"

definition redrive_unigested_adoptions :: "(int \<times> queue_row) list \<Rightarrow> int list" where
  "redrive_unigested_adoptions qs =
     map fst (filter (\<lambda>(i, q). q_status q = Q_pending \<and> q_download_url q \<noteq> None \<and> str_or (q_download_url q) [] \<noteq> []) qs)"

definition claim_verdict :: "remote_queue list \<Rightarrow> int list \<Rightarrow> int list \<Rightarrow> claim_group \<Rightarrow> verdict" where
  "claim_verdict remote contested known_ids g =
     (case g of (c, t, n) \<Rightarrow>
        (case match_remote_queue remote c t n known_ids of
           One_queue q \<Rightarrow> if rq_id q \<in> set contested then Ambiguous_queues else One_queue q
         | v \<Rightarrow> v))"

definition reconcile_claim ::
    "(nat \<Rightarrow> dispatch_db \<Rightarrow> dispatch_db) \<Rightarrow> datetime \<Rightarrow> remote_queue list \<Rightarrow> int list \<Rightarrow> claim_group \<Rightarrow> reconcile_run \<Rightarrow> reconcile_run" where
  "reconcile_claim env now remote contested g st =
     (case g of (c, t, n) \<Rightarrow>
        let db1 = env (rr_step st) (rr_db st);
            rows = claim_rows (pending (sk db1)) c t;
            st1 = st\<lparr> rr_db := db1, rr_step := rr_step st + 1 \<rparr>
        in if rows = [] then st1
           else let db2 = env (rr_step st + 1) db1;
                    st2 = st\<lparr> rr_db := db2, rr_step := rr_step st + 2 \<rparr>
                in case claim_verdict remote contested (rr_known st) g of
                     Pending_queue \<Rightarrow> st2\<lparr> rr_actions := rr_actions st @ [Deferred_claim c t] \<rparr>
                   | Ambiguous_queues \<Rightarrow> st2\<lparr> rr_actions := rr_actions st @ [Ambiguous_claim c t] \<rparr>
                   | No_queue \<Rightarrow>
                       if \<not> release_is_safe remote c t (rr_known st)
                       then st2\<lparr> rr_actions := rr_actions st @ [Ambiguous_claim c t] \<rparr>
                       else (case release_claim rows P_queued (Some c) now db2 of
                               (moved, db3) \<Rightarrow> st2\<lparr> rr_db := db3, rr_actions := rr_actions st @ [Released c t moved] \<rparr>)
                   | One_queue q \<Rightarrow>
                       st2\<lparr> rr_db := snd (persist_submission (batch_of q) rows t True (Some c) db2),
                            rr_known := rq_id q # rr_known st,
                            rr_actions := rr_actions st @ [Adopted q c t n rows],
                            rr_ingests := rr_ingests st @ redrive_completed_queue q \<rparr>)"

text \<open>
  \<open>remote\<close> None: the provider could not be asked, the claims stay. \<open>queue_ids\<close> lists the recorded queues.
\<close>

definition reconcile_stale_claims ::
    "(nat \<Rightarrow> dispatch_db \<Rightarrow> dispatch_db) \<Rightarrow> datetime \<Rightarrow> remote_queue list option \<Rightarrow> (dispatch_db \<Rightarrow> int list) \<Rightarrow> dispatch_db \<Rightarrow> reconcile_run" where
  "reconcile_stale_claims env now remote queue_ids db =
     (let idle = \<lparr> rr_db = db, rr_known = [], rr_actions = [], rr_step = 2, rr_ingests = [] \<rparr>;
          groups = stale_groups now (pending (sk db))
      in if groups = [] then idle
         else (case remote of
                 None \<Rightarrow> idle
               | Some remote \<Rightarrow>
                   let db1 = env 0 db; known_ids = queue_ids db1;
                       db2 = env 1 db1; contested = contested_queue_ids remote known_ids (pending (sk db2))
                   in fold (reconcile_claim env now remote contested) groups
                        (idle\<lparr> rr_db := db2, rr_known := known_ids \<rparr>)))"

subsection \<open>Only what is proven\<close>

lemma candidate_facts:
  assumes "candidate_queues remote c t n k = (hits, deferred)"
  shows "set hits \<union> set deferred \<subseteq> set remote"
    "q \<in> set hits \<Longrightarrow> plausible_queue c t k q \<and> \<not> undecided_queue q \<and> (\<exists>u. rq_uploaded q = Some u \<and> 0 < u \<and> u \<le> int n)"
    "q \<in> set deferred \<longleftrightarrow> q \<in> set remote \<and> plausible_queue c t k q \<and> undecided_queue q"
    "q \<in> set hits \<longleftrightarrow> q \<in> set remote \<and> plausible_queue c t k q \<and> \<not> undecided_queue q \<and>
       0 < opt_or (rq_uploaded q) 0 \<and> opt_or (rq_uploaded q) 0 \<le> int n"
  using assms by (auto simp: candidate_queues_def Let_def opt_or_def undecided_queue_def split: option.splits)

lemma match_one:
  assumes "match_remote_queue remote c t n k = One_queue q"
  shows "q \<in> set remote \<and> plausible_queue c t k q \<and> \<not> undecided_queue q \<and> (\<exists>u. rq_uploaded q = Some u \<and> 0 < u \<and> u \<le> int n)"
proof -
  obtain hits deferred where h: "candidate_queues remote c t n k = (hits, deferred)" by fastforce
  then have "hits = [q]" using assms by (auto simp: match_remote_queue_def split: if_splits list.splits)
  then show ?thesis using candidate_facts(1) [OF h] candidate_facts(2) [OF h, of q] by auto
qed

lemma contested_iff:
  "i \<in> set (contested_queue_ids remote k rows) \<longleftrightarrow> 1 < count_list (concat (map (queues_of remote k) (claim_groups (\<lambda>_. True) rows))) i"
proof -
  have m: "1 < count_list xs i \<longrightarrow> i \<in> set xs" for xs :: "int list"
    by (metis count_notin not_less_zero)
  show ?thesis
    unfolding contested_queue_ids_def Let_def set_filter set_remdups
    using m [of "concat (map (queues_of remote k) (claim_groups (\<lambda>_. True) rows))"] by blast
qed

text \<open>\<open>earlier\<close> is what is booked when the claim is decided: the recorded queues and those adopted before it.\<close>

fun proven :: "remote_queue list \<Rightarrow> int list \<Rightarrow> int list \<Rightarrow> reconcile_action \<Rightarrow> bool" where
  "proven remote contested earlier (Released c t rows) \<longleftrightarrow>
     (\<forall>q \<in> set remote. rq_trace_type q = Some t \<and> rq_id q \<notin> set earlier \<longrightarrow>
        (\<exists>at. rq_created q = Some at \<and> RELEASE_QUIET_WINDOW < \<bar>instant at - instant c\<bar>)) \<and>
     (\<forall>p \<in> set rows. p_status p = P_submitting \<and> p_submitted_at p = Some c)"
| "proven remote contested earlier (Adopted q c t n rows) \<longleftrightarrow>
     q \<in> set remote \<and> rq_id q \<notin> set earlier \<and> rq_id q \<notin> set contested \<and> rq_trace_type q = Some t \<and>
     (rq_queue_type q = None \<or> rq_queue_type q = Some ''api'') \<and> rq_pending q \<noteq> Some True \<and>
     (\<exists>at. rq_created q = Some at \<and> - RECONCILE_BEFORE \<le> instant at - instant c \<and> instant at - instant c \<le> RECONCILE_AFTER) \<and>
     (\<exists>u. rq_uploaded q = Some u \<and> 0 < u \<and> u \<le> int n)"
| "proven remote contested earlier a \<longleftrightarrow> True"

definition adopted_ids :: "reconcile_action list \<Rightarrow> int list" where
  "adopted_ids as = List.map_filter (\<lambda>a. case a of Adopted q c t n rows \<Rightarrow> Some (rq_id q) | _ \<Rightarrow> None) as"

text \<open>Every action is justified by what was booked before it.\<close>

definition run_proven :: "remote_queue list \<Rightarrow> int list \<Rightarrow> int list \<Rightarrow> reconcile_action list \<Rightarrow> bool" where
  "run_proven remote contested booked as \<longleftrightarrow>
     (\<forall>us a vs. as = us @ a # vs \<longrightarrow> proven remote contested (rev (adopted_ids us) @ booked) a)"

lemma run_proven_snoc:
  "run_proven remote contested booked (as @ [a]) \<longleftrightarrow>
     run_proven remote contested booked as \<and> proven remote contested (rev (adopted_ids as) @ booked) a"
proof
  assume l: "run_proven remote contested booked (as @ [a])"
  have "proven remote contested (rev (adopted_ids us) @ booked) x" if "as = us @ x # vs" for us x vs
  proof -
    have "as @ [a] = us @ x # (vs @ [a])" using that by simp
    then show ?thesis using l unfolding run_proven_def by blast
  qed
  moreover have "proven remote contested (rev (adopted_ids as) @ booked) a"
    using l [unfolded run_proven_def, rule_format, of as a "[]"] by simp
  ultimately show "run_proven remote contested booked as \<and> proven remote contested (rev (adopted_ids as) @ booked) a"
    unfolding run_proven_def by blast
next
  assume r: "run_proven remote contested booked as \<and> proven remote contested (rev (adopted_ids as) @ booked) a"
  show "run_proven remote contested booked (as @ [a])"
    unfolding run_proven_def
  proof (intro allI impI)
    fix us x vs assume e: "as @ [a] = us @ x # vs"
    then show "proven remote contested (rev (adopted_ids us) @ booked) x"
    proof (cases vs rule: rev_cases)
      case Nil
      then show ?thesis using e r by simp
    next
      case (snoc ws w)
      then have "as = us @ x # ws" using e by simp
      then show ?thesis using r unfolding run_proven_def by blast
    qed
  qed
qed

lemma adopted_snoc: "adopted_ids (as @ [a]) = adopted_ids as @ (case a of Adopted q c t n rows \<Rightarrow> [rq_id q] | _ \<Rightarrow> [])"
  by (cases a) (simp_all add: adopted_ids_def map_filter_def)

lemma release_proven:
  assumes "release_is_safe remote c t earlier" "release_claim rows P_queued (Some c) now db = (moved, db')"
  shows "proven remote contested earlier (Released c t moved)"
proof -
  have "\<exists>at. rq_created q = Some at \<and> RELEASE_QUIET_WINDOW < \<bar>instant at - instant c\<bar>"
    if "q \<in> set remote" "rq_trace_type q = Some t" "rq_id q \<notin> set earlier" for q
  proof -
    have "\<not> (case rq_created q of None \<Rightarrow> True
        | Some at \<Rightarrow> instant c - RELEASE_QUIET_WINDOW \<le> instant at \<and> instant at \<le> instant c + RELEASE_QUIET_WINDOW)"
      using assms(1) that unfolding release_is_safe_def list_ex_iff by blast
    then show ?thesis by (cases "rq_created q") (auto simp: abs_if)
  qed
  moreover have "p_status p = P_submitting \<and> p_submitted_at p = Some c" if "p \<in> set moved" for p
    using assms(2) that by (auto simp: release_claim_def Let_def claim_row_def)
  ultimately show ?thesis by simp
qed

lemma reconcile_claim_proven:
  assumes "run_proven remote contested booked (rr_actions st)" "rr_known st = rev (adopted_ids (rr_actions st)) @ booked"
  shows "run_proven remote contested booked (rr_actions (reconcile_claim env now remote contested g st)) \<and>
    rr_known (reconcile_claim env now remote contested g st)
      = rev (adopted_ids (rr_actions (reconcile_claim env now remote contested g st))) @ booked"
proof -
  obtain c t n where g: "g = (c, t, n)" by (cases g)
  let ?db1 = "env (rr_step st) (rr_db st)"
  let ?rows = "claim_rows (pending (sk ?db1)) c t"
  let ?db2 = "env (rr_step st + 1) ?db1"
  show ?thesis
  proof (cases "?rows = []")
    case True
    then show ?thesis using assms by (simp add: reconcile_claim_def g Let_def)
  next
    case rows: False
    show ?thesis
    proof (cases "claim_verdict remote contested (rr_known st) g")
      case (One_queue q)
      then have m: "match_remote_queue remote c t n (rr_known st) = One_queue q" "rq_id q \<notin> set contested"
        by (auto simp: claim_verdict_def g split: verdict.splits if_splits)
      have "proven remote contested (rev (adopted_ids (rr_actions st)) @ booked) (Adopted q c t n ?rows)"
        using match_one [OF m(1)] m(2)
        by (auto simp: assms(2) plausible_queue_def in_window_def undecided_queue_def split: option.splits)
      then show ?thesis
        using assms rows One_queue by (simp add: reconcile_claim_def g Let_def run_proven_snoc adopted_snoc)
    next
      case No_queue
      show ?thesis
      proof (cases "release_is_safe remote c t (rr_known st)")
        case True
        obtain moved db3 where r: "release_claim ?rows P_queued (Some c) now ?db2 = (moved, db3)" by fastforce
        have "proven remote contested (rev (adopted_ids (rr_actions st)) @ booked) (Released c t moved)"
          using release_proven [OF True r] assms(2) by simp
        then show ?thesis
          using assms rows No_queue True r by (simp add: reconcile_claim_def g Let_def run_proven_snoc adopted_snoc)
      next
        case False
        then show ?thesis using assms rows No_queue by (simp add: reconcile_claim_def g Let_def run_proven_snoc adopted_snoc)
      qed
    qed (use assms rows in \<open>simp_all add: reconcile_claim_def g Let_def run_proven_snoc adopted_snoc\<close>)
  qed
qed

lemma adopted_once:
  "run_proven remote contested booked as \<Longrightarrow> distinct (adopted_ids as) \<and> set (adopted_ids as) \<inter> set booked = {}"
proof (induction as rule: rev_induct)
  case (snoc a as)
  then show ?case by (cases a) (auto simp: run_proven_snoc adopted_snoc)
qed (simp add: adopted_ids_def map_filter_def)

lemma count_two_sources:
  assumes "g1 \<in> set gs" "g2 \<in> set gs" "g1 \<noteq> g2" "(i :: int) \<in> set (f g1)" "i \<in> set (f g2)"
  shows "1 < count_list (concat (map f gs)) i"
  using assms
proof (induction gs)
  case (Cons g gs)
  have pos: "0 < count_list xs i" if "i \<in> set xs" for xs :: "int list"
    using that by (metis count_list_0_iff gr0I)
  have rest: "i \<in> set (concat (map f gs))" if "h \<in> set gs" "i \<in> set (f h)" for h using that by auto
  show ?case
  proof (cases "g \<in> {g1, g2}")
    case True
    then have "0 < count_list (f g) i" "0 < count_list (concat (map f gs)) i"
      using Cons.prems pos rest by auto
    then show ?thesis by simp
  next
    case False
    then show ?thesis using Cons by auto
  qed
qed simp

lemma uncontested_single:
  assumes "i \<notin> set (contested_queue_ids remote k rows)"
    "g1 \<in> set (claim_groups (\<lambda>_. True) rows)" "g2 \<in> set (claim_groups (\<lambda>_. True) rows)"
    "i \<in> set (queues_of remote k g1)" "i \<in> set (queues_of remote k g2)"
  shows "g1 = g2"
  using count_two_sources [OF assms(2,3) _ assms(4,5)] assms(1) unfolding contested_iff by blast

lemma fold_groups_proven:
  assumes "run_proven remote contested booked (rr_actions st)" "rr_known st = rev (adopted_ids (rr_actions st)) @ booked"
  shows "run_proven remote contested booked (rr_actions (fold (reconcile_claim env now remote contested) gs st))"
  using assms
proof (induction gs arbitrary: st)
  case (Cons g gs)
  show ?case
    using Cons.IH reconcile_claim_proven [OF Cons.prems, of env now g] by simp
qed simp

text \<open>
  C14: The reconciler acts on proof only, whatever other transactions do between its statements. A claim is released only
  when every provider queue of its type that is not booked was created more than thirty minutes away from it, and only the
  rows still submitting under that very claim time are moved; a queue is adopted only when it is unbooked, complete, of the
  claim's type and from the API, created from a minute before to two minutes after the claim, with at least one and
  at most as many rows as the claim, and no two of the claims then in flight could both have been it; no queue is adopted twice.
\<close>

theorem reconciler_acts_on_proof:
  fixes env now remote queue_ids db
  defines "acts \<equiv> rr_actions (reconcile_stale_claims env now (Some remote) queue_ids db)"
    and "booked \<equiv> queue_ids (env 0 db)" and "flying \<equiv> pending (sk (env 1 (env 0 db)))"
  shows "run_proven remote (contested_queue_ids remote booked flying) booked acts \<and>
    distinct (adopted_ids acts) \<and> set (adopted_ids acts) \<inter> set booked = {} \<and>
    (\<forall>i g1 g2. i \<in> set (adopted_ids acts) \<and> g1 \<in> set (claim_groups (\<lambda>_. True) flying) \<and> g2 \<in> set (claim_groups (\<lambda>_. True) flying) \<and>
       i \<in> set (queues_of remote booked g1) \<and> i \<in> set (queues_of remote booked g2) \<longrightarrow> g1 = g2)"
proof -
  let ?C = "contested_queue_ids remote booked flying"
  have empty: "run_proven remote ?C booked []" "adopted_ids [] = []"
    by (simp_all add: run_proven_def adopted_ids_def map_filter_def)
  have run: "run_proven remote ?C booked acts"
  proof (cases "stale_groups now (pending (sk db)) = []")
    case True
    then show ?thesis using empty by (simp add: acts_def reconcile_stale_claims_def Let_def)
  next
    case False
    then show ?thesis
      unfolding acts_def reconcile_stale_claims_def Let_def booked_def flying_def
      using empty by (simp add: fold_groups_proven booked_def flying_def)
  qed
  have "i \<notin> set ?C" if "i \<in> set (adopted_ids acts)" for i
  proof -
    obtain q c t n rows where "Adopted q c t n rows \<in> set acts" "i = rq_id q"
      using \<open>i \<in> set (adopted_ids acts)\<close> by (auto simp: adopted_ids_def map_filter_def split: reconcile_action.splits)
    then show ?thesis using run by (metis proven.simps(2) run_proven_def split_list)
  qed
  then show ?thesis using run adopted_once [OF run] uncontested_single by blast
qed

text \<open>A stale claim of two rows and the provider's queue for it, an hour later.\<close>

definition sample_remote :: "remote_queue list" where
  "sample_remote = [\<lparr> rq_id = 77, rq_created = Some (DateTime 2026 3 2 1000000), rq_pending = Some False, rq_download = Some ''u'',
     rq_uploaded = Some 2, rq_credits = Some 2, rq_queue_type = Some ''api'', rq_trace_type = Some ''normal'' \<rparr>]"

definition sample_later :: datetime where
  "sample_later = DateTime 2026 3 2 (60 * 60 * 1000000)"

theorem reconciler_acts_on_proof_witness:
  "let acts = rr_actions (reconcile_stale_claims (\<lambda>_ d. d) sample_later (Some sample_remote) (\<lambda>_. []) sample_claim_db)
   in adopted_ids acts = [77] \<and> distinct (adopted_ids acts) \<and>
      run_proven sample_remote (contested_queue_ids sample_remote [] (pending (sk sample_claim_db))) [] acts \<and>
      (DateTime 2026 3 2 9, ''normal'', 2) = hd (claim_groups (\<lambda>_. True) (pending (sk sample_claim_db)))"
proof -
  have e: "adopted_ids (rr_actions (reconcile_stale_claims (\<lambda>_ d. d) sample_later (Some sample_remote) (\<lambda>_. []) sample_claim_db)) = [77]"
    by code_simp
  have g: "(DateTime 2026 3 2 9, ''normal'', 2) = hd (claim_groups (\<lambda>_. True) (pending (sk sample_claim_db)))" by code_simp
  show ?thesis
    unfolding Let_def
    using e g reconciler_acts_on_proof [where env = "\<lambda>_ d. d" and now = sample_later and remote = sample_remote
        and queue_ids = "\<lambda>_. []" and db = sample_claim_db]
    by blast
qed

end
