(* ===== verification/ProviderIngest.thy ===== *)
theory ProviderIngest
  imports Reconcile SkipTraceUsage
begin

text \<open>
  The completion of a batch, \<^verbatim>\<open>workers/tracerfy_ingest.py\<close>: the webhook is only a trigger, so the provider is asked for
  its own record of the batch and the CSV is read from a pinned host; then one transaction attributes the answers
  to leads, fills the answer cache, settles every row of the batch, completes the queue and bills. The provider, the
  download, \<^verbatim>\<open>urlsplit\<close>, the CSV reader, Redis and the broker are parameters; \<open>now\<close> is the one clock of a transaction. A task is two
  steps of the interleaving, the check with the download and the transaction, so tasks of one batch may overlap. The
  columns \<^verbatim>\<open>completed_at\<close> and \<^verbatim>\<open>raw_response\<close> are not modelled.
\<close>

subsection \<open>Whose record, whose host\<close>

record url_parts =
  ur_scheme :: string
  ur_netloc :: string
  ur_user :: "string option"
  ur_host :: "string option"
  ur_port :: "int option option"

definition TRACERFY_BUCKET_HOSTS :: "string list" where
  "TRACERFY_BUCKET_HOSTS = [''tracerfy.nyc3.cdn.digitaloceanspaces.com'', ''tracerfy.nyc3.digitaloceanspaces.com'']"

definition ends_with :: "string \<Rightarrow> string \<Rightarrow> bool" where
  "ends_with s ending \<longleftrightarrow> length ending \<le> length s \<and> drop (length s - length ending) s = ending"

text \<open>\<open>split\<close> gives None, and \<open>ur_port\<close> is None, where reading raises ValueError.\<close>

definition host_is_tracerfy :: "(string \<Rightarrow> url_parts option) \<Rightarrow> string \<Rightarrow> string \<Rightarrow> bool" where
  "host_is_tracerfy split api_host url =
     (case split url of
        None \<Rightarrow> False
      | Some u \<Rightarrow>
          if ur_scheme u \<noteq> ''https'' then False
          else (case ur_port u of
             None \<Rightarrow> False
           | Some port \<Rightarrow>
               if port \<notin> {None, Some 443} \<or> ur_user u \<noteq> None \<or> CHR ''@'' \<in> set (ur_netloc u) then False
               else let host = py_lower (str_or (ur_host u) []); api = py_lower api_host
                    in if host = [] then False
                       else if api \<noteq> [] \<and> (host = api \<or> ends_with host (CHR ''.'' # api)) then True
                       else host \<in> set TRACERFY_BUCKET_HOSTS))"

definition provider_queue_record :: "remote_queue list \<Rightarrow> int \<Rightarrow> remote_queue option" where
  "provider_queue_record remote qid =
     find (\<lambda>q. rq_id q = qid \<and> rq_pending q = Some False \<and> str_or (rq_download q) [] \<noteq> []) remote"

definition count_of :: "int option \<Rightarrow> int" where
  "count_of v = (case v of None \<Rightarrow> 0 | Some n \<Rightarrow> if n \<ge> 0 then n else 0)"

subsection \<open>One chain of re-checks per queue\<close>

definition PROVIDER_RECHECKS :: nat where
  "PROVIDER_RECHECKS = 5"

definition PROVIDER_RECHECK_SECONDS :: int where
  "PROVIDER_RECHECK_SECONDS = 120"

text \<open>The Redis keys with the instants they expire at; a claim that cannot reach Redis succeeds and leaves no key.\<close>

type_synonym recheck_chains = "int \<rightharpoonup> int"

definition hold_recheck_chain :: "bool \<Rightarrow> datetime \<Rightarrow> int \<Rightarrow> bool \<Rightarrow> recheck_chains \<Rightarrow> bool \<times> recheck_chains" where
  "hold_recheck_chain redis_up now qid member ch =
     (let ttl = 2 * PROVIDER_RECHECK_SECONDS + 60;
          held = (case ch qid of None \<Rightarrow> False | Some limit \<Rightarrow> instant now < limit);
          set_key = ch(qid \<mapsto> instant now + ttl * 1000000)
      in if \<not> redis_up then (True, ch)
         else if member then (True, set_key)
         else if held then (False, ch)
         else (True, set_key))"

definition release_recheck_chain :: "bool \<Rightarrow> int \<Rightarrow> recheck_chains \<Rightarrow> recheck_chains" where
  "release_recheck_chain redis_up qid ch = (if redis_up then ch(qid := None) else ch)"

datatype ingest_result =
  Unknown_queue | Already queue_status | Recheck_running | Recheck_scheduled nat | Provider_incomplete | Untrusted_host
| Download_failed | Unreadable_csv | Raised_error | Ingested nat nat nat nat "(int \<times> string) list"

definition defer_until_provider_complete ::
    "bool \<Rightarrow> bool \<Rightarrow> int \<Rightarrow> nat \<Rightarrow> recheck_chains \<Rightarrow> ingest_result \<times> recheck_chains" where
  "defer_until_provider_complete redis_up broker_up qid rechecks ch =
     (if rechecks < PROVIDER_RECHECKS \<and> broker_up then (Recheck_scheduled (rechecks + 1), ch)
      else (Provider_incomplete, release_recheck_chain redis_up qid ch))"

subsection \<open>Attribution\<close>

type_synonym address_key = "string \<times> string \<times> string"

definition key_of_pending :: "pending_row \<Rightarrow> address_key" where
  "key_of_pending p =
     (py_lower (py_strip (str_or (p_field p ''property_address'') [])), py_lower (py_strip (str_or (p_field p ''city'') [])),
      py_upper (py_strip (str_or (p_field p ''state'') [])))"

definition key_of_answer :: "answer_row \<Rightarrow> address_key" where
  "key_of_answer a =
     (py_lower (py_strip (an_address a)), py_lower (py_strip (an_city a)), py_upper (py_strip (an_state a)))"

definition owner_of :: "pending_row \<Rightarrow> string \<times> string" where
  "owner_of p =
     (py_upper (py_strip (str_or (p_field p ''first_name'') [])), py_upper (py_strip (str_or (p_field p ''last_name'') [])))"

definition attribution_is_safe :: "pending_row list \<Rightarrow> nat \<Rightarrow> bool" where
  "attribution_is_safe matches n_csv_rows_for_key =
     (if n_csv_rows_for_key > 1 then False
      else if length matches \<le> 1 then True
      else if length (remdups (map p_trace_type matches)) > 1 then False
      else length (remdups (map owner_of matches)) = 1)"

subsection \<open>One answer\<close>

definition contact_of :: "answer_row \<Rightarrow> bool option \<Rightarrow> contact" where
  "contact_of a dnc =
     \<lparr> ct_phone = (case an_phones a of [] \<Rightarrow> None | p # _ \<Rightarrow> Some (fst p)),
       ct_phone_type = (case an_phones a of [] \<Rightarrow> None | p # _ \<Rightarrow> snd p), ct_dnc = dnc,
       ct_email = (case an_emails a of [] \<Rightarrow> None | e # _ \<Rightarrow> Some e), ct_phones = an_phones a, ct_emails = an_emails a \<rparr>"

definition is_hit :: "answer_row \<Rightarrow> bool" where
  "is_hit a \<longleftrightarrow> an_phones a \<noteq> [] \<or> an_emails a \<noteq> []"

definition put_answer :: "answer_row \<Rightarrow> datetime \<Rightarrow> string \<Rightarrow> (string \<rightharpoonup> cache_entry) \<Rightarrow> string \<rightharpoonup> cache_entry" where
  "put_answer a now key ans =
     ans(key \<mapsto> \<lparr> ce_contact = contact_of a (case ans key of None \<Rightarrow> None | Some e \<Rightarrow> ct_dnc (ce_contact e)), ce_fetched = now \<rparr>)"

definition found_result :: "(string \<Rightarrow> string) \<Rightarrow> answer_row \<Rightarrow> datetime \<Rightarrow> pending_row \<Rightarrow> result_row \<Rightarrow> result_row" where
  "found_result sha a now p r =
     r\<lparr> r_contact := contact_of a (ct_dnc (r_contact r)), r_skip_trace_status := (if is_hit a then ''hit'' else ''miss''),
        r_attempted_at := Some now, r_source := Some ''lookup'', r_subject := pending_row_subject_key sha p \<rparr>"

definition apply_answer :: "(string \<Rightarrow> string) \<Rightarrow> answer_row \<Rightarrow> datetime \<Rightarrow> pending_row \<Rightarrow> dispatch_db \<Rightarrow> dispatch_db" where
  "apply_answer sha a now p db =
     update_pending (\<lambda>q. p_id q = p_id p) (\<lambda>q. q\<lparr> p_status := P_completed \<rparr>)
       (update_results (\<lambda>i r. i = p_result p \<and> r_user r = p_user p) (found_result sha a now p) db)"

record ingest_run =
  in_db :: dispatch_db
  in_hits :: nat
  in_misses :: nat
  in_unmatched_csv :: nat
  in_matched :: "string list"

definition matches_of :: "pending_row list \<Rightarrow> answer_row \<Rightarrow> pending_row list" where
  "matches_of batch a = filter (\<lambda>p. key_of_pending p = key_of_answer a) batch"

definition answers_for :: "answer_row list \<Rightarrow> address_key \<Rightarrow> nat" where
  "answers_for parsed k = length (filter (\<lambda>a. key_of_answer a = k) parsed)"

text \<open>None: \<^verbatim>\<open>pending_row_subject_key\<close> raises on a row of unknown type.\<close>

definition ingest_answer ::
    "(string \<Rightarrow> string) \<Rightarrow> datetime \<Rightarrow> pending_row list \<Rightarrow> answer_row list \<Rightarrow> answer_row \<Rightarrow> ingest_run option \<Rightarrow> ingest_run option" where
  "ingest_answer sha now batch parsed a st =
     (case st of
        None \<Rightarrow> None
      | Some run \<Rightarrow>
          let matches = matches_of batch a
          in if matches = [] \<or> \<not> attribution_is_safe matches (answers_for parsed (key_of_answer a))
             then Some (run\<lparr> in_unmatched_csv := in_unmatched_csv run + 1 \<rparr>)
             else if list_ex (\<lambda>p. pending_row_subject_key sha p = None) matches then None
             else let keys = remdups (map (\<lambda>p. the (pending_row_subject_key sha p)) matches);
                      db = in_db run;
                      db1 = db\<lparr> answers := fold (put_answer a now) keys (answers db) \<rparr>
                  in Some (run\<lparr> in_db := fold (apply_answer sha a now) matches db1,
                       in_hits := in_hits run + (if is_hit a then 1 else 0),
                       in_misses := in_misses run + (if is_hit a then 0 else 1),
                       in_matched := map p_id matches @ in_matched run \<rparr>))"

subsection \<open>The transaction\<close>

definition queue_batch :: "dispatch_db \<Rightarrow> int \<Rightarrow> pending_row list" where
  "queue_batch db qid = filter (\<lambda>p. p_queue p = Some qid) (pending (sk db))"

definition settle_unmatched :: "datetime \<Rightarrow> pending_row list \<Rightarrow> dispatch_db \<Rightarrow> dispatch_db" where
  "settle_unmatched now rows db =
     update_results (\<lambda>i r. lead_pair rows i r \<and> r_skip_trace_status r \<in> {''queued'', ''submitted''})
       (\<lambda>r. r\<lparr> r_skip_trace_status := ''errored'', r_attempted_at := Some now \<rparr>)
       (update_pending (row_in rows) (\<lambda>p. p\<lparr> p_status := P_unmatched \<rparr>) db)"

definition complete_queue :: "int \<Rightarrow> remote_queue \<Rightarrow> dispatch_db \<Rightarrow> dispatch_db" where
  "complete_queue qid remote db =
     db\<lparr> sk := (sk db)\<lparr> queues := (queues (sk db))(qid := map_option (\<lambda>q.
       q\<lparr> q_status := Q_completed, q_download_url := rq_download remote, q_rows_uploaded := count_of (rq_uploaded remote),
          q_credits := count_of (rq_credits remote) \<rparr>) (queues (sk db) qid)) \<rparr> \<rparr>"

definition queue_settled :: "queue_status \<Rightarrow> bool" where
  "queue_settled s \<longleftrightarrow> s \<in> {Q_completed, Q_billed, Q_errored}"

definition ingest_transaction ::
    "(string \<Rightarrow> string) \<Rightarrow> datetime \<Rightarrow> remote_queue \<Rightarrow> answer_row list \<Rightarrow> int \<Rightarrow> dispatch_db \<Rightarrow> ingest_result \<times> dispatch_db" where
  "ingest_transaction sha now remote parsed qid db =
     (case queues (sk db) qid of
        None \<Rightarrow> (Unknown_queue, db)
      | Some q \<Rightarrow>
          if queue_settled (q_status q) then (Already (q_status q), db)
          else let batch = queue_batch db qid
               in (case fold (ingest_answer sha now batch parsed) parsed
                     (Some \<lparr> in_db = db, in_hits = 0, in_misses = 0, in_unmatched_csv = 0, in_matched = [] \<rparr>) of
                     None \<Rightarrow> (Raised_error, db)
                   | Some run \<Rightarrow>
                       let unmatched = filter (\<lambda>p. p_id p \<notin> set (in_matched run)) batch;
                           db1 = (if unmatched = [] then in_db run else settle_unmatched now unmatched (in_db run));
                           db2 = complete_queue qid remote db1;
                           (summary, tables) = report_usage_from_webhook (sk db2) qid now
                       in (Ingested (in_hits run) (in_misses run) (length unmatched) (in_unmatched_csv run) (ws_outbox summary),
                           db2\<lparr> sk := tables \<rparr>)))"

subsection \<open>The task\<close>

datatype csv_reply = Csv_failed | Csv_unreadable | Csv_rows "csv_row list"

text \<open>\<open>iw_meanwhile\<close>: what other transactions commit while the provider is asked and the CSV is read.\<close>

record ingest_world =
  iw_now :: datetime
  iw_redis :: bool
  iw_broker :: bool
  iw_queues :: "remote_queue list option"
  iw_split :: "string \<Rightarrow> url_parts option"
  iw_api_host :: string
  iw_csv :: "string \<Rightarrow> csv_reply"
  iw_meanwhile :: "dispatch_db \<Rightarrow> dispatch_db"

text \<open>Up to the parsed CSV the task holds no lock and writes no table: an early answer, or what it will ingest.\<close>

definition ingest_fetch ::
    "ingest_world \<Rightarrow> int \<Rightarrow> nat \<Rightarrow> nat \<Rightarrow> recheck_chains \<times> dispatch_db
      \<Rightarrow> (ingest_result + remote_queue \<times> answer_row list) \<times> recheck_chains" where
  "ingest_fetch w qid rechecks retries st =
     (let (ch, db) = st
      in case queues (sk db) qid of
        None \<Rightarrow> (Inl Unknown_queue, ch)
      | Some q \<Rightarrow>
          if queue_settled (q_status q) then (Inl (Already (q_status q)), ch)
          else let (held, chains1) = hold_recheck_chain (iw_redis w) (iw_now w) qid (rechecks > 0 \<or> retries > 0) ch
          in if \<not> held then (Inl Recheck_running, chains1)
             else case Option.bind (iw_queues w) (\<lambda>remote. provider_queue_record remote qid) of
               None \<Rightarrow>
                 (let (r, chains2) = defer_until_provider_complete (iw_redis w) (iw_broker w) qid rechecks chains1
                  in (Inl r, chains2))
             | Some remote \<Rightarrow>
                 let url = str_or (rq_download remote) []
                 in if \<not> host_is_tracerfy (iw_split w) (iw_api_host w) url
                    then (Inl Untrusted_host, release_recheck_chain (iw_redis w) qid chains1)
                    else (case iw_csv w url of
                       Csv_failed \<Rightarrow> (Inl Download_failed, chains1)
                     | Csv_unreadable \<Rightarrow> (Inl Unreadable_csv, chains1)
                     | Csv_rows rows \<Rightarrow> (Inr (remote, ingest_webhook_csv rows), chains1)))"

definition chain_after :: "bool \<Rightarrow> int \<Rightarrow> ingest_result \<Rightarrow> recheck_chains \<Rightarrow> recheck_chains" where
  "chain_after redis_up qid r ch = (case r of Ingested _ _ _ _ _ \<Rightarrow> release_recheck_chain redis_up qid ch | _ \<Rightarrow> ch)"

definition ingest_tracerfy_batch ::
    "(string \<Rightarrow> string) \<Rightarrow> ingest_world \<Rightarrow> int \<Rightarrow> nat \<Rightarrow> nat \<Rightarrow> recheck_chains \<times> dispatch_db \<Rightarrow> ingest_result \<times> recheck_chains \<times> dispatch_db" where
  "ingest_tracerfy_batch sha w qid rechecks retries st =
     (case ingest_fetch w qid rechecks retries st of
        (Inl r, ch) \<Rightarrow> (r, ch, snd st)
      | (Inr (remote, parsed), ch) \<Rightarrow>
          let (r, db') = ingest_transaction sha (iw_now w) remote parsed qid (iw_meanwhile w (snd st))
          in (r, chain_after (iw_redis w) qid r ch, db'))"

text \<open>The task's failure hook once Celery gives up.\<close>

definition mark_queue_permanently_failed :: "int \<Rightarrow> dispatch_db \<Rightarrow> dispatch_db" where
  "mark_queue_permanently_failed qid db =
     db\<lparr> sk := (sk db)\<lparr> queues := (queues (sk db))(qid := map_option (\<lambda>q.
       if q_status q = Q_pending then q\<lparr> q_status := Q_errored \<rparr> else q) (queues (sk db) qid)) \<rparr> \<rparr>"

subsection \<open>What an answer writes\<close>

definition safe_answer :: "pending_row list \<Rightarrow> answer_row list \<Rightarrow> answer_row \<Rightarrow> bool" where
  "safe_answer batch parsed a \<longleftrightarrow>
     matches_of batch a \<noteq> [] \<and> attribution_is_safe (matches_of batch a) (answers_for parsed (key_of_answer a))"

definition answered_by :: "pending_row list \<Rightarrow> answer_row list \<Rightarrow> answer_row list \<Rightarrow> pending_row \<Rightarrow> bool" where
  "answered_by batch parsed xs p \<longleftrightarrow> list_ex (\<lambda>a. safe_answer batch parsed a \<and> key_of_pending p = key_of_answer a) xs"

definition complete_ids :: "string set \<Rightarrow> pending_row \<Rightarrow> pending_row" where
  "complete_ids ids p = (if p_id p \<in> ids then p\<lparr> p_status := P_completed \<rparr> else p)"

text \<open>\<open>wrote\<close>: a result is untouched or carries an answer given to one of the rows in \<open>S\<close>.\<close>

definition wrote ::
    "(string \<Rightarrow> string) \<Rightarrow> datetime \<Rightarrow> (pending_row \<times> answer_row) set \<Rightarrow> dispatch_db \<Rightarrow> dispatch_db \<Rightarrow> bool" where
  "wrote sha now S db db' \<longleftrightarrow>
     (\<forall>i. results (sk db') i = results (sk db) i \<or>
        (\<exists>r p a. results (sk db) i = Some r \<and> (p, a) \<in> S \<and> p_result p = i \<and> p_user p = r_user r \<and>
           results (sk db') i = Some (found_result sha a now p r)))"

definition kept_tables :: "dispatch_db \<Rightarrow> dispatch_db \<Rightarrow> bool" where
  "kept_tables db db' \<longleftrightarrow> queues (sk db') = queues (sk db) \<and> users (sk db') = users (sk db) \<and>
     outbox (sk db') = outbox (sk db) \<and> djobs db' = djobs db \<and> dleads db' = dleads db"

lemma found_result_simps [simp]:
  "found_result sha a now p (found_result sha b now q r) = found_result sha a now p r"
  "r_user (found_result sha a now p r) = r_user r"
  "r_contact (found_result sha a now p r) = contact_of a (ct_dnc (r_contact r))"
  "r_subject (found_result sha a now p r) = pending_row_subject_key sha p"
  by (simp_all add: found_result_def contact_of_def)

lemma wrote_refl: "wrote sha now S db db"
  by (simp add: wrote_def)

lemma wrote_mono: "wrote sha now S db db' \<Longrightarrow> S \<subseteq> T \<Longrightarrow> wrote sha now T db db'"
  unfolding wrote_def by blast

lemma wrote_trans:
  assumes "wrote sha now S a b" "wrote sha now S b c"
  shows "wrote sha now S a c"
  unfolding wrote_def
proof
  fix i
  show "results (sk c) i = results (sk a) i \<or>
    (\<exists>r p x. results (sk a) i = Some r \<and> (p, x) \<in> S \<and> p_result p = i \<and> p_user p = r_user r \<and>
       results (sk c) i = Some (found_result sha x now p r))"
  proof (cases "results (sk c) i = results (sk b) i")
    case True
    with assms(1) show ?thesis unfolding wrote_def by presburger
  next
    case False
    then obtain r p x where b: "results (sk b) i = Some r" "(p, x) \<in> S" "p_result p = i" "p_user p = r_user r"
      "results (sk c) i = Some (found_result sha x now p r)"
      using assms(2) unfolding wrote_def by blast
    show ?thesis
    proof (cases "results (sk b) i = results (sk a) i")
      case True
      with b show ?thesis by auto
    next
      case False
      then obtain r0 q y where a: "results (sk a) i = Some r0" "results (sk b) i = Some (found_result sha y now q r0)"
        using assms(1) unfolding wrote_def by blast
      then have "r = found_result sha y now q r0" using b(1) by simp
      with a(1) b show ?thesis by (intro disjI2 exI [of _ r0] exI [of _ p] exI [of _ x]) simp
    qed
  qed
qed

lemma complete_ids_simps [simp]:
  "p_id (complete_ids ids p) = p_id p" "p_queue (complete_ids ids p) = p_queue p"
  "complete_ids {} p = p" "complete_ids A (complete_ids B p) = complete_ids (A \<union> B) p"
  by (simp_all add: complete_ids_def)

lemma complete_none [simp]: "complete_ids {} = id"
  by (simp add: fun_eq_iff complete_ids_def)

lemma kept_trans: "kept_tables a b \<Longrightarrow> kept_tables b c \<Longrightarrow> kept_tables a c"
  by (simp add: kept_tables_def)

lemma apply_answer_effect:
  "pending (sk (apply_answer sha a now p db)) = map (complete_ids {p_id p}) (pending (sk db))"
  "wrote sha now {(p, a)} db (apply_answer sha a now p db)" "kept_tables db (apply_answer sha a now p db)"
proof -
  show "pending (sk (apply_answer sha a now p db)) = map (complete_ids {p_id p}) (pending (sk db))"
    by (auto simp: apply_answer_def complete_ids_def)
  show "wrote sha now {(p, a)} db (apply_answer sha a now p db)"
    unfolding wrote_def
  proof
    fix i
    show "results (sk (apply_answer sha a now p db)) i = results (sk db) i \<or>
      (\<exists>r q x. results (sk db) i = Some r \<and> (q, x) \<in> {(p, a)} \<and> p_result q = i \<and> p_user q = r_user r \<and>
         results (sk (apply_answer sha a now p db)) i = Some (found_result sha x now q r))"
      by (cases "results (sk db) i") (auto simp: apply_answer_def)
  qed
  show "kept_tables db (apply_answer sha a now p db)" by (simp add: kept_tables_def apply_answer_def)
qed

lemma apply_answers_effect:
  "pending (sk (fold (apply_answer sha a now) ms db)) = map (complete_ids (p_id ` set ms)) (pending (sk db)) \<and>
   wrote sha now ((\<lambda>p. (p, a)) ` set ms) db (fold (apply_answer sha a now) ms db) \<and>
   kept_tables db (fold (apply_answer sha a now) ms db)"
proof (induction ms arbitrary: db)
  case Nil
  show ?case by (simp add: wrote_refl kept_tables_def)
next
  case (Cons p ms)
  let ?db = "apply_answer sha a now p db"
  note one = apply_answer_effect [where sha = sha and a = a and now = now and p = p and db = db]
  have w: "wrote sha now ((\<lambda>p. (p, a)) ` set (p # ms)) db (fold (apply_answer sha a now) (p # ms) db)"
  proof -
    have a: "wrote sha now ((\<lambda>p. (p, a)) ` set (p # ms)) db ?db" by (rule wrote_mono [OF one(2)]) simp
    have "wrote sha now ((\<lambda>p. (p, a)) ` set (p # ms)) ?db (fold (apply_answer sha a now) ms ?db)"
      using Cons [of ?db] by (elim conjE) (erule wrote_mono, auto)
    from wrote_trans [OF a this] show ?thesis by simp
  qed
  show ?case
    using Cons [of ?db] one(1) kept_trans [OF one(3)] w by (simp add: comp_def)
qed

text \<open>The loop over the parsed rows \<open>xs\<close>, and what it has written after them.\<close>

definition given_answers :: "pending_row list \<Rightarrow> answer_row list \<Rightarrow> answer_row list \<Rightarrow> (pending_row \<times> answer_row) set" where
  "given_answers batch parsed xs =
     {(p, a). a \<in> set xs \<and> safe_answer batch parsed a \<and> p \<in> set batch \<and> key_of_pending p = key_of_answer a}"

definition run_ok ::
    "(string \<Rightarrow> string) \<Rightarrow> datetime \<Rightarrow> pending_row list \<Rightarrow> answer_row list \<Rightarrow> dispatch_db \<Rightarrow> answer_row list \<Rightarrow> ingest_run \<Rightarrow> bool" where
  "run_ok sha now batch parsed db xs run \<longleftrightarrow>
     pending (sk (in_db run)) = map (complete_ids (set (in_matched run))) (pending (sk db)) \<and>
     set (in_matched run) = p_id ` {p \<in> set batch. answered_by batch parsed xs p} \<and>
     wrote sha now (given_answers batch parsed xs) db (in_db run) \<and> kept_tables db (in_db run) \<and>
     in_hits run + in_misses run + in_unmatched_csv run = length xs"

lemma matches_of_set: "set (matches_of batch a) = {p \<in> set batch. key_of_pending p = key_of_answer a}"
  by (auto simp: matches_of_def)

lemma answered_snoc:
  "answered_by batch parsed (xs @ [a]) p \<longleftrightarrow>
     answered_by batch parsed xs p \<or> (safe_answer batch parsed a \<and> key_of_pending p = key_of_answer a)"
  by (auto simp: answered_by_def)

lemma run_ok_step:
  assumes ok: "run_ok sha now batch parsed db xs run"
    and step: "ingest_answer sha now batch parsed a (Some run) = Some run'"
  shows "run_ok sha now batch parsed db (xs @ [a]) run'"
proof (cases "safe_answer batch parsed a")
  case False
  then have run': "run' = run\<lparr> in_unmatched_csv := in_unmatched_csv run + 1 \<rparr>"
    using step by (auto simp: ingest_answer_def safe_answer_def Let_def)
  have "wrote sha now (given_answers batch parsed (xs @ [a])) db (in_db run)"
    using ok unfolding run_ok_def by (elim conjE) (erule wrote_mono, auto simp: given_answers_def)
  with ok False show ?thesis by (simp add: run_ok_def run' answered_snoc)
next
  case True
  let ?ms = "matches_of batch a"
  let ?db1 = "(in_db run)\<lparr> answers := fold (put_answer a now)
    (remdups (map (\<lambda>p. the (pending_row_subject_key sha p)) ?ms)) (answers (in_db run)) \<rparr>"
  have run': "run' = run\<lparr> in_db := fold (apply_answer sha a now) ?ms ?db1,
      in_hits := in_hits run + (if is_hit a then 1 else 0), in_misses := in_misses run + (if is_hit a then 0 else 1),
      in_matched := map p_id ?ms @ in_matched run \<rparr>"
    using step True by (auto simp: ingest_answer_def safe_answer_def Let_def split: if_splits)
  note e = apply_answers_effect [of sha a now ?ms ?db1]
  have ids: "set (in_matched run') = p_id ` {p \<in> set batch. answered_by batch parsed (xs @ [a]) p}"
    using ok True by (auto simp: run' run_ok_def matches_of_set answered_snoc)
  have rows: "pending (sk (in_db run')) = map (complete_ids (set (in_matched run'))) (pending (sk db))"
    using ok e by (simp add: run' run_ok_def comp_def Un_commute)
  have sub: "given_answers batch parsed xs \<subseteq> given_answers batch parsed (xs @ [a])"
    "(\<lambda>p. (p, a)) ` set ?ms \<subseteq> given_answers batch parsed (xs @ [a])"
    using True by (auto simp: given_answers_def matches_of_set)
  have w0: "wrote sha now (given_answers batch parsed (xs @ [a])) db (in_db run)"
    by (rule wrote_mono [OF _ sub(1)]) (use ok in \<open>simp add: run_ok_def\<close>)
  have w1: "wrote sha now S (in_db run) ?db1" for S by (simp add: wrote_def)
  have w2: "wrote sha now (given_answers batch parsed (xs @ [a])) ?db1 (in_db run')"
    by (rule wrote_mono [OF _ sub(2)]) (use e in \<open>simp add: run'\<close>)
  have k: "kept_tables db (in_db run')"
    using ok e by (simp add: run' run_ok_def kept_tables_def)
  show ?thesis
    using ok ids rows k wrote_trans [OF wrote_trans [OF w0 w1] w2] by (simp add: run_ok_def) (simp add: run')
qed

lemma ingest_answer_None [simp]: "ingest_answer sha now batch parsed a None = None"
  by (simp add: ingest_answer_def)

lemma fold_ingest_None: "fold (ingest_answer sha now batch parsed) xs None = None"
  by (induction xs) simp_all

lemma fold_run_ok:
  assumes "fold (ingest_answer sha now batch parsed) xs (Some run) = Some run'" "run_ok sha now batch parsed db ys run"
  shows "run_ok sha now batch parsed db (ys @ xs) run'"
  using assms
proof (induction xs arbitrary: run ys)
  case (Cons a xs)
  then obtain run1 where r: "ingest_answer sha now batch parsed a (Some run) = Some run1"
    using fold_ingest_None by (cases "ingest_answer sha now batch parsed a (Some run)") auto
  with Cons.prems(1) have "fold (ingest_answer sha now batch parsed) xs (Some run1) = Some run'" by simp
  from Cons.IH [OF this run_ok_step [OF Cons.prems(2) r]] show ?case by simp
qed simp

subsection \<open>The whole transaction\<close>

definition settled_row :: "answer_row list \<Rightarrow> pending_row list \<Rightarrow> int \<Rightarrow> pending_row \<Rightarrow> pending_row" where
  "settled_row parsed batch qid p =
     (if p_queue p = Some qid
      then p\<lparr> p_status := (if answered_by batch parsed parsed p then P_completed else P_unmatched) \<rparr> else p)"

text \<open>Whether the unmatched rows are billed: the stored decision, else every row sent was uploaded.\<close>

definition unmatched_is_billed :: "remote_queue \<Rightarrow> queue_row \<Rightarrow> bool" where
  "unmatched_is_billed remote q =
     opt_or (q_unmatched_billed q)
       (case q_rows_sent q of None \<Rightarrow> False | Some sent \<Rightarrow> sent > 0 \<and> count_of (rq_uploaded remote) \<ge> sent)"

lemma bill_user_frame:
  "pending (fst (bill_user qid ua now g st)) = pending (fst st)" "results (fst (bill_user qid ua now g st)) = results (fst st)"
  "queues (fst (bill_user qid ua now g st)) = queues (fst st)"
  by (cases g; cases st; auto simp: bill_user_def report_lookups_for_user_def Let_def split: option.split prod.split)+

lemma fold_bill_user_frame:
  "pending (fst (fold (bill_user qid ua now) gs st)) = pending (fst st) \<and>
   results (fst (fold (bill_user qid ua now) gs st)) = results (fst st) \<and>
   queues (fst (fold (bill_user qid ua now) gs st)) = queues (fst st)"
  by (induction gs arbitrary: st) (simp_all add: bill_user_frame)

lemma webhook_frame:
  "pending (snd (report_usage_from_webhook db qid now)) = pending db"
  "results (snd (report_usage_from_webhook db qid now)) = results db"
  "queues (snd (report_usage_from_webhook db qid now)) = queues (snd (decide_unmatched db qid))"
  unfolding webhook_db using decide_unmatched_frame(2) [of db qid]
  by (simp_all add: fold_bill_user_frame decide_unmatched_def Let_def split: option.split)

text \<open>The tables just before billing, from the loop's result.\<close>

definition before_billing :: "datetime \<Rightarrow> remote_queue \<Rightarrow> int \<Rightarrow> pending_row list \<Rightarrow> ingest_run \<Rightarrow> dispatch_db" where
  "before_billing now remote qid batch run =
     (let unmatched = filter (\<lambda>p. p_id p \<notin> set (in_matched run)) batch
      in complete_queue qid remote (if unmatched = [] then in_db run else settle_unmatched now unmatched (in_db run)))"

lemma ingested:
  assumes "ingest_transaction sha now remote parsed qid db = (Ingested h m u c ids, db')"
  obtains q run where "queues (sk db) qid = Some q" "\<not> queue_settled (q_status q)"
    "run_ok sha now (queue_batch db qid) parsed db parsed run" "h = in_hits run" "m = in_misses run" "c = in_unmatched_csv run"
    "u = length (filter (\<lambda>p. p_id p \<notin> set (in_matched run)) (queue_batch db qid))"
    "sk db' = snd (report_usage_from_webhook (sk (before_billing now remote qid (queue_batch db qid) run)) qid now)"
    "answers db' = answers (in_db run)"
proof -
  let ?st = "\<lparr> in_db = db, in_hits = 0, in_misses = 0, in_unmatched_csv = 0, in_matched = [] \<rparr>"
  obtain q where q: "queues (sk db) qid = Some q" "\<not> queue_settled (q_status q)"
    using assms by (auto simp: ingest_transaction_def split: option.splits if_splits)
  obtain run where r: "fold (ingest_answer sha now (queue_batch db qid) parsed) parsed (Some ?st) = Some run"
    using assms q by (auto simp: ingest_transaction_def Let_def split: option.splits)
  have "run_ok sha now (queue_batch db qid) parsed db [] ?st"
    by (simp add: run_ok_def answered_by_def wrote_refl kept_tables_def)
  from fold_run_ok [OF r this] have ok: "run_ok sha now (queue_batch db qid) parsed db parsed run" by simp
  obtain summary tables where w:
    "report_usage_from_webhook (sk (before_billing now remote qid (queue_batch db qid) run)) qid now = (summary, tables)"
    by (cases "report_usage_from_webhook (sk (before_billing now remote qid (queue_batch db qid) run)) qid now")
  have "(Ingested (in_hits run) (in_misses run) (length (filter (\<lambda>p. p_id p \<notin> set (in_matched run)) (queue_batch db qid)))
      (in_unmatched_csv run) (ws_outbox summary), (before_billing now remote qid (queue_batch db qid) run)\<lparr> sk := tables \<rparr>) =
      (Ingested h m u c ids, db')"
    using assms q r w by (simp add: ingest_transaction_def before_billing_def Let_def)
  moreover have "answers (before_billing now remote qid (queue_batch db qid) run) = answers (in_db run)"
    by (simp add: before_billing_def complete_queue_def settle_unmatched_def Let_def)
  ultimately show ?thesis using that [OF q ok] w by auto
qed

lemma before_billing_rows:
  assumes d: "distinct (map p_id (pending (sk db)))"
    and ok: "run_ok sha now (queue_batch db qid) parsed db parsed run"
  shows "pending (sk (before_billing now remote qid (queue_batch db qid) run)) =
    map (settled_row parsed (queue_batch db qid) qid) (pending (sk db))"
proof -
  let ?batch = "queue_batch db qid" and ?M = "set (in_matched run)"
  let ?un = "filter (\<lambda>p. p_id p \<notin> ?M) ?batch"
  have sub: "set ?un \<subseteq> set (pending (sk db))" by (auto simp: queue_batch_def)
  have rows: "pending (sk (in_db run)) = map (complete_ids ?M) (pending (sk db))"
    and M: "?M = p_id ` {p \<in> set ?batch. answered_by ?batch parsed parsed p}"
    using ok by (auto simp: run_ok_def)
  have batch: "p \<in> set ?batch \<longleftrightarrow> p_queue p = Some qid" if "p \<in> set (pending (sk db))" for p
    using that by (simp add: queue_batch_def)
  have inM: "p_id p \<in> ?M \<longleftrightarrow> p_queue p = Some qid \<and> answered_by ?batch parsed parsed p" if p: "p \<in> set (pending (sk db))" for p
  proof
    assume "p_id p \<in> ?M"
    then obtain q where "q \<in> set ?batch" "answered_by ?batch parsed parsed q" "p_id p = p_id q" unfolding M by auto
    moreover from this have "q \<in> set (pending (sk db))" by (simp add: queue_batch_def)
    ultimately show "p_queue p = Some qid \<and> answered_by ?batch parsed parsed p"
      using same_row [OF d p, of q] batch [OF p] by auto
  qed (use batch [OF p] M in auto)
  have un: "row_in ?un p \<longleftrightarrow> p_queue p = Some qid \<and> \<not> answered_by ?batch parsed parsed p"
    if p: "p \<in> set (pending (sk db))" for p
    using row_in_iff [OF d sub p] batch [OF p] inM [OF p] by auto
  have "(if row_in ?un (complete_ids ?M p) then (complete_ids ?M p)\<lparr> p_status := P_unmatched \<rparr> else complete_ids ?M p) =
      settled_row parsed ?batch qid p" if p: "p \<in> set (pending (sk db))" for p
    using un [OF p] inM [OF p] by (simp add: row_in_def settled_row_def complete_ids_def)
  then have "map (\<lambda>p. if row_in ?un p then p\<lparr> p_status := P_unmatched \<rparr> else p) (map (complete_ids ?M) (pending (sk db))) =
      map (settled_row parsed ?batch qid) (pending (sk db))" by simp
  moreover have "pending (sk (before_billing now remote qid ?batch run)) =
      map (\<lambda>p. if row_in ?un p then p\<lparr> p_status := P_unmatched \<rparr> else p) (map (complete_ids ?M) (pending (sk db)))"
  proof (cases "?un = []")
    case True
    then show ?thesis by (simp only: before_billing_def Let_def complete_queue_def True) (simp add: rows row_in_def)
  next
    case False
    then show ?thesis by (simp only: before_billing_def Let_def complete_queue_def settle_unmatched_def) (simp add: rows)
  qed
  ultimately show ?thesis by (simp only:)
qed

lemma only_element: "x \<in> set xs \<Longrightarrow> length xs \<le> 1 \<Longrightarrow> xs = [x]"
  by (cases xs) auto

lemma small_remdups: "length (remdups xs) \<le> 1 \<Longrightarrow> x \<in> set xs \<Longrightarrow> y \<in> set xs \<Longrightarrow> x = y"
  using card_length [of "remdups xs"] card_le_Suc0_iff_eq [of "set xs"] by (simp add: length_remdups_card_conv)

lemma safe_owners:
  assumes "safe_answer batch parsed a" "p \<in> set (matches_of batch a)" "p' \<in> set (matches_of batch a)"
  shows "p_trace_type p' = p_trace_type p \<and> owner_of p' = owner_of p"
proof (cases "length (matches_of batch a) \<le> 1")
  case True
  then have "p' = p" using assms(2,3) by (cases "matches_of batch a") auto
  then show ?thesis by simp
next
  case False
  then have t: "length (remdups (map p_trace_type (matches_of batch a))) \<le> 1"
    and n: "length (remdups (map owner_of (matches_of batch a))) \<le> 1"
    using assms(1) by (auto simp: safe_answer_def attribution_is_safe_def split: if_splits)
  show ?thesis using small_remdups [OF t] small_remdups [OF n] assms(2,3) by simp
qed

lemma before_billing_tables:
  assumes "run_ok sha now (queue_batch db qid) parsed db parsed run" "queues (sk db) qid = Some q"
  shows "users (sk (before_billing now remote qid (queue_batch db qid) run)) = users (sk db)"
    "fst (decide_unmatched (sk (before_billing now remote qid (queue_batch db qid) run)) qid) = unmatched_is_billed remote q"
    "\<exists>q'. queues (snd (decide_unmatched (sk (before_billing now remote qid (queue_batch db qid) run)) qid)) qid = Some q' \<and>
       q_status q' = Q_completed \<and> q_download_url q' = rq_download remote \<and> q_rows_uploaded q' = count_of (rq_uploaded remote)"
  using assms
  by (simp_all add: before_billing_def complete_queue_def settle_unmatched_def Let_def run_ok_def kept_tables_def
      decide_unmatched_def queue_accepted_all_def unmatched_is_billed_def split: option.split)

lemma billed_count:
  assumes "distinct (map p_id (pending (sk db)))" "run_ok sha now (queue_batch db qid) parsed db parsed run"
  shows "length (filter (\<lambda>p. p_user p = uid)
      (billable_rows (sk (before_billing now remote qid (queue_batch db qid) run)) qid acc)) =
    length (filter (\<lambda>p. p_user p = uid \<and> (answered_by (queue_batch db qid) parsed parsed p \<or> acc)) (queue_batch db qid))"
proof -
  have f: "length (filter P (map g xs)) = length (filter (\<lambda>x. P (g x)) xs)" for P and g :: "pending_row \<Rightarrow> pending_row" and xs
    by (simp add: filter_map comp_def)
  have "(\<lambda>p. p_queue (settled_row parsed (queue_batch db qid) qid p) = Some qid \<and>
        (p_status (settled_row parsed (queue_batch db qid) qid p) = P_completed \<or>
         acc \<and> p_status (settled_row parsed (queue_batch db qid) qid p) = P_unmatched) \<and>
        p_user (settled_row parsed (queue_batch db qid) qid p) = uid) =
      (\<lambda>p. p_queue p = Some qid \<and> p_user p = uid \<and> (answered_by (queue_batch db qid) parsed parsed p \<or> acc))"
    by (auto simp: settled_row_def fun_eq_iff)
  then show ?thesis
    unfolding billable_rows_def before_billing_rows [OF assms] filter_filter f
    by (simp add: conj_commute conj_left_commute queue_batch_def)
qed

subsection \<open>Properties\<close>

text \<open>
  C2: A completed batch is settled and billed exactly. Every row of the batch ends completed if an answer was given to
  it and unmatched otherwise, no other row changes; every CSV row is a hit, a miss or unmatched; the queue is completed
  with the provider's own counts; and each account's counter advances by its number of answered rows, plus its
  unmatched ones only when the provider took every row that was sent.
\<close>

theorem ingest_settles_batch:
  assumes "distinct (map p_id (pending (sk db)))"
    and "ingest_transaction sha now remote parsed qid db = (Ingested h m u c ids, db')"
  shows "\<exists>q q'. queues (sk db) qid = Some q \<and> queues (sk db') qid = Some q' \<and> q_status q' = Q_completed \<and>
    q_rows_uploaded q' = count_of (rq_uploaded remote) \<and> h + m + c = length parsed \<and>
    pending (sk db') = map (settled_row parsed (queue_batch db qid) qid) (pending (sk db)) \<and>
    (\<forall>uid. users (sk db') uid =
       (let n = length (filter (\<lambda>p. p_user p = uid \<and>
            (answered_by (queue_batch db qid) parsed parsed p \<or> unmatched_is_billed remote q)) (queue_batch db qid))
        in if n = 0 then users (sk db) uid
           else map_option (\<lambda>a. snd (report_lookups_for_row a (int n) now)) (users (sk db) uid)))"
proof -
  from assms(2) obtain q run where r: "queues (sk db) qid = Some q"
    "run_ok sha now (queue_batch db qid) parsed db parsed run" "h = in_hits run" "m = in_misses run" "c = in_unmatched_csv run"
    "sk db' = snd (report_usage_from_webhook (sk (before_billing now remote qid (queue_batch db qid) run)) qid now)"
    by (rule ingested)
  note t = before_billing_tables [OF r(2,1), of remote]
  obtain q' where q': "queues (sk db') qid = Some q'" "q_status q' = Q_completed" "q_rows_uploaded q' = count_of (rq_uploaded remote)"
    using t(3) unfolding r(6) webhook_frame by blast
  have "h + m + c = length parsed" using r(2-5) by (simp add: run_ok_def)
  moreover have "pending (sk db') = map (settled_row parsed (queue_batch db qid) qid) (pending (sk db))"
    unfolding r(6) webhook_frame before_billing_rows [OF assms(1) r(2)] by (rule refl)
  ultimately show ?thesis
    using r(1) q' unfolding r(6) webhook_counts_each_user t(1,2) billed_count [OF assms(1) r(2)] Let_def
    by (intro exI [of _ q] exI [of _ q']) simp
qed

text \<open>
  C3: No guessing. When a lead's contacts change, the lead belongs to a row of the batch, of the same account, and the
  new contacts are those of the only CSV row for that row's address; and all rows of the batch at that address have one
  owner name and one trace type. The recorded subject is the row's own.
\<close>

theorem contacts_only_where_sure:
  assumes "ingest_transaction sha now remote parsed qid db = (Ingested h m u c ids, db')"
    and "results (sk db) i = Some r" "results (sk db') i = Some r'" "r_contact r' \<noteq> r_contact r"
  shows "\<exists>p a. p \<in> set (pending (sk db)) \<and> p_queue p = Some qid \<and> p_result p = i \<and> p_user p = r_user r \<and>
    filter (\<lambda>b. key_of_answer b = key_of_pending p) parsed = [a] \<and>
    (\<forall>p'. p' \<in> set (queue_batch db qid) \<longrightarrow> key_of_pending p' = key_of_pending p \<longrightarrow>
       p_trace_type p' = p_trace_type p \<and> owner_of p' = owner_of p) \<and>
    r_contact r' = contact_of a (ct_dnc (r_contact r)) \<and> r_subject r' = pending_row_subject_key sha p"
proof -
  let ?batch = "queue_batch db qid"
  from assms(1) obtain run where ok: "run_ok sha now ?batch parsed db parsed run"
    and s: "sk db' = snd (report_usage_from_webhook (sk (before_billing now remote qid ?batch run)) qid now)"
    by (rule ingested)
  obtain r1 where r1: "results (sk (in_db run)) i = Some r1" "r_contact r' = r_contact r1" "r_subject r' = r_subject r1"
    using assms(3) unfolding s webhook_frame
    by (auto simp: before_billing_def complete_queue_def settle_unmatched_def Let_def split: if_splits)
  then have "results (sk (in_db run)) i \<noteq> results (sk db) i" using assms(2,4) by auto
  then obtain p a where pa: "(p, a) \<in> given_answers ?batch parsed parsed" "p_result p = i" "p_user p = r_user r"
    "r1 = found_result sha a now p r"
    using ok r1(1) assms(2) unfolding run_ok_def wrote_def by fastforce
  have p: "p \<in> set ?batch" "a \<in> set parsed" "safe_answer ?batch parsed a" "key_of_pending p = key_of_answer a"
    using pa(1) by (auto simp: given_answers_def)
  have "answers_for parsed (key_of_answer a) \<le> 1" using p(3) by (auto simp: safe_answer_def attribution_is_safe_def split: if_splits)
  moreover have "a \<in> set (filter (\<lambda>b. key_of_answer b = key_of_pending p) parsed)" using p by simp
  ultimately have one: "filter (\<lambda>b. key_of_answer b = key_of_pending p) parsed = [a]"
    using only_element p(4) unfolding answers_for_def by metis
  have same: "p_trace_type p' = p_trace_type p \<and> owner_of p' = owner_of p"
    if "p' \<in> set ?batch" "key_of_pending p' = key_of_pending p" for p'
    by (rule safe_owners [OF p(3)]) (use that p in \<open>simp_all add: matches_of_set\<close>)
  have c1: "p \<in> set (pending (sk db))" "p_queue p = Some qid" using p(1) by (simp_all add: queue_batch_def)
  have c2: "r_contact r' = contact_of a (ct_dnc (r_contact r))" "r_subject r' = pending_row_subject_key sha p"
    using r1(2,3) pa(4) by simp_all
  show ?thesis
    by (intro exI [of _ p] exI [of _ a] conjI allI impI c1 pa(2,3) one c2; drule (1) same; simp)
qed

subsection \<open>The life of a queue\<close>

definition settled_queue :: "dispatch_db \<Rightarrow> int \<Rightarrow> bool" where
  "settled_queue db qid = (case queues (sk db) qid of None \<Rightarrow> False | Some q \<Rightarrow> queue_settled (q_status q))"

fun was_ingested :: "ingest_result \<Rightarrow> bool" where
  "was_ingested (Ingested _ _ _ _ _) = True"
| "was_ingested _ = False"

text \<open>
  The tables, the tasks that have read the provider's answer and not yet opened their transaction, and the answers of
  finished ones. Tasks overlap freely: any number of them may have passed the unlocked check of the same queue before
  the first transaction takes its row lock. A worker may die in between (\<open>died\<close>); \<open>others\<close> never reopen a queue.
\<close>

type_synonym ingest_flight = "int \<times> remote_queue \<times> answer_row list"

type_synonym ingest_state = "recheck_chains \<times> dispatch_db \<times> ingest_flight list \<times> (int \<times> ingest_result) list"

inductive ingest_step :: "(string \<Rightarrow> string) \<Rightarrow> ingest_state \<Rightarrow> ingest_state \<Rightarrow> bool" for sha where
  reply: "ingest_fetch w qid rechecks retries (ch, db) = (Inl r, ch') \<Longrightarrow>
     ingest_step sha (ch, db, flights, log) (ch', db, flights, log @ [(qid, r)])"
| fetched: "ingest_fetch w qid rechecks retries (ch, db) = (Inr (remote, parsed), ch') \<Longrightarrow>
     ingest_step sha (ch, db, flights, log) (ch', db, flights @ [(qid, remote, parsed)], log)"
| commit: "ingest_transaction sha now remote parsed qid db = (r, db') \<Longrightarrow>
     ingest_step sha (ch, db, before @ (qid, remote, parsed) # after, log)
       (chain_after redis_up qid r ch, db', before @ after, log @ [(qid, r)])"
| died: "ingest_step sha (ch, db, before @ flight # after, log) (ch, db, before @ after, log)"
| failed: "ingest_step sha (ch, db, flights, log) (ch, mark_queue_permanently_failed qid db, flights, log)"
| others: "(\<forall>q. settled_queue db q \<longrightarrow> settled_queue db' q) \<Longrightarrow> ingest_step sha (ch, db, flights, log) (ch', db', flights, log)"

abbreviation ingest_steps :: "(string \<Rightarrow> string) \<Rightarrow> ingest_state \<Rightarrow> ingest_state \<Rightarrow> bool" where
  "ingest_steps sha \<equiv> (ingest_step sha)\<^sup>*\<^sup>*"

fun log_ok :: "ingest_state \<Rightarrow> bool" where
  "log_ok (ch, db, flights, log) \<longleftrightarrow>
     distinct (map fst (filter (\<lambda>x. was_ingested (snd x)) log)) \<and>
     (\<forall>x \<in> set log. was_ingested (snd x) \<longrightarrow> settled_queue db (fst x))"

text \<open>What the transaction does to the statuses of queues.\<close>

lemma transaction_settles:
  assumes "ingest_transaction sha now remote parsed qid db = (r, db')"
  shows "was_ingested r \<Longrightarrow> \<not> settled_queue db qid \<and> settled_queue db' qid" "\<not> was_ingested r \<Longrightarrow> db' = db"
    "settled_queue db q \<Longrightarrow> settled_queue db' q"
proof -
  have ing: "\<not> settled_queue db qid \<and> settled_queue db' qid \<and> (q \<noteq> qid \<longrightarrow> queues (sk db') q = queues (sk db) q)"
    if r: "was_ingested r" for q
  proof -
    obtain h m u c ids where "r = Ingested h m u c ids" using r by (cases r) auto
    with assms obtain q0 run where i: "queues (sk db) qid = Some q0" "\<not> queue_settled (q_status q0)"
      "run_ok sha now (queue_batch db qid) parsed db parsed run"
      "sk db' = snd (report_usage_from_webhook (sk (before_billing now remote qid (queue_batch db qid) run)) qid now)"
      using ingested by metis
    have "settled_queue db' qid"
      using before_billing_tables(3) [OF i(3,1), of remote] unfolding settled_queue_def i(4) webhook_frame
      by (auto simp: queue_settled_def)
    moreover have "queues (sk db') q = queues (sk db) q" if "q \<noteq> qid"
      using i(3) that unfolding i(4) webhook_frame
      by (simp add: decide_unmatched_def before_billing_def complete_queue_def settle_unmatched_def Let_def run_ok_def
          kept_tables_def split: option.split)
    ultimately show ?thesis using i(1,2) by (simp add: settled_queue_def)
  qed
  show none: "\<not> was_ingested r \<Longrightarrow> db' = db"
    using assms by (auto simp: ingest_transaction_def Let_def split: option.splits if_splits prod.splits)
  show "was_ingested r \<Longrightarrow> \<not> settled_queue db qid \<and> settled_queue db' qid" using ing by blast
  show "settled_queue db q \<Longrightarrow> settled_queue db' q"
    using ing [of q] none by (cases "was_ingested r"; cases "q = qid") (simp_all add: settled_queue_def)
qed

text \<open>A task that ingests has believed the provider only; one that does not writes nothing.\<close>

lemma task_believes:
  assumes "ingest_tracerfy_batch sha w qid rechecks retries (ch, db) = (r, ch', db')"
  shows "(\<not> was_ingested r \<and> (db' = db \<or> db' = iw_meanwhile w db)) \<or>
    (was_ingested r \<and> (\<exists>remote_list remote url rows. iw_queues w = Some remote_list \<and> remote \<in> set remote_list \<and> rq_id remote = qid \<and>
       rq_pending remote = Some False \<and> rq_download remote = Some url \<and> host_is_tracerfy (iw_split w) (iw_api_host w) url \<and>
       iw_csv w url = Csv_rows rows \<and>
       ingest_transaction sha (iw_now w) remote (ingest_webhook_csv rows) qid (iw_meanwhile w db) = (r, db')))"
proof (cases "\<exists>remote rows. Option.bind (iw_queues w) (\<lambda>l. provider_queue_record l qid) = Some remote \<and>
    host_is_tracerfy (iw_split w) (iw_api_host w) (str_or (rq_download remote) []) \<and>
    iw_csv w (str_or (rq_download remote) []) = Csv_rows rows \<and>
    ingest_transaction sha (iw_now w) remote (ingest_webhook_csv rows) qid (iw_meanwhile w db) = (r, db')")
  case True
  then obtain remote rows l where t: "iw_queues w = Some l" "provider_queue_record l qid = Some remote"
    "host_is_tracerfy (iw_split w) (iw_api_host w) (str_or (rq_download remote) [])"
    "iw_csv w (str_or (rq_download remote) []) = Csv_rows rows"
    "ingest_transaction sha (iw_now w) remote (ingest_webhook_csv rows) qid (iw_meanwhile w db) = (r, db')"
    by (auto simp: bind_eq_Some_conv)
  have f: "remote \<in> set l" "rq_id remote = qid" "rq_pending remote = Some False" "str_or (rq_download remote) [] \<noteq> []"
    using t(2) by (auto simp: provider_queue_record_def find_Some_iff)
  then obtain url where u: "rq_download remote = Some url" by (cases "rq_download remote") auto
  then have su: "str_or (rq_download remote) [] = url" by (auto simp: str_or_def)
  show ?thesis
  proof (cases "was_ingested r")
    case True
    then show ?thesis using t f u unfolding su by blast
  next
    case False
    then show ?thesis using transaction_settles(2) [OF t(5)] by simp
  qed
next
  case False
  then have "\<not> was_ingested r \<and> db' = db"
    using assms
    by (auto simp: ingest_tracerfy_batch_def ingest_fetch_def defer_until_provider_complete_def Let_def
        split: option.splits if_splits prod.splits csv_reply.splits)
  then show ?thesis by blast
qed

lemma early_replies: "ingest_fetch w qid rechecks retries st = (Inl r, ch) \<Longrightarrow> \<not> was_ingested r"
  by (auto simp: ingest_fetch_def defer_until_provider_complete_def Let_def
      split: option.splits if_splits prod.splits csv_reply.splits)

lemma failed_settles: "settled_queue db q \<Longrightarrow> settled_queue (mark_queue_permanently_failed qid db) q"
  by (auto simp: settled_queue_def mark_queue_permanently_failed_def queue_settled_def split: option.splits)

lemma log_step: "ingest_step sha s s' \<Longrightarrow> log_ok s \<Longrightarrow> log_ok s'"
proof (induction rule: ingest_step.induct)
  case (reply w qid rechecks retries ch db r ch' flights log)
  then show ?case using early_replies [OF reply(1)] by auto
next
  case (commit now remote parsed qid db r db' ch before after log redis_up)
  note t = transaction_settles [OF commit(1)]
  have keep: "\<forall>x \<in> set log. was_ingested (snd x) \<longrightarrow> settled_queue db' (fst x)" using commit(2) t(3) by auto
  show ?case
  proof (cases "was_ingested r")
    case True
    have "qid \<notin> fst ` {x \<in> set log. was_ingested (snd x)}" using commit(2) t(1) [OF True] by auto
    then show ?thesis using commit(2) keep t(1) [OF True] True by auto
  next
    case False
    then show ?thesis using commit(2) keep by auto
  qed
next
  case (failed ch db flights log qid)
  then show ?case using failed_settles by auto
qed auto

text \<open>
  C4: A batch is ingested, and so billed, at most once. Over any interleaving of triggers (repeated or forged), retries
  and re-checks, with any number of tasks past the unlocked check of a queue when the first of them commits, and of
  dying workers, exhausted tasks and other transactions that do not reopen a queue: no queue is ingested twice, and
  an ingested queue stays settled. It is the status check under the queue's row lock that decides.
\<close>

theorem batch_ingested_once:
  assumes "ingest_steps sha (ch0, db0, [], []) (ch, db, flights, log)"
  shows "distinct (map fst (filter (\<lambda>x. was_ingested (snd x)) log)) \<and>
    (\<forall>x \<in> set log. was_ingested (snd x) \<longrightarrow> settled_queue db (fst x))"
proof -
  have "log_ok s" if "ingest_steps sha (ch0, db0, [], []) s" for s
    using that by (induction rule: rtranclp_induct) (auto intro: log_step)
  from this [OF assms] show ?thesis by simp
qed

text \<open>
  C7: Only the provider is believed. A trigger that changes anything has found the batch in the provider's own list,
  complete and with a download URL on a pinned host, and applied exactly the CSV read from that URL with the counts of
  that record; every other outcome (unknown or settled queue, running chain, incomplete or unreachable provider, untrusted
  host, failed download, unreadable CSV, unknown trace type) leaves the tables alone.
\<close>

theorem only_the_provider_is_believed:
  assumes "ingest_tracerfy_batch sha w qid rechecks retries (ch, db) = (r, ch', db')" "iw_meanwhile w db = db"
  shows "db' = db \<or> (\<exists>remotes remote url rows. iw_queues w = Some remotes \<and> remote \<in> set remotes \<and> rq_id remote = qid \<and>
       rq_pending remote = Some False \<and> rq_download remote = Some url \<and> host_is_tracerfy (iw_split w) (iw_api_host w) url \<and>
       iw_csv w url = Csv_rows rows \<and>
       ingest_transaction sha (iw_now w) remote (ingest_webhook_csv rows) qid db = (r, db'))"
  using task_believes [OF assms(1)] unfolding assms(2) by blast

subsection \<open>A batch of two leads, one of them answered\<close>

definition sample_sent :: dispatch_db where
  "sample_sent =
     dispatch_sample\<lparr> sk := (sk dispatch_sample)\<lparr>
       pending := [(sample_sending ''1'')\<lparr> p_status := P_submitted, p_queue := Some 77 \<rparr>,
                   (sample_pending ''2'' ''Bob'' ''Olympia'')\<lparr> p_status := P_submitted, p_queue := Some 77 \<rparr>],
       queues := [77 \<mapsto> \<lparr> q_trace_type = ''normal'', q_status = Q_pending, q_rows_uploaded = 2, q_rows_sent = Some 2,
          q_credits = 2, q_download_url = None, q_unmatched_billed = None, q_provider_submitted_at = None \<rparr>] \<rparr> \<rparr>"

definition sample_csv :: csv_row where
  "sample_csv = [''address'' \<mapsto> ''1 main st'', ''city'' \<mapsto> ''TACOMA'', ''state'' \<mapsto> ''WA'', ''primary_phone'' \<mapsto> ''2535551234'']"

definition sample_url :: "string \<Rightarrow> url_parts option" where
  "sample_url u = (if u = ''u'' then Some \<lparr> ur_scheme = ''https'', ur_netloc = ''tracerfy.com'', ur_user = None,
     ur_host = Some ''tracerfy.com'', ur_port = Some None \<rparr> else None)"

definition sample_ingest_world :: ingest_world where
  "sample_ingest_world = \<lparr> iw_now = sample_later, iw_redis = True, iw_broker = True, iw_queues = Some sample_remote,
     iw_split = sample_url, iw_api_host = ''tracerfy.com'', iw_csv = (\<lambda>_. Csv_rows [sample_csv]), iw_meanwhile = (\<lambda>d. d) \<rparr>"

definition sample_ingest :: "ingest_result \<times> dispatch_db" where
  "sample_ingest = ingest_transaction id sample_later (hd sample_remote) (ingest_webhook_csv [sample_csv]) 77 sample_sent"

lemma sample_ingest_once:
  "(case sample_ingest of (r, db) \<Rightarrow> r = Ingested 1 0 1 0 [] \<and> map p_status (pending (sk db)) = [P_completed, P_unmatched] \<and>
     map_option (\<lambda>r. ct_phone (r_contact r)) (results (sk db) ''r1'') = Some (Some ''2535551234''))"
  by code_simp

lemma sample_ingest_values:
  "fst sample_ingest = Ingested 1 0 1 0 []"
  "map p_status (pending (sk (snd sample_ingest))) = [P_completed, P_unmatched]"
  "map_option (\<lambda>r. ct_phone (r_contact r)) (results (sk (snd sample_ingest)) ''r1'') = Some (Some ''2535551234'')"
  using sample_ingest_once by (simp_all add: split_beta)

lemma sample_sent_values:
  "distinct (map p_id (pending (sk sample_sent)))" "results (sk sample_sent) ''r1'' = Some sample_result"
  "ct_phone (r_contact sample_result) = None"
  by code_simp+

lemma sample_ingest_run:
  "ingest_transaction id sample_later (hd sample_remote) (ingest_webhook_csv [sample_csv]) 77 sample_sent =
     (Ingested 1 0 1 0 [], snd sample_ingest)"
  using sample_ingest_values(1) unfolding sample_ingest_def by (metis prod.collapse)

theorem ingest_settles_batch_witness:
  "map p_status (pending (sk (snd sample_ingest))) = [P_completed, P_unmatched] \<and>
   pending (sk (snd sample_ingest)) =
     map (settled_row (ingest_webhook_csv [sample_csv]) (queue_batch sample_sent 77) 77) (pending (sk sample_sent))"
  using ingest_settles_batch [OF sample_sent_values(1) sample_ingest_run] sample_ingest_values(2) by blast

theorem contacts_only_where_sure_witness:
  "\<exists>r' p. results (sk (snd sample_ingest)) ''r1'' = Some r' \<and> ct_phone (r_contact r') = Some ''2535551234'' \<and>
     p \<in> set (pending (sk sample_sent)) \<and> r_subject r' = pending_row_subject_key id p"
proof -
  obtain r' where r': "results (sk (snd sample_ingest)) ''r1'' = Some r'" "ct_phone (r_contact r') = Some ''2535551234''"
    using sample_ingest_values(3) by auto
  then have "r_contact r' \<noteq> r_contact sample_result" using sample_sent_values(3) by auto
  from contacts_only_where_sure [OF sample_ingest_run sample_sent_values(2) r'(1) this] r' show ?thesis by blast
qed

lemma sample_task: "was_ingested (fst (ingest_tracerfy_batch id sample_ingest_world 77 0 0 (Map.empty, sample_sent)))"
  by code_simp

text \<open>A trigger and a retry of it both read the provider's answer before either commits; the second finds the queue settled.\<close>

lemma sample_overlap:
  "(let (f1, ch1) = ingest_fetch sample_ingest_world 77 0 0 (Map.empty, sample_sent);
        (f2, ch2) = ingest_fetch sample_ingest_world 77 0 1 (ch1, sample_sent);
        x = (hd sample_remote, ingest_webhook_csv [sample_csv]);
        (r1, db1) = ingest_transaction id sample_later (fst x) (snd x) 77 sample_sent;
        (r2, db2) = ingest_transaction id sample_later (fst x) (snd x) 77 db1
    in f1 = Inr x \<and> f2 = Inr x \<and> was_ingested r1 \<and> r2 = Already Q_completed)"
  by code_simp

theorem batch_ingested_once_witness:
  "\<exists>ch db log. ingest_steps id (Map.empty, sample_sent, [], []) (ch, db, [], log) \<and> map snd (tl log) = [Already Q_completed] \<and>
     distinct (map fst (filter (\<lambda>x. was_ingested (snd x)) log)) \<and> filter (\<lambda>x. was_ingested (snd x)) log = [hd log]"
proof -
  let ?remote = "hd sample_remote" and ?rows = "ingest_webhook_csv [sample_csv]"
  obtain f1 ch1 where 1: "ingest_fetch sample_ingest_world 77 0 0 (Map.empty, sample_sent) = (f1, ch1)" by fastforce
  obtain f2 ch2 where 2: "ingest_fetch sample_ingest_world 77 0 1 (ch1, sample_sent) = (f2, ch2)" by fastforce
  obtain r1 db1 where t1: "ingest_transaction id sample_later ?remote ?rows 77 sample_sent = (r1, db1)" by fastforce
  obtain r2 db2 where t2: "ingest_transaction id sample_later ?remote ?rows 77 db1 = (r2, db2)" by fastforce
  have v: "f1 = Inr (?remote, ?rows)" "f2 = Inr (?remote, ?rows)" "was_ingested r1" "r2 = Already Q_completed"
    using sample_overlap by (simp_all add: Let_def 1 2 t1 t2 del: One_nat_def)
  let ?f = "(77, ?remote, ?rows)"
  let ?ch1 = "chain_after True 77 r1 ch2"
  have "ingest_step id (Map.empty, sample_sent, [], []) (ch1, sample_sent, [] @ [?f], [])"
    by (rule ingest_step.fetched [OF 1 [unfolded v(1)]])
  moreover have "ingest_step id (ch1, sample_sent, [?f], []) (ch2, sample_sent, [?f] @ [?f], [])"
    by (rule ingest_step.fetched [OF 2 [unfolded v(2)]])
  moreover have "ingest_step id (ch2, sample_sent, [] @ ?f # [?f], []) (?ch1, db1, [] @ [?f], [] @ [(77, r1)])"
    by (rule ingest_step.commit [OF t1])
  moreover have "ingest_step id (?ch1, db1, [] @ ?f # [], [(77, r1)]) (chain_after True 77 r2 ?ch1, db2, [] @ [], [(77, r1)] @ [(77, r2)])"
    by (rule ingest_step.commit [OF t2])
  ultimately have s: "ingest_steps id (Map.empty, sample_sent, [], []) (chain_after True 77 r2 ?ch1, db2, [], [(77, r1), (77, r2)])"
    by simp
  show ?thesis
    using s batch_ingested_once [OF s] v(3,4)
    by (intro exI [of _ "chain_after True 77 r2 ?ch1"] exI [of _ db2] exI [of _ "[(77, r1), (77, r2)]"]) simp
qed

theorem only_the_provider_is_believed_witness:
  "\<exists>r ch db. ingest_tracerfy_batch id sample_ingest_world 77 0 0 (Map.empty, sample_sent) = (r, ch, db) \<and> was_ingested r \<and>
     (db = sample_sent \<or> (\<exists>url. host_is_tracerfy sample_url ''tracerfy.com'' url))"
proof -
  obtain r ch db where 1: "ingest_tracerfy_batch id sample_ingest_world 77 0 0 (Map.empty, sample_sent) = (r, ch, db)"
    by (metis prod_cases3)
  have w: "was_ingested r" using sample_task by (simp add: 1)
  have m: "iw_meanwhile sample_ingest_world sample_sent = sample_sent" "iw_split sample_ingest_world = sample_url"
    "iw_api_host sample_ingest_world = ''tracerfy.com''" by (simp_all add: sample_ingest_world_def)
  from only_the_provider_is_believed [OF 1 m(1)] m(2,3) have "db = sample_sent \<or> (\<exists>url. host_is_tracerfy sample_url ''tracerfy.com'' url)"
    by metis
  with 1 w show ?thesis by blast
qed

end
