(* ===== verification/DispatchTick.thy ===== *)
theory DispatchTick
  imports ProviderIngest
begin

text \<open>
  One tick of the dispatcher (\<^verbatim>\<open>_dispatch_tick\<close> of \<^verbatim>\<open>workers/skip_trace_dispatcher.py\<close>), composed of the reconciler, the two
  sweeps and the passes, and the invariant of everything that moves a lookup: an answer is bought once. The world
  around a tick (clocks, locks, the provider's replies, what other transactions do between the passes) is one parameter,
  indexed by the pass.
\<close>

record tick_world =
  tw_env :: "nat \<Rightarrow> dispatch_db \<Rightarrow> dispatch_db"
  tw_now :: "nat \<Rightarrow> datetime"
  tw_released :: "nat \<Rightarrow> datetime"
  tw_watermark :: "nat \<Rightarrow> datetime"
  tw_locks :: "nat \<Rightarrow> pass_locks"
  tw_lock_free :: "nat \<Rightarrow> bool"
  tw_first :: "nat \<Rightarrow> post_result"
  tw_second :: "nat \<Rightarrow> post_result"
  tw_booked :: "nat \<Rightarrow> bool"

record tick =
  tk_batches :: nat
  tk_rows :: nat
  tk_errors :: "string list"
  tk_pass :: nat
  tk_db :: dispatch_db

datatype types_end = Types_deferred deferral tick | Types_recorded tick | Types_done tick | Types_raised tick

definition dropped_message :: "pending_row list \<Rightarrow> string \<Rightarrow> string list" where
  "dropped_message bad trace_type =
     (if bad = [] then []
      else [show_nat (length bad) @ '' '' @ trace_type @ '' row(s) dropped before submit: missing address/city/state''])"

text \<open>The inner loop: the types in turn, until one batch is recorded or the tick is deferred.\<close>

fun try_types ::
    "(string \<Rightarrow> string) \<Rightarrow> dispatch_config \<Rightarrow> string list \<Rightarrow> tick_world \<Rightarrow> string list \<Rightarrow> tick \<Rightarrow> types_end" where
  "try_types sha cfg dup w [] tk = Types_done tk"
| "try_types sha cfg dup w (t # ts) tk =
     (let n = tk_pass tk; db = tw_env w n (tk_db tk); tk1 = tk\<lparr> tk_pass := n + 1, tk_db := db \<rparr>
      in if \<not> tw_lock_free w n then Types_deferred D_claim_locked tk1
         else (case dispatch_pass sha cfg dup (tw_watermark w n) t (tw_now w n) (tw_locks w n) db of
                 No_room \<Rightarrow> try_types sha cfg dup w ts tk1
               | Nothing_to_claim gone bad db1 \<Rightarrow>
                   try_types sha cfg dup w ts (tk1\<lparr> tk_db := db1, tk_errors := tk_errors tk @ dropped_message bad t \<rparr>)
               | Claimed rows bad db1 \<Rightarrow>
                   let errors = tk_errors tk @ dropped_message bad t;
                       claimed = map (\<lambda>p. p\<lparr> p_status := P_submitting, p_submitted_at := Some (tw_now w n) \<rparr>) rows
                   in (case settle_post (tw_booked w n) (tw_first w n) (tw_second w n) claimed (tw_now w n) (tw_released w n) t db1 of
                         Deferred d es db2 \<Rightarrow> Types_deferred d (tk1\<lparr> tk_db := db2, tk_errors := errors @ es \<rparr>)
                       | Batch_rejected es db2 \<Rightarrow> try_types sha cfg dup w ts (tk1\<lparr> tk_db := db2, tk_errors := errors @ es \<rparr>)
                       | Raised db2 \<Rightarrow> Types_raised (tk1\<lparr> tk_db := db2 \<rparr>)
                       | Batch_recorded es k db2 \<Rightarrow>
                           Types_recorded (tk1\<lparr> tk_db := db2, tk_errors := errors @ es, tk_batches := tk_batches tk + 1,
                                                tk_rows := tk_rows tk + k \<rparr>))))"

datatype tick_stop = Stop_done | Stop_deferred deferral | Stop_raised

fun run_batches ::
    "(string \<Rightarrow> string) \<Rightarrow> dispatch_config \<Rightarrow> string list \<Rightarrow> tick_world \<Rightarrow> nat \<Rightarrow> tick \<Rightarrow> tick_stop \<times> tick" where
  "run_batches sha cfg dup w 0 tk = (Stop_done, tk)"
| "run_batches sha cfg dup w (Suc k) tk =
     (case try_types sha cfg dup w [''normal'', ''advanced''] tk of
        Types_deferred d tk' \<Rightarrow> (Stop_deferred d, tk')
      | Types_recorded tk' \<Rightarrow> run_batches sha cfg dup w k tk'
      | Types_done tk' \<Rightarrow> (Stop_done, tk')
      | Types_raised tk' \<Rightarrow> (Stop_raised, tk'))"

datatype tick_result = Daily_cap int int string | Tick_done nat nat "string list" "deferral option" | Tick_raised

text \<open>
  \<open>sweep_ok\<close> and \<open>settle_ok\<close>: the best-effort sweeps succeed; a failed one is rolled back. The settlement's lock
  may be taken (\<open>settle_free\<close>).
\<close>

definition dispatch_tick ::
    "(string \<Rightarrow> string) \<Rightarrow> dispatch_config \<Rightarrow> nat \<Rightarrow> bool \<Rightarrow> bool \<Rightarrow> bool \<Rightarrow> bool \<Rightarrow> remote_queue list option \<Rightarrow>
     (dispatch_db \<Rightarrow> int list) \<Rightarrow> (nat \<Rightarrow> dispatch_db \<Rightarrow> dispatch_db) \<Rightarrow> datetime \<Rightarrow> tick_world \<Rightarrow> dispatch_db \<Rightarrow> tick_result \<times> dispatch_db" where
  "dispatch_tick sha cfg max_batches enforced sweep_ok settle_ok settle_free remote queue_ids renv now w db =
     (let spent = fst (spent_credits (pending (sk db)) (instant now - SPEND_WINDOW)); caps = cf_caps cfg
      in if global_cap caps \<noteq> 0 \<and> global_cap caps \<le> spent
         then (Daily_cap spent (global_cap caps) (global_source caps), db)
         else let dup = duplicated_result_ids enforced (pending (sk db));
                  db1 = rr_db (reconcile_stale_claims renv now remote queue_ids db);
                  db2 = (if sweep_ok then snd (cancel_undeliverable_queued cfg db1) else db1)
              in if \<not> sweep_ok \<and> \<not> cf_pierce cfg
                 then (Tick_done 0 0 [''compliance sweep failed''] (Some D_sweep_failed), db2)
                 else let db3 = (if settle_ok then snd (settle_queued_from_known_answers sha cfg now settle_free db2) else db2);
                          (stop, tk) = run_batches sha cfg dup w (max 1 max_batches)
                            \<lparr> tk_batches = 0, tk_rows = 0, tk_errors = [], tk_pass = 0, tk_db = db3 \<rparr>
                      in (case stop of
                            Stop_raised \<Rightarrow> Tick_raised
                          | Stop_deferred d \<Rightarrow> Tick_done (tk_batches tk) (tk_rows tk) (tk_errors tk) (Some d)
                          | Stop_done \<Rightarrow> Tick_done (tk_batches tk) (tk_rows tk) (tk_errors tk) None, tk_db tk))"

text \<open>\<^verbatim>\<open>dispatch_pending_skip_trace\<close>: a switched-off dispatcher does nothing.\<close>

definition dispatch_pending_skip_trace ::
    "bool \<Rightarrow> bool \<Rightarrow> (dispatch_db \<Rightarrow> tick_result \<times> dispatch_db) \<Rightarrow> dispatch_db \<Rightarrow> tick_result option \<times> dispatch_db" where
  "dispatch_pending_skip_trace enabled token tick_of db =
     (if \<not> enabled \<or> \<not> token then (None, db) else case tick_of db of (r, db') \<Rightarrow> (Some r, db'))"

subsection \<open>Everything that moves a lookup\<close>

text \<open>
  Between the steps of the dispatcher the tables change by enqueues (new queued rows under new ids), by the ingest of
  completed batches, and by changes of leads, jobs, accounts and answers.
\<close>

inductive dispatch_step :: "(string \<Rightarrow> string) \<Rightarrow> dispatch_db \<Rightarrow> dispatch_db \<Rightarrow> bool" for sha where
  claim: "dispatch_pass sha cfg dup wm t now lk db = Claimed rows bad db' \<Longrightarrow> dispatch_step sha db db'"
| nothing: "dispatch_pass sha cfg dup wm t now lk db = Nothing_to_claim gone bad db' \<Longrightarrow> dispatch_step sha db db'"
| post: "dispatch_step sha db (end_db (settle_post ok r1 r2 claimed c e t db))"
| release: "dispatch_step sha db (snd (release_claim claimed P_queued (Some c) now db))"
| adopt: "dispatch_step sha db (snd (persist_submission resp claimed t True (Some c) db))"
| sweep: "dispatch_step sha db (snd (cancel_undeliverable_queued cfg db))"
| settle: "dispatch_step sha db (snd (settle_queued_from_known_answers sha cfg now free db))"
| enqueue: "\<forall>p \<in> set new. p_status p = P_queued \<and> p_trace_type p \<in> set TRACE_TYPES \<Longrightarrow>
    distinct (map p_id (pending (sk db) @ new)) \<Longrightarrow>
    dispatch_step sha db (db\<lparr> sk := (sk db)\<lparr> pending := pending (sk db) @ new \<rparr> \<rparr>)"
| ingest: "dispatch_step sha db (snd (ingest_transaction sha now remote parsed qid db))"
| other: "pending (sk db') = pending (sk db) \<Longrightarrow> dispatch_step sha db db'"

definition bought_once :: "(string \<Rightarrow> string) \<Rightarrow> dispatch_db \<Rightarrow> bool" where
  "bought_once sha db \<longleftrightarrow>
     distinct (map p_id (pending (sk db))) \<and> (\<forall>p \<in> set (pending (sk db)). p_trace_type p \<in> set TRACE_TYPES) \<and>
     distinct (map (pending_row_subject_key sha) (filter in_flight (pending (sk db))))"

text \<open>A step that rewrites rows in place, keeps what was bought for whom and sends nothing out.\<close>

definition thin_map :: "(string \<Rightarrow> string) \<Rightarrow> (pending_row \<Rightarrow> pending_row) \<Rightarrow> bool" where
  "thin_map sha f \<longleftrightarrow>
     (\<forall>p. p_id (f p) = p_id p \<and> p_trace_type (f p) = p_trace_type p \<and>
        pending_row_subject_key sha (f p) = pending_row_subject_key sha p \<and> (in_flight (f p) \<longrightarrow> in_flight p))"

definition thins :: "(string \<Rightarrow> string) \<Rightarrow> dispatch_db \<Rightarrow> dispatch_db \<Rightarrow> bool" where
  "thins sha db db' \<longleftrightarrow> (\<exists>f. thin_map sha f \<and> pending (sk db') = map f (pending (sk db)))"

lemma thin_mapD:
  assumes "thin_map sha f"
  shows "p_id (f p) = p_id p" "p_trace_type (f p) = p_trace_type p"
    "pending_row_subject_key sha (f p) = pending_row_subject_key sha p" "in_flight (f p) \<Longrightarrow> in_flight p"
  using assms unfolding thin_map_def by blast+

lemma thins_refl: "pending (sk db') = pending (sk db) \<Longrightarrow> thins sha db db'"
  unfolding thins_def by (rule exI [of _ id]) (simp add: thin_map_def)

lemma thins_trans:
  assumes "thins sha a b" "thins sha b c"
  shows "thins sha a c"
proof -
  obtain f where f: "thin_map sha f" "pending (sk b) = map f (pending (sk a))" using assms(1) by (auto simp only: thins_def)
  obtain g where g: "thin_map sha g" "pending (sk c) = map g (pending (sk b))" using assms(2) by (auto simp only: thins_def)
  have "thin_map sha (\<lambda>p. g (f p))"
    unfolding thin_map_def [of sha "\<lambda>p. g (f p)"] thin_mapD(1-3) [OF g(1)] thin_mapD(1-3) [OF f(1)]
    using thin_mapD(4) [OF g(1)] thin_mapD(4) [OF f(1)] by blast
  moreover have "pending (sk c) = map (\<lambda>p. g (f p)) (pending (sk a))" unfolding f(2) g(2) by simp
  ultimately show ?thesis unfolding thins_def by blast
qed

lemma key_of_updates [simp]:
  "pending_row_subject_key sha (p\<lparr> p_status := s \<rparr>) = pending_row_subject_key sha p"
  "pending_row_subject_key sha (p\<lparr> p_submitted_at := d \<rparr>) = pending_row_subject_key sha p"
  "pending_row_subject_key sha (p\<lparr> p_queue := q \<rparr>) = pending_row_subject_key sha p"
  by (simp_all add: pending_row_subject_key_def p_field_def)

lemma thins_update:
  assumes "\<And>p. P p \<Longrightarrow> p_id (f p) = p_id p \<and> p_trace_type (f p) = p_trace_type p \<and>
      pending_row_subject_key sha (f p) = pending_row_subject_key sha p \<and> (in_flight (f p) \<longrightarrow> in_flight p)"
    and "pending (sk db') = pending (sk (update_pending P f db))"
  shows "thins sha db db'"
  unfolding thins_def assms(2) update_pending_simps
  by (rule exI [of _ "\<lambda>p. if P p then f p else p"]) (use assms(1) in \<open>simp add: thin_map_def\<close>)

lemma thins_bought:
  assumes "thins sha db db'" "bought_once sha db"
  shows "bought_once sha db'"
proof -
  obtain f where f: "pending (sk db') = map f (pending (sk db))"
    "\<And>p. p_id (f p) = p_id p" "\<And>p. p_trace_type (f p) = p_trace_type p"
    "\<And>p. pending_row_subject_key sha (f p) = pending_row_subject_key sha p" "\<And>p. in_flight (f p) \<Longrightarrow> in_flight p"
    using assms(1) unfolding thins_def thin_map_def by blast
  have k: "map (pending_row_subject_key sha) (filter in_flight (map f ps))
      = map (pending_row_subject_key sha) (filter (\<lambda>p. in_flight (f p)) (filter in_flight ps))" for ps
  proof (induction ps)
    case (Cons p ps)
    then show ?case using f(5) [of p] by (auto simp: f(4))
  qed simp
  have i: "map p_id (map f ps) = map p_id ps" for ps by (induction ps) (simp_all add: f(2))
  have t: "p_trace_type q \<in> set TRACE_TYPES" if "q \<in> set (map f (pending (sk db)))" for q
    using that assms(2) f(3) by (auto simp: bought_once_def)
  have "distinct (map (pending_row_subject_key sha) (filter (\<lambda>p. in_flight (f p)) (filter in_flight (pending (sk db)))))"
    using assms(2) unfolding bought_once_def by (elim conjE) (rule distinct_map_filter)
  then show ?thesis
    unfolding bought_once_def f(1) i k using assms(2) t unfolding bought_once_def by blast
qed

lemma thins_release: "s \<noteq> P_submitting \<Longrightarrow> s \<noteq> P_submitted \<Longrightarrow> thins sha db (snd (release_claim claimed s pin now db))"
  by (rule thins_update [where P = "claim_row pin claimed" and f = "\<lambda>p. p\<lparr> p_status := s, p_submitted_at := None \<rparr>"])
    (auto simp: release_claim_def Let_def in_flight_def)

lemma thins_persist: "thins sha db (snd (persist_submission resp claimed t a ct db))"
  by (rule thins_update [where P = "\<lambda>p. claim_row ct claimed p \<and> p_trace_type p = t \<and> p_queue p = None"
      and f = "\<lambda>p. p\<lparr> p_status := P_submitted, p_queue := Some (ab_queue resp) \<rparr>"])
    (auto simp: persist_submission_def Let_def in_flight_def claim_row_def)

lemma thins_record: "thins sha db (end_db (record_batch ok resp claimed t c es db))"
  using thins_persist by (simp add: record_batch_def thins_refl)

lemma thins_resubmit: "thins sha db (end_db (resubmit_head ok second msg claimed k c e t db))"
proof -
  let ?db = "snd (release_claim (drop k claimed) P_queued None e db)"
  have d: "thins sha db ?db" by (rule thins_release) simp_all
  have r: "thins sha ?db (snd (release_claim (take k claimed) s None e ?db))" if "s = P_queued \<or> s = P_errored" for s
    using that by (intro thins_release) auto
  have f: "thins sha ?db (if x then ?db else snd (release_claim (take k claimed) (if y then P_errored else P_queued) None e ?db))" for x y
    using r by (simp add: thins_refl)
  have "thins sha ?db (end_db (resubmit_head ok second msg claimed k c e t db))"
  proof (cases second)
    case (Reply q)
    then show ?thesis
      using f thins_record [of sha ?db] by (cases q) (simp_all only: resubmit_head_def Let_def Reply post_result.case submit_outcome.case end_db.simps)
  next
    case Other_failure
    then show ?thesis by (simp add: resubmit_head_def Let_def thins_refl)
  qed
  with d show ?thesis by (rule thins_trans)
qed

lemma thins_post: "thins sha db (end_db (settle_post ok r1 r2 claimed c e t db))"
proof (cases r1)
  case (Reply r)
  have rel: "thins sha db (snd (release_claim claimed s None e db))" if "s = P_queued \<or> s = P_errored" for s
    using that by (intro thins_release) auto
  show ?thesis
  proof (cases "submit_error r")
    case None
    then show ?thesis using thins_record [of sha db] by (cases r) (simp_all add: settle_post_def Reply)
  next
    case (Some m)
    then show ?thesis
      using rel thins_resubmit [of sha db]
      by (cases "classify_submit_failure m") (simp_all add: settle_post_def Reply Let_def thins_refl)
  qed
qed (simp add: settle_post_def thins_refl)

lemma thins_sweep: "thins sha db (snd (cancel_undeliverable_queued cfg db))"
  by (rule thins_update [where P = "sweep_hit cfg db" and f = "\<lambda>p. p\<lparr> p_status := P_cancelled \<rparr>"])
    (auto simp: cancel_undeliverable_queued_def Let_def in_flight_def)

lemma thins_settle: "thins sha db (snd (settle_queued_from_known_answers sha cfg now free db))"
proof -
  have step: "thins sha (snd st) (snd (settle_row sha cfg now cached charged p st))" for cached charged p st
  proof -
    obtain n d where st: "st = (n, d)" by (cases st)
    show ?thesis
    proof (cases "snd (settle_row sha cfg now cached charged p st) = d")
      case True
      then show ?thesis by (simp add: st thins_refl)
    next
      case False
      then show ?thesis
        by (intro thins_update [where P = "\<lambda>q. p_id q = p_id p \<and> p_status q = P_queued"
              and f = "\<lambda>q. q\<lparr> p_status := (if Option.bind (pending_row_subject_key sha p) cached = None then P_cancelled else P_reused) \<rparr>"])
          (auto simp: settle_row_def Let_def in_flight_def st split: if_splits option.splits)
    qed
  qed
  have "thins sha (snd st) (snd (fold (settle_row sha cfg now cached charged) ps st))" for cached charged ps st
  proof (induction ps arbitrary: st)
    case (Cons p ps)
    show ?case using thins_trans [OF step Cons.IH] by simp
  qed (simp add: thins_refl)
  from this [of "(0, db)"] show ?thesis
    by (simp add: settle_queued_from_known_answers_def Let_def thins_refl split: prod.split) (metis snd_conv)
qed

subsection \<open>A claim buys nothing twice\<close>

lemma retires_bought:
  assumes "retires db db'" "bought_once sha db"
  shows "bought_once sha db'"
proof -
  have t: "map p_trace_type ps = map (\<lambda>x. fst (snd (snd x))) (map row_bill ps)" for ps by (simp add: row_bill_def)
  have "map row_bill (pending (sk db')) = map row_bill (pending (sk db))" using assms(1) unfolding retires_def by blast
  then have "map p_trace_type (pending (sk db')) = map p_trace_type (pending (sk db))" unfolding t by simp
  then have "p_trace_type ` set (pending (sk db')) = p_trace_type ` set (pending (sk db))" by (metis list.set_map)
  then have "\<forall>p \<in> set (pending (sk db')). p_trace_type p \<in> set TRACE_TYPES"
    using assms(2) unfolding bought_once_def by (metis imageE imageI)
  moreover have "filter in_flight (pending (sk db')) = filter in_flight (pending (sk db))" using assms(1) unfolding retires_def by blast
  ultimately show ?thesis using assms(2) retires_facts(6) [OF assms(1)] unfolding bought_once_def by simp
qed

lemma unanswered_everywhere:
  assumes "inj sha" "bought_once sha db" "p \<in> set (pending (sk db))" "q \<in> set (pending (sk db))" "in_flight q"
    "unanswered sha cfg now db p"
  shows "pending_row_subject_key sha q \<noteq> pending_row_subject_key sha p"
proof
  assume e: "pending_row_subject_key sha q = pending_row_subject_key sha p"
  then have "subject_of q = subject_of p"
    using subject_key_inject [OF assms(1)] assms(2-4) by (simp add: bought_once_def)
  then have "p_user q = p_user p" by (simp add: subject_of_def)
  then have "pending_row_subject_key sha q \<in> set (in_flight_keys sha db [p_user p])"
    using assms(4,5) by (auto simp: in_flight_keys_def in_flight_def)
  then show False using assms(6) e by (simp add: unanswered_def)
qed

lemma claim_bought:
  assumes sha: "inj sha" and b: "bought_once sha db" and c: "dispatch_pass sha cfg dup wm t now lk db = Claimed rows bad db'"
  shows "bought_once sha db'"
proof -
  have d: "distinct (map p_id (pending (sk db)))" using b by (simp add: bought_once_def)
  obtain st pc where st: "rows = drop_blocked_accounts (lk_account lk) now (rf_db st) (rf_rows st)"
    "db' = claim_batch now rows (rf_db st)" "refill_ok sha cfg dup t now lk pc db st"
    using pass_claims [OF d c] by blast
  note cr = claimed_rows [OF d st(3,1)]
  have ret: "retires db (rf_db st)" using st(3) unfolding refill_ok_def by blast
  note b1 = retires_bought [OF ret b]
  let ?ps = "pending (sk (rf_db st))"
  let ?f = "\<lambda>p. if p \<in> set rows then p\<lparr> p_status := P_submitting, p_submitted_at := Some now \<rparr> else p"
  have d1: "distinct (map p_id ?ps)" using b1 by (simp add: bought_once_def)
  have q: "p_status p = P_queued" if "p \<in> set rows" for p
    using cr(6) [OF that] by (simp add: buyable_row_def candidate_row_def)
  have ps: "pending (sk db') = map ?f ?ps"
    unfolding st(2) claim_batch_def update_pending_simps
    by (rule map_cong [OF refl]) (use row_in_iff [OF d1 cr(5)] q in auto)
  have keys: "map (pending_row_subject_key sha) (filter in_flight (map ?f qs))
      = map (pending_row_subject_key sha) (filter (\<lambda>p. in_flight p \<or> p \<in> set rows) qs)" for qs
    by (induction qs) (auto simp: in_flight_def)
  have fl: "filter in_flight ?ps = filter in_flight (pending (sk db))" using ret unfolding retires_def by blast
  have "inj_on (pending_row_subject_key sha) {p \<in> set ?ps. in_flight p \<or> p \<in> set rows}"
  proof (rule inj_onI)
    fix p q' assume p: "p \<in> {p \<in> set ?ps. in_flight p \<or> p \<in> set rows}" and q': "q' \<in> {p \<in> set ?ps. in_flight p \<or> p \<in> set rows}"
      and e: "pending_row_subject_key sha p = pending_row_subject_key sha q'"
    have apart: "pending_row_subject_key sha y \<noteq> pending_row_subject_key sha x" if "x \<in> set rows" "in_flight y" "y \<in> set ?ps" for x y
    proof -
      have "y \<in> set (filter in_flight ?ps)" using that(2,3) by simp
      then have "y \<in> set (pending (sk db))" unfolding fl by simp
      moreover have "x \<in> set (pending (sk db))" "unanswered sha cfg now db x"
        using cr(6) [OF that(1)] by (simp_all add: buyable_row_def)
      ultimately show ?thesis using unanswered_everywhere [OF sha b _ _ that(2)] by blast
    qed
    have in1: "inj_on (pending_row_subject_key sha) (set (filter in_flight ?ps))" "inj_on (pending_row_subject_key sha) (set rows)"
      using b1 cr(1) by (simp_all add: bought_once_def distinct_map)
    show "p = q'"
    proof (cases "in_flight p"; cases "in_flight q'")
      assume "in_flight p" "in_flight q'"
      then show ?thesis using in1(1) p q' e by (auto dest: inj_onD)
    next
      assume "in_flight p" "\<not> in_flight q'"
      then show ?thesis using apart [of q' p] p q' e by auto
    next
      assume "\<not> in_flight p" "in_flight q'"
      then show ?thesis using apart [of p q'] p q' e by auto
    next
      assume "\<not> in_flight p" "\<not> in_flight q'"
      then show ?thesis using in1(2) p q' e by (auto dest: inj_onD)
    qed
  qed
  moreover have "distinct ?ps" using d1 by (simp add: distinct_map)
  ultimately have dist: "distinct (map (pending_row_subject_key sha) (filter (\<lambda>p. in_flight p \<or> p \<in> set rows) ?ps))"
    by (simp add: distinct_map)
  have ids: "map p_id (map ?f qs) = map p_id qs" for qs by (induction qs) simp_all
  have "p_trace_type p \<in> set TRACE_TYPES" if "p \<in> set (map ?f ?ps)" for p
    using that b1 by (auto simp: bought_once_def)
  then show ?thesis
    unfolding bought_once_def ps keys ids using d1 dist by blast
qed

lemma nothing_bought:
  assumes b: "bought_once sha db" and c: "dispatch_pass sha cfg dup wm t now lk db = Nothing_to_claim gone bad db'"
  shows "bought_once sha db'"
proof -
  have d: "distinct (map p_id (pending (sk db)))" using b by (simp add: bought_once_def)
  obtain g dr ar where r: "pass_room (pending (sk db)) (instant now) (cf_caps cfg) (opt_or (credits_for t) 1) = (g, dr, ar)"
    by (cases "pass_room (pending (sk db)) (instant now) (cf_caps cfg) (opt_or (credits_for t) 1)") auto
  let ?pc = "\<lparr> pc_global = g, pc_default = dr, pc_account = ar \<rparr>"
  let ?st = "refill_rounds sha cfg dup wm t now lk ?pc REFILL_MAX_ROUNDS (start_refill wm lk t now db)"
  have "refill_ok sha cfg dup t now lk ?pc db ?st" by (rule refill_rounds_ok [OF d start_refill_ok [OF d]])
  then have "retires db (rf_db ?st)" unfolding refill_ok_def by blast
  moreover have "db' = rf_db ?st" using c by (auto simp: dispatch_pass_def r Let_def split: if_splits)
  ultimately show ?thesis using retires_bought b by simp
qed

subsection \<open>Properties\<close>

lemma thins_ingest:
  assumes "distinct (map p_id (pending (sk db)))"
  shows "thins sha db (snd (ingest_transaction sha now remote parsed qid db))"
proof -
  obtain r db' where t: "ingest_transaction sha now remote parsed qid db = (r, db')"
    by (cases "ingest_transaction sha now remote parsed qid db")
  show ?thesis
  proof (cases "was_ingested r")
    case False
    with transaction_settles(2) [OF t] t show ?thesis by (simp add: thins_refl)
  next
    case True
    then obtain h m u c ids where "r = Ingested h m u c ids" by (cases r) auto
    with t obtain run where i: "run_ok sha now (queue_batch db qid) parsed db parsed run"
      "sk db' = snd (report_usage_from_webhook (sk (before_billing now remote qid (queue_batch db qid) run)) qid now)"
      using ingested by metis
    have "pending (sk db') = map (settled_row parsed (queue_batch db qid) qid) (pending (sk db))"
      unfolding i(2) webhook_frame by (rule before_billing_rows [OF assms i(1)])
    moreover have "thin_map sha (settled_row parsed (queue_batch db qid) qid)"
      by (auto simp: thin_map_def settled_row_def in_flight_def)
    ultimately show ?thesis using t unfolding thins_def by auto
  qed
qed

lemma step_bought:
  assumes "inj sha" "dispatch_step sha db db'" "bought_once sha db"
  shows "bought_once sha db'"
  using assms(2,3)
proof (cases rule: dispatch_step.cases)
  case (claim cfg dup wm t now lk rows bad)
  then show ?thesis using claim_bought [OF assms(1,3)] by blast
next
  case (nothing cfg dup wm t now lk gone bad)
  then show ?thesis using nothing_bought [OF assms(3)] by blast
next
  case (enqueue new)
  have "filter in_flight new = []" using enqueue(2) by (auto simp: filter_empty_conv in_flight_def)
  then show ?thesis using assms(3) enqueue by (auto simp: bought_once_def)
next
  case (ingest now remote parsed qid)
  then have "thins sha db db'" using thins_ingest assms(3) by (simp add: bought_once_def)
  then show ?thesis using thins_bought assms(3) by blast
qed (use assms(3) in \<open>auto intro: thins_bought thins_post thins_release thins_persist thins_sweep thins_settle thins_refl\<close>)

lemma steps_bought: "(dispatch_step sha)\<^sup>*\<^sup>* db db' \<Longrightarrow> inj sha \<Longrightarrow> bought_once sha db \<Longrightarrow> bought_once sha db'"
  by (induction rule: rtranclp_induct) (auto intro: step_bought)

abbreviation dispatch_steps :: "(string \<Rightarrow> string) \<Rightarrow> dispatch_db \<Rightarrow> dispatch_db \<Rightarrow> bool" where
  "dispatch_steps sha \<equiv> (dispatch_step sha)\<^sup>*\<^sup>*"

lemma types_steps:
  assumes env: "\<And>n d. dispatch_steps sha d (tw_env w n d)"
  shows "case try_types sha cfg dup w ts tk of
     Types_deferred x tk' \<Rightarrow> dispatch_steps sha (tk_db tk) (tk_db tk')
   | Types_recorded tk' \<Rightarrow> dispatch_steps sha (tk_db tk) (tk_db tk')
   | Types_done tk' \<Rightarrow> dispatch_steps sha (tk_db tk) (tk_db tk')
   | Types_raised tk' \<Rightarrow> dispatch_steps sha (tk_db tk) (tk_db tk')"
proof (induction ts arbitrary: tk)
  case (Cons t ts)
  let ?n = "tk_pass tk"
  let ?db = "tw_env w ?n (tk_db tk)"
  let ?P = "\<lambda>r db. case r of Types_deferred x tk' \<Rightarrow> dispatch_steps sha db (tk_db tk') | Types_recorded tk' \<Rightarrow> dispatch_steps sha db (tk_db tk')
      | Types_done tk' \<Rightarrow> dispatch_steps sha db (tk_db tk') | Types_raised tk' \<Rightarrow> dispatch_steps sha db (tk_db tk')"
  have IH: "?P (try_types sha cfg dup w ts tk') (tk_db tk')" for tk' using Cons.IH .
  have lift: "?P r a" if "dispatch_steps sha a b" "?P r b" for r a b
    using that by (cases r) (auto intro: rtranclp_trans)
  have IH': "?P (try_types sha cfg dup w ts tk') (tk_db tk)" if "dispatch_steps sha (tk_db tk) d" "tk_db tk' = d" for tk' d
    using lift [OF that(1), of "try_types sha cfg dup w ts tk'"] IH [of tk'] unfolding that(2) by blast
  note e = env [where n = ?n and d = "tk_db tk"]
  show ?case
  proof (cases "tw_lock_free w ?n")
    case False
    then show ?thesis using e by (simp add: Let_def)
  next
    case True
    show ?thesis
    proof (cases "dispatch_pass sha cfg dup (tw_watermark w ?n) t (tw_now w ?n) (tw_locks w ?n) ?db")
      case No_room
      then show ?thesis using True IH' [OF e, of "tk\<lparr> tk_pass := ?n + 1, tk_db := ?db \<rparr>"] by (simp add: Let_def)
    next
      case (Nothing_to_claim gone bad db1)
      have s: "dispatch_steps sha (tk_db tk) db1" using e dispatch_step.nothing [OF Nothing_to_claim] by (rule rtranclp.rtrancl_into_rtrancl)
      then show ?thesis
        using True Nothing_to_claim
          IH' [OF s, of "tk\<lparr> tk_pass := ?n + 1, tk_db := db1, tk_errors := tk_errors tk @ dropped_message bad t \<rparr>"]
        by (simp add: Let_def)
    next
      case (Claimed rows bad db1)
      let ?cl = "map (\<lambda>p. p\<lparr> p_status := P_submitting, p_submitted_at := Some (tw_now w ?n) \<rparr>) rows"
      let ?fin = "settle_post (tw_booked w ?n) (tw_first w ?n) (tw_second w ?n) ?cl (tw_now w ?n) (tw_released w ?n) t db1"
      have "dispatch_steps sha (tk_db tk) db1" using e dispatch_step.claim [OF Claimed] by (rule rtranclp.rtrancl_into_rtrancl)
      then have s: "dispatch_steps sha (tk_db tk) (end_db ?fin)" using dispatch_step.post by (rule rtranclp.rtrancl_into_rtrancl)
      show ?thesis
      proof (cases ?fin)
        case (Batch_rejected es db2)
        then have s2: "dispatch_steps sha (tk_db tk) db2" using s by simp
        show ?thesis
          using True Claimed Batch_rejected
            IH' [OF s2, of "tk\<lparr> tk_pass := ?n + 1, tk_db := db2, tk_errors := (tk_errors tk @ dropped_message bad t) @ es \<rparr>"]
          by (simp add: Let_def)
      qed (use True Claimed s in \<open>simp_all add: Let_def\<close>)
    qed
  qed
qed simp

lemma batches_steps:
  assumes env: "\<And>n d. dispatch_steps sha d (tw_env w n d)"
  shows "dispatch_steps sha (tk_db tk) (tk_db (snd (run_batches sha cfg dup w k tk)))"
proof (induction k arbitrary: tk)
  case (Suc k)
  note t = types_steps [OF env, where cfg = cfg and dup = dup and ts = "[''normal'', ''advanced'']" and tk = tk]
  show ?case
  proof (cases "try_types sha cfg dup w [''normal'', ''advanced''] tk")
    case (Types_recorded tk')
    then have "dispatch_steps sha (tk_db tk) (tk_db tk')" using t by simp
    then show ?thesis using Suc.IH [of tk'] Types_recorded by (auto simp del: try_types.simps intro: rtranclp_trans)
  qed (use t in \<open>simp_all del: try_types.simps\<close>)
qed simp

lemma group_steps:
  assumes env: "\<And>n d. dispatch_steps sha d (env n d)"
  shows "dispatch_steps sha (rr_db st) (rr_db (reconcile_claim env now remote contested g st))"
proof -
  obtain c t n where g: "g = (c, t, n)" by (cases g)
  let ?db1 = "env (rr_step st) (rr_db st)"
  let ?db2 = "env (rr_step st + 1) ?db1"
  let ?rows = "claim_rows (pending (sk ?db1)) c t"
  have s1: "dispatch_steps sha (rr_db st) ?db1" by (rule env)
  have s2: "dispatch_steps sha (rr_db st) ?db2" using s1 env by (rule rtranclp_trans)
  have rel: "dispatch_steps sha (rr_db st) (snd (release_claim ?rows P_queued (Some c) now ?db2))"
    using s2 dispatch_step.release by (rule rtranclp.rtrancl_into_rtrancl)
  have ad: "dispatch_steps sha (rr_db st) (snd (persist_submission (batch_of q) ?rows t True (Some c) ?db2))" for q
    using s2 dispatch_step.adopt by (rule rtranclp.rtrancl_into_rtrancl)
  have "rr_db (reconcile_claim env now remote contested g st) \<in>
      {?db1, ?db2, snd (release_claim ?rows P_queued (Some c) now ?db2)} \<union>
      range (\<lambda>q. snd (persist_submission (batch_of q) ?rows t True (Some c) ?db2))"
    by (auto simp: reconcile_claim_def g Let_def split: verdict.split prod.split)
  then show ?thesis using s1 s2 rel ad by auto
qed

lemma reconcile_steps:
  assumes env: "\<And>n d. dispatch_steps sha d (env n d)"
  shows "dispatch_steps sha db (rr_db (reconcile_stale_claims env now remote queue_ids db))"
proof -
  have run: "dispatch_steps sha (rr_db st) (rr_db (fold (reconcile_claim env now remote contested) gs st))" for gs st remote contested
  proof (induction gs arbitrary: st)
    case (Cons g gs)
    show ?case using rtranclp_trans [OF group_steps [OF env] Cons.IH] by simp
  qed simp
  have two: "dispatch_steps sha db (env 1 (env 0 db))" using env [where d = db] env by (rule rtranclp_trans)
  have started: "dispatch_steps sha db (rr_db (fold (reconcile_claim env now r c) gs
      \<lparr> rr_db = env 1 (env 0 db), rr_known = k, rr_actions = [], rr_step = 2, rr_ingests = [] \<rparr>))" for r c gs k
    using rtranclp_trans [OF two run [of "\<lparr> rr_db = env 1 (env 0 db), rr_known = k, rr_actions = [], rr_step = 2, rr_ingests = [] \<rparr>" r c gs, unfolded reconcile_run.select_convs(1)]] .
  show ?thesis
    unfolding reconcile_stale_claims_def Let_def by (auto simp del: One_nat_def intro: started split: option.split)
qed

lemma if_cases: "dispatch_steps sha db x \<Longrightarrow> dispatch_steps sha db y \<Longrightarrow> dispatch_steps sha db (if b then x else y)"
  by simp

text \<open>
  A whole tick is a sequence of these steps, whatever the world around it does (as long as that too is made of
  steps): what every step keeps holds after every tick.
\<close>

lemma tick_steps:
  assumes env: "\<And>n d. dispatch_steps sha d (tw_env w n d)" and renv: "\<And>n d. dispatch_steps sha d (renv n d)"
  shows "dispatch_steps sha db (snd (dispatch_tick sha cfg max_batches enforced sweep_ok settle_ok settle_free remote queue_ids renv now w db))"
proof -
  let ?db1 = "rr_db (reconcile_stale_claims renv now remote queue_ids db)"
  let ?db2 = "if sweep_ok then snd (cancel_undeliverable_queued cfg ?db1) else ?db1"
  let ?db3 = "if settle_ok then snd (settle_queued_from_known_answers sha cfg now settle_free ?db2) else ?db2"
  let ?tk = "\<lparr> tk_batches = 0, tk_rows = 0, tk_errors = [], tk_pass = 0, tk_db = ?db3 \<rparr>"
  have s1: "dispatch_steps sha db ?db1" by (rule reconcile_steps [OF renv])
  have s2: "dispatch_steps sha db ?db2"
    using s1 rtranclp.rtrancl_into_rtrancl [OF s1 dispatch_step.sweep, of cfg] by simp
  have s3: "dispatch_steps sha db ?db3"
    using s2 rtranclp.rtrancl_into_rtrancl [OF s2 dispatch_step.settle, of cfg now settle_free] by simp
  have s4: "dispatch_steps sha db (tk_db (snd (run_batches sha cfg dup w k ?tk)))" for dup k
    using rtranclp_trans [OF s3 batches_steps [OF env, where tk = ?tk, unfolded tick.select_convs]] .
  have fin: "dispatch_steps sha db (snd (case run_batches sha cfg dup w k ?tk of
      (stop, tk) \<Rightarrow> (case stop of
           Stop_raised \<Rightarrow> Tick_raised
         | Stop_deferred d \<Rightarrow> Tick_done (tk_batches tk) (tk_rows tk) (tk_errors tk) (Some d)
         | Stop_done \<Rightarrow> Tick_done (tk_batches tk) (tk_rows tk) (tk_errors tk) None, tk_db tk)))" for dup k
    using s4 [of dup k] by (cases "run_batches sha cfg dup w k ?tk") simp
  have cap: "dispatch_steps sha db (snd (Daily_cap a b c, db))" "dispatch_steps sha db (snd (Tick_done 0 0 es x, ?db2))" for a b c es x
    using s2 by simp_all
  show ?thesis
    unfolding dispatch_tick_def Let_def if_distrib [of snd] by (intro if_cases cap fin)
qed

text \<open>
  C1: An answer is bought once. As long as nothing but the dispatcher's own steps, enqueues, ingests and changes of leads,
  jobs, accounts and answers happens, no two lookups that are out at the provider (claimed or submitted) are for one
  account, type, address and name: whatever passes claim, whatever replies the provider gives, whatever the
  reconciler releases or adopts, and however ticks interleave with the rest.
\<close>

theorem answer_bought_once:
  assumes "inj sha" "bought_once sha db" "dispatch_steps sha db db'"
    and "p \<in> set (pending (sk db'))" "q \<in> set (pending (sk db'))" "in_flight p" "in_flight q" "subject_of p = subject_of q"
  shows "p = q"
proof -
  have b: "bought_once sha db'" by (rule steps_bought [OF assms(3,1,2)])
  then have "inj_on (pending_row_subject_key sha) (set (filter in_flight (pending (sk db'))))"
    by (simp add: bought_once_def distinct_map)
  moreover have "pending_row_subject_key sha p = pending_row_subject_key sha q"
    using subject_key_inject [OF assms(1)] b assms(4,5,8) by (simp add: bought_once_def)
  ultimately show ?thesis using assms(4-7) by (auto dest: inj_onD)
qed

text \<open>Two lookups out at once are for two subjects, here after a sweep.\<close>

theorem answer_bought_once_witness:
  "let db = snd (cancel_undeliverable_queued sample_config sample_claim_db)
   in {sample_sending ''1'', sample_sending ''2''} \<subseteq> set (pending (sk db)) \<and>
      subject_of (sample_sending ''1'') \<noteq> subject_of (sample_sending ''2'')"
proof -
  let ?db = "snd (cancel_undeliverable_queued sample_config sample_claim_db)"
  have i: "inj id" by simp
  have b: "bought_once id sample_claim_db" by code_simp
  have s: "dispatch_steps id sample_claim_db ?db" using dispatch_step.sweep by blast
  have m: "sample_sending ''1'' \<in> set (pending (sk ?db))" "sample_sending ''2'' \<in> set (pending (sk ?db))"
    "in_flight (sample_sending ''1'')" "in_flight (sample_sending ''2'')" by code_simp+
  have "p_id (sample_sending n) = ''p'' @ n" for n by (simp add: sample_sending_def sample_pending_def)
  from this [of "''1''"] this [of "''2''"] have "sample_sending ''1'' \<noteq> sample_sending ''2''" by auto
  then have "subject_of (sample_sending ''1'') \<noteq> subject_of (sample_sending ''2'')"
    using answer_bought_once [OF i b s m] by blast
  then show ?thesis using m by (simp add: Let_def)
qed

end
