(* ===== verification/MeterOutbox.thy ===== *)
theory MeterOutbox
  imports SkipTraceUsage
begin

text \<open>
  The life of a meter event between the batch that counted it and Stripe: the reporting task
  \<^verbatim>\<open>report_skip_trace_meter_event\<close> (\<^verbatim>\<open>workers/tracerfy_ingest.py\<close>), the sweep of \<^verbatim>\<open>scheduler_helpers/meter.py\<close>, the
  operator's decisions (\<^verbatim>\<open>scripts/settle_skip_trace_meter_rows.py\<close>) and the marking of stranded usage by a plan change
  (\<^verbatim>\<open>_mark_stranded_metered_usage\<close>). A row is named by its batch and user, which are unique; \<open>lock_free\<close> says whether
  the user's advisory lock could be taken. The actor and reference columns of a decision are not modelled.
\<close>

subsection \<open>The reporting task\<close>

definition update_meter :: "(meter_row \<Rightarrow> bool) \<Rightarrow> (meter_row \<Rightarrow> meter_row) \<Rightarrow> skip_db \<Rightarrow> skip_db" where
  "update_meter P f db = db\<lparr> outbox := map (\<lambda>m. if P m then f m else m) (outbox db) \<rparr>"

definition meter_row_of :: "skip_db \<Rightarrow> int \<times> string \<Rightarrow> meter_row option" where
  "meter_row_of db key = find (\<lambda>m. meter_key m = key) (outbox db)"

text \<open>The customer is looked up again when the row has none.\<close>

definition meter_customer :: "skip_db \<Rightarrow> meter_row \<Rightarrow> string option" where
  "meter_customer db m =
     (if str_or (m_customer m) [] \<noteq> [] then m_customer m
      else case users db (m_user m) of None \<Rightarrow> None | Some u \<Rightarrow> stripe_customer_id u)"

definition with_customer :: "string option \<Rightarrow> meter_row \<Rightarrow> meter_row" where
  "with_customer c m = (if str_or c [] \<noteq> [] then m\<lparr> m_customer := c \<rparr> else m)"

datatype meter_reply =
  Not_found | Billing_change | Skipped disposition | Already_reported | Not_billable string | Held | Off | Reported
| Retry

text \<open>What the refusals become; \<open>Retry\<close> is an exception that escapes to the task's automatic retry.\<close>

definition refused_row :: "string \<Rightarrow> datetime \<Rightarrow> meter_row \<Rightarrow> meter_row" where
  "refused_row reason now m =
     m\<lparr> m_disposition := (if reason = ''no_subscription_ever'' then D_non_billable else D_needs_review),
        m_disposition_at := Some now, m_reason := Some reason \<rparr>"

definition unconfigured_row :: "datetime \<Rightarrow> meter_row \<Rightarrow> meter_row" where
  "unconfigured_row now m =
     m\<lparr> m_disposition := D_non_billable, m_disposition_at := Some now, m_reason := Some ''stripe_not_configured'',
        m_reported_at := Some now \<rparr>"

definition reported_row :: "datetime \<Rightarrow> meter_row \<Rightarrow> meter_row" where
  "reported_row now m = m\<lparr> m_reported_at := Some now, m_disposition := D_reported, m_disposition_at := Some now \<rparr>"

text \<open>The result, the event handed to \<^verbatim>\<open>MeterEvent.create\<close> whatever it answered, and the tables after the commit.\<close>

definition report_skip_trace_meter_event ::
    "billing_config \<Rightarrow> (string \<Rightarrow> subscription list option) \<Rightarrow> (stripe_event \<Rightarrow> bool) \<Rightarrow> bool \<Rightarrow> datetime \<Rightarrow>
     int \<times> string \<Rightarrow> skip_db \<Rightarrow> meter_reply \<times> stripe_event option \<times> skip_db" where
  "report_skip_trace_meter_event cfg list_subs create_event lock_free now key db =
     (case meter_row_of db key of
        None \<Rightarrow> (Not_found, None, db)
      | Some m \<Rightarrow>
          if \<not> lock_free then (Billing_change, None, db)
          else if m_disposition m \<noteq> D_pending then (Skipped (m_disposition m), None, db)
          else if m_reported_at m \<noteq> None then (Already_reported, None, db)
          else let c = meter_customer db m;
                   send = (\<lambda>create. report_meter_event_to_stripe cfg list_subs create (m_user m) (m_queue m)
                             (m_units m) c (m_usage_at m) now);
                   attempt = (case send (\<lambda>_. True) of Inr ev \<Rightarrow> ev | Inl _ \<Rightarrow> None);
                   write = (\<lambda>f. update_meter (\<lambda>x. meter_key x = key) (\<lambda>x. f (with_customer c x)) db)
               in case send create_event of
                    Inl (NotBillable reason) \<Rightarrow> (Not_billable reason, attempt, write (refused_row reason now))
                  | Inl MissingCustomer \<Rightarrow> (Held, attempt, db)
                  | Inl StripeNotConfigured \<Rightarrow> (Off, attempt, write (unconfigured_row now))
                  | Inl StripeError \<Rightarrow> (Retry, attempt, db)
                  | Inr _ \<Rightarrow> (Reported, attempt, write (reported_row now)))"

subsection \<open>The sweep\<close>

definition has_customer :: "skip_db \<Rightarrow> string \<Rightarrow> bool" where
  "has_customer db uid = (case users db uid of None \<Rightarrow> False | Some u \<Rightarrow> str_or (stripe_customer_id u) [] \<noteq> [])"

definition requeue_held :: "skip_db \<Rightarrow> skip_db" where
  "requeue_held db =
     update_meter (\<lambda>m. m_disposition m = D_needs_review \<and> m_reason m = Some ''no_customer_id'' \<and> has_customer db (m_user m))
       (\<lambda>m. m\<lparr> m_disposition := D_pending, m_disposition_at := None, m_reason := None \<rparr>) db"

definition swept :: "datetime \<Rightarrow> meter_row \<Rightarrow> bool" where
  "swept now m \<longleftrightarrow> m_disposition m = D_pending \<and> instant (m_created m) < instant now - 30 * 1000000"

text \<open>\<^verbatim>\<open>GROUP BY reason ORDER BY units DESC\<close>; rows of one number of units come in the order of their reason.\<close>

definition held_reasons :: "skip_db \<Rightarrow> (string \<times> int \<times> int) list" where
  "held_reasons db =
     (let held = filter (\<lambda>m. m_disposition m = D_needs_review) (outbox db);
          of_reason = (\<lambda>r. filter (\<lambda>m. opt_or (m_reason m) ''unspecified'' = r) held)
      in sort_key (\<lambda>(r, n, units). - units)
           (map (\<lambda>r. (r, int (length (of_reason r)), sum_list (map m_units (of_reason r))))
             (sorted_distinct (map (\<lambda>m. opt_or (m_reason m) ''unspecified'') held))))"

text \<open>The rows handed to the task again, the number and units of the rows a human has to decide, and the tables.\<close>

definition flush_skip_trace_meter_outbox :: "datetime \<Rightarrow> skip_db \<Rightarrow> (int \<times> string) list \<times> (int \<times> int) \<times> skip_db" where
  "flush_skip_trace_meter_outbox now db =
     (let db1 = requeue_held db; reasons = held_reasons db1
      in (map meter_key (filter (swept now) (outbox db1)),
          (sum_list (map (\<lambda>(r, n, units). n) reasons), sum_list (map (\<lambda>(r, n, units). units) reasons)), db1))"

subsection \<open>A plan change strands reported usage\<close>

definition STRANDED_REASON :: string where
  "STRANDED_REASON = ''metered_item_replaced_before_invoice''"

definition mark_stranded_metered_usage :: "string \<Rightarrow> int \<Rightarrow> datetime \<Rightarrow> skip_db \<Rightarrow> skip_db" where
  "mark_stranded_metered_usage uid period now db =
     (let start = instant (DateTime 1970 1 1 0) + period * 1000000
      in update_meter
           (\<lambda>m. m_user m = uid \<and> m_disposition m = D_reported \<and>
              (case m_usage_at m of Some at \<Rightarrow> start \<le> instant at | None \<Rightarrow> start \<le> instant (m_created m)))
           (\<lambda>m. m\<lparr> m_disposition := D_needs_review, m_disposition_at := Some now, m_reason := Some STRANDED_REASON \<rparr>) db)"

subsection \<open>The operator\<close>

definition in_review :: "meter_row \<Rightarrow> bool" where
  "in_review m \<longleftrightarrow> m_disposition m = D_needs_review"

text \<open>\<open>apply_decision\<close> moves rows out of review only, and returns the rows it changed.\<close>

definition apply_decision ::
    "(int \<times> string) list \<Rightarrow> disposition \<Rightarrow> string option \<Rightarrow> datetime \<Rightarrow> skip_db \<Rightarrow> (int \<times> string) list \<times> skip_db" where
  "apply_decision keys d reason now db =
     (let hit = (\<lambda>m. meter_key m \<in> set keys \<and> in_review m)
      in (map meter_key (filter hit (outbox db)),
          update_meter hit (\<lambda>m. m\<lparr> m_disposition := d, m_disposition_at := Some now, m_reason := reason \<rparr>) db))"

definition release_rows :: "(meter_row \<Rightarrow> bool) \<Rightarrow> string \<Rightarrow> datetime \<Rightarrow> skip_db \<Rightarrow> (int \<times> string) list \<times> skip_db" where
  "release_rows P actor now db =
     (let hit = (\<lambda>m. in_review m \<and> m_reason m = Some STRANDED_REASON \<and> P m)
      in (map meter_key (filter hit (outbox db)),
          update_meter hit (\<lambda>m. m\<lparr> m_disposition := D_reported, m_disposition_at := Some now,
            m_reason := Some (''released after abandoned plan change [by '' @ actor @ '']'') \<rparr>) db))"

record settle_args =
  sa_list :: bool
  sa_user :: "string option"
  sa_settle :: "(int \<times> string) option"
  sa_writeoff :: "(int \<times> string) option"
  sa_writeoff_user :: "string option"
  sa_release :: "(int \<times> string) option"
  sa_release_user :: "string option"
  sa_reference :: "string option"
  sa_reason :: "string option"
  sa_actor :: "string option"
  sa_yes :: bool

definition nonblank :: "string option \<Rightarrow> string option" where
  "nonblank x = (let v = py_strip (str_or x []) in if v = [] then None else Some v)"

definition review_rows :: "string option \<Rightarrow> skip_db \<Rightarrow> meter_row list" where
  "review_rows uid db =
     sort_key m_created (filter (\<lambda>m. in_review m \<and> (str_or uid [] = [] \<or> Some (m_user m) = uid)) (outbox db))"

text \<open>
  The command line: the exit status and the tables. \<open>meanwhile\<close> is what other transactions commit between the
  reads and the guarded UPDATE of a decision.
\<close>

definition settle_release :: "settle_args \<Rightarrow> string \<Rightarrow> datetime \<Rightarrow> skip_db \<Rightarrow> int \<times> skip_db" where
  "settle_release a actor now db =
     (let P = (case sa_release a of Some key \<Rightarrow> (\<lambda>m. meter_key m = key) | None \<Rightarrow> (\<lambda>m. Some (m_user m) = sa_release_user a));
          (released, db') = release_rows P actor now db
      in (0, if released = [] \<or> \<not> sa_yes a then db else db'))"

definition settle_decide ::
    "settle_args \<Rightarrow> (skip_db \<Rightarrow> skip_db) \<Rightarrow> (int \<times> string) list \<Rightarrow> disposition \<Rightarrow> string option \<Rightarrow> datetime \<Rightarrow> skip_db \<Rightarrow>
     int \<times> skip_db" where
  "settle_decide a meanwhile target d reason now db =
     (let scope = (if str_or (sa_user a) [] \<noteq> [] then sa_user a else sa_writeoff_user a);
          asked = concat (map (\<lambda>key. map meter_key (filter (\<lambda>m. meter_key m = key) (review_rows scope db))) target)
      in if asked = [] \<or> \<not> sa_yes a then (0, db)
         else let (changed, db') = apply_decision asked d reason now (meanwhile db)
              in (if set asked \<subseteq> set changed then 0 else 1, db'))"

definition settle_main :: "settle_args \<Rightarrow> (skip_db \<Rightarrow> skip_db) \<Rightarrow> datetime \<Rightarrow> skip_db \<Rightarrow> int \<times> skip_db" where
  "settle_main a meanwhile now db =
     (let actions = [sa_settle a \<noteq> None, sa_writeoff a \<noteq> None, str_or (sa_writeoff_user a) [] \<noteq> [],
                     sa_release a \<noteq> None, str_or (sa_release_user a) [] \<noteq> []];
          long = (\<lambda>x. case nonblank x of None \<Rightarrow> False | Some v \<Rightarrow> length v > 128)
      in if sa_list a \<or> \<not> list_ex id actions then (0, db)
         else case nonblank (sa_actor a) of
           None \<Rightarrow> (2, db)
         | Some actor \<Rightarrow>
             if long (sa_actor a) \<or> long (sa_reference a) then (2, db)
             else if length (filter id actions) > 1 then (2, db)
             else if sa_release a \<noteq> None \<or> str_or (sa_release_user a) [] \<noteq> [] then settle_release a actor now db
             else case sa_settle a of
               Some key \<Rightarrow>
                 if nonblank (sa_reference a) = None then (2, db)
                 else settle_decide a meanwhile [key] D_settled_manual (Some ''recovered outside the meter'') now db
             | None \<Rightarrow>
                 if nonblank (sa_reason a) = None then (2, db)
                 else settle_decide a meanwhile
                        (case sa_writeoff a of Some key \<Rightarrow> [key] | None \<Rightarrow> map meter_key (review_rows (sa_writeoff_user a) db))
                        D_written_off_manual (nonblank (sa_reason a)) now db)"

subsection \<open>The outbox as a transition system\<close>

text \<open>
  A state is the tables and the events handed to Stripe so far. A worker may die, or its commit fail, after the
  call: \<open>lost\<close> keeps the event and drops the write. \<open>others\<close> is every other transaction; none writes the outbox.
\<close>

type_synonym meter_state = "skip_db \<times> stripe_event list"

definition event_list :: "stripe_event option \<Rightarrow> stripe_event list" where
  "event_list e = (case e of None \<Rightarrow> [] | Some ev \<Rightarrow> [ev])"

inductive meter_step :: "billing_config \<Rightarrow> meter_state \<Rightarrow> meter_state \<Rightarrow> bool" for cfg where
  batch: "meter_step cfg (db, sent) (snd (report_usage_from_webhook db qid now), sent)"
| report: "report_skip_trace_meter_event cfg list_subs create_event lock_free now key db = (r, ev, db') \<Longrightarrow>
     meter_step cfg (db, sent) (db', sent @ event_list ev)"
| lost: "report_skip_trace_meter_event cfg list_subs create_event lock_free now key db = (r, ev, db') \<Longrightarrow>
     meter_step cfg (db, sent) (db, sent @ event_list ev)"
| sweep: "meter_step cfg (db, sent) (snd (snd (flush_skip_trace_meter_outbox now db)), sent)"
| strand: "meter_step cfg (db, sent) (mark_stranded_metered_usage uid period now db, sent)"
| decide: "d = D_settled_manual \<or> d = D_written_off_manual \<Longrightarrow>
     meter_step cfg (db, sent) (snd (apply_decision keys d reason now db), sent)"
| release: "meter_step cfg (db, sent) (snd (release_rows P actor now db), sent)"
| others: "outbox db' = outbox db \<Longrightarrow> meter_step cfg (db, sent) (db', sent)"

abbreviation meter_steps :: "billing_config \<Rightarrow> meter_state \<Rightarrow> meter_state \<Rightarrow> bool" where
  "meter_steps cfg \<equiv> (meter_step cfg)\<^sup>*\<^sup>*"

subsection \<open>What a step does to a row\<close>

definition same_usage :: "meter_row \<Rightarrow> meter_row \<Rightarrow> bool" where
  "same_usage m m' \<longleftrightarrow> meter_key m' = meter_key m \<and> m_units m' = m_units m \<and> m_usage_at m' = m_usage_at m"

definition event_of :: "stripe_event \<Rightarrow> meter_row \<Rightarrow> bool" where
  "event_of ev m \<longleftrightarrow> ev_identifier ev = stable_identifier (m_queue m) (m_user m)"

definition says :: "stripe_event \<Rightarrow> meter_row \<Rightarrow> bool" where
  "says ev m \<longleftrightarrow> event_of ev m \<and> ev_value ev = show_int (m_units m) \<and>
     ev_timestamp ev = (case m_usage_at m of None \<Rightarrow> 0 | Some at \<Rightarrow> unix_seconds at)"

text \<open>A row that stands for an event Stripe has been handed.\<close>

definition told :: "meter_row \<Rightarrow> bool" where
  "told m \<longleftrightarrow> m_disposition m = D_reported \<or> (m_disposition m = D_needs_review \<and> m_reason m = Some STRANDED_REASON)"

fun meter_ok :: "meter_state \<Rightarrow> bool" where
  "meter_ok (db, sent) \<longleftrightarrow>
     distinct (map meter_key (outbox db)) \<and> (\<forall>m \<in> set (outbox db). 0 < m_units m) \<and>
     (\<forall>m \<in> set (outbox db). told m \<longrightarrow> (\<exists>ev \<in> set sent. event_of ev m)) \<and>
     (\<forall>ev \<in> set sent. \<exists>m \<in> set (outbox db). says ev m)"

lemma meter_okD: "meter_ok (db, sent) \<Longrightarrow> ev \<in> set sent \<Longrightarrow> \<exists>m \<in> set (outbox db). says ev m"
  by simp

lemma same_usage_keeps:
  assumes "same_usage m m'"
  shows "event_of ev m' = event_of ev m" "says ev m' = says ev m" "meter_key m' = meter_key m" "m_units m' = m_units m"
  using assms by (simp_all add: same_usage_def event_of_def says_def meter_key_def)

lemma event_of_key: "event_of ev m \<Longrightarrow> event_of ev m' \<longleftrightarrow> meter_key m' = meter_key m"
  by (auto simp: event_of_def stable_identifier_inject meter_key_def dest: sym)

lemma row_changes_keep_usage [simp]:
  "same_usage m (with_customer c m)" "same_usage m (refused_row r now m)" "same_usage m (unconfigured_row now m)"
  "same_usage m (reported_row now m)"
  "same_usage m (m\<lparr> m_disposition := d, m_disposition_at := t, m_reason := rs \<rparr>)"
  by (simp_all add: same_usage_def meter_key_def with_customer_def refused_row_def unconfigured_row_def reported_row_def)

lemma same_usage_trans: "same_usage a b \<Longrightarrow> same_usage b c \<Longrightarrow> same_usage a c"
  by (simp add: same_usage_def)

lemma outbox_update: "outbox (update_meter P f db) = map (\<lambda>m. if P m then f m else m) (outbox db)"
  by (simp add: update_meter_def)

text \<open>A rewrite of rows that keeps their usage keeps the invariant when it tells no event that was not handed over.\<close>

lemma ok_update:
  assumes ok: "meter_ok (db, sent)" and f: "\<And>m. same_usage m (f m)"
    and told: "\<And>m. \<lbrakk> m \<in> set (outbox db); P m; told (f m) \<rbrakk> \<Longrightarrow> told m \<or> (\<exists>ev \<in> set sent'. event_of ev m)"
    and new: "set sent \<subseteq> set sent'" "\<And>ev. \<lbrakk> ev \<in> set sent'; ev \<notin> set sent \<rbrakk> \<Longrightarrow> \<exists>m \<in> set (outbox db). says ev m"
  shows "meter_ok (update_meter P f db, sent')"
proof -
  define g where "g = (\<lambda>m. if P m then f m else m)"
  have g: "same_usage m (g m)" for m using f by (simp add: g_def same_usage_def)
  have o: "outbox (update_meter P f db) = map g (outbox db)" by (simp add: g_def outbox_update)
  have k: "map meter_key (map g (outbox db)) = map meter_key (outbox db)"
    using same_usage_keeps(3) [OF g] by (simp add: comp_def)
  have old: "\<exists>ev \<in> set sent'. event_of ev m" if "m \<in> set (outbox db)" "told m" for m
  proof -
    from ok that have "\<exists>ev \<in> set sent. event_of ev m" by simp
    with new(1) show ?thesis by blast
  qed
  have 1: "told (g m) \<longrightarrow> (\<exists>ev \<in> set sent'. event_of ev (g m))" if "m \<in> set (outbox db)" for m
    using told [OF that] old [OF that] same_usage_keeps(1) [OF g, of _ m] by (cases "P m") (auto simp: g_def)
  have 2: "\<exists>m \<in> set (outbox db). says ev (g m)" if "ev \<in> set sent'" for ev
    using ok new(2) [OF that] that same_usage_keeps(2) [OF g] by (cases "ev \<in> set sent") auto
  show ?thesis
    unfolding meter_ok.simps o k
    using ok 1 2 same_usage_keeps(4) [OF g] by (simp only: meter_ok.simps set_map ball_simps bex_simps) simp
qed

lemma refusal_reasons:
  "assert_billable cfg list_subs c at now = Inl (NotBillable r) \<Longrightarrow> r \<noteq> STRANDED_REASON"
  by (auto simp: assert_billable_def Let_def STRANDED_REASON_def split: option.splits if_splits sum.splits)

lemma send_refused:
  "report_meter_event_to_stripe cfg list_subs create uid qid n c at now = Inl (NotBillable r) \<Longrightarrow> r \<noteq> STRANDED_REASON"
  using refusal_reasons [of cfg list_subs c at now r]
  by (auto simp: report_meter_event_to_stripe_def Let_def split: if_splits sum.splits option.splits)

lemma send_accepted:
  assumes "report_meter_event_to_stripe cfg list_subs create uid qid n c at now = Inr e" "0 < n"
  shows "e \<noteq> None \<and> report_meter_event_to_stripe cfg list_subs (\<lambda>_. True) uid qid n c at now = Inr e"
  using assms
  by (auto simp: report_meter_event_to_stripe_def Let_def split: if_splits sum.splits option.splits)

lemma meter_row_of_Some: "meter_row_of db key = Some m \<Longrightarrow> m \<in> set (outbox db) \<and> meter_key m = key"
  by (auto simp: meter_row_of_def find_Some_iff)

text \<open>An attempt is made on a pending row only, with its units and time.\<close>

lemma attempt_says:
  assumes "report_skip_trace_meter_event cfg list_subs create lock_free now key db = (r, Some ev, db')"
  shows "\<exists>m. meter_row_of db key = Some m \<and> m_disposition m = D_pending \<and> says ev m"
proof -
  obtain m where m: "meter_row_of db key = Some m" "m_disposition m = D_pending"
    and s: "(case report_meter_event_to_stripe cfg list_subs (\<lambda>_. True) (m_user m) (m_queue m) (m_units m)
              (meter_customer db m) (m_usage_at m) now of Inr e \<Rightarrow> e | Inl _ \<Rightarrow> None) = Some ev"
    using assms by (auto simp: report_skip_trace_meter_event_def Let_def split: option.splits if_splits sum.splits billing_error.splits)
  then have "report_meter_event_to_stripe cfg list_subs (\<lambda>_. True) (m_user m) (m_queue m) (m_units m)
      (meter_customer db m) (m_usage_at m) now = Inr (Some ev)"
    by (auto split: sum.splits)
  from report_meter_event_sent [OF this] have "says ev m" by (auto simp: says_def event_of_def)
  with m show ?thesis by blast
qed

lemma ok_batch:
  assumes "meter_ok (db, sent)"
  shows "meter_ok (snd (report_usage_from_webhook db qid now), sent)"
proof -
  obtain rows ua where n: "outbox (snd (report_usage_from_webhook db qid now)) = outbox db @ rows"
      "list_all (good_meter qid ua) rows"
    and d: "distinct (map meter_key (outbox (snd (report_usage_from_webhook db qid now))))"
    using outbox_append_only [of db qid now] assms by auto
  have "0 < m_units m \<and> \<not> told m" if "m \<in> set rows" for m
    using n(2) that by (auto simp: list_all_iff good_meter_def told_def STRANDED_REASON_def)
  with d assms show ?thesis unfolding meter_ok.simps n(1) by (auto simp del: map_append)
qed

lemma ok_attempt:
  assumes "meter_ok (db, sent)" "report_skip_trace_meter_event cfg list_subs create lock_free now key db = (r, ev, db')"
  shows "meter_ok (db, sent @ event_list ev)"
    "\<And>e. \<lbrakk> e \<in> set (sent @ event_list ev); e \<notin> set sent \<rbrakk> \<Longrightarrow> \<exists>m \<in> set (outbox db). says e m"
proof -
  show new: "\<exists>m \<in> set (outbox db). says e m" if "e \<in> set (sent @ event_list ev)" "e \<notin> set sent" for e
  proof -
    have "ev = Some e" using that by (auto simp: event_list_def split: option.splits)
    with assms(2) obtain m where "meter_row_of db key = Some m" "says e m" using attempt_says by blast
    then show ?thesis using meter_row_of_Some by blast
  qed
  then show "meter_ok (db, sent @ event_list ev)"
    using assms(1) by (cases ev) (auto simp: event_list_def)
qed

lemma ok_report:
  assumes ok: "meter_ok (db, sent)"
    and r: "report_skip_trace_meter_event cfg list_subs create lock_free now key db = (r, ev, db')"
  shows "meter_ok (db', sent @ event_list ev)"
proof (cases "db' = db")
  case True
  with ok_attempt(1) [OF ok r] show ?thesis by simp
next
  case False
  obtain m where m: "meter_row_of db key = Some m" using r False
    by (auto simp: report_skip_trace_meter_event_def split: option.splits)
  let ?c = "meter_customer db m"
  let ?send = "\<lambda>create. report_meter_event_to_stripe cfg list_subs create (m_user m) (m_queue m) (m_units m) ?c (m_usage_at m) now"
  have mem: "m \<in> set (outbox db)" "meter_key m = key" using meter_row_of_Some [OF m] by auto
  have pos: "0 < m_units m" using ok mem by simp
  have only: "x = m" if "x \<in> set (outbox db)" "meter_key x = key" for x
    using ok that mem by (auto simp: distinct_map dest: inj_onD)
  obtain f where db': "db' = update_meter (\<lambda>x. meter_key x = key) (\<lambda>x. f (with_customer ?c x)) db"
    and f: "(\<exists>reason. f = refused_row reason now \<and> ?send create = Inl (NotBillable reason)) \<or> f = unconfigured_row now \<or>
       (f = reported_row now \<and> ev \<noteq> None)"
  proof (cases "?send create")
    case (Inl e)
    with r m False that [of "refused_row (case e of NotBillable x \<Rightarrow> x | _ \<Rightarrow> [])  now"] that [of "unconfigured_row now"]
    show ?thesis by (cases e) (auto simp: report_skip_trace_meter_event_def Let_def split: if_splits)
  next
    case (Inr e)
    with r m False send_accepted [OF Inr pos] that [of "reported_row now"]
    show ?thesis by (auto simp: report_skip_trace_meter_event_def Let_def split: if_splits)
  qed
  have f_usage: "same_usage x (f (with_customer ?c x))" for x
    by (rule same_usage_trans [OF row_changes_keep_usage(1) [of _ ?c]]) (use f in auto)
  show ?thesis
    unfolding db'
  proof (rule ok_update [OF ok f_usage])
    fix x assume x: "x \<in> set (outbox db)" "meter_key x = key" "told (f (with_customer ?c x))"
    from f show "told x \<or> (\<exists>e \<in> set (sent @ event_list ev). event_of e x)"
    proof (elim disjE exE conjE)
      fix reason assume "f = refused_row reason now" "?send create = Inl (NotBillable reason)"
      with x(3) send_refused [OF this(2)] show ?thesis
        by (auto simp: told_def refused_row_def split: if_splits)
    next
      assume "f = unconfigured_row now"
      with x(3) show ?thesis by (simp add: told_def unconfigured_row_def)
    next
      assume "ev \<noteq> None"
      then obtain e where e: "ev = Some e" by blast
      obtain m' where "meter_row_of db key = Some m'" "says e m'" using attempt_says r e by blast
      with m only [OF x(1,2)] have "event_of e x" by (simp add: says_def)
      with e show ?thesis by (auto simp: event_list_def)
    qed
  qed (use ok_attempt(2) [OF ok r] in auto)
qed

lemma step_ok: "meter_step cfg s s' \<Longrightarrow> meter_ok s \<Longrightarrow> meter_ok s'"
proof (induction rule: meter_step.induct)
  case (batch db sent qid now)
  then show ?case by (rule ok_batch)
next
  case (report list_subs create lock_free now key db r ev db' sent)
  then show ?case using ok_report by blast
next
  case (lost list_subs create lock_free now key db r ev db' sent)
  then show ?case using ok_attempt(1) by blast
next
  case (sweep db sent now)
  have "meter_ok (requeue_held db, sent)"
    unfolding requeue_held_def by (rule ok_update [OF sweep]) (auto simp: told_def)
  then show ?case by (simp add: flush_skip_trace_meter_outbox_def Let_def)
next
  case (strand db sent uid period now)
  show ?case
    unfolding mark_stranded_metered_usage_def Let_def by (rule ok_update [OF strand]) (auto simp: told_def)
next
  case (decide d db sent keys reason now)
  show ?case
    unfolding apply_decision_def Let_def snd_conv
    by (rule ok_update [OF decide(2)]) (use decide(1) in \<open>auto simp: told_def\<close>)
next
  case (release db sent P actor now)
  show ?case
    unfolding release_rows_def Let_def snd_conv by (rule ok_update [OF release]) (auto simp: told_def in_review_def)
next
  case (others db' db sent)
  then show ?case by simp
qed

lemma steps_ok: "meter_steps cfg s s' \<Longrightarrow> meter_ok s \<Longrightarrow> meter_ok s'"
  by (induction rule: rtranclp_induct) (auto intro: step_ok)

subsection \<open>A settled row\<close>

definition settled :: "meter_row \<Rightarrow> bool" where
  "settled m \<longleftrightarrow> m_disposition m \<in> {D_non_billable, D_written_off_manual, D_settled_manual}"

lemma settled_update:
  "m \<in> set (outbox db) \<Longrightarrow> \<not> P m \<Longrightarrow> m \<in> set (outbox (update_meter P f db))"
  by (force simp: outbox_update)

text \<open>Nothing is sent for a row that is not pending, and a report writes no such row.\<close>

lemma attempt_other:
  assumes "report_skip_trace_meter_event cfg list_subs create lock_free now key db = (r, ev, db')"
    and d: "distinct (map meter_key (outbox db))" and m: "m \<in> set (outbox db)" "m_disposition m \<noteq> D_pending"
  shows "filter (\<lambda>e. event_of e m) (event_list ev) = []" "m \<in> set (outbox db')"
proof -
  have same: "x = m" if "meter_row_of db key = Some x" "meter_key m = meter_key x" for x
    using d m(1) meter_row_of_Some [OF that(1)] that(2) by (auto simp: distinct_map dest: inj_onD)
  have "\<not> event_of e m" if e: "ev = Some e" for e
  proof
    assume em: "event_of e m"
    obtain x where x: "meter_row_of db key = Some x" "m_disposition x = D_pending" "says e x"
      using attempt_says assms(1) e by blast
    then have "meter_key m = meter_key x" using event_of_key [of e x m] em by (simp add: says_def)
    with same [OF x(1)] x(2) m(2) show False by simp
  qed
  then show "filter (\<lambda>e. event_of e m) (event_list ev) = []" by (cases ev) (auto simp: event_list_def)
  show "m \<in> set (outbox db')"
  proof (cases "db' = db")
    case False
    then obtain x f where x: "meter_row_of db key = Some x" "m_disposition x = D_pending"
      "db' = update_meter (\<lambda>y. meter_key y = key) f db"
      using assms(1) by (auto simp: report_skip_trace_meter_event_def Let_def
          split: option.splits if_splits sum.splits billing_error.splits)
    then have "meter_key m \<noteq> key" using same [OF x(1)] meter_row_of_Some [OF x(1)] m(2) by auto
    with x(3) m(1) settled_update [of m db] show ?thesis by simp
  qed (use m in simp)
qed

lemma step_settled:
  assumes "meter_step cfg s s'" "distinct (map meter_key (outbox (fst s)))" "m \<in> set (outbox (fst s))" "settled m"
  shows "m \<in> set (outbox (fst s')) \<and> filter (\<lambda>ev. event_of ev m) (snd s') = filter (\<lambda>ev. event_of ev m) (snd s)"
  using assms
proof (induction rule: meter_step.induct)
  case (batch db sent qid now)
  obtain rows where "outbox (snd (report_usage_from_webhook db qid now)) = outbox db @ rows"
    using outbox_append_only [of db qid now] batch by auto
  with batch show ?case by simp
next
  case (report list_subs create lock_free now key db r ev db' sent)
  then have "m_disposition m \<noteq> D_pending" by (auto simp: settled_def)
  with attempt_other [OF report(1), of m] report show ?case by simp
next
  case (lost list_subs create lock_free now key db r ev db' sent)
  then have "m_disposition m \<noteq> D_pending" by (auto simp: settled_def)
  with attempt_other [OF lost(1), of m] lost show ?case by simp
next
  case (sweep db sent now)
  then have "\<not> (m_disposition m = D_needs_review \<and> m_reason m = Some ''no_customer_id'' \<and> has_customer db (m_user m))"
    by (auto simp: settled_def)
  with sweep settled_update [of m db] show ?case
    by (simp add: flush_skip_trace_meter_outbox_def requeue_held_def Let_def)
next
  case (strand db sent uid period now)
  then have "m_disposition m \<noteq> D_reported" by (auto simp: settled_def)
  with strand show ?case
    unfolding mark_stranded_metered_usage_def Let_def fst_conv snd_conv by (intro conjI settled_update) simp_all
next
  case (decide d db sent keys reason now)
  then have "\<not> in_review m" by (auto simp: settled_def in_review_def)
  with decide show ?case
    unfolding apply_decision_def Let_def fst_conv snd_conv by (intro conjI settled_update) simp_all
next
  case (release db sent P actor now)
  then have "\<not> in_review m" by (auto simp: settled_def in_review_def)
  with release show ?case
    unfolding release_rows_def Let_def fst_conv snd_conv by (intro conjI settled_update) simp_all
next
  case (others db' db sent)
  then show ?case by simp
qed

subsection \<open>Properties\<close>

text \<open>
  C5: Usage is metered once. Whatever the order of batches, reports, lost commits, sweeps, plan changes and operator
  decisions, every event ever handed to Stripe carries the units and the time of one outbox row, and two events with
  one identifier carry the same units and the same time, so that Stripe, which keeps one event per identifier, counts
  each row at most once and for its own amount; and a row is marked reported only when its event was handed over. The
  customer is not part of the claim: a row without one looks it up at each attempt, so two events of one row may name
  different customers when the account's customer changed after an attempt whose commit was lost.
\<close>

theorem usage_metered_once:
  assumes "outbox db0 = []" "meter_steps cfg (db0, []) (db, sent)"
  shows "distinct (map meter_key (outbox db)) \<and>
    (\<forall>ev \<in> set sent. \<exists>m \<in> set (outbox db). says ev m \<and> 0 < m_units m) \<and>
    (\<forall>ev \<in> set sent. \<forall>ev' \<in> set sent. ev_identifier ev = ev_identifier ev' \<longrightarrow>
       ev_value ev = ev_value ev' \<and> ev_timestamp ev = ev_timestamp ev') \<and>
    (\<forall>m \<in> set (outbox db). m_disposition m = D_reported \<longrightarrow> (\<exists>ev \<in> set sent. event_of ev m))"
proof -
  have ok: "meter_ok (db, sent)" using steps_ok [OF assms(2)] assms(1) by simp
  have same: "ev_value ev = ev_value ev' \<and> ev_timestamp ev = ev_timestamp ev'"
    if ev: "ev \<in> set sent" and ev': "ev' \<in> set sent" and "ev_identifier ev = ev_identifier ev'" for ev ev'
  proof -
    obtain m where m: "m \<in> set (outbox db)" "says ev m" by (rule bexE [OF meter_okD [OF ok ev]])
    obtain m' where m': "m' \<in> set (outbox db)" "says ev' m'" by (rule bexE [OF meter_okD [OF ok ev']])
    have "event_of ev m'" using that m'(2) by (simp add: says_def event_of_def)
    with event_of_key m(2) have "meter_key m' = meter_key m" by (simp add: says_def)
    with ok m(1) m'(1) have "m' = m" by (auto simp: distinct_map dest: inj_onD)
    with m(2) m'(2) show ?thesis by (simp add: says_def)
  qed
  have sent: "\<exists>ev \<in> set sent. event_of ev m" if "m \<in> set (outbox db)" "m_disposition m = D_reported" for m
    using ok that by (simp add: told_def)
  have row: "\<exists>m \<in> set (outbox db). says ev m \<and> 0 < m_units m" if ev: "ev \<in> set sent" for ev
  proof -
    obtain m where "m \<in> set (outbox db)" "says ev m" by (rule bexE [OF meter_okD [OF ok ev]])
    with ok show ?thesis by (intro bexI [of _ m]) simp_all
  qed
  have "distinct (map meter_key (outbox db))" using ok by simp
  then show ?thesis using sent row by (intro conjI ballI impI) (auto dest: same)
qed

definition metered_user :: user_row where
  "metered_user = sample_user\<lparr> skip_trace_used_this_month := 250, stripe_customer_id := Some ''cus'',
     skip_trace_period_start := Some (DateTime 2026 3 6 0) \<rparr>"

definition metered_db :: skip_db where
  "metered_db =
     sample_skip_db\<lparr> users := [''u1'' \<mapsto> metered_user],
       queues := [7 \<mapsto> \<lparr> q_trace_type = ''normal'', q_status = Q_completed, q_rows_uploaded = 1, q_rows_sent = Some 1,
          q_credits = 1, q_download_url = None, q_unmatched_billed = None,
          q_provider_submitted_at = Some (DateTime 2026 3 5 0) \<rparr>],
       pending := [\<lparr> p_id = ''p'', p_job = ''j1'', p_result = ''r1'', p_user = ''u1'', p_fields = [],
          p_trace_type = ''normal'', p_status = P_completed, p_queue = Some 7, p_enqueued_at = DateTime 2026 3 5 0,
          p_submitted_at = None, p_action = None \<rparr>] \<rparr>"

definition sample_report :: "datetime \<Rightarrow> skip_db \<Rightarrow> meter_reply \<times> stripe_event option \<times> skip_db" where
  "sample_report now =
     report_skip_trace_meter_event sample_billing (\<lambda>_. Some [sample_sub]) (\<lambda>_. True) True now (7, ''u1'')"

lemma sample_metered_run:
  "(let (r, ev, db) = sample_report (DateTime 2026 3 6 60) (snd (report_usage_from_webhook metered_db 7 (DateTime 2026 3 6 0)))
    in r = Reported \<and> ev \<noteq> None \<and> map m_disposition (outbox db) = [D_reported])"
  "outbox metered_db = []"
  by code_simp+

lemma sample_metered_steps:
  obtains db sent where "meter_steps sample_billing (metered_db, []) (db, sent)" "map m_disposition (outbox db) = [D_reported]"
proof -
  let ?db = "snd (report_usage_from_webhook metered_db 7 (DateTime 2026 3 6 0))"
  obtain r ev db where r: "sample_report (DateTime 2026 3 6 60) ?db = (r, ev, db)" by (metis prod_cases3)
  have "meter_step sample_billing (metered_db, []) (?db, [])" by (rule meter_step.batch)
  moreover have "meter_step sample_billing (?db, []) (db, [] @ event_list ev)"
    by (rule meter_step.report [OF r [unfolded sample_report_def]])
  ultimately have "meter_steps sample_billing (metered_db, []) (db, [] @ event_list ev)" by simp
  moreover have "map m_disposition (outbox db) = [D_reported]" using sample_metered_run(1) by (simp add: r)
  ultimately show ?thesis by (rule that)
qed

theorem usage_metered_once_witness:
  "\<exists>db sent. meter_steps sample_billing (metered_db, []) (db, sent) \<and> map m_disposition (outbox db) = [D_reported] \<and>
     (\<exists>ev m. ev \<in> set sent \<and> m \<in> set (outbox db) \<and> says ev m)"
proof -
  obtain db sent where s: "meter_steps sample_billing (metered_db, []) (db, sent)" "map m_disposition (outbox db) = [D_reported]"
    by (rule sample_metered_steps)
  note p = usage_metered_once [OF sample_metered_run(2) s(1)]
  obtain m where m: "m \<in> set (outbox db)" "m_disposition m = D_reported" using s(2) by auto
  obtain ev where ev: "ev \<in> set sent" using p m by blast
  then obtain m' where "m' \<in> set (outbox db)" "says ev m'" using p by blast
  with s ev show ?thesis by (intro exI [of _ db] exI [of _ sent] conjI exI [of _ ev] exI [of _ m'])
qed

text \<open>
  C6: A decision is final. A row that was refused for good, written off or settled by hand is never changed again and
  never sent: whatever happens later (retries, sweeps, plan changes, new batches), the row stands as it was
  decided and Stripe is handed no further event of it.
\<close>

theorem settled_usage_is_final:
  assumes "outbox db0 = []" "meter_steps cfg (db0, []) s" "meter_steps cfg s (db, sent)"
    and "m \<in> set (outbox (fst s))" "settled m"
  shows "m \<in> set (outbox db) \<and> filter (\<lambda>ev. event_of ev m) sent = filter (\<lambda>ev. event_of ev m) (snd s)"
proof -
  have ok: "meter_ok s" using steps_ok [OF assms(2)] assms(1) by simp
  have "meter_ok s' \<and> m \<in> set (outbox (fst s')) \<and> filter (\<lambda>ev. event_of ev m) (snd s') = filter (\<lambda>ev. event_of ev m) (snd s)"
    if "meter_steps cfg s s'" for s'
    using that
  proof (induction rule: rtranclp_induct)
    case base
    with ok assms(4) show ?case by simp
  next
    case (step s1 s2)
    then have "distinct (map meter_key (outbox (fst s1)))" by (cases s1) simp
    with step step_settled [OF step(2), of m] step_ok [OF step(2)] assms(5) show ?case by simp
  qed
  from this [OF assms(3)] show ?thesis by simp
qed

lemma sample_written_off:
  "(let db = snd (apply_decision [(7, ''u1'')] D_written_off_manual (Some ''goodwill'') (DateTime 2026 3 8 0)
        (mark_stranded_metered_usage ''u1'' 0 (DateTime 2026 3 7 0)
          (snd (snd (sample_report (DateTime 2026 3 6 60) (snd (report_usage_from_webhook metered_db 7 (DateTime 2026 3 6 0))))))))
    in map m_disposition (outbox db) = [D_written_off_manual])"
  by code_simp

theorem settled_usage_is_final_witness:
  "\<exists>s m. meter_steps sample_billing (metered_db, []) s \<and> outbox (fst s) = [m] \<and> m_disposition m = D_written_off_manual \<and>
     m \<in> set (outbox (snd (snd (sample_report (DateTime 2026 3 9 0) (fst s)))))"
proof -
  let ?db = "snd (report_usage_from_webhook metered_db 7 (DateTime 2026 3 6 0))"
  let ?fin = "\<lambda>db. snd (apply_decision [(7, ''u1'')] D_written_off_manual (Some ''goodwill'') (DateTime 2026 3 8 0)
    (mark_stranded_metered_usage ''u1'' 0 (DateTime 2026 3 7 0) db))"
  obtain r ev db where r: "sample_report (DateTime 2026 3 6 60) ?db = (r, ev, db)" by (metis prod_cases3)
  let ?s = "(?fin db, event_list ev)"
  have s1: "meter_step sample_billing (metered_db, []) (?db, [])" by (rule meter_step.batch)
  have s2: "meter_step sample_billing (?db, []) (db, event_list ev)"
    using meter_step.report [OF r [unfolded sample_report_def], of "[]"] by simp
  have s3: "meter_step sample_billing (db, event_list ev)
      (mark_stranded_metered_usage ''u1'' 0 (DateTime 2026 3 7 0) db, event_list ev)"
    by (rule meter_step.strand)
  have s4: "meter_step sample_billing (mark_stranded_metered_usage ''u1'' 0 (DateTime 2026 3 7 0) db, event_list ev) ?s"
    by (rule meter_step.decide) simp
  have s: "meter_steps sample_billing (metered_db, []) ?s"
    by (rule converse_rtranclp_into_rtranclp [OF s1 converse_rtranclp_into_rtranclp [OF s2
          converse_rtranclp_into_rtranclp [OF s3 r_into_rtranclp [where r = "meter_step sample_billing", OF s4]]]])
  have "map m_disposition (outbox (?fin db)) = [D_written_off_manual]" using sample_written_off by (simp add: r Let_def)
  then obtain m where m: "outbox (?fin db) = [m]" "m_disposition m = D_written_off_manual" by auto
  obtain r2 ev2 db2 where r2: "sample_report (DateTime 2026 3 9 0) (?fin db) = (r2, ev2, db2)" by (metis prod_cases3)
  have "meter_steps sample_billing ?s (db2, event_list ev @ event_list ev2)"
    using meter_step.report [OF r2 [unfolded sample_report_def], of "event_list ev"] by blast
  with settled_usage_is_final [OF sample_metered_run(2) s, of db2 _ m] m have "m \<in> set (outbox db2)"
    by (auto simp: settled_def)
  then show ?thesis using s m r2 by (intro exI [of _ ?s] exI [of _ m]) simp
qed

end
