(* ===== verification/ContactActions.thy ===== *)
theory ContactActions
  imports DispatchPass
begin

text \<open>
  The "look up contacts" action, as a state machine over its three tables: the moves and verdicts of
  \<^verbatim>\<open>workers/contact_lookup_action.py\<close>, the confirmation that creates an action (\<^verbatim>\<open>api/routes/jobs.py\<close>), and the
  reconciler of \<^verbatim>\<open>scheduler_helpers/contact_lookups.py\<close>. Where a function raises it returns None (the caller rolls
  back). The stamps nothing reads (\<^verbatim>\<open>started_at\<close>, \<^verbatim>\<open>settled_at\<close>, \<^verbatim>\<open>status_changed_at\<close>, \<^verbatim>\<open>decided_at\<close>) are not modelled.
\<close>

subsection \<open>The matrices\<close>

datatype action_status = A_dispatching | A_running | A_claimed | A_settled | A_failed | A_expired

definition LEASE_SECONDS :: int where
  "LEASE_SECONDS = 600"

definition ACTION_DEADLINE_SECONDS :: int where
  "ACTION_DEADLINE_SECONDS = 30 * 60"

fun ACTION_TRANSITIONS :: "action_status \<Rightarrow> action_status list" where
  "ACTION_TRANSITIONS A_dispatching = [A_running, A_expired]"
| "ACTION_TRANSITIONS A_running = [A_claimed, A_failed, A_dispatching]"
| "ACTION_TRANSITIONS A_claimed = [A_settled]"
| "ACTION_TRANSITIONS _ = []"

datatype lead_verdict =
  V_quoted | V_newly_queued | V_reused | V_already_answered | V_in_progress_elsewhere | V_ineligible | V_abandoned
| V_no_address | V_placeholder_address | V_settled_code_violation | V_atip_policy | V_not_traceable
| V_hit | V_miss | V_unmatched_billable | V_unmatched_unbilled | V_errored_unsubmitted | V_released

definition EXCLUDED :: "lead_verdict list" where
  "EXCLUDED = [V_no_address, V_placeholder_address, V_settled_code_violation, V_atip_policy, V_not_traceable]"

definition TERMINAL_ANSWERS :: "lead_verdict list" where
  "TERMINAL_ANSWERS = [V_hit, V_miss, V_unmatched_billable, V_unmatched_unbilled, V_errored_unsubmitted, V_released]"

fun VERDICT_TRANSITIONS :: "lead_verdict \<Rightarrow> lead_verdict list" where
  "VERDICT_TRANSITIONS V_quoted =
     [V_newly_queued, V_reused, V_already_answered, V_in_progress_elsewhere, V_ineligible, V_abandoned] @ EXCLUDED"
| "VERDICT_TRANSITIONS V_newly_queued = TERMINAL_ANSWERS"
| "VERDICT_TRANSITIONS _ = []"

subsection \<open>The tables\<close>

record action_row =
  ac_id :: string
  ac_user :: string
  ac_job :: string
  ac_quote :: string
  ac_status :: action_status
  ac_reason :: "string option"
  ac_created :: datetime
  ac_lease :: "(string \<times> int) option"
  ac_dispatched :: "datetime option"
  ac_claimed_at :: "datetime option"
  ac_quoted_count :: int
  ac_policy :: bool
  ac_newly :: int
  ac_reused :: int
  ac_claimed_count :: int
  ac_billable :: int
  ac_credits :: int

record verdict_row =
  v_action :: string
  v_user :: string
  v_result :: string
  v_state :: lead_verdict

datatype event_kind =
  Created | Moved action_status action_status | Flagged action_status | Decided lead_verdict lead_verdict

record action_event =
  ev_action :: string
  ev_result :: "string option"
  ev_kind :: event_kind
  ev_reason :: "string option"
  ev_lease :: "string option"

record contact_db =
  cd_tables :: dispatch_db
  cd_actions :: "action_row list"
  cd_verdicts :: "verdict_row list"
  cd_events :: "action_event list"

text \<open>\<open>ac_policy\<close>: the pinned policy of the snapshot reads as a JSON \<^verbatim>\<open>true\<close>. \<open>ac_lease\<close>: token and instant of expiry.\<close>

definition action_of :: "contact_db \<Rightarrow> string \<Rightarrow> action_row option" where
  "action_of db aid = find (\<lambda>a. ac_id a = aid) (cd_actions db)"

definition update_action :: "(action_row \<Rightarrow> bool) \<Rightarrow> (action_row \<Rightarrow> action_row) \<Rightarrow> contact_db \<Rightarrow> contact_db" where
  "update_action P f db = db\<lparr> cd_actions := map (\<lambda>a. if P a then f a else a) (cd_actions db) \<rparr>"

definition with_tables :: "(dispatch_db \<Rightarrow> dispatch_db) \<Rightarrow> contact_db \<Rightarrow> contact_db" where
  "with_tables f db = db\<lparr> cd_tables := f (cd_tables db) \<rparr>"

definition log_event :: "action_event list \<Rightarrow> contact_db \<Rightarrow> contact_db" where
  "log_event es db = db\<lparr> cd_events := cd_events db @ es \<rparr>"

subsection \<open>One move\<close>

definition lease_is :: "datetime \<Rightarrow> string \<Rightarrow> action_row \<Rightarrow> bool" where
  "lease_is now token a = (case ac_lease a of None \<Rightarrow> False | Some (t, e) \<Rightarrow> t = token \<and> instant now < e)"

definition move_hits :: "datetime \<Rightarrow> string \<Rightarrow> action_status \<Rightarrow> action_status \<Rightarrow> string option \<Rightarrow> action_row \<Rightarrow> bool" where
  "move_hits now aid frm to fence a \<longleftrightarrow>
     ac_id a = aid \<and> ac_status a = frm \<and>
     (to = A_running \<longrightarrow> instant now - ACTION_DEADLINE_SECONDS * 1000000 < instant (ac_created a)) \<and>
     (case fence of None \<Rightarrow> True | Some token \<Rightarrow> lease_is now token a)"

definition moved_row ::
    "datetime \<Rightarrow> action_status \<Rightarrow> string option \<Rightarrow> string option \<Rightarrow> (action_row \<Rightarrow> action_row) \<Rightarrow> action_row \<Rightarrow> action_row" where
  "moved_row now to reason new_token counts a =
     (counts a)\<lparr> ac_status := to, ac_reason := reason,
        ac_lease := map_option (\<lambda>t. (t, instant now + LEASE_SECONDS * 1000000)) new_token,
        ac_claimed_at := (if to = A_claimed then Some now else ac_claimed_at a) \<rparr>"

text \<open>\<open>counts\<close> sets the count columns a move may write. The boolean is whether the compare-and-set matched.\<close>

definition move_action ::
    "datetime \<Rightarrow> string \<Rightarrow> action_status \<Rightarrow> action_status \<Rightarrow> string option \<Rightarrow> string option \<Rightarrow> string option \<Rightarrow>
     (action_row \<Rightarrow> action_row) \<Rightarrow> contact_db \<Rightarrow> (bool \<times> contact_db) option" where
  "move_action now aid frm to reason fence new_token counts db =
     (if to \<notin> set (ACTION_TRANSITIONS frm) \<or> (new_token \<noteq> None) \<noteq> (to = A_running) then None
      else if \<not> list_ex (move_hits now aid frm to fence) (cd_actions db) then Some (False, db)
      else Some (True,
        log_event [\<lparr> ev_action = aid, ev_result = None, ev_kind = Moved frm to, ev_reason = reason,
                     ev_lease = (if new_token = None then fence else new_token) \<rparr>]
          (update_action (move_hits now aid frm to fence) (moved_row now to reason new_token counts) db)))"

definition FLAGGABLE :: "action_status list" where
  "FLAGGABLE = [A_claimed]"

definition flag_action :: "string \<Rightarrow> action_status \<Rightarrow> string option \<Rightarrow> contact_db \<Rightarrow> (bool \<times> contact_db) option" where
  "flag_action aid s reason db =
     (let hit = (\<lambda>a. ac_id a = aid \<and> ac_status a = s \<and> ac_reason a \<noteq> reason)
      in if s \<notin> set FLAGGABLE then None
         else if \<not> list_ex hit (cd_actions db) then Some (False, db)
         else Some (True,
           log_event [\<lparr> ev_action = aid, ev_result = None, ev_kind = Flagged s, ev_reason = Some (str_or reason ''flag_cleared''),
                        ev_lease = None \<rparr>]
             (update_action hit (\<lambda>a. a\<lparr> ac_reason := reason \<rparr>) db)))"

subsection \<open>Verdicts\<close>

definition verdict_hits :: "string \<Rightarrow> string \<Rightarrow> lead_verdict \<Rightarrow> (string \<times> lead_verdict) list \<Rightarrow> verdict_row \<Rightarrow> bool" where
  "verdict_hits aid uid frm vs v \<longleftrightarrow>
     v_action v = aid \<and> v_user v = uid \<and> v_state v = frm \<and> map_of vs (v_result v) \<noteq> None"

text \<open>\<open>vs\<close> and \<open>reasons\<close> are the dicts (distinct keys); None unless exactly the named leads moved.\<close>

definition set_verdicts ::
    "string \<Rightarrow> string \<Rightarrow> lead_verdict \<Rightarrow> (string \<times> lead_verdict) list \<Rightarrow> (string \<times> string) list \<Rightarrow> contact_db \<Rightarrow> contact_db option" where
  "set_verdicts aid uid frm vs reasons db =
     (if list_ex (\<lambda>(r, to). to \<notin> set (VERDICT_TRANSITIONS frm)) vs then None
      else if length (filter (verdict_hits aid uid frm vs) (cd_verdicts db)) \<noteq> length vs then None
      else Some (log_event
        (map (\<lambda>(r, why). \<lparr> ev_action = aid, ev_result = Some r, ev_kind = Decided frm (opt_or (map_of vs r) frm), ev_reason = Some why,
                         ev_lease = None \<rparr>) (sort_key fst reasons))
        (db\<lparr> cd_verdicts := map (\<lambda>v. if verdict_hits aid uid frm vs v
             then v\<lparr> v_state := opt_or (map_of vs (v_result v)) frm \<rparr> else v) (cd_verdicts db) \<rparr>)))"

definition quoted_ids :: "string \<Rightarrow> string \<Rightarrow> contact_db \<Rightarrow> string list" where
  "quoted_ids aid uid db =
     sort (map v_result (filter (\<lambda>v. v_action v = aid \<and> v_user v = uid \<and> v_state v = V_quoted) (cd_verdicts db)))"

text \<open>Every still-quoted lead abandoned, for \<open>reason\<close>.\<close>

definition abandon_quoted :: "string \<Rightarrow> string \<Rightarrow> string \<Rightarrow> contact_db \<Rightarrow> contact_db option" where
  "abandon_quoted aid uid reason db =
     (let ids = quoted_ids aid uid db
      in set_verdicts aid uid V_quoted (map (\<lambda>i. (i, V_abandoned)) ids) (map (\<lambda>i. (i, reason)) ids) db)"

text \<open>The committed failure and wait transactions; None: a raise, rolled back.\<close>

definition fail_action :: "datetime \<Rightarrow> action_row \<Rightarrow> string \<Rightarrow> string \<Rightarrow> contact_db \<Rightarrow> contact_db option" where
  "fail_action now a token reason db =
     (case move_action now (ac_id a) A_running A_failed (Some reason) (Some token) None id db of
        None \<Rightarrow> None
      | Some (True, db1) \<Rightarrow> abandon_quoted (ac_id a) (ac_user a) reason db1
      | Some (False, db1) \<Rightarrow> Some db1)"

definition wait_action :: "datetime \<Rightarrow> string \<Rightarrow> string \<Rightarrow> string \<Rightarrow> contact_db \<Rightarrow> contact_db option" where
  "wait_action now aid token reason db =
     map_option snd (move_action now aid A_running A_dispatching (Some reason) (Some token) None id db)"

definition start_action :: "datetime \<Rightarrow> string \<Rightarrow> string \<Rightarrow> contact_db \<Rightarrow> (bool \<times> contact_db) option" where
  "start_action now aid token db = move_action now aid A_dispatching A_running None None (Some token) id db"

subsection \<open>The confirmation\<close>

datatype confirm_result = Replayed string | Quote_stale | Confirmed

text \<open>
  From the validated quote on: \<open>ids\<close> are its leads (distinct); a quote has at most one action. The claim's join reads the
  new row's owner and job in \<open>actions\<close>.
\<close>

definition confirm_contact_lookups ::
    "datetime \<Rightarrow> string \<Rightarrow> string \<Rightarrow> string \<Rightarrow> string \<Rightarrow> string list \<Rightarrow> bool \<Rightarrow> contact_db \<Rightarrow> confirm_result \<times> contact_db" where
  "confirm_contact_lookups now aid uid job_id quote ids policy db =
     (case find (\<lambda>a. ac_quote a = quote \<and> ac_user a = uid) (cd_actions db) of
        Some a \<Rightarrow> (Replayed (ac_id a), db)
      | None \<Rightarrow>
          let owned = filter (\<lambda>i. case results (sk (cd_tables db)) i of None \<Rightarrow> False
                                  | Some r \<Rightarrow> r_user r = uid \<and> r_job r = job_id) ids
          in if length owned \<noteq> length ids then (Quote_stale, db)
             else (Confirmed,
               log_event [\<lparr> ev_action = aid, ev_result = None, ev_kind = Created, ev_reason = None, ev_lease = None \<rparr>]
                 (with_tables (\<lambda>t. t\<lparr> sk := (sk t)\<lparr> actions := (actions (sk t))(aid \<mapsto> (uid, job_id)) \<rparr> \<rparr>)
                   db\<lparr> cd_actions := cd_actions db @
                       [\<lparr> ac_id = aid, ac_user = uid, ac_job = job_id, ac_quote = quote, ac_status = A_dispatching,
                          ac_reason = None, ac_created = now, ac_lease = None, ac_dispatched = None, ac_claimed_at = None,
                          ac_quoted_count = int (length ids), ac_policy = policy, ac_newly = 0, ac_reused = 0,
                          ac_claimed_count = 0, ac_billable = 0, ac_credits = 0 \<rparr>],
                      cd_verdicts := cd_verdicts db @
                       map (\<lambda>i. \<lparr> v_action = aid, v_user = uid, v_result = i, v_state = V_quoted \<rparr>) owned \<rparr>)))"

subsection \<open>The reconciler\<close>

datatype flag = Pending_row_missing | Result_state_unexpected | Billing_decision_unknown | Provider_reconciliation

definition FLAGS :: "flag list" where
  "FLAGS = [Pending_row_missing, Result_state_unexpected, Billing_decision_unknown, Provider_reconciliation]"

fun flag_text :: "flag \<Rightarrow> string" where
  "flag_text Pending_row_missing = ''pending_row_missing''"
| "flag_text Result_state_unexpected = ''result_state_unexpected''"
| "flag_text Billing_decision_unknown = ''billing_decision_unknown''"
| "flag_text Provider_reconciliation = ''provider_reconciliation_required''"

definition STALE_SUBMITTING :: int where
  "STALE_SUBMITTING = 30 * 60 * 1000000"

text \<open>\<^verbatim>\<open>_CURRENT_ROW_SQL\<close>: the active row first, then the newest.\<close>

definition row_before :: "pending_row \<Rightarrow> pending_row \<Rightarrow> bool" where
  "row_before p q \<longleftrightarrow>
     (active_row p \<and> \<not> active_row q) \<or>
     (active_row p = active_row q \<and>
        (p_enqueued_at q < p_enqueued_at p \<or> (p_enqueued_at q = p_enqueued_at p \<and> p_id q < p_id p)))"

fun best_row :: "pending_row list \<Rightarrow> pending_row option" where
  "best_row [] = None"
| "best_row (p # ps) = (case best_row ps of None \<Rightarrow> Some p | Some q \<Rightarrow> if row_before q p then Some q else Some p)"

definition current_row :: "contact_db \<Rightarrow> string \<Rightarrow> string \<Rightarrow> string \<Rightarrow> pending_row option" where
  "current_row db aid uid rid =
     best_row (filter (\<lambda>p. p_action p = Some aid \<and> p_result p = rid \<and> p_user p = uid) (pending (sk (cd_tables db))))"

datatype lead_outcome = Verdict lead_verdict | Blocked flag | Moving

definition queue_of :: "contact_db \<Rightarrow> pending_row \<Rightarrow> queue_row option" where
  "queue_of db p = Option.bind (p_queue p) (queues (sk (cd_tables db)))"

definition result_status :: "contact_db \<Rightarrow> string \<Rightarrow> string \<Rightarrow> string option" where
  "result_status db uid rid =
     (case results (sk (cd_tables db)) rid of None \<Rightarrow> None | Some r \<Rightarrow> if r_user r = uid then Some (r_skip_trace_status r) else None)"

definition lead_outcome :: "datetime \<Rightarrow> contact_db \<Rightarrow> string \<Rightarrow> string \<Rightarrow> string \<Rightarrow> lead_outcome" where
  "lead_outcome now db aid uid rid =
     (case current_row db aid uid rid of
        None \<Rightarrow> Blocked Pending_row_missing
      | Some p \<Rightarrow>
          if p_status p = P_completed then
            (if result_status db uid rid = Some ''hit'' then Verdict V_hit
             else if result_status db uid rid = Some ''miss'' then Verdict V_miss
             else Blocked Result_state_unexpected)
          else if p_status p = P_unmatched then
            (case Option.bind (queue_of db p) q_unmatched_billed of
               None \<Rightarrow> Blocked Billing_decision_unknown
             | Some billed \<Rightarrow> Verdict (if billed then V_unmatched_billable else V_unmatched_unbilled))
          else if p_status p = P_errored then Verdict V_errored_unsubmitted
          else if p_status p = P_cancelled then Verdict V_released
          else if (p_status p = P_submitting \<and>
                   (case p_submitted_at p of None \<Rightarrow> False | Some s \<Rightarrow> instant s < instant now - STALE_SUBMITTING)) \<or>
                  (p_status p = P_submitted \<and> map_option q_status (queue_of db p) = Some Q_errored)
            then Blocked Provider_reconciliation
          else Moving)"

definition newly_queued_leads :: "contact_db \<Rightarrow> action_row \<Rightarrow> string list" where
  "newly_queued_leads db a =
     map v_result (filter (\<lambda>v. v_action v = ac_id a \<and> v_user v = ac_user a \<and> v_state v = V_newly_queued) (cd_verdicts db))"

definition BILLABLE_VERDICTS :: "lead_verdict list" where
  "BILLABLE_VERDICTS = [V_hit, V_miss, V_unmatched_billable]"

definition billable_leads :: "contact_db \<Rightarrow> action_row \<Rightarrow> nat" where
  "billable_leads db a =
     length (filter (\<lambda>v. v_action v = ac_id a \<and> v_user v = ac_user a \<and> v_state v \<in> set BILLABLE_VERDICTS) (cd_verdicts db))"

text \<open>The decided leads with their verdicts, and the flags raised, of one visit.\<close>

definition decided :: "datetime \<Rightarrow> contact_db \<Rightarrow> action_row \<Rightarrow> (string \<times> lead_verdict) list" where
  "decided now db a =
     concat (map (\<lambda>r. case lead_outcome now db (ac_id a) (ac_user a) r of Verdict v \<Rightarrow> [(r, v)] | _ \<Rightarrow> []) (newly_queued_leads db a))"

definition blocked_by :: "datetime \<Rightarrow> contact_db \<Rightarrow> action_row \<Rightarrow> flag list" where
  "blocked_by now db a =
     filter (\<lambda>f. list_ex (\<lambda>r. lead_outcome now db (ac_id a) (ac_user a) r = Blocked f) (newly_queued_leads db a)) FLAGS"

definition settle_visit :: "datetime \<Rightarrow> string \<Rightarrow> contact_db \<Rightarrow> contact_db option" where
  "settle_visit now aid db =
     (case action_of db aid of
        None \<Rightarrow> Some db
      | Some a \<Rightarrow>
          if ac_status a \<noteq> A_claimed then Some db
          else let vs = decided now db a
          in (case (if vs = [] then Some db else set_verdicts aid (ac_user a) V_newly_queued vs [] db) of
                None \<Rightarrow> None
              | Some db1 \<Rightarrow>
                  let billable = int (billable_leads db1 a)
                  in if length vs = length (newly_queued_leads db a)
                     then map_option snd (move_action now aid A_claimed A_settled None None None (\<lambda>a. a\<lparr> ac_billable := billable \<rparr>) db1)
                     else (case flag_action aid A_claimed (map_option flag_text (find (\<lambda>_. True) (blocked_by now db a))) db1 of
                             None \<Rightarrow> None
                           | Some (raised, db2) \<Rightarrow>
                               Some (update_action (\<lambda>x. ac_id x = aid) (\<lambda>x. x\<lparr> ac_billable := billable \<rparr>) db2))))"

definition expire_due :: "datetime \<Rightarrow> action_row \<Rightarrow> bool" where
  "expire_due now a \<longleftrightarrow> ac_status a = A_dispatching \<and> instant (ac_created a) \<le> instant now - ACTION_DEADLINE_SECONDS * 1000000"

definition expire_visit :: "datetime \<Rightarrow> string \<Rightarrow> contact_db \<Rightarrow> contact_db option" where
  "expire_visit now aid db =
     (case action_of db aid of
        None \<Rightarrow> Some db
      | Some a \<Rightarrow>
          if \<not> expire_due now a then Some db
          else (case move_action now aid A_dispatching A_expired (Some ''deadline'') None None id db of
                  None \<Rightarrow> None
                | Some (ok, db1) \<Rightarrow> abandon_quoted aid (ac_user a) ''deadline'' db1))"

definition lease_over :: "datetime \<Rightarrow> action_row \<Rightarrow> bool" where
  "lease_over now a \<longleftrightarrow> ac_status a = A_running \<and> (case ac_lease a of None \<Rightarrow> False | Some (t, e) \<Rightarrow> e < instant now)"

definition take_back_visit :: "datetime \<Rightarrow> string \<Rightarrow> contact_db \<Rightarrow> contact_db option" where
  "take_back_visit now aid db =
     (case action_of db aid of
        None \<Rightarrow> Some db
      | Some a \<Rightarrow>
          if \<not> lease_over now a then Some db
          else map_option snd (move_action now aid A_running A_dispatching (Some ''lease_expired'') None None id db))"

definition republish_due :: "datetime \<Rightarrow> action_row \<Rightarrow> bool" where
  "republish_due now a \<longleftrightarrow>
     ac_status a = A_dispatching \<and> instant now - ACTION_DEADLINE_SECONDS * 1000000 < instant (ac_created a) \<and>
     (case ac_dispatched a of
        None \<Rightarrow> instant (ac_created a) < instant now - 60 * 1000000
      | Some d \<Rightarrow> instant d < instant now - 300 * 1000000)"

text \<open>The publish itself reaches the broker or not; the attempt is stamped either way.\<close>

definition republish_visit :: "datetime \<Rightarrow> string \<Rightarrow> contact_db \<Rightarrow> contact_db option" where
  "republish_visit now aid db =
     (case action_of db aid of
        None \<Rightarrow> Some db
      | Some a \<Rightarrow>
          if \<not> republish_due now a then Some db
          else Some (update_action (\<lambda>x. ac_id x = aid) (\<lambda>x. x\<lparr> ac_dispatched := Some now \<rparr>) db))"

text \<open>The candidates of a pass, past the rows another transaction holds, and the visits, each in its own transaction.\<close>

definition pass_candidates :: "(string \<Rightarrow> bool) \<Rightarrow> (action_row \<Rightarrow> bool) \<Rightarrow> (action_row \<Rightarrow> int) \<Rightarrow> nat \<Rightarrow> contact_db \<Rightarrow> string list" where
  "pass_candidates held P order_by n db =
     take n (map ac_id (sort_key (\<lambda>a. (order_by a, ac_id a)) (filter (\<lambda>a. P a \<and> \<not> held (ac_id a)) (cd_actions db))))"

definition visit_each ::
    "(string \<Rightarrow> contact_db \<Rightarrow> contact_db) \<Rightarrow> (string \<Rightarrow> bool) \<Rightarrow> (string \<Rightarrow> contact_db \<Rightarrow> contact_db option) \<Rightarrow>
     string list \<Rightarrow> nat \<times> contact_db \<Rightarrow> nat \<times> contact_db" where
  "visit_each env held visit ids st =
     fold (\<lambda>aid (errors, db).
       let db1 = env aid db
       in if held aid then (errors, db1)
          else case visit aid db1 of None \<Rightarrow> (errors + 1, db1) | Some db2 \<Rightarrow> (errors, db2)) ids st"

definition settle_groups :: "datetime \<Rightarrow> contact_db \<Rightarrow> ((action_row \<Rightarrow> bool) \<times> nat) list" where
  "settle_groups now db =
     (let outcomes = (\<lambda>a. map (lead_outcome now db (ac_id a) (ac_user a)) (newly_queued_leads db a));
          mappable = (\<lambda>a. list_ex (\<lambda>x. case x of Verdict _ \<Rightarrow> True | _ \<Rightarrow> False) (outcomes a));
          blocker = (\<lambda>a. list_ex (\<lambda>x. case x of Blocked _ \<Rightarrow> True | _ \<Rightarrow> False) (outcomes a));
          nothing_active = (\<lambda>a. \<not> list_ex (\<lambda>r. case current_row db (ac_id a) (ac_user a) r of
                                 None \<Rightarrow> False | Some p \<Rightarrow> active_row p) (newly_queued_leads db a));
          claimed = (\<lambda>a. ac_status a = A_claimed)
      in [(\<lambda>a. claimed a \<and> mappable a, 50), (\<lambda>a. claimed a \<and> ac_reason a = None \<and> nothing_active a, 20),
          (\<lambda>a. claimed a \<and> ac_reason a = None \<and> blocker a, 20),
          (\<lambda>a. claimed a \<and> ac_reason a \<in> Some ` flag_text ` set FLAGS \<and> \<not> blocker a, 20)])"

definition claimed_order :: "action_row \<Rightarrow> int" where
  "claimed_order a = (case ac_claimed_at a of None \<Rightarrow> instant (DateTime 9999 12 31 0) | Some t \<Rightarrow> instant t)"

definition p4_candidates :: "datetime \<Rightarrow> (string \<Rightarrow> bool) \<Rightarrow> contact_db \<Rightarrow> string list" where
  "p4_candidates now held db =
     rev (remdups (rev (concat (map (\<lambda>(P, n). pass_candidates held P claimed_order n db) (settle_groups now db)))))"

definition reconcile_contact_lookups ::
    "(string \<Rightarrow> contact_db \<Rightarrow> contact_db) \<Rightarrow> (string \<Rightarrow> bool) \<Rightarrow> bool \<Rightarrow> datetime \<Rightarrow> contact_db \<Rightarrow> nat \<times> contact_db" where
  "reconcile_contact_lookups env held enabled now db =
     (let pass = (\<lambda>ids visit st. visit_each env held visit (ids (snd st)) st);
          s1 = pass (pass_candidates held (expire_due now) (\<lambda>a. instant (ac_created a)) 100) (expire_visit now) (0, db);
          s2 = pass (pass_candidates held (lease_over now) (\<lambda>a. case ac_lease a of None \<Rightarrow> 0 | Some (t, e) \<Rightarrow> e) 100) (take_back_visit now) s1;
          s3 = (if enabled
                then pass (pass_candidates held (republish_due now)
                       (\<lambda>a. instant (opt_or (ac_dispatched a) (ac_created a))) 100) (republish_visit now) s2
                else s2)
      in pass (p4_candidates now held) (settle_visit now) s3)"

end
