(* ===== verification/ContactPlanner.thy ===== *)
theory ContactPlanner
  imports SkipTraceClaim Leads
begin

text \<open>
  Which leads a contact-lookup action would buy, \<^verbatim>\<open>src/api/contact_lookup_planner.py\<close>: the verdict on one lead and the
  window a quote walks, with its caps. \<open>build\<close> is \<^verbatim>\<open>build_pending_row_payload\<close> (the payload of a lead, None when it
  cannot be traced), a parameter: its name and address parsing is not modelled, and the lemmas hold for every such function.
\<close>

subsection \<open>Placeholder streets\<close>

definition alnum :: "char \<Rightarrow> bool" where
  "alnum c = (let n = of_char c :: nat in (48 \<le> n \<and> n \<le> 57) \<or> (65 \<le> n \<and> n \<le> 90) \<or> (97 \<le> n \<and> n \<le> 122))"

fun alnum_tokens :: "string \<Rightarrow> string \<Rightarrow> string list" where
  "alnum_tokens w [] = (if w = [] then [] else [rev w])"
| "alnum_tokens w (c # cs) =
     (if alnum c then alnum_tokens (c # w) cs else if w = [] then alnum_tokens [] cs else rev w # alnum_tokens [] cs)"

definition street_is_placeholder :: "string option \<Rightarrow> bool" where
  "street_is_placeholder addr =
     (let street = py_strip (takeWhile (\<lambda>c. c \<noteq> CHR '','') (str_or addr [])); tokens = alnum_tokens [] street
      in street \<noteq> [] \<and> tokens \<noteq> [] \<and> list_all (\<lambda>t. py_lower t = ''unknown'') tokens)"

subsection \<open>One lead\<close>

datatype bucket =
  In_progress | Already_answered | Previously_attempted | No_address | Placeholder | Settled_code_violation | Atip
| Not_traceable | Quotable string

definition IN_PROGRESS_STATUSES :: "string list" where
  "IN_PROGRESS_STATUSES = [''queued'', ''submitted'']"

definition ANSWERED_STATUSES :: "string list" where
  "ANSWERED_STATUSES = [''hit'', ''miss'']"

definition atip_blocked :: "bool \<Rightarrow> lead_row \<Rightarrow> bool" where
  "atip_blocked pierce l \<longleftrightarrow>
     json_str (map_of (json_object (ld_data l)) ''source'') = Some ''tacoma_code_violations'' \<and>
     json_str (map_of (json_object (ld_data l)) ''owner_source'') = Some ''pierce_atip'' \<and> \<not> pierce"

definition classify :: "(lead_row \<Rightarrow> payload option) \<Rightarrow> bool \<Rightarrow> string \<Rightarrow> lead_row \<Rightarrow> bucket" where
  "classify build pierce status l =
     (if status \<in> set IN_PROGRESS_STATUSES then In_progress
      else if status \<in> set ANSWERED_STATUSES then Already_answered
      else if status \<noteq> CLAIMABLE_RESULT_STATUS then Previously_attempted
      else let street = py_strip (str_or (ld_property l) [])
      in if street = [] then No_address
         else if street = ADDRESS_PLACEHOLDER \<or> street_is_placeholder (ld_property l) then Placeholder
         else if is_settled (map_of (json_object (ld_data l)) ''source'') (map_of (json_object (ld_data l)) ''status'')
           then Settled_code_violation
         else if atip_blocked pierce l then Atip
         else case build l of None \<Rightarrow> Not_traceable | Some p \<Rightarrow> Quotable (pl_trace_type p))"

subsection \<open>The window of a quote\<close>

definition QUOTE_CAP :: nat where
  "QUOTE_CAP = 2000"

definition SCAN_CEILING :: nat where
  "SCAN_CEILING = 20000"

text \<open>\<^verbatim>\<open>CREDITS\<close> restates \<^verbatim>\<open>CREDITS_PER_ROW\<close>; an unknown type is a KeyError (None).\<close>

definition PLANNER_CREDITS :: "(string \<times> int) list" where
  "PLANNER_CREDITS = [(''normal'', 1), (''advanced'', 2)]"

datatype stop = Stop_cap | Stop_credit_cap | Stop_scan_limit

record window =
  wn_quoted :: "string list"
  wn_advanced :: nat
  wn_counts :: "(bucket \<times> nat) list"
  wn_examined :: nat
  wn_end :: "(datetime \<times> string) option"
  wn_stopped :: "stop option"
  wn_credit_cap :: "int option"
  wn_credits :: int
  wn_over :: nat

definition count_bucket :: "bucket \<Rightarrow> (bucket \<times> nat) list \<Rightarrow> (bucket \<times> nat) list" where
  "count_bucket b counts =
     (if map_of counts b = None then counts @ [(b, 1)] else map (\<lambda>(c, n). if c = b then (c, n + 1) else (c, n)) counts)"

text \<open>A row as the window sees it: its creation time, status and lead.\<close>

type_synonym tab_row = "datetime \<times> string \<times> lead_row"

definition window_add ::
    "(lead_row \<Rightarrow> payload option) \<Rightarrow> bool \<Rightarrow> nat \<Rightarrow> nat \<Rightarrow> tab_row \<Rightarrow> window \<Rightarrow> window option" where
  "window_add build pierce cap lim row w =
     (let (created, status, l) = row;
          w1 = w\<lparr> wn_examined := wn_examined w + 1, wn_end := Some (created, ld_id l) \<rparr>;
          stop = (\<lambda>w. w\<lparr> wn_stopped :=
             (if cap \<le> length (wn_quoted w) then Some Stop_cap
              else if (case wn_credit_cap w of None \<Rightarrow> False | Some c \<Rightarrow> c - wn_credits w < 1) then Some Stop_credit_cap
              else if lim \<le> wn_examined w then Some Stop_scan_limit else wn_stopped w) \<rparr>)
      in case classify build pierce status l of
           Quotable t \<Rightarrow>
             (case map_of PLANNER_CREDITS t of
                None \<Rightarrow> None
              | Some price \<Rightarrow>
                  Some (stop
                    (if (case wn_credit_cap w of None \<Rightarrow> False | Some c \<Rightarrow> c < wn_credits w + price)
                     then w1\<lparr> wn_over := wn_over w + 1 \<rparr>
                     else w1\<lparr> wn_quoted := wn_quoted w @ [ld_id l], wn_credits := wn_credits w + price,
                             wn_advanced := wn_advanced w + (if t = ''advanced'' then 1 else 0) \<rparr>)))
         | b \<Rightarrow> Some (stop (w1\<lparr> wn_counts := count_bucket b (wn_counts w) \<rparr>)))"

fun plan_window_from ::
    "(lead_row \<Rightarrow> payload option) \<Rightarrow> bool \<Rightarrow> nat \<Rightarrow> nat \<Rightarrow> tab_row list \<Rightarrow> window \<Rightarrow> window option" where
  "plan_window_from build pierce cap lim [] w = Some w"
| "plan_window_from build pierce cap lim (r # rs) w =
     (case window_add build pierce cap lim r w of
        None \<Rightarrow> None
      | Some w' \<Rightarrow> if wn_stopped w' = None then plan_window_from build pierce cap lim rs w' else Some w')"

definition empty_window :: "int option \<Rightarrow> window" where
  "empty_window credit_cap =
     \<lparr> wn_quoted = [], wn_advanced = 0,
       wn_counts = map (\<lambda>b. (b, 0)) [No_address, Placeholder, Settled_code_violation, Atip, Not_traceable],
       wn_examined = 0, wn_end = None, wn_stopped = None, wn_credit_cap = credit_cap, wn_credits = 0, wn_over = 0 \<rparr>"

definition plan_window ::
    "(lead_row \<Rightarrow> payload option) \<Rightarrow> bool \<Rightarrow> nat \<Rightarrow> nat \<Rightarrow> int option \<Rightarrow> tab_row list \<Rightarrow> window option" where
  "plan_window build pierce cap lim credit_cap rows = plan_window_from build pierce cap lim rows (empty_window credit_cap)"

definition status_buckets :: "(string \<times> int) list \<Rightarrow> (bucket \<times> int) list" where
  "status_buckets counts =
     (let total = (\<lambda>P. sum_list (map snd (filter (\<lambda>(s, n). P s) counts)))
      in [(In_progress, total (\<lambda>s. s \<in> set IN_PROGRESS_STATUSES)), (Already_answered, total (\<lambda>s. s \<in> set ANSWERED_STATUSES)),
          (Previously_attempted, total (\<lambda>s. s \<notin> set IN_PROGRESS_STATUSES \<and> s \<notin> set ANSWERED_STATUSES \<and> s \<noteq> CLAIMABLE_RESULT_STATUS))])"

subsection \<open>What a window promises\<close>

definition cost_of :: "(lead_row \<Rightarrow> payload option) \<Rightarrow> bool \<Rightarrow> tab_row \<Rightarrow> int option" where
  "cost_of build pierce r =
     (case classify build pierce (fst (snd r)) (snd (snd r)) of Quotable t \<Rightarrow> map_of PLANNER_CREDITS t | _ \<Rightarrow> None)"

text \<open>After \<open>rows\<close>: the quoted leads are among them, quotable, within both caps and priced one by one.\<close>

definition window_ok :: "(lead_row \<Rightarrow> payload option) \<Rightarrow> bool \<Rightarrow> nat \<Rightarrow> tab_row list \<Rightarrow> window \<Rightarrow> bool" where
  "window_ok build pierce cap rows w \<longleftrightarrow>
     length (wn_quoted w) \<le> cap \<and> wn_examined w \<le> length rows \<and>
     (case wn_credit_cap w of None \<Rightarrow> True | Some c \<Rightarrow> wn_credits w \<le> max 0 c) \<and>
     (\<exists>picked \<in> set (subseqs rows). wn_quoted w = map (\<lambda>r. ld_id (snd (snd r))) picked \<and>
        list_all (\<lambda>r. cost_of build pierce r \<noteq> None) picked \<and>
        wn_credits w = sum_list (map (\<lambda>r. the (cost_of build pierce r)) picked))"

lemma planner_costs: "map_of PLANNER_CREDITS t = Some c \<Longrightarrow> 1 \<le> c \<and> c \<le> 2"
  by (auto simp: PLANNER_CREDITS_def split: if_splits)

lemma subseqs_snoc:
  "picked \<in> set (subseqs rows) \<Longrightarrow> picked \<in> set (subseqs (rows @ [r])) \<and> picked @ [r] \<in> set (subseqs (rows @ [r]))"
  by (induction rows arbitrary: picked) (auto simp: Let_def)

lemma window_add_ok:
  assumes add: "window_add build pierce cap lim r w = Some w'" and ok: "window_ok build pierce cap rows w"
    and room: "length (wn_quoted w) < cap"
  shows "window_ok build pierce cap (rows @ [r]) w' \<and> wn_credit_cap w' = wn_credit_cap w \<and>
    (wn_stopped w' = None \<longrightarrow> length (wn_quoted w') < cap)"
proof -
  obtain created status l where r: "r = (created, status, l)" by (cases r)
  obtain picked where p: "picked \<in> set (subseqs rows)" "wn_quoted w = map (\<lambda>r. ld_id (snd (snd r))) picked"
    "list_all (\<lambda>r. cost_of build pierce r \<noteq> None) picked"
    "wn_credits w = sum_list (map (\<lambda>r. the (cost_of build pierce r)) picked)"
    using ok by (auto simp: window_ok_def)
  have base: "wn_examined w \<le> length rows" "case wn_credit_cap w of None \<Rightarrow> True | Some c \<Rightarrow> wn_credits w \<le> max 0 c"
    using ok by (simp_all add: window_ok_def)
  note sub = subseqs_snoc [OF p(1), of r]
  show ?thesis
  proof (cases "wn_quoted w' = wn_quoted w \<and> wn_credits w' = wn_credits w")
    case True
    have f: "wn_examined w' = wn_examined w + 1" "wn_credit_cap w' = wn_credit_cap w"
      using add by (auto simp: window_add_def r Let_def split: bucket.splits option.splits if_splits)
    have "case wn_credit_cap w' of None \<Rightarrow> True | Some c \<Rightarrow> wn_credits w' \<le> max 0 c"
      using True base(2) f(2) by (simp split: option.splits)
    then show ?thesis
      using True base room p sub f unfolding window_ok_def by (intro conjI bexI [of _ picked]) simp_all
  next
    case False
    then obtain t price where t: "classify build pierce status l = Quotable t" "map_of PLANNER_CREDITS t = Some price"
      "case wn_credit_cap w of None \<Rightarrow> True | Some c \<Rightarrow> wn_credits w + price \<le> c"
      "wn_quoted w' = wn_quoted w @ [ld_id l]" "wn_credits w' = wn_credits w + price"
      "wn_examined w' = wn_examined w + 1" "wn_credit_cap w' = wn_credit_cap w"
      "wn_stopped w' = None \<longrightarrow> \<not> cap \<le> length (wn_quoted w')"
      using add by (auto simp: window_add_def r Let_def split: bucket.splits option.splits if_splits)
    have c: "cost_of build pierce r = Some price" using t(1,2) by (simp add: cost_of_def r)
    have "case wn_credit_cap w' of None \<Rightarrow> True | Some c \<Rightarrow> wn_credits w' \<le> max 0 c"
      using t(3,5,7) by (auto split: option.splits)
    then show ?thesis
      using t(4-8) base(1) room p sub c unfolding window_ok_def
      by (intro conjI bexI [of _ "picked @ [r]"]) (simp_all add: r not_le)
  qed
qed

lemma plan_from_ok:
  assumes "plan_window_from build pierce cap lim rs w = Some w'" "window_ok build pierce cap rows w"
    "length (wn_quoted w) < cap"
  shows "\<exists>seen rest. rs = seen @ rest \<and> window_ok build pierce cap (rows @ seen) w' \<and> wn_credit_cap w' = wn_credit_cap w"
  using assms
proof (induction rs arbitrary: w rows)
  case Nil
  then show ?case by simp
next
  case (Cons r rs)
  then obtain w1 where a: "window_add build pierce cap lim r w = Some w1" by (auto split: option.splits)
  note s = window_add_ok [OF a Cons.prems(2,3)]
  show ?case
  proof (cases "wn_stopped w1 = None")
    case True
    with Cons.prems(1) a have "plan_window_from build pierce cap lim rs w1 = Some w'" by simp
    from Cons.IH [OF this] s True obtain seen rest where
      "rs = seen @ rest" "window_ok build pierce cap ((rows @ [r]) @ seen) w'" "wn_credit_cap w' = wn_credit_cap w1" by blast
    then show ?thesis using s by (intro exI [of _ "r # seen"] exI [of _ rest]) simp
  next
    case False
    then have "w' = w1" using Cons.prems(1) a by (auto split: if_splits)
    then show ?thesis using s by (intro exI [of _ "[r]"] exI [of _ rs]) simp
  qed
qed

subsection \<open>Properties\<close>

text \<open>
  A quote is an upper bound a customer can trust. For every payload builder, the quoted leads are a subsequence of the rows
  of the tab, each of them quotable at its price; there are at most \<open>cap\<close> of them, and their credits never pass a trial's
  allowance.
\<close>

theorem quote_within_caps:
  assumes "plan_window build pierce cap lim credit_cap rows = Some w" "0 < cap"
  shows "length (wn_quoted w) \<le> cap \<and> (case credit_cap of None \<Rightarrow> True | Some c \<Rightarrow> wn_credits w \<le> max 0 c) \<and>
    (\<exists>picked seen rest. rows = seen @ rest \<and> picked \<in> set (subseqs seen) \<and> wn_quoted w = map (\<lambda>r. ld_id (snd (snd r))) picked \<and>
       list_all (\<lambda>r. cost_of build pierce r \<noteq> None) picked \<and>
       wn_credits w = sum_list (map (\<lambda>r. the (cost_of build pierce r)) picked))"
proof -
  have "window_ok build pierce cap [] (empty_window credit_cap)"
    by (auto simp: window_ok_def empty_window_def split: option.split)
  from plan_from_ok [OF assms(1) [unfolded plan_window_def] this] assms(2)
  obtain seen rest where s: "rows = seen @ rest" "window_ok build pierce cap seen w" "wn_credit_cap w = credit_cap"
    by (auto simp: empty_window_def)
  from s(2) show ?thesis unfolding window_ok_def s(3) using s(1) by blast
qed

definition sample_lead_row :: "string \<Rightarrow> string \<Rightarrow> lead_row" where
  "sample_lead_row i addr =
     \<lparr> ld_id = i, ld_job = ''j1'', ld_user = ''u1'', ld_date = None, ld_date_parsed = None, ld_party = Some ''LEE, ANN'',
       ld_heirs = None, ld_legal = None, ld_parcel = None, ld_property = Some addr, ld_mailing = None, ld_data = None,
       ld_hash = None, ld_duplicate = False, ld_source_job = None, ld_source_at = None, ld_reason = None, ld_auction = None,
       ld_amount = None, ld_bill_year = None \<rparr>"

definition sample_build :: "lead_row \<Rightarrow> payload option" where
  "sample_build l = Some \<lparr> pl_job = ld_job l, pl_result = ld_id l, pl_user = ld_user l,
     pl_fields = [(''property_address'', ld_property l)], pl_trace_type = (if ld_id l = ''b'' then ''advanced'' else ''normal'') \<rparr>"

theorem quote_within_caps_witness:
  "\<exists>w. plan_window sample_build False QUOTE_CAP SCAN_CEILING (Some 2)
     (map (\<lambda>(i, a). (DateTime 2026 3 1 0, ''not_attempted'', sample_lead_row i a))
        [(''x'', ''UNKNOWN UNKNOWN, TACOMA''), (''a'', ''1 Main St''), (''b'', ''2 Main St''), (''c'', ''3 Main St''), (''d'', ''4 Main St'')])
     = Some w \<and> wn_quoted w = [''a'', ''c''] \<and> wn_credits w \<le> max 0 2"
proof -
  let ?rows = "map (\<lambda>(i, a). (DateTime 2026 3 1 0, ''not_attempted'', sample_lead_row i a))
    [(''x'', ''UNKNOWN UNKNOWN, TACOMA''), (''a'', ''1 Main St''), (''b'', ''2 Main St''), (''c'', ''3 Main St''), (''d'', ''4 Main St'')]"
  have v: "map_option wn_quoted (plan_window sample_build False QUOTE_CAP SCAN_CEILING (Some 2) ?rows) = Some [''a'', ''c'']"
    by code_simp
  then obtain w where w: "plan_window sample_build False QUOTE_CAP SCAN_CEILING (Some 2) ?rows = Some w" "wn_quoted w = [''a'', ''c'']"
    by blast
  have "0 < QUOTE_CAP" by (simp add: QUOTE_CAP_def)
  from quote_within_caps [OF w(1) this] w show ?thesis by auto
qed

end
