(* ===== verification/ContactClaim.thy ===== *)
theory ContactClaim
  imports ContactActions ContactPlanner
begin

text \<open>
  The worker of a contact-lookup action (\<^verbatim>\<open>workers/contact_lookup_action.py\<close>, \<^verbatim>\<open>_claim\<close> and \<^verbatim>\<open>run_action\<close>) with the two
  helpers of \<^verbatim>\<open>tasks_helpers/enrich.py\<close> it shares with the enqueue. The one claim path is \<open>claim_skip_trace_rows\<close>. A
  raise is \<open>Inl\<close> with the reason the task then waits for; the task rolls back first.
\<close>

record claim_world =
  cw_now :: datetime
  cw_enabled :: bool
  cw_pierce :: bool
  cw_lock :: bool
  cw_index :: "index_info option"
  cw_fresh :: "string \<Rightarrow> string"
  cw_later :: "(string \<rightharpoonup> result_row) \<Rightarrow> (string \<rightharpoonup> result_row)"
  cw_created :: "string \<Rightarrow> datetime"
  cw_days :: int
  cw_sha :: "string \<Rightarrow> string"
  cw_build :: "lead_row \<Rightarrow> payload option"

text \<open>\<open>cw_created\<close>: the \<^verbatim>\<open>created_at\<close> of a result. \<open>cw_lock\<close>: the job's claim lock was obtained in time.\<close>

subsection \<open>Known answers\<close>

definition lead_hash :: "lead_row \<Rightarrow> string" where
  "lead_hash l = str_or (ld_hash l) []"

definition charged_hashes :: "datetime \<Rightarrow> int \<Rightarrow> string \<Rightarrow> dispatch_db \<Rightarrow> string list" where
  "charged_hashes now days uid db =
     concat (map (\<lambda>p. case result_of db (p_result p) (p_user p) of None \<Rightarrow> [] | Some (r, l) \<Rightarrow> [lead_hash l])
       (filter (\<lambda>p. p_user p = uid \<and> p_status p = P_unmatched \<and>
          instant now - days * usec_per_day \<le> instant (opt_or (p_submitted_at p) (p_enqueued_at p))) (pending (sk db))))"

text \<open>The rows still to decide, and the tables with the charged ones settled.\<close>

definition settle_charged_unanswered :: "datetime \<Rightarrow> int \<Rightarrow> string \<Rightarrow> lead_row list \<Rightarrow> dispatch_db \<Rightarrow> lead_row list \<times> dispatch_db" where
  "settle_charged_unanswered now days uid rows db =
     (let charged = charged_hashes now days uid db;
          hit = (\<lambda>l. ld_duplicate l \<and> lead_hash l \<noteq> [] \<and> lead_hash l \<in> set charged);
          ids = map ld_id (filter hit rows)
      in (filter (\<lambda>l. ld_id l \<notin> set ids) rows,
          update_results (\<lambda>i r. i \<in> set ids) (\<lambda>r. r\<lparr> r_skip_trace_status := ''errored'', r_attempted_at := Some now \<rparr>) db))"

text \<open>None: the subject key raises. The boolean: an answer was copied.\<close>

definition copy_cached_answer ::
    "(string \<Rightarrow> string) \<Rightarrow> datetime \<Rightarrow> int \<Rightarrow> string \<Rightarrow> payload \<Rightarrow> dispatch_db \<Rightarrow> (bool \<times> dispatch_db) option" where
  "copy_cached_answer sha now days rid payload db =
     (case payload_subject_key sha payload of
        None \<Rightarrow> None
      | Some key \<Rightarrow>
          (case answers db key of
             None \<Rightarrow> Some (False, db)
           | Some c \<Rightarrow>
               if days * usec_per_day \<le> instant now - instant (ce_fetched c) then Some (False, db)
               else Some (True, update_results (\<lambda>i r. i = rid) (answered_result (Some key) c) db)))"

subsection \<open>The verdict on one quoted lead\<close>

fun exclusion_verdict :: "bucket \<Rightarrow> lead_verdict option" where
  "exclusion_verdict No_address = Some V_no_address"
| "exclusion_verdict Placeholder = Some V_placeholder_address"
| "exclusion_verdict Settled_code_violation = Some V_settled_code_violation"
| "exclusion_verdict Atip = Some V_atip_policy"
| "exclusion_verdict Not_traceable = Some V_not_traceable"
| "exclusion_verdict _ = None"

definition enqueue_eligible :: "lead_row \<Rightarrow> bool" where
  "enqueue_eligible l \<longleftrightarrow> ld_property l \<noteq> None \<and> actionable_condition l \<and> skip_trace_eligible_condition l"

definition verdict_for :: "(lead_row \<Rightarrow> payload option) \<Rightarrow> bool \<Rightarrow> string \<Rightarrow> lead_row \<Rightarrow> lead_verdict + payload" where
  "verdict_for build policy status l =
     (let b = classify build policy status l
      in if b = In_progress then Inl V_in_progress_elsewhere
         else if b = Already_answered then Inl V_already_answered
         else if b = Previously_attempted then Inl V_ineligible
         else if \<not> enqueue_eligible l then Inl V_ineligible
         else case exclusion_verdict b of
                Some v \<Rightarrow> Inl v
              | None \<Rightarrow> (case build l of None \<Rightarrow> Inl V_not_traceable | Some p \<Rightarrow> Inr p))"

subsection \<open>The second transaction\<close>

datatype claim_outcome = Fenced | Waiting string | Failed string | Claimed_leads nat nat int nat

fun access_text :: "access \<Rightarrow> string" where
  "access_text ACCESS_FULL = ''full''"
| "access_text ACCESS_TRIAL = ''trial''"
| "access_text ACCESS_STARTER = ''starter''"
| "access_text ACCESS_FROZEN = ''frozen''"
| "access_text ACCESS_ENDED = ''ended''"

definition job_is_delivered :: "dispatch_db \<Rightarrow> string \<Rightarrow> string \<Rightarrow> bool" where
  "job_is_delivered db jid uid \<longleftrightarrow>
     list_ex (\<lambda>j. j_id j = jid \<and> j_user j = uid \<and> j_status j = DONE \<and> job_delivered j) (djobs db)"

text \<open>The quoted leads of the job, in the order of the quote's window.\<close>

definition quoted_rows :: "claim_world \<Rightarrow> action_row \<Rightarrow> contact_db \<Rightarrow> (result_row \<times> lead_row) list" where
  "quoted_rows w a db =
     concat (map (\<lambda>i. case result_of (cd_tables db) i (ac_user a) of
                        None \<Rightarrow> [] | Some (r, l) \<Rightarrow> if r_job r = ac_job a then [(r, l)] else [])
       (sort_key (\<lambda>i. (instant (cw_created w i), i)) (quoted_ids (ac_id a) (ac_user a) db)))"

fun reuse_or_claim ::
    "claim_world \<Rightarrow> string list \<Rightarrow> (lead_row \<times> payload) list \<Rightarrow>
     (string \<times> lead_verdict) list \<times> payload list \<times> dispatch_db \<Rightarrow> ((string \<times> lead_verdict) list \<times> payload list \<times> dispatch_db) option" where
  "reuse_or_claim w kept [] st = Some st"
| "reuse_or_claim w kept ((l, p) # cs) (vs, to_claim, db) =
     (if ld_id l \<notin> set kept then reuse_or_claim w kept cs (vs @ [(ld_id l, V_already_answered)], to_claim, db)
      else case copy_cached_answer (cw_sha w) (cw_now w) (cw_days w) (ld_id l) p db of
             None \<Rightarrow> None
           | Some (True, db1) \<Rightarrow> reuse_or_claim w kept cs (vs @ [(ld_id l, V_reused)], to_claim, db1)
           | Some (False, db1) \<Rightarrow> reuse_or_claim w kept cs (vs, to_claim @ [p], db1))"

text \<open>
  The verdict of a lead that went to the claim. A lead that was refused or lost a race is read again; None: its result
  is gone or another account's, so it gets no verdict and the set of verdicts does not cover the quoted one.
\<close>

definition claim_verdict_of :: "string list \<Rightarrow> string list \<Rightarrow> dispatch_db \<Rightarrow> string \<Rightarrow> string \<Rightarrow> lead_verdict option" where
  "claim_verdict_of won held db uid rid =
     (if rid \<in> set won then Some V_newly_queued
      else if rid \<in> set held then Some V_ineligible
      else case results (sk db) rid of
             None \<Rightarrow> None
           | Some r \<Rightarrow> if r_user r \<noteq> uid then None
                       else if r_skip_trace_status r \<in> set IN_PROGRESS_STATUSES then Some V_in_progress_elsewhere
                       else if r_skip_trace_status r \<in> set ANSWERED_STATUSES then Some V_already_answered
                       else Some V_ineligible)"

definition credits_sum :: "payload list \<Rightarrow> int option" where
  "credits_sum ps = fold (\<lambda>p acc. case (acc, credits_for (pl_trace_type p)) of (Some a, Some c) \<Rightarrow> Some (a + c) | _ \<Rightarrow> None) ps (Some 0)"

definition buy_leads ::
    "claim_world \<Rightarrow> action_row \<Rightarrow> string \<Rightarrow> contact_db \<Rightarrow> string + claim_outcome \<times> contact_db" where
  "buy_leads w a token db =
     (let rows = quoted_rows w a db;
          policy = (ac_policy a \<and> cw_pierce w);
          verdict = (\<lambda>(r, l). verdict_for (cw_build w) policy (r_skip_trace_status r) l);
          settled = concat (map (\<lambda>x. case verdict x of Inl v \<Rightarrow> [(ld_id (snd x), v)] | Inr _ \<Rightarrow> []) rows);
          open_leads = concat (map (\<lambda>x. case verdict x of Inl _ \<Rightarrow> [] | Inr p \<Rightarrow> [(snd x, p)]) rows);
          (kept, t1) = settle_charged_unanswered (cw_now w) (cw_days w) (ac_user a) (map fst open_leads) (cd_tables db)
      in case reuse_or_claim w (map ld_id kept) open_leads (settled, [], t1) of
        None \<Rightarrow> Inl ''worker_error''
      | Some (vs, to_claim, t2) \<Rightarrow>
          (case claim_skip_trace_rows (cw_index w) (\<lambda>j. j = ac_job a) (cw_fresh w) (cw_later w) (cw_now w) (Some (ac_id a))
                  to_claim (sk t2) of
             Inl ClaimUnenforced \<Rightarrow> Inl ''claim_unenforced''
           | Inl _ \<Rightarrow> Inl ''worker_error''
           | Inr (won, report, tables) \<Rightarrow>
               let t3 = t2\<lparr> sk := tables \<rparr>;
                   held = (case report of None \<Rightarrow> [] | Some rep \<Rightarrow> rep_held_ids rep);
                   why = (case report of None \<Rightarrow> ''access_ended''
                          | Some rep \<Rightarrow> if rep_access rep = ACCESS_TRIAL then ''trial_allowance'' else ''access_'' @ access_text (rep_access rep));
                   bought = filter (\<lambda>p. pl_result p \<in> set won) to_claim;
                   decided = (\<lambda>p. claim_verdict_of won held t3 (ac_user a) (pl_result p));
                   vs' = vs @ map (\<lambda>p. (pl_result p, the (decided p))) (filter (\<lambda>p. decided p \<noteq> None) to_claim);
                   reasons = map (\<lambda>p. (pl_result p, why)) (filter (\<lambda>p. pl_result p \<notin> set won \<and> pl_result p \<in> set held) to_claim);
                   newly = length (filter (\<lambda>v. snd v = V_newly_queued) vs');
                   reused = length (filter (\<lambda>v. snd v = V_reused) vs')
               in case credits_sum bought of
                    None \<Rightarrow> Inl ''worker_error''
                  | Some spent \<Rightarrow>
                      if list_ex (\<lambda>p. decided p = None) to_claim \<or> set (map fst vs') \<noteq> set (map (ld_id \<circ> snd) rows)
                      then Inl ''worker_error''
                      else (case set_verdicts (ac_id a) (ac_user a) V_quoted vs' reasons (with_tables (\<lambda>_. t3) db) of
                              None \<Rightarrow> Inl ''worker_error''
                            | Some db1 \<Rightarrow>
                                (case move_action (cw_now w) (ac_id a) A_running A_claimed None (Some token) None
                                        (\<lambda>x. x\<lparr> ac_newly := int newly, ac_reused := int reused,
                                                ac_claimed_count := int (newly + reused), ac_credits := spent \<rparr>) db1 of
                                   Some (True, db2) \<Rightarrow> Inr (Claimed_leads newly reused spent (length rows), db2)
                                 | _ \<Rightarrow> Inl ''worker_error''))))"

definition claim_action :: "claim_world \<Rightarrow> string \<Rightarrow> string \<Rightarrow> contact_db \<Rightarrow> string + claim_outcome \<times> contact_db" where
  "claim_action w aid token db =
     (case action_of db aid of
        None \<Rightarrow> Inr (Fenced, db)
      | Some a \<Rightarrow>
          let fail = (\<lambda>why. case fail_action (cw_now w) a token why db of
                         None \<Rightarrow> Inl ''worker_error'' | Some db' \<Rightarrow> Inr (Failed why, db'));
              account = users (sk (cd_tables db)) (ac_user a);
              quoted = quoted_ids aid (ac_user a) db;
              in_job = quoted_rows w a db
          in if ac_status a \<noteq> A_running \<or> \<not> lease_is (cw_now w) token a then Inr (Fenced, db)
             else if \<not> cw_enabled w then
               (case wait_action (cw_now w) aid token ''kill_switch'' db of
                  None \<Rightarrow> Inl ''worker_error'' | Some db' \<Rightarrow> Inr (Waiting ''kill_switch'', db'))
             else if \<not> cw_lock w then Inl ''claim_lock_busy''
             else if \<not> job_is_delivered (cd_tables db) (ac_job a) (ac_user a) then fail ''job_not_delivered''
             else case account of
               None \<Rightarrow> fail ''plan_not_eligible''
             | Some u \<Rightarrow>
                 if normalize_plan (Some (u_plan u)) \<notin> set SKIP_TRACE_ADDON_PLANS then fail ''plan_not_eligible''
                 else if paid_lookup_access u (cw_now w) \<in> set BLOCKED_ACCESS
                   then fail (''access_'' @ access_text (paid_lookup_access u (cw_now w)))
                 else if \<not> (length quoted = length in_job \<and> int (length in_job) = ac_quoted_count a) then fail ''quoted_set_mismatch''
                 else buy_leads w a token db)"

subsection \<open>The task\<close>

text \<open>The two transactions with other ones between; None: the lease could not be taken.\<close>

definition run_action ::
    "datetime \<Rightarrow> string \<Rightarrow> (contact_db \<Rightarrow> contact_db) \<Rightarrow> claim_world \<Rightarrow> string \<Rightarrow> contact_db \<Rightarrow> claim_outcome option \<times> contact_db" where
  "run_action started token meanwhile w aid db =
     (case start_action started aid token db of
        Some (True, db1) \<Rightarrow>
          (case claim_action w aid token (meanwhile db1) of
             Inr (outcome, db2) \<Rightarrow> (Some outcome, db2)
           | Inl reason \<Rightarrow>
               (case wait_action (cw_now w) aid token reason (meanwhile db1) of
                  None \<Rightarrow> (None, meanwhile db1)
                | Some db2 \<Rightarrow> (Some (Waiting reason), db2)))
      | _ \<Rightarrow> (None, db))"

end
