(* ===== verification/ContactSteps.thy ===== *)
theory ContactSteps
  imports ContactClaim
begin

text \<open>
  What the contact-lookup actions keep: the consistency of an action with its leads' verdicts and its counts, as an
  invariant of the step relation over every writer of the three tables, and the matrices as the only moves.
\<close>

subsection \<open>Consistency\<close>

definition leads_of :: "contact_db \<Rightarrow> action_row \<Rightarrow> verdict_row list" where
  "leads_of db a = filter (\<lambda>v. v_action v = ac_id a \<and> v_user v = ac_user a) (cd_verdicts db)"

definition count_of :: "lead_verdict list \<Rightarrow> lead_verdict list \<Rightarrow> int" where
  "count_of kinds states = int (length (filter (\<lambda>s. s \<in> set kinds) states))"

fun phase_ok :: "action_status \<Rightarrow> lead_verdict list \<Rightarrow> bool" where
  "phase_ok A_dispatching states \<longleftrightarrow> list_all (\<lambda>s. s = V_quoted) states"
| "phase_ok A_running states \<longleftrightarrow> list_all (\<lambda>s. s = V_quoted) states"
| "phase_ok A_claimed states \<longleftrightarrow> V_quoted \<notin> set states"
| "phase_ok A_settled states \<longleftrightarrow> V_quoted \<notin> set states \<and> V_newly_queued \<notin> set states"
| "phase_ok _ states \<longleftrightarrow> list_all (\<lambda>s. s = V_abandoned) states"

definition BOUGHT :: "lead_verdict list" where
  "BOUGHT = V_newly_queued # TERMINAL_ANSWERS"

definition counts_ok :: "lead_verdict list \<Rightarrow> action_row \<Rightarrow> bool" where
  "counts_ok states a \<longleftrightarrow>
     (ac_status a \<in> {A_claimed, A_settled} \<longrightarrow>
        ac_newly a = count_of BOUGHT states \<and> ac_reused a = count_of [V_reused] states \<and>
        ac_claimed_count a = ac_newly a + ac_reused a) \<and>
     (ac_status a = A_settled \<longrightarrow> ac_billable a = count_of BILLABLE_VERDICTS states)"

definition action_ok :: "lead_verdict list \<Rightarrow> action_row \<Rightarrow> bool" where
  "action_ok states a \<longleftrightarrow>
     int (length states) = ac_quoted_count a \<and> (ac_lease a \<noteq> None) = (ac_status a = A_running) \<and>
     phase_ok (ac_status a) states \<and> counts_ok states a"

definition states_of :: "contact_db \<Rightarrow> action_row \<Rightarrow> lead_verdict list" where
  "states_of db a = map v_state (leads_of db a)"

definition contact_ok :: "contact_db \<Rightarrow> bool" where
  "contact_ok db \<longleftrightarrow>
     distinct (map ac_id (cd_actions db)) \<and> distinct (map (\<lambda>a. (ac_quote a, ac_user a)) (cd_actions db)) \<and>
     distinct (map (\<lambda>v. (v_action v, v_user v, v_result v)) (cd_verdicts db)) \<and>
     (\<forall>v \<in> set (cd_verdicts db). v_action v \<in> ac_id ` set (cd_actions db)) \<and>
     (\<forall>a \<in> set (cd_actions db). action_ok (states_of db a) a)"

subsection \<open>One change\<close>

definition same_action :: "action_row \<Rightarrow> action_row \<Rightarrow> bool" where
  "same_action a b \<longleftrightarrow> ac_id b = ac_id a \<and> ac_user b = ac_user a \<and> ac_job b = ac_job a \<and> ac_quote b = ac_quote a \<and>
     ac_quoted_count b = ac_quoted_count a \<and> ac_created b = ac_created a \<and> ac_policy b = ac_policy a"

definition of_action :: "action_row \<Rightarrow> verdict_row \<Rightarrow> bool" where
  "of_action a v \<longleftrightarrow> v_action v = ac_id a \<and> v_user v = ac_user a"

definition evolves :: "action_row \<Rightarrow> action_row \<Rightarrow> (verdict_row \<Rightarrow> lead_verdict) \<Rightarrow> contact_db \<Rightarrow> contact_db \<Rightarrow> bool" where
  "evolves a b g db db' \<longleftrightarrow>
     a \<in> set (cd_actions db) \<and> same_action a b \<and>
     cd_actions db' = map (\<lambda>x. if ac_id x = ac_id a then b else x) (cd_actions db) \<and>
     cd_verdicts db' = map (\<lambda>v. if of_action a v then v\<lparr> v_state := g v \<rparr> else v) (cd_verdicts db)"

definition hop_ok :: "verdict_row list \<Rightarrow> action_row \<Rightarrow> action_row \<Rightarrow> (verdict_row \<Rightarrow> lead_verdict) \<Rightarrow> bool" where
  "hop_ok leads a b g \<longleftrightarrow>
     (ac_status b = ac_status a \<or> ac_status b \<in> set (ACTION_TRANSITIONS (ac_status a))) \<and>
     list_all (\<lambda>v. g v = v_state v \<or> g v \<in> set (VERDICT_TRANSITIONS (v_state v))) leads"

definition good_change :: "contact_db \<Rightarrow> contact_db \<Rightarrow> bool" where
  "good_change db db' \<longleftrightarrow>
     (cd_actions db' = cd_actions db \<and> cd_verdicts db' = cd_verdicts db) \<or>
     (\<exists>a b g. evolves a b g db db' \<and> hop_ok (leads_of db a) a b g \<and> action_ok (map g (leads_of db a)) b)"

lemma actions_by_id:
  assumes "contact_ok db" "a \<in> set (cd_actions db)" "x \<in> set (cd_actions db)" "ac_id x = ac_id a"
  shows "x = a"
  using assms unfolding contact_ok_def by (auto simp: distinct_map dest: inj_onD)

lemma action_of_mem: "action_of db aid = Some a \<Longrightarrow> a \<in> set (cd_actions db) \<and> ac_id a = aid"
  unfolding action_of_def by (auto simp: find_Some_iff)

lemma action_of_unique:
  assumes "contact_ok db" "a \<in> set (cd_actions db)"
  shows "action_of db (ac_id a) = Some a"
proof (cases "action_of db (ac_id a)")
  case None
  then show ?thesis using assms(2) unfolding action_of_def find_None_iff by auto
next
  case (Some b)
  then show ?thesis using actions_by_id [OF assms(1,2)] action_of_mem [OF Some] by auto
qed

lemma filter_map_inside:
  assumes "\<And>v. P (f v) = P v" "\<And>v. P v \<Longrightarrow> f v = h v"
  shows "filter P (map f vs) = map h (filter P vs)"
  using assms by (induction vs) auto

lemma leads_of_evolved:
  assumes "evolves a b g db db'"
  shows "leads_of db' b = map (\<lambda>v. v\<lparr> v_state := g v \<rparr>) (leads_of db a)"
proof -
  note d = assms [unfolded evolves_def]
  have "leads_of db' b = filter (of_action a) (cd_verdicts db')"
    using d by (simp add: leads_of_def same_action_def of_action_def [abs_def])
  also have "\<dots> = map (\<lambda>v. v\<lparr> v_state := g v \<rparr>) (filter (of_action a) (cd_verdicts db))"
    using d by (simp only: conjunct2 simp_thms) (rule filter_map_inside; simp add: of_action_def)
  finally show ?thesis by (simp add: leads_of_def of_action_def [abs_def])
qed

lemma leads_of_evolved_self: "evolves a b g db db' \<Longrightarrow> states_of db' b = map g (leads_of db a)"
  by (simp add: leads_of_evolved states_of_def comp_def)

lemma leads_of_evolved_other:
  assumes "evolves a b g db db'" "ac_id x \<noteq> ac_id a"
  shows "leads_of db' x = leads_of db x"
proof -
  note d = assms(1) [unfolded evolves_def]
  have "leads_of db' x = filter (\<lambda>v. v_action v = ac_id x \<and> v_user v = ac_user x) (cd_verdicts db')"
    by (simp add: leads_of_def)
  also have "\<dots> = map (\<lambda>v. v) (filter (\<lambda>v. v_action v = ac_id x \<and> v_user v = ac_user x) (cd_verdicts db))"
    using d assms(2) by (simp only: conjunct2 simp_thms) (rule filter_map_inside; auto simp: of_action_def)
  finally show ?thesis by (simp add: leads_of_def)
qed

lemma evolves_keeps_ok:
  assumes ok: "contact_ok db" and ev: "evolves a b g db db'" and here: "action_ok (map g (leads_of db a)) b"
  shows "contact_ok db'"
proof -
  note d = ev [unfolded evolves_def]
  have a: "a \<in> set (cd_actions db)" and same: "same_action a b" using d by auto
  have step: "\<And>x. x \<in> set (cd_actions db) \<Longrightarrow> ac_id x = ac_id a \<Longrightarrow> x = a" using actions_by_id [OF ok a] by blast
  have ids: "map ac_id (cd_actions db') = map ac_id (cd_actions db)"
    and quotes: "map (\<lambda>x. (ac_quote x, ac_user x)) (cd_actions db') = map (\<lambda>x. (ac_quote x, ac_user x)) (cd_actions db)"
    using d same by (auto simp: same_action_def dest!: step)
  have keys: "map (\<lambda>v. (v_action v, v_user v, v_result v)) (cd_verdicts db') =
      map (\<lambda>v. (v_action v, v_user v, v_result v)) (cd_verdicts db)" using d by auto
  have "v_action ` set (cd_verdicts db') = v_action ` set (cd_verdicts db)"
    using arg_cong [OF keys, of "\<lambda>xs. fst ` set xs"] by (simp add: image_image)
  moreover have "ac_id ` set (cd_actions db') = ac_id ` set (cd_actions db)"
    using arg_cong [OF ids, of set] by simp
  moreover have "v_action ` set (cd_verdicts db) \<subseteq> ac_id ` set (cd_actions db)"
    using ok unfolding contact_ok_def by (simp add: image_subset_iff)
  ultimately have owned: "\<forall>v \<in> set (cd_verdicts db'). v_action v \<in> ac_id ` set (cd_actions db')"
    by (simp add: image_subset_iff [symmetric])
  have "action_ok (states_of db' x) x" if x: "x \<in> set (cd_actions db')" for x
  proof (cases "ac_id x = ac_id a")
    case True
    then have "x = b" using x d same by (auto simp: same_action_def split: if_splits)
    then show ?thesis using here leads_of_evolved_self [OF ev] by simp
  next
    case False
    then have "x \<in> set (cd_actions db)" using x d same by (auto simp: same_action_def split: if_splits)
    then show ?thesis using ok leads_of_evolved_other [OF ev False] unfolding contact_ok_def states_of_def by auto
  qed
  then show ?thesis using ok owned unfolding contact_ok_def ids quotes keys by blast
qed

lemma good_change_keeps_ok:
  assumes "contact_ok db" "good_change db db'"
  shows "contact_ok db'"
proof (cases "cd_actions db' = cd_actions db \<and> cd_verdicts db' = cd_verdicts db")
  case True
  then show ?thesis using assms(1) unfolding contact_ok_def states_of_def leads_of_def by simp
next
  case False
  then show ?thesis using assms evolves_keeps_ok unfolding good_change_def by blast
qed

lemma evolves_tables [simp]: "evolves a b g (db\<lparr>cd_tables := t\<rparr>) db' = evolves a b g db db'"
  by (simp add: evolves_def)

lemma leads_of_tables [simp]: "leads_of (db\<lparr>cd_tables := t\<rparr>) a = leads_of db a"
  by (simp add: leads_of_def)

lemma contact_ok_tables [simp]: "contact_ok (db\<lparr>cd_tables := t\<rparr>) = contact_ok db"
  by (simp add: contact_ok_def states_of_def)

subsection \<open>The two writers\<close>

lemma move_missed: "move_action now aid frm to reason fence tok counts db = Some (False, db1) \<Longrightarrow> db1 = db"
  unfolding move_action_def by (auto split: if_splits)

lemma move_evolves_at:
  assumes ok: "contact_ok db0" and acts: "cd_actions db = cd_actions db0"
    and move: "move_action now aid frm to reason fence tok counts db = Some (True, db1)"
  obtains a where "action_of db aid = Some a" "move_hits now aid frm to fence a"
    "to \<in> set (ACTION_TRANSITIONS frm)" "(tok \<noteq> None) = (to = A_running)"
    "cd_actions db1 = map (\<lambda>x. if ac_id x = ac_id a then moved_row now to reason tok counts a else x) (cd_actions db)"
    "cd_verdicts db1 = cd_verdicts db" "cd_tables db1 = cd_tables db"
proof -
  have hit: "list_ex (move_hits now aid frm to fence) (cd_actions db)" and legal: "to \<in> set (ACTION_TRANSITIONS frm)"
    "(tok \<noteq> None) = (to = A_running)"
    and db1: "cd_actions db1 = map (\<lambda>x. if move_hits now aid frm to fence x then moved_row now to reason tok counts x else x) (cd_actions db)"
      "cd_verdicts db1 = cd_verdicts db" "cd_tables db1 = cd_tables db"
    using move unfolding move_action_def log_event_def update_action_def by (auto split: if_splits)
  obtain a where a: "a \<in> set (cd_actions db0)" "move_hits now aid frm to fence a" using hit by (auto simp: list_ex_iff acts)
  have id: "ac_id a = aid" using a(2) by (simp add: move_hits_def)
  have row: "\<And>x. x \<in> set (cd_actions db) \<Longrightarrow> ac_id x = ac_id a \<Longrightarrow> x = a" using actions_by_id [OF ok a(1)] acts by simp
  have only: "\<And>x. x \<in> set (cd_actions db) \<Longrightarrow> move_hits now aid frm to fence x = (ac_id x = ac_id a)"
    using row a(2) by (auto simp: move_hits_def)
  show ?thesis
  proof (rule that [of a])
    show "action_of db aid = Some a" using action_of_unique [OF ok a(1)] id acts by (simp add: action_of_def)
    show "cd_actions db1 = map (\<lambda>x. if ac_id x = ac_id a then moved_row now to reason tok counts a else x) (cd_actions db)"
      unfolding db1 by (rule map_cong [OF refl]) (use only row in auto)
  qed (fact a legal db1)+
qed

lemmas move_evolves = move_evolves_at [OF _ refl]

definition redecided :: "lead_verdict \<Rightarrow> (string \<times> lead_verdict) list \<Rightarrow> verdict_row \<Rightarrow> lead_verdict" where
  "redecided frm vs v = (if v_state v = frm then opt_or (map_of vs (v_result v)) frm else v_state v)"

lemma set_verdicts_effect:
  assumes "set_verdicts aid uid frm vs reasons db = Some db1"
  shows "cd_actions db1 = cd_actions db" "cd_tables db1 = cd_tables db"
    "cd_verdicts db1 = map (\<lambda>v. if v_action v = aid \<and> v_user v = uid then v\<lparr> v_state := redecided frm vs v \<rparr> else v) (cd_verdicts db)"
    "\<And>r to. (r, to) \<in> set vs \<Longrightarrow> to \<in> set (VERDICT_TRANSITIONS frm)"
    "length (filter (verdict_hits aid uid frm vs) (cd_verdicts db)) = length vs"
  using assms unfolding set_verdicts_def log_event_def
  by (auto split: if_splits simp: list_ex_iff verdict_hits_def redecided_def opt_or_def)

lemma redecided_hop:
  assumes "\<And>r to. (r, to) \<in> set vs \<Longrightarrow> to \<in> set (VERDICT_TRANSITIONS frm)"
  shows "redecided frm vs v = v_state v \<or> redecided frm vs v \<in> set (VERDICT_TRANSITIONS (v_state v))"
  using assms by (cases "map_of vs (v_result v)") (auto simp: redecided_def opt_or_def dest!: map_of_SomeD)

lemma abandon_quoted_effect:
  assumes "abandon_quoted (ac_id a) (ac_user a) reason db = Some db1"
  shows "cd_actions db1 = cd_actions db" "cd_tables db1 = cd_tables db"
    "cd_verdicts db1 = map (\<lambda>v. if of_action a v then v\<lparr> v_state := if v_state v = V_quoted then V_abandoned else v_state v \<rparr> else v) (cd_verdicts db)"
proof -
  let ?ids = "quoted_ids (ac_id a) (ac_user a) db"
  note e = set_verdicts_effect [OF assms [unfolded abandon_quoted_def Let_def]]
  show "cd_actions db1 = cd_actions db" "cd_tables db1 = cd_tables db" by (fact e)+
  have "redecided V_quoted (map (\<lambda>i. (i, V_abandoned)) ?ids) v = (if v_state v = V_quoted then V_abandoned else v_state v)"
    if "v \<in> set (cd_verdicts db)" "of_action a v" for v
    using that by (auto simp: redecided_def of_action_def quoted_ids_def opt_or_def map_of_map_restrict restrict_map_def)
  then show "cd_verdicts db1 = map (\<lambda>v. if of_action a v then v\<lparr> v_state := if v_state v = V_quoted then V_abandoned else v_state v \<rparr> else v) (cd_verdicts db)"
    unfolding e(3) by (intro map_cong refl) (simp add: of_action_def)
qed

subsection \<open>Every writer changes one action well\<close>

lemma consistent_action: "contact_ok db \<Longrightarrow> a \<in> set (cd_actions db) \<Longrightarrow> action_ok (map v_state (leads_of db a)) a"
  by (simp add: contact_ok_def states_of_def)

lemma unchanged_is_good: "good_change db db"
  by (simp add: good_change_def)

lemma changed_is_good:
  assumes "evolves a b g db db'" "hop_ok (leads_of db a) a b g" "action_ok (map g (leads_of db a)) b"
  shows "good_change db db'"
  using assms unfolding good_change_def by blast

lemma same_action_moved [simp]: "same_action a (moved_row now to reason tok id a)"
  by (simp add: same_action_def moved_row_def)

lemma evolves_moved:
  assumes "a \<in> set (cd_actions db)" "same_action a b"
    "cd_actions db' = map (\<lambda>x. if ac_id x = ac_id a then b else x) (cd_actions db)" "cd_verdicts db' = cd_verdicts db"
  shows "evolves a b v_state db db'"
  using assms by (simp add: evolves_def map_idI)

lemma quoted_phase: "s = A_dispatching \<or> s = A_running \<Longrightarrow> phase_ok s states = list_all (\<lambda>x. x = V_quoted) states"
  by auto

lemma start_is_good:
  assumes ok: "contact_ok db" and run: "start_action now aid token db = Some (hit, db')"
  shows "good_change db db'"
proof (cases hit)
  case False
  then show ?thesis using run by (auto simp: start_action_def dest!: move_missed intro: unchanged_is_good)
next
  case True
  have moved: "move_action now aid A_dispatching A_running None None (Some token) id db = Some (True, db')"
    using run True by (simp add: start_action_def)
  obtain a where a: "action_of db aid = Some a" "move_hits now aid A_dispatching A_running None a"
    and "A_running \<in> set (ACTION_TRANSITIONS A_dispatching)" "(Some token \<noteq> None) = (A_running = A_running)"
    and db': "cd_actions db' = map (\<lambda>x. if ac_id x = ac_id a then moved_row now A_running None (Some token) id a else x) (cd_actions db)"
      "cd_verdicts db' = cd_verdicts db" and "cd_tables db' = cd_tables db"
    by (rule move_evolves [OF ok moved])
  have mem: "a \<in> set (cd_actions db)" using action_of_mem [OF a(1)] by simp
  have st: "ac_status a = A_dispatching" using a(2) by (simp add: move_hits_def)
  show ?thesis
  proof (rule changed_is_good [OF evolves_moved [OF mem same_action_moved db']])
    show "hop_ok (leads_of db a) a (moved_row now A_running None (Some token) id a) v_state"
      by (simp add: hop_ok_def st moved_row_def list_all_iff)
    show "action_ok (map v_state (leads_of db a)) (moved_row now A_running None (Some token) id a)"
      using consistent_action [OF ok mem] by (simp add: action_ok_def st moved_row_def counts_ok_def)
  qed
qed

lemma hand_back_is_good:
  assumes ok: "contact_ok db" and run: "move_action now aid A_running A_dispatching reason fence None id db = Some (hit, db')"
  shows "good_change db db'"
proof (cases hit)
  case False
  then show ?thesis using run by (auto dest!: move_missed intro: unchanged_is_good)
next
  case True
  have moved: "move_action now aid A_running A_dispatching reason fence None id db = Some (True, db')"
    using run True by simp
  obtain a where a: "action_of db aid = Some a" "move_hits now aid A_running A_dispatching fence a"
    and "A_dispatching \<in> set (ACTION_TRANSITIONS A_running)" "(None \<noteq> (None :: string option)) = (A_dispatching = A_running)"
    and db': "cd_actions db' = map (\<lambda>x. if ac_id x = ac_id a then moved_row now A_dispatching reason None id a else x) (cd_actions db)"
      "cd_verdicts db' = cd_verdicts db" and "cd_tables db' = cd_tables db"
    by (rule move_evolves [OF ok moved])
  have mem: "a \<in> set (cd_actions db)" using action_of_mem [OF a(1)] by simp
  have st: "ac_status a = A_running" using a(2) by (simp add: move_hits_def)
  show ?thesis
  proof (rule changed_is_good [OF evolves_moved [OF mem same_action_moved db']])
    show "hop_ok (leads_of db a) a (moved_row now A_dispatching reason None id a) v_state"
      by (simp add: hop_ok_def st moved_row_def list_all_iff)
    show "action_ok (map v_state (leads_of db a)) (moved_row now A_dispatching reason None id a)"
      using consistent_action [OF ok mem] by (simp add: action_ok_def st moved_row_def counts_ok_def)
  qed
qed

lemma wait_is_good: "contact_ok db \<Longrightarrow> wait_action now aid token reason db = Some db' \<Longrightarrow> good_change db db'"
  unfolding wait_action_def by (auto dest: hand_back_is_good)

definition given_up :: "verdict_row \<Rightarrow> lead_verdict" where
  "given_up v = (if v_state v = V_quoted then V_abandoned else v_state v)"

text \<open>The two ends without a purchase: a failed claim and the deadline.\<close>

lemma end_is_good:
  assumes ok: "contact_ok db" and frm: "frm = A_dispatching \<or> frm = A_running" and to: "to = A_failed \<or> to = A_expired"
    and move: "move_action now (ac_id a) frm to reason fence None id db = Some (True, db1)"
    and mem: "a \<in> set (cd_actions db)" and give: "abandon_quoted (ac_id a) (ac_user a) why db1 = Some db'"
  shows "good_change db db'"
proof -
  obtain a' where a': "action_of db (ac_id a) = Some a'" "move_hits now (ac_id a) frm to fence a'"
    and legal: "to \<in> set (ACTION_TRANSITIONS frm)" "(None \<noteq> (None :: string option)) = (to = A_running)"
    and db1: "cd_actions db1 = map (\<lambda>x. if ac_id x = ac_id a' then moved_row now to reason None id a' else x) (cd_actions db)"
      "cd_verdicts db1 = cd_verdicts db" "cd_tables db1 = cd_tables db"
    by (rule move_evolves [OF ok move])
  have same: "a' = a" using a'(1) action_of_unique [OF ok mem] by simp
  have st: "ac_status a = frm" using a'(2) by (simp add: move_hits_def same)
  note e = abandon_quoted_effect [OF give]
  have "evolves a (moved_row now to reason None id a) given_up db db'"
    unfolding evolves_def using mem e(1) e(3) db1 by (simp add: same given_up_def [abs_def])
  moreover have "hop_ok (leads_of db a) a (moved_row now to reason None id a) given_up"
    using legal by (simp add: hop_ok_def st moved_row_def list_all_iff given_up_def)
  moreover have "action_ok (map given_up (leads_of db a)) (moved_row now to reason None id a)"
    using consistent_action [OF ok mem] frm to
    by (auto simp: action_ok_def st moved_row_def counts_ok_def quoted_phase list_all_iff given_up_def)
  ultimately show ?thesis by (rule changed_is_good)
qed

lemma fail_is_good:
  assumes "contact_ok db" "action_of db aid = Some a" "fail_action now a token reason db = Some db'"
  shows "good_change db db'"
  using assms(3) end_is_good [OF assms(1), of A_running A_failed now a] action_of_mem [OF assms(2)] move_missed unchanged_is_good
  unfolding fail_action_def by (auto split: option.splits bool.splits prod.splits) blast+

lemma expire_is_good:
  assumes "contact_ok db" "expire_visit now aid db = Some db'"
  shows "good_change db db'"
proof (cases "action_of db aid")
  case None
  then show ?thesis using assms(2) unchanged_is_good by (simp add: expire_visit_def)
next
  case (Some a)
  have mem: "a \<in> set (cd_actions db)" "ac_id a = aid" using action_of_mem [OF Some] by simp_all
  show ?thesis
  proof (cases "expire_due now a")
    case False
    then show ?thesis using assms(2) Some unchanged_is_good by (simp add: expire_visit_def)
  next
    case True
    then have hit: "list_ex (move_hits now aid A_dispatching A_expired None) (cd_actions db)"
      using mem by (auto simp: list_ex_iff move_hits_def expire_due_def)
    obtain db1 where "move_action now aid A_dispatching A_expired (Some ''deadline'') None None id db = Some (True, db1)"
      "abandon_quoted aid (ac_user a) ''deadline'' db1 = Some db'"
      using assms(2) Some True hit unfolding expire_visit_def
      by (auto simp: move_action_def split: option.splits if_splits)
    then show ?thesis using end_is_good [OF assms(1), of A_dispatching A_expired now a] mem by simp
  qed
qed

lemma take_back_is_good:
  assumes "contact_ok db" "take_back_visit now aid db = Some db'"
  shows "good_change db db'"
  using assms hand_back_is_good unchanged_is_good unfolding take_back_visit_def
  by (auto split: option.splits if_splits)

lemma update_one:
  assumes "contact_ok db" "a \<in> set (cd_actions db)"
  shows "map (\<lambda>x. if ac_id x = ac_id a then f x else x) (cd_actions db) = map (\<lambda>x. if ac_id x = ac_id a then f a else x) (cd_actions db)"
    "map (\<lambda>x. if ac_id x = ac_id a then a else x) (cd_actions db) = cd_actions db"
proof -
  have row: "x \<in> set (cd_actions db) \<Longrightarrow> ac_id x = ac_id a \<Longrightarrow> x = a" for x using actions_by_id [OF assms] by blast
  show "map (\<lambda>x. if ac_id x = ac_id a then f x else x) (cd_actions db) = map (\<lambda>x. if ac_id x = ac_id a then f a else x) (cd_actions db)"
    by (rule map_cong [OF refl]) (auto dest: row)
  show "map (\<lambda>x. if ac_id x = ac_id a then a else x) (cd_actions db) = cd_actions db"
    by (rule map_idI) (auto dest: row)
qed

lemma republish_is_good:
  assumes ok: "contact_ok db" and run: "republish_visit now aid db = Some db'"
  shows "good_change db db'"
proof (cases "action_of db aid")
  case None
  then show ?thesis using run unchanged_is_good by (simp add: republish_visit_def)
next
  case (Some a)
  have mem: "a \<in> set (cd_actions db)" and id: "ac_id a = aid" using action_of_mem [OF Some] by simp_all
  show ?thesis
  proof (cases "republish_due now a")
    case False
    then show ?thesis using run Some unchanged_is_good by (simp add: republish_visit_def)
  next
    case True
    let ?b = "a\<lparr> ac_dispatched := Some now \<rparr>"
    have "evolves a ?b v_state db db'"
      using True Some run id update_one(1) [OF ok mem, of "\<lambda>x. x\<lparr> ac_dispatched := Some now \<rparr>"]
      by (intro evolves_moved [OF mem]) (auto simp: republish_visit_def update_action_def same_action_def)
    moreover have "hop_ok (leads_of db a) a ?b v_state" by (simp add: hop_ok_def list_all_iff)
    moreover have "action_ok (map v_state (leads_of db a)) ?b"
      using consistent_action [OF ok mem] by (simp add: action_ok_def counts_ok_def)
    ultimately show ?thesis by (rule changed_is_good)
  qed
qed

subsection \<open>The settling visit\<close>

lemma count_of_map: "count_of kinds (map g xs) = int (length (filter (\<lambda>x. g x \<in> set kinds) xs))"
  by (simp add: count_of_def filter_map comp_def)

lemma billable_leads_states: "int (billable_leads db a) = count_of BILLABLE_VERDICTS (states_of db a)"
  unfolding billable_leads_def states_of_def leads_of_def count_of_map by (simp add: conj_ac)

lemma full_concat:
  assumes "length (concat (map f xs)) = length xs" "\<And>x. length (f x) \<le> 1" "x \<in> set xs"
  shows "f x \<noteq> []"
proof -
  have le: "length (concat (map f ys)) \<le> length ys" for ys
  proof (induction ys)
    case (Cons y ys)
    then show ?case using assms(2) [of y] by simp
  qed simp
  obtain ys zs where "xs = ys @ x # zs" using assms(3) by (metis split_list)
  then show ?thesis using assms(1) le [of ys] le [of zs] by auto
qed

lemma decided_all:
  assumes "length (decided now db a) = length (newly_queued_leads db a)" "r \<in> set (newly_queued_leads db a)"
  shows "map_of (decided now db a) r \<noteq> None"
proof -
  have "(case lead_outcome now db (ac_id a) (ac_user a) r of Verdict v \<Rightarrow> [(r, v)] | _ \<Rightarrow> []) \<noteq> []"
    using full_concat [OF assms(1) [unfolded decided_def] _ assms(2)] by (auto split: lead_outcome.splits)
  then show ?thesis using assms(2) unfolding decided_def map_of_eq_None_iff
    by (force split: lead_outcome.splits)
qed

lemma newly_queued_mem: "r \<in> set (newly_queued_leads db a) \<longleftrightarrow> (\<exists>v \<in> set (leads_of db a). v_state v = V_newly_queued \<and> v_result v = r)"
  by (auto simp: newly_queued_leads_def leads_of_def)

text \<open>What the verdicts of a visit leave, whether or not any was written.\<close>

definition after_verdicts :: "datetime \<Rightarrow> string \<Rightarrow> contact_db \<Rightarrow> action_row \<Rightarrow> contact_db option" where
  "after_verdicts now aid db a =
     (if decided now db a = [] then Some db
      else set_verdicts aid (ac_user a) V_newly_queued (decided now db a) [] db)"

lemma after_verdicts_evolve:
  assumes ok: "contact_ok db" and a: "a \<in> set (cd_actions db)" "ac_status a = A_claimed"
    and run: "after_verdicts now (ac_id a) db a = Some db1"
  defines "g \<equiv> redecided V_newly_queued (decided now db a)"
  shows "evolves a a g db db1" "hop_ok (leads_of db a) a a g" "action_ok (map g (leads_of db a)) a" "cd_tables db1 = cd_tables db"
proof -
  have legal: "\<And>r to. (r, to) \<in> set (decided now db a) \<Longrightarrow> to \<in> set (VERDICT_TRANSITIONS V_newly_queued)"
    using run set_verdicts_effect(4) [of "ac_id a" "ac_user a" V_newly_queued "decided now db a" "[]" db db1]
    unfolding after_verdicts_def by (cases "decided now db a = []") (simp_all del: VERDICT_TRANSITIONS.simps)
  show "evolves a a g db db1"
  proof (cases "decided now db a = []")
    case True
    then have "g = v_state" "db1 = db" using run by (auto simp: g_def redecided_def opt_or_def fun_eq_iff after_verdicts_def)
    then show ?thesis using evolves_moved [OF a(1), of a db] update_one(2) [OF ok a(1)] by (simp add: same_action_def)
  next
    case False
    then have sv: "set_verdicts (ac_id a) (ac_user a) V_newly_queued (decided now db a) [] db = Some db1"
      using run by (simp add: after_verdicts_def)
    show ?thesis unfolding evolves_def g_def
      using a(1) set_verdicts_effect(1,3) [OF sv] update_one(2) [OF ok a(1)]
      by (simp add: same_action_def of_action_def)
  qed
  show hop: "hop_ok (leads_of db a) a a g"
    using redecided_hop [of "decided now db a" V_newly_queued] legal by (simp add: hop_ok_def list_all_iff g_def)
  have g: "g v = v_state v \<or> v_state v = V_newly_queued \<and> g v \<in> set TERMINAL_ANSWERS" for v
    using redecided_hop [of "decided now db a" V_newly_queued v] legal
    by (cases "v_state v = V_newly_queued") (auto simp: g_def redecided_def)
  have terminal: "s \<in> set TERMINAL_ANSWERS \<Longrightarrow> s \<noteq> V_quoted \<and> s \<noteq> V_reused \<and> s \<in> set BOUGHT" for s
    by (auto simp: TERMINAL_ANSWERS_def BOUGHT_def)
  have bought: "g v \<in> set BOUGHT \<longleftrightarrow> v_state v \<in> set BOUGHT" and reused: "g v = V_reused \<longleftrightarrow> v_state v = V_reused"
    and quoted: "g v = V_quoted \<longleftrightarrow> v_state v = V_quoted" for v
    using g [of v] terminal [of "g v"] by (auto simp: BOUGHT_def)
  show "action_ok (map g (leads_of db a)) a"
    using consistent_action [OF ok a(1)] unfolding action_ok_def counts_ok_def a(2) count_of_map
    by (simp add: bought reused quoted image_iff) (metis quoted)
  show "cd_tables db1 = cd_tables db"
    using run set_verdicts_effect(2) unfolding after_verdicts_def by (auto split: if_splits)
qed

lemma evolves_then:
  assumes "evolves a a g db db1" "same_action a b"
    "cd_actions db' = map (\<lambda>x. if ac_id x = ac_id a then b else x) (cd_actions db1)" "cd_verdicts db' = cd_verdicts db1"
  shows "evolves a b g db db'"
  using assms by (simp add: evolves_def comp_def if_distrib cong: if_cong)

lemma flag_effect:
  assumes ok: "contact_ok db" and a: "a \<in> set (cd_actions db)"
    and run: "flag_action (ac_id a) A_claimed reason db = Some (hit, db')"
  obtains "cd_verdicts db' = cd_verdicts db" "cd_tables db' = cd_tables db"
    "cd_actions db' = map (\<lambda>x. if ac_id x = ac_id a then a\<lparr> ac_reason := if ac_status a = A_claimed then reason else ac_reason a \<rparr> else x) (cd_actions db)"
proof -
  let ?hit = "\<lambda>x. ac_id x = ac_id a \<and> ac_status x = A_claimed \<and> ac_reason x \<noteq> reason"
  have row: "x \<in> set (cd_actions db) \<Longrightarrow> ac_id x = ac_id a \<Longrightarrow> x = a" for x using actions_by_id [OF ok a] by blast
  have "cd_actions db' = map (\<lambda>x. if ?hit x then x\<lparr> ac_reason := reason \<rparr> else x) (cd_actions db)"
    using run unfolding flag_action_def Let_def log_event_def update_action_def
    by (auto simp: FLAGGABLE_def list_ex_iff split: if_splits intro!: map_idI [symmetric])
  also have "\<dots> = map (\<lambda>x. if ac_id x = ac_id a then a\<lparr> ac_reason := if ac_status a = A_claimed then reason else ac_reason a \<rparr> else x) (cd_actions db)"
    by (rule map_cong [OF refl]) (auto dest: row)
  finally show ?thesis
    using run that unfolding flag_action_def Let_def log_event_def update_action_def
    by (auto simp: FLAGGABLE_def split: if_splits)
qed

text \<open>The claimed action after a visit: settled with every lead decided, or flagged, with the billable rows counted anew.\<close>

definition settled_row :: "datetime \<Rightarrow> contact_db \<Rightarrow> contact_db \<Rightarrow> action_row \<Rightarrow> action_row" where
  "settled_row now db db1 a =
     (let billable = int (billable_leads db1 a)
      in if length (decided now db a) = length (newly_queued_leads db a)
         then moved_row now A_settled None None (\<lambda>x. x\<lparr> ac_billable := billable \<rparr>) a
         else a\<lparr> ac_reason := map_option flag_text (find (\<lambda>_. True) (blocked_by now db a)), ac_billable := billable \<rparr>)"

lemma settle_visit_effect:
  assumes ok: "contact_ok db" and a: "action_of db aid = Some a" "ac_status a = A_claimed"
    and run: "settle_visit now aid db = Some db'"
  obtains db1 where "after_verdicts now aid db a = Some db1" "cd_verdicts db' = cd_verdicts db1" "cd_tables db' = cd_tables db1"
    "cd_actions db' = map (\<lambda>x. if ac_id x = ac_id a then settled_row now db db1 a else x) (cd_actions db1)"
proof -
  have mem: "a \<in> set (cd_actions db)" and id: "ac_id a = aid" using action_of_mem [OF a(1)] by simp_all
  obtain db1 where db1: "after_verdicts now aid db a = Some db1"
    using run a unfolding settle_visit_def after_verdicts_def Let_def by (auto split: option.splits if_splits)
  note ev = after_verdicts_evolve [OF ok mem a(2) db1 [folded id]]
  have ok1: "contact_ok db1" by (rule evolves_keeps_ok [OF ok ev(1,3)])
  have acts: "cd_actions db1 = cd_actions db" using ev(1) update_one(2) [OF ok mem] by (simp add: evolves_def)
  have a1: "action_of db1 aid = Some a" "a \<in> set (cd_actions db1)" using a(1) mem acts by (simp_all add: action_of_def)
  have rest: "settle_visit now aid db =
      (if length (decided now db a) = length (newly_queued_leads db a)
       then map_option snd (move_action now aid A_claimed A_settled None None None (\<lambda>x. x\<lparr> ac_billable := int (billable_leads db1 a) \<rparr>) db1)
       else map_option (\<lambda>(raised, db2). update_action (\<lambda>x. ac_id x = aid) (\<lambda>x. x\<lparr> ac_billable := int (billable_leads db1 a) \<rparr>) db2)
         (flag_action aid A_claimed (map_option flag_text (find (\<lambda>_. True) (blocked_by now db a))) db1))"
    using a db1 unfolding settle_visit_def after_verdicts_def Let_def
    by (simp split: if_splits option.splits prod.splits)
  show ?thesis
  proof (cases "length (decided now db a) = length (newly_queued_leads db a)")
    case True
    then obtain hit where mv: "move_action now aid A_claimed A_settled None None None (\<lambda>x. x\<lparr> ac_billable := int (billable_leads db1 a) \<rparr>) db1 = Some (hit, db')"
      using run rest by auto
    have hit: "hit" using mv a1(2) a(2) id
      by (auto simp: move_action_def list_ex_iff move_hits_def split: if_splits)
    have mv': "move_action now aid A_claimed A_settled None None None (\<lambda>x. x\<lparr> ac_billable := int (billable_leads db1 a) \<rparr>) db1 = Some (True, db')"
      using mv hit by simp
    obtain a' where "action_of db1 aid = Some a'" "move_hits now aid A_claimed A_settled None a'"
      "A_settled \<in> set (ACTION_TRANSITIONS A_claimed)" "(None \<noteq> (None :: string option)) = (A_settled = A_running)"
      and m: "cd_actions db' = map (\<lambda>x. if ac_id x = ac_id a' then moved_row now A_settled None None (\<lambda>x. x\<lparr> ac_billable := int (billable_leads db1 a) \<rparr>) a' else x) (cd_actions db1)"
      "cd_verdicts db' = cd_verdicts db1" "cd_tables db' = cd_tables db1"
      by (rule move_evolves [OF ok1 mv'])
    then have "a' = a" using a1(1) by simp
    with m True show ?thesis by (intro that [OF db1]) (simp_all add: settled_row_def)
  next
    case False
    let ?why = "map_option flag_text (find (\<lambda>_. True) (blocked_by now db a))"
    let ?f = "\<lambda>x. x\<lparr> ac_billable := int (billable_leads db1 a) \<rparr>"
    obtain raised db2 where fl: "flag_action (ac_id a) A_claimed ?why db1 = Some (raised, db2)"
      and upd: "db' = update_action (\<lambda>x. ac_id x = aid) ?f db2"
      using run rest False id by auto
    obtain "cd_verdicts db2 = cd_verdicts db1" "cd_tables db2 = cd_tables db1"
      "cd_actions db2 = map (\<lambda>x. if ac_id x = ac_id a then a\<lparr> ac_reason := if ac_status a = A_claimed then ?why else ac_reason a \<rparr> else x) (cd_actions db1)"
      by (rule flag_effect [OF ok1 a1(2) fl])
    with upd False id a(2) show ?thesis
      by (intro that [OF db1]) (auto simp: update_action_def settled_row_def)
  qed
qed

lemma settle_is_good:
  assumes ok: "contact_ok db" and run: "settle_visit now aid db = Some db'"
  shows "good_change db db'"
proof (cases "\<exists>a. action_of db aid = Some a \<and> ac_status a = A_claimed")
  case False
  then show ?thesis using run unchanged_is_good by (auto simp: settle_visit_def split: option.splits if_splits)
next
  case True
  then obtain a where a: "action_of db aid = Some a" "ac_status a = A_claimed" by blast
  have mem: "a \<in> set (cd_actions db)" and id: "ac_id a = aid" using action_of_mem [OF a(1)] by simp_all
  obtain db1 where db1: "after_verdicts now aid db a = Some db1" "cd_verdicts db' = cd_verdicts db1" "cd_tables db' = cd_tables db1"
    "cd_actions db' = map (\<lambda>x. if ac_id x = ac_id a then settled_row now db db1 a else x) (cd_actions db1)"
    by (rule settle_visit_effect [OF ok a run])
  define g where "g = redecided V_newly_queued (decided now db a)"
  note ev = after_verdicts_evolve [OF ok mem a(2) db1(1) [folded id], folded g_def]
  let ?b = "settled_row now db db1 a"
  have same: "same_action a ?b" by (simp add: settled_row_def same_action_def moved_row_def Let_def)
  have "hop_ok (leads_of db a) a ?b g"
    using ev(2) a(2) by (simp add: hop_ok_def settled_row_def moved_row_def Let_def)
  moreover have "action_ok (map g (leads_of db a)) ?b"
  proof (cases "length (decided now db a) = length (newly_queued_leads db a)")
    case True
    have no_new: "g v \<noteq> V_newly_queued" if v: "v \<in> set (leads_of db a)" for v
    proof
      assume left: "g v = V_newly_queued"
      have new: "v_state v = V_newly_queued"
        using left ev(2) v by (auto simp: hop_ok_def list_all_iff TERMINAL_ANSWERS_def g_def redecided_def split: if_splits)
      obtain t where "map_of (decided now db a) (v_result v) = Some t"
        using decided_all [OF True] newly_queued_mem v new by blast
      moreover have "t \<in> set TERMINAL_ANSWERS"
        using db1(1) set_verdicts_effect(4) [of aid "ac_user a" V_newly_queued "decided now db a" "[]" db db1 "v_result v" t]
          map_of_SomeD [OF calculation] by (auto simp: after_verdicts_def split: if_splits)
      ultimately show False using left new by (auto simp: g_def redecided_def opt_or_def TERMINAL_ANSWERS_def)
    qed
    have "int (billable_leads db1 a) = count_of BILLABLE_VERDICTS (map g (leads_of db a))"
      using billable_leads_states leads_of_evolved_self [OF ev(1)] by simp
    then show ?thesis using ev(3) True no_new [symmetric] a(2)
      by (auto simp: action_ok_def counts_ok_def settled_row_def moved_row_def image_iff)
  next
    case False
    then show ?thesis using ev(3) a(2) by (simp add: action_ok_def counts_ok_def settled_row_def Let_def)
  qed
  ultimately show ?thesis using changed_is_good [OF evolves_then [OF ev(1) same db1(4,2)]] by blast
qed

subsection \<open>The claiming transaction\<close>

lemma perm_count: "mset xs = mset ys \<Longrightarrow> length (filter P xs) = length (filter P ys)"
  by (metis mset_filter size_mset)

lemma full_filter: "length (filter P xs) = length xs \<Longrightarrow> x \<in> set xs \<Longrightarrow> P x"
  by (metis length_filter_less less_irrefl)

lemma count_keys:
  assumes "distinct (map key leads)" "length vs = length leads" "\<And>x. x \<in> set leads \<Longrightarrow> map_of vs (key x) \<noteq> None"
  shows "distinct (map fst vs)" "set (map fst vs) = set (map key leads)"
    "length (filter (\<lambda>x. the (map_of vs (key x)) = s) leads) = length (filter (\<lambda>v. snd v = s) vs)"
proof -
  have sub: "set (map key leads) \<subseteq> set (map fst vs)" using assms(3) by (force simp: map_of_eq_None_iff)
  have le: "card (set (map fst vs)) \<le> card (set (map key leads))"
    using card_length [of "map fst vs"] distinct_card [OF assms(1)] assms(2) by simp
  show eq: "set (map fst vs) = set (map key leads)" using card_seteq [OF _ sub le] by simp
  show dist: "distinct (map fst vs)"
    using eq distinct_card [OF assms(1)] assms(2) by (intro card_distinct) simp
  have perm: "mset (map key leads) = mset (map fst vs)"
    using set_eq_iff_mset_eq_distinct [OF assms(1) dist] eq by simp
  have "length (filter (\<lambda>x. the (map_of vs (key x)) = s) leads) = length (filter (\<lambda>k. the (map_of vs k) = s) (map key leads))"
    by (simp add: filter_map comp_def)
  also have "\<dots> = length (filter (\<lambda>k. the (map_of vs k) = s) (map fst vs))" by (rule perm_count [OF perm])
  also have "\<dots> = length (filter (\<lambda>v. snd v = s) vs)"
    unfolding filter_map length_map comp_def
    by (rule arg_cong [where f = length], rule filter_cong [OF refl]) (use dist in auto)
  finally show "length (filter (\<lambda>x. the (map_of vs (key x)) = s) leads) = length (filter (\<lambda>v. snd v = s) vs)" .
qed

lemma leads_distinct: "contact_ok db \<Longrightarrow> distinct (map v_result (leads_of db a))"
proof -
  assume "contact_ok db"
  then have "distinct (map (\<lambda>v. (v_action v, v_user v, v_result v)) (leads_of db a))"
    unfolding contact_ok_def leads_of_def by (blast intro: distinct_map_filter)
  then show ?thesis unfolding distinct_map by (auto simp: inj_on_def leads_of_def)
qed

text \<open>Every quoted lead gets its verdict, and the action moves to claimed with the counts of the verdicts.\<close>

definition claim_counts :: "(string \<times> lead_verdict) list \<Rightarrow> int \<Rightarrow> action_row \<Rightarrow> action_row" where
  "claim_counts vs spent x =
     x\<lparr> ac_newly := int (length (filter (\<lambda>v. snd v = V_newly_queued) vs)), ac_reused := int (length (filter (\<lambda>v. snd v = V_reused) vs)),
        ac_claimed_count := int (length (filter (\<lambda>v. snd v = V_newly_queued) vs) + length (filter (\<lambda>v. snd v = V_reused) vs)),
        ac_credits := spent \<rparr>"

lemma with_tables_verdicts [simp]: "cd_verdicts (with_tables f db) = cd_verdicts db" "cd_actions (with_tables f db) = cd_actions db"
  by (simp_all add: with_tables_def)

lemma hits_are_leads:
  assumes "list_all (\<lambda>v. v_state v = s) (leads_of db a)"
  shows "filter (verdict_hits (ac_id a) (ac_user a) s vs) (cd_verdicts db) = filter (\<lambda>v. map_of vs (v_result v) \<noteq> None) (leads_of db a)"
  using assms unfolding leads_of_def filter_filter
  by (intro filter_cong [OF refl]) (auto simp: verdict_hits_def list_all_iff)

lemma claim_is_good:
  assumes ok: "contact_ok db" and a: "a \<in> set (cd_actions db)" "ac_status a = A_running"
    and n: "int (length vs) = ac_quoted_count a"
    and sv: "set_verdicts (ac_id a) (ac_user a) V_quoted vs reasons (with_tables (\<lambda>_. t) db) = Some db1"
    and mv: "move_action now (ac_id a) A_running A_claimed None (Some token) None (claim_counts vs spent) db1 = Some (True, db')"
  shows "good_change db db'" "distinct (map fst vs)" "set (map fst vs) = set (map v_result (leads_of db a))"
    "evolves a (moved_row now A_claimed None None (claim_counts vs spent) a) (redecided V_quoted vs) db db'" "cd_tables db' = t"
    "list_all (\<lambda>v. v_state v = V_quoted \<and> map_of vs (v_result v) \<noteq> None) (leads_of db a)"
proof -
  let ?g = "redecided V_quoted vs" and ?b = "moved_row now A_claimed None None (claim_counts vs spent) a"
  note cons = consistent_action [OF ok a(1)]
  have all: "list_all (\<lambda>v. v_state v = V_quoted) (leads_of db a)"
    using cons a(2) by (simp add: action_ok_def list_all_iff)
  have len: "length (leads_of db a) = length vs" using cons n by (simp add: action_ok_def)
  note e = set_verdicts_effect [OF sv]
  have db1: "cd_actions db1 = cd_actions db" "cd_tables db1 = t"
    "cd_verdicts db1 = map (\<lambda>v. if of_action a v then v\<lparr> v_state := ?g v \<rparr> else v) (cd_verdicts db)"
    using e(1,2,3) by (simp_all add: with_tables_def of_action_def)
  have e5: "length (filter (verdict_hits (ac_id a) (ac_user a) V_quoted vs) (cd_verdicts db)) = length vs"
    using e(5) unfolding with_tables_verdicts .
  have "length (filter (\<lambda>v. map_of vs (v_result v) \<noteq> None) (leads_of db a)) = length (leads_of db a)"
    using trans [OF e5 [unfolded hits_are_leads [OF all]] len [symmetric]] .
  note full = this
  have hit: "\<And>v. v \<in> set (leads_of db a) \<Longrightarrow> map_of vs (v_result v) \<noteq> None" by (rule full_filter [OF full])
  show "list_all (\<lambda>v. v_state v = V_quoted \<and> map_of vs (v_result v) \<noteq> None) (leads_of db a)"
    using all hit by (simp add: list_all_iff)
  note keys = count_keys [OF leads_distinct [OF ok] len [symmetric] hit]
  show "distinct (map fst vs)" "set (map fst vs) = set (map v_result (leads_of db a))" by (rule keys; simp)+
  have ev1: "evolves a a ?g db db1"
    using a(1) db1 update_one(2) [OF ok a(1)] by (simp add: evolves_def same_action_def)
  obtain a' where a': "action_of db1 (ac_id a) = Some a'" "move_hits now (ac_id a) A_running A_claimed (Some token) a'"
    "A_claimed \<in> set (ACTION_TRANSITIONS A_running)" "(None \<noteq> (None :: string option)) = (A_claimed = A_running)"
    and m: "cd_actions db' = map (\<lambda>x. if ac_id x = ac_id a' then moved_row now A_claimed None None (claim_counts vs spent) a' else x) (cd_actions db1)"
      "cd_verdicts db' = cd_verdicts db1" "cd_tables db' = cd_tables db1"
    by (rule move_evolves_at [OF ok db1(1) mv])
  have "a' = a" using a'(1) action_of_unique [OF ok a(1)] db1(1) by (simp add: action_of_def)
  note m = m [unfolded this]
  have same: "same_action a ?b" by (simp add: same_action_def moved_row_def claim_counts_def)
  show ev: "evolves a ?b ?g db db'" by (rule evolves_then [OF ev1 same m(1,2)])
  show "cd_tables db' = t" using m(3) db1(2) by simp
  have g: "?g v = the (map_of vs (v_result v)) \<and> ?g v \<in> set (VERDICT_TRANSITIONS V_quoted)" if v: "v \<in> set (leads_of db a)" for v
  proof -
    obtain to where to: "map_of vs (v_result v) = Some to" using hit [OF v] by blast
    then show ?thesis using e(4) [OF map_of_SomeD [OF to]] all v by (simp add: redecided_def opt_or_def list_all_iff del: VERDICT_TRANSITIONS.simps)
  qed
  have counts: "length (filter (\<lambda>v. ?g v = s) (leads_of db a)) = length (filter (\<lambda>v. snd v = s) vs)" for s
  proof -
    have eq: "filter (\<lambda>v. ?g v = s) (leads_of db a) = filter (\<lambda>v. the (map_of vs (v_result v)) = s) (leads_of db a)"
      by (rule filter_cong [OF refl]) (simp add: g)
    show ?thesis unfolding eq by (rule count_keys(3) [OF leads_distinct [OF ok] len [symmetric] hit])
  qed
  have bought: "?g v \<in> set BOUGHT \<longleftrightarrow> ?g v = V_newly_queued" if v: "v \<in> set (leads_of db a)" for v
    using g [OF v] by (auto simp: BOUGHT_def TERMINAL_ANSWERS_def EXCLUDED_def)
  have newly: "count_of BOUGHT (map ?g (leads_of db a)) = int (length (filter (\<lambda>v. snd v = V_newly_queued) vs))"
    unfolding count_of_map counts [symmetric] by (simp add: bought cong: filter_cong)
  have "V_quoted \<notin> set (map ?g (leads_of db a))" using g by (force simp: EXCLUDED_def)
  then have "action_ok (map ?g (leads_of db a)) ?b"
    using n len newly counts [of V_reused]
    by (simp add: action_ok_def counts_ok_def moved_row_def claim_counts_def count_of_map)
  moreover have "hop_ok (leads_of db a) a ?b ?g"
    using redecided_hop [OF e(4)] a(2) by (simp add: hop_ok_def moved_row_def list_all_iff del: VERDICT_TRANSITIONS.simps)
  ultimately show "good_change db db'" using ev by (intro changed_is_good)
qed

lemma update_results_pending [simp]:
  "pending (sk (update_results P f t)) = pending (sk t)" "actions (sk (update_results P f t)) = actions (sk t)"
  by (simp_all add: update_results_def)

lemma copy_cached_pending: "copy_cached_answer sha now days rid p t = Some (b, t') \<Longrightarrow> pending (sk t') = pending (sk t) \<and> actions (sk t') = actions (sk t)"
  unfolding copy_cached_answer_def by (auto split: option.splits if_splits)

lemma reuse_or_claim_grows:
  assumes "reuse_or_claim w kept cs (vs, tc, t) = Some (vs', tc', t')"
  shows "length vs' + length tc' = length vs + length tc + length cs" "pending (sk t') = pending (sk t) \<and> actions (sk t') = actions (sk t)"
    "filter (\<lambda>v. snd v = V_newly_queued) vs' = filter (\<lambda>v. snd v = V_newly_queued) vs"
  using assms
proof (induction cs arbitrary: vs tc t)
  case (Cons c cs)
  obtain l p where c: "c = (l, p)" by (cases c)
  { case 1 then show ?case using Cons.IH(1) unfolding c by (fastforce split: option.splits if_splits bool.splits prod.splits) }
  { case 2 then show ?case using Cons.IH(2) copy_cached_pending unfolding c by (fastforce split: option.splits if_splits bool.splits prod.splits) }
  { case 3 then show ?case using Cons.IH(3) unfolding c by (fastforce split: option.splits if_splits bool.splits prod.splits) }
qed simp_all

lemma verdict_for_not_bought: "verdict_for build policy status l = Inl v \<Longrightarrow> v \<noteq> V_newly_queued"
  unfolding verdict_for_def Let_def
  by (auto split: if_splits option.splits elim!: exclusion_verdict.elims)

lemma claim_verdict_newly: "claim_verdict_of won held t uid r = Some v \<Longrightarrow> v = V_newly_queued \<longleftrightarrow> r \<in> set won"
  by (auto simp: claim_verdict_of_def split: option.splits if_splits)

lemma split_by_side:
  "length (concat (map (\<lambda>x. case f x of Inl v \<Rightarrow> [g x v] | Inr _ \<Rightarrow> []) xs)) +
   length (concat (map (\<lambda>x. case f x of Inl _ \<Rightarrow> [] | Inr p \<Rightarrow> [h x p]) xs)) = length xs"
  by (induction xs) (simp_all split: sum.splits)

lemma buy_leads_shape:
  assumes run: "buy_leads w a token db = Inr (out, db')"
  obtains vs reasons t2 won report tables to_claim spent db1 where
    "claim_skip_trace_rows (cw_index w) (\<lambda>j. j = ac_job a) (cw_fresh w) (cw_later w) (cw_now w) (Some (ac_id a)) to_claim (sk t2) =
       Inr (won, report, tables)"
    "pending (sk t2) = pending (sk (cd_tables db)) \<and> actions (sk t2) = actions (sk (cd_tables db))" "length vs = length (quoted_rows w a db)"
    "set_verdicts (ac_id a) (ac_user a) V_quoted vs reasons (with_tables (\<lambda>_. t2\<lparr> sk := tables \<rparr>) db) = Some db1"
    "move_action (cw_now w) (ac_id a) A_running A_claimed None (Some token) None (claim_counts vs spent) db1 = Some (True, db')"
    "credits_sum (filter (\<lambda>p. pl_result p \<in> set won) to_claim) = Some spent"
    "out = Claimed_leads (length (filter (\<lambda>v. snd v = V_newly_queued) vs)) (length (filter (\<lambda>v. snd v = V_reused) vs)) spent
       (length (quoted_rows w a db))"
    "filter (\<lambda>v. snd v = V_newly_queued) vs = map (\<lambda>p. (pl_result p, V_newly_queued)) (filter (\<lambda>p. pl_result p \<in> set won) to_claim)"
proof -
  define rows where "rows = quoted_rows w a db"
  define verdict where "verdict = (\<lambda>(r :: result_row, l). verdict_for (cw_build w) (ac_policy a \<and> cw_pierce w) (r_skip_trace_status r) (l :: lead_row))"
  define settled where "settled = concat (map (\<lambda>x. case verdict x of Inl v \<Rightarrow> [(ld_id (snd x), v)] | Inr _ \<Rightarrow> []) rows)"
  define open_leads where "open_leads = concat (map (\<lambda>x. case verdict x of Inl _ \<Rightarrow> [] | Inr p \<Rightarrow> [(snd x, p)]) rows)"
  obtain kept t1 where st: "settle_charged_unanswered (cw_now w) (cw_days w) (ac_user a) (map fst open_leads) (cd_tables db) = (kept, t1)"
    by (meson surj_pair)
  note run' = run [unfolded buy_leads_def Let_def, folded rows_def verdict_def, folded settled_def open_leads_def, unfolded st prod.case]
  obtain vs0 to_claim t2 where rc: "reuse_or_claim w (map ld_id kept) open_leads (settled, [], t1) = Some (vs0, to_claim, t2)"
    using run' by (auto split: option.splits prod.splits)
  obtain won report tables where cl: "claim_skip_trace_rows (cw_index w) (\<lambda>j. j = ac_job a) (cw_fresh w) (cw_later w) (cw_now w) (Some (ac_id a)) to_claim (sk t2) =
       Inr (won, report, tables)"
    using run' rc by (auto split: sum.splits claim_error.splits prod.splits)
  define held where "held = (case report of None \<Rightarrow> [] | Some rep \<Rightarrow> rep_held_ids rep)"
  define decided where "decided = (\<lambda>p :: payload. claim_verdict_of won held (t2\<lparr> sk := tables \<rparr>) (ac_user a) (pl_result p))"
  have sure: "\<forall>p \<in> set to_claim. decided p \<noteq> None"
    using run' rc cl unfolding decided_def held_def by (auto simp: list_ex_iff split: option.splits if_splits)
  then have all: "filter (\<lambda>p. decided p \<noteq> None) to_claim = to_claim" by (rule filter_True)
  have won: "the (decided p) = V_newly_queued \<longleftrightarrow> pl_result p \<in> set won" if "p \<in> set to_claim" for p
    using sure that claim_verdict_newly unfolding decided_def by fastforce
  define vs where "vs = vs0 @ map (\<lambda>p. (pl_result p, the (decided p))) to_claim"
  obtain reasons spent db1 where "credits_sum (filter (\<lambda>p. pl_result p \<in> set won) to_claim) = Some spent"
    "set_verdicts (ac_id a) (ac_user a) V_quoted vs reasons (with_tables (\<lambda>_. t2\<lparr> sk := tables \<rparr>) db) = Some db1"
    "move_action (cw_now w) (ac_id a) A_running A_claimed None (Some token) None (claim_counts vs spent) db1 = Some (True, db')"
    "out = Claimed_leads (length (filter (\<lambda>v. snd v = V_newly_queued) vs)) (length (filter (\<lambda>v. snd v = V_reused) vs)) spent (length rows)"
    using run' [folded decided_def] rc cl all unfolding claim_counts_def vs_def held_def decided_def by (auto split: option.splits if_splits prod.splits bool.splits)
  moreover have "length vs = length rows"
    using reuse_or_claim_grows(1) [OF rc] split_by_side [where f = verdict and g = "\<lambda>x v. (ld_id (snd x), v)" and h = "\<lambda>x p. (snd x, p)" and xs = rows]
    by (simp add: vs_def settled_def open_leads_def)
  moreover have "pending (sk t2) = pending (sk (cd_tables db)) \<and> actions (sk t2) = actions (sk (cd_tables db))"
    using reuse_or_claim_grows(2) [OF rc] st by (auto simp: settle_charged_unanswered_def Let_def)
  moreover have "filter (\<lambda>v. snd v = V_newly_queued) settled = []"
    unfolding filter_empty_conv settled_def verdict_def by (auto split: sum.splits dest: verdict_for_not_bought verdict_for_not_bought [OF sym])
  then have "filter (\<lambda>v. snd v = V_newly_queued) vs = map (\<lambda>p. (pl_result p, V_newly_queued)) (filter (\<lambda>p. pl_result p \<in> set won) to_claim)"
    using reuse_or_claim_grows(3) [OF rc]
    by (simp add: vs_def filter_map comp_def won cong: map_cong filter_cong)
  ultimately show ?thesis using that [OF cl] unfolding rows_def by blast
qed

text \<open>The outcomes of the claiming transaction: fenced, waiting, failed, or every gate passed and the leads bought.\<close>

definition gates_pass :: "claim_world \<Rightarrow> action_row \<Rightarrow> string \<Rightarrow> contact_db \<Rightarrow> bool" where
  "gates_pass w a token db \<longleftrightarrow>
     ac_status a = A_running \<and> lease_is (cw_now w) token a \<and> cw_enabled w \<and> cw_lock w \<and>
     job_is_delivered (cd_tables db) (ac_job a) (ac_user a) \<and>
     (case users (sk (cd_tables db)) (ac_user a) of None \<Rightarrow> False
      | Some u \<Rightarrow> normalize_plan (Some (u_plan u)) \<in> set SKIP_TRACE_ADDON_PLANS \<and> paid_lookup_access u (cw_now w) \<notin> set BLOCKED_ACCESS) \<and>
     length (quoted_ids (ac_id a) (ac_user a) db) = length (quoted_rows w a db) \<and>
     int (length (quoted_rows w a db)) = ac_quoted_count a"

lemma claim_action_cases:
  assumes "claim_action w aid token db = Inr (outcome, db')"
  obtains "outcome = Fenced" "db' = db"
  | why where "outcome = Waiting why" "wait_action (cw_now w) aid token why db = Some db'"
  | a why where "outcome = Failed why" "action_of db aid = Some a" "fail_action (cw_now w) a token why db = Some db'"
  | a where "action_of db aid = Some a" "gates_pass w a token db" "buy_leads w a token db = Inr (outcome, db')"
proof (cases "action_of db aid")
  case None
  then show ?thesis using assms that(1) by (simp add: claim_action_def)
next
  case (Some a)
  have id: "ac_id a = aid" using action_of_mem [OF Some] by simp
  show ?thesis
    using assms Some id unfolding claim_action_def
    by (auto simp: Let_def gates_pass_def split: if_splits option.splits intro: that)
qed

lemma claim_action_is_good:
  assumes ok: "contact_ok db" and run: "claim_action w aid token db = Inr (outcome, db')"
  shows "good_change db db'"
  using run
proof (cases rule: claim_action_cases)
  case 1
  then show ?thesis using unchanged_is_good by simp
next
  case (2 why)
  then show ?thesis using wait_is_good [OF ok] by blast
next
  case (3 a why)
  then show ?thesis using fail_is_good [OF ok] by blast
next
  case (4 a)
  have a: "a \<in> set (cd_actions db)" using action_of_mem [OF 4(1)] by simp
  have g: "ac_status a = A_running" "int (length (quoted_rows w a db)) = ac_quoted_count a" using 4(2) by (simp_all add: gates_pass_def)
  obtain vs reasons t2 won report tables to_claim spent db1 where
    "claim_skip_trace_rows (cw_index w) (\<lambda>j. j = ac_job a) (cw_fresh w) (cw_later w) (cw_now w) (Some (ac_id a)) to_claim (sk t2) =
       Inr (won, report, tables)"
    "pending (sk t2) = pending (sk (cd_tables db)) \<and> actions (sk t2) = actions (sk (cd_tables db))" and n: "length vs = length (quoted_rows w a db)"
    and sv: "set_verdicts (ac_id a) (ac_user a) V_quoted vs reasons (with_tables (\<lambda>_. t2\<lparr> sk := tables \<rparr>) db) = Some db1"
    and mv: "move_action (cw_now w) (ac_id a) A_running A_claimed None (Some token) None (claim_counts vs spent) db1 = Some (True, db')"
    and "credits_sum (filter (\<lambda>p. pl_result p \<in> set won) to_claim) = Some spent"
    "outcome = Claimed_leads (length (filter (\<lambda>v. snd v = V_newly_queued) vs)) (length (filter (\<lambda>v. snd v = V_reused) vs)) spent
       (length (quoted_rows w a db))"
    "filter (\<lambda>v. snd v = V_newly_queued) vs = map (\<lambda>p. (pl_result p, V_newly_queued)) (filter (\<lambda>p. pl_result p \<in> set won) to_claim)"
    by (rule buy_leads_shape [OF 4(3)])
  then show ?thesis using claim_is_good(1) [OF ok a g(1) _ sv mv] n g(2) by simp
qed

subsection \<open>The confirmation and the step relation\<close>

lemma confirm_keeps_ok:
  assumes ok: "contact_ok db" and fresh: "aid \<notin> ac_id ` set (cd_actions db)" and ids: "distinct ids"
    and run: "confirm_contact_lookups now aid uid job_id quote ids policy db = (r, db')"
  shows "contact_ok db'"
proof (cases "r = Confirmed")
  case False
  then have "db' = db" using run by (auto simp: confirm_contact_lookups_def Let_def split: option.splits if_splits)
  then show ?thesis using ok by simp
next
  case True
  define a where "a = \<lparr> ac_id = aid, ac_user = uid, ac_job = job_id, ac_quote = quote, ac_status = A_dispatching,
     ac_reason = None, ac_created = now, ac_lease = None, ac_dispatched = None, ac_claimed_at = None,
     ac_quoted_count = int (length ids), ac_policy = policy, ac_newly = 0, ac_reused = 0,
     ac_claimed_count = 0, ac_billable = 0, ac_credits = 0 \<rparr>"
  have no_quote: "find (\<lambda>x. ac_quote x = quote \<and> ac_user x = uid) (cd_actions db) = None"
    and len: "length (filter (\<lambda>i. case results (sk (cd_tables db)) i of None \<Rightarrow> False | Some r \<Rightarrow> r_user r = uid \<and> r_job r = job_id) ids) = length ids"
    using True run by (auto simp: confirm_contact_lookups_def Let_def split: option.splits if_splits)
  have all: "filter (\<lambda>i. case results (sk (cd_tables db)) i of None \<Rightarrow> False | Some r \<Rightarrow> r_user r = uid \<and> r_job r = job_id) ids = ids"
    by (rule filter_True) (use full_filter [OF len] in blast)
  have db': "cd_actions db' = cd_actions db @ [a]"
    "cd_verdicts db' = cd_verdicts db @ map (\<lambda>i. \<lparr> v_action = aid, v_user = uid, v_result = i, v_state = V_quoted \<rparr>) ids"
    using run no_quote all True unfolding a_def
    by (auto simp: confirm_contact_lookups_def Let_def log_event_def with_tables_def split: if_splits)
  have old: "v_action v \<noteq> aid" if "v \<in> set (cd_verdicts db)" for v
    using that ok fresh by (auto simp: contact_ok_def)
  have "leads_of db' a = map (\<lambda>i. \<lparr> v_action = aid, v_user = uid, v_result = i, v_state = V_quoted \<rparr>) ids"
    using old by (auto simp: leads_of_def db' a_def filter_map comp_def filter_empty_conv)
  then have new: "action_ok (states_of db' a) a"
    by (auto simp: action_ok_def states_of_def a_def counts_ok_def list_all_iff)
  have "leads_of db' x = leads_of db x" if "x \<in> set (cd_actions db)" for x
    using that fresh by (auto simp: leads_of_def db' filter_map comp_def filter_empty_conv)
  then have "\<forall>x \<in> set (cd_actions db'). action_ok (states_of db' x) x"
    using new ok by (auto simp: db' contact_ok_def states_of_def)
  moreover have "distinct (map ac_id (cd_actions db'))" "distinct (map (\<lambda>x. (ac_quote x, ac_user x)) (cd_actions db'))"
    using ok fresh no_quote by (auto simp: contact_ok_def db' a_def find_None_iff)
  moreover have "distinct (map (\<lambda>v. (v_action v, v_user v, v_result v)) (cd_verdicts db'))"
    using ok old ids by (auto simp: contact_ok_def db' distinct_map inj_on_def)
  moreover have "\<forall>v \<in> set (cd_verdicts db'). v_action v \<in> ac_id ` set (cd_actions db')"
    using ok by (auto simp: contact_ok_def db' a_def)
  ultimately show ?thesis by (simp add: contact_ok_def)
qed

text \<open>Every writer of the three tables. \<open>others\<close>: any transaction outside them (the dispatcher, the ingest, a purge, a run).\<close>

inductive contact_step :: "contact_db \<Rightarrow> contact_db \<Rightarrow> bool" where
  confirmed: "confirm_contact_lookups now aid uid job_id quote ids policy db = (r, db') \<Longrightarrow> aid \<notin> ac_id ` set (cd_actions db) \<Longrightarrow>
      distinct ids \<Longrightarrow> contact_step db db'"
| started: "start_action now aid token db = Some (hit, db') \<Longrightarrow> contact_step db db'"
| claimed: "claim_action w aid token db = Inr (outcome, db') \<Longrightarrow> contact_step db db'"
| waited: "wait_action now aid token reason db = Some db' \<Longrightarrow> contact_step db db'"
| expired: "expire_visit now aid db = Some db' \<Longrightarrow> contact_step db db'"
| taken_back: "take_back_visit now aid db = Some db' \<Longrightarrow> contact_step db db'"
| republished: "republish_visit now aid db = Some db' \<Longrightarrow> contact_step db db'"
| settled: "settle_visit now aid db = Some db' \<Longrightarrow> contact_step db db'"
| others: "contact_step db (db\<lparr> cd_tables := t \<rparr>)"

lemma step_change:
  assumes "contact_step db db'" "contact_ok db"
  shows "good_change db db' \<or> (contact_ok db' \<and> (\<exists>news leads. cd_actions db' = cd_actions db @ news \<and> cd_verdicts db' = cd_verdicts db @ leads))"
  using assms
proof (cases rule: contact_step.cases)
  case (confirmed now aid uid job_id quote ids policy r)
  have "\<exists>news leads. cd_actions db' = cd_actions db @ news \<and> cd_verdicts db' = cd_verdicts db @ leads"
    using confirmed(1) unfolding confirm_contact_lookups_def Let_def log_event_def with_tables_def
    by (auto split: option.splits if_splits)
  then show ?thesis using confirm_keeps_ok [OF assms(2) confirmed(2,3,1)] by blast
next
  case (others t)
  then show ?thesis by (simp add: good_change_def)
next
  case started
  then show ?thesis using start_is_good [OF assms(2)] by (intro disjI1)
next
  case claimed
  then show ?thesis using claim_action_is_good [OF assms(2)] by (intro disjI1)
next
  case waited
  then show ?thesis using wait_is_good [OF assms(2)] by (intro disjI1)
next
  case expired
  then show ?thesis using expire_is_good [OF assms(2)] by (intro disjI1)
next
  case taken_back
  then show ?thesis using take_back_is_good [OF assms(2)] by (intro disjI1)
next
  case republished
  then show ?thesis using republish_is_good [OF assms(2)] by (intro disjI1)
next
  case settled
  then show ?thesis using settle_is_good [OF assms(2)] by (intro disjI1)
qed

lemma step_keeps_ok: "contact_step db db' \<Longrightarrow> contact_ok db \<Longrightarrow> contact_ok db'"
  using step_change good_change_keeps_ok by blast

lemma run_keeps_ok: "contact_step\<^sup>*\<^sup>* db db' \<Longrightarrow> contact_ok db \<Longrightarrow> contact_ok db'"
  by (induction rule: rtranclp_induct) (auto intro: step_keeps_ok)

definition no_actions :: "contact_db \<Rightarrow> bool" where
  "no_actions db \<longleftrightarrow> cd_actions db = [] \<and> cd_verdicts db = []"

lemma no_actions_ok: "no_actions db \<Longrightarrow> contact_ok db"
  by (simp add: no_actions_def contact_ok_def)

subsection \<open>The matrices are the only moves\<close>

definition status_hop :: "action_status \<Rightarrow> action_status \<Rightarrow> bool" where
  "status_hop s t \<longleftrightarrow> t \<in> set (ACTION_TRANSITIONS s)"

definition verdict_hop :: "lead_verdict \<Rightarrow> lead_verdict \<Rightarrow> bool" where
  "verdict_hop s t \<longleftrightarrow> t \<in> set (VERDICT_TRANSITIONS s)"

definition same_lead :: "verdict_row \<Rightarrow> verdict_row \<Rightarrow> bool" where
  "same_lead v u \<longleftrightarrow> v_action u = v_action v \<and> v_user u = v_user v \<and> v_result u = v_result v"

text \<open>Every action and every lead is still there, and got where it is along its matrix.\<close>

definition follows :: "contact_db \<Rightarrow> contact_db \<Rightarrow> bool" where
  "follows db db' \<longleftrightarrow>
     (\<forall>a \<in> set (cd_actions db). \<exists>b \<in> set (cd_actions db'). same_action a b \<and> status_hop\<^sup>*\<^sup>* (ac_status a) (ac_status b)) \<and>
     (\<forall>v \<in> set (cd_verdicts db). \<exists>u \<in> set (cd_verdicts db'). same_lead v u \<and> verdict_hop\<^sup>*\<^sup>* (v_state v) (v_state u))"

lemma follows_refl: "follows db db"
  by (auto simp: follows_def same_action_def same_lead_def)

lemma follows_trans:
  assumes "follows db db1" "follows db1 db2"
  shows "follows db db2"
  unfolding follows_def
proof (intro conjI ballI)
  fix a assume "a \<in> set (cd_actions db)"
  then obtain b where b: "b \<in> set (cd_actions db1)" "same_action a b" "status_hop\<^sup>*\<^sup>* (ac_status a) (ac_status b)"
    using assms(1) unfolding follows_def by blast
  then obtain c where "c \<in> set (cd_actions db2)" "same_action b c" "status_hop\<^sup>*\<^sup>* (ac_status b) (ac_status c)"
    using assms(2) unfolding follows_def by blast
  then show "\<exists>c \<in> set (cd_actions db2). same_action a c \<and> status_hop\<^sup>*\<^sup>* (ac_status a) (ac_status c)"
    using b by (intro bexI [of _ c] conjI) (auto simp: same_action_def intro: rtranclp_trans)
next
  fix v assume "v \<in> set (cd_verdicts db)"
  then obtain u where u: "u \<in> set (cd_verdicts db1)" "same_lead v u" "verdict_hop\<^sup>*\<^sup>* (v_state v) (v_state u)"
    using assms(1) unfolding follows_def by blast
  then obtain x where "x \<in> set (cd_verdicts db2)" "same_lead u x" "verdict_hop\<^sup>*\<^sup>* (v_state u) (v_state x)"
    using assms(2) unfolding follows_def by blast
  then show "\<exists>x \<in> set (cd_verdicts db2). same_lead v x \<and> verdict_hop\<^sup>*\<^sup>* (v_state v) (v_state x)"
    using u by (intro bexI [of _ x] conjI) (auto simp: same_lead_def intro: rtranclp_trans)
qed

lemma evolves_follows:
  assumes ok: "contact_ok db" and ev: "evolves a b g db db'" and hop: "hop_ok (leads_of db a) a b g"
  shows "follows db db'"
proof -
  note d = ev [unfolded evolves_def]
  have a: "a \<in> set (cd_actions db)" "same_action a b" using d by auto
  have "\<exists>y \<in> set (cd_actions db'). same_action x y \<and> status_hop\<^sup>*\<^sup>* (ac_status x) (ac_status y)" if x: "x \<in> set (cd_actions db)" for x
  proof (cases "ac_id x = ac_id a")
    case True
    then have "x = a" by (rule actions_by_id [OF ok a(1) x])
    moreover have "b \<in> set (cd_actions db')" using d x True by force
    moreover have "status_hop\<^sup>*\<^sup>* (ac_status a) (ac_status b)"
      using hop by (auto simp: hop_ok_def status_hop_def [abs_def])
    ultimately show ?thesis using a(2) by blast
  next
    case False
    then have "x \<in> set (cd_actions db')" using d x by force
    then show ?thesis by (intro bexI [of _ x]) (simp_all add: same_action_def)
  qed
  moreover have "\<exists>u \<in> set (cd_verdicts db'). same_lead v u \<and> verdict_hop\<^sup>*\<^sup>* (v_state v) (v_state u)" if v: "v \<in> set (cd_verdicts db)" for v
  proof (cases "of_action a v")
    case True
    then have "v \<in> set (leads_of db a)" using v by (simp add: leads_of_def of_action_def)
    then have "g v = v_state v \<or> verdict_hop (v_state v) (g v)"
      using hop unfolding hop_ok_def list_all_iff verdict_hop_def by blast
    moreover have "v\<lparr> v_state := g v \<rparr> \<in> set (cd_verdicts db')" using d v True by force
    ultimately show ?thesis by (intro bexI [of _ "v\<lparr> v_state := g v \<rparr>"]) (auto simp: same_lead_def)
  next
    case False
    then have "v \<in> set (cd_verdicts db')" using d v by force
    then show ?thesis by (intro bexI [of _ v]) (simp_all add: same_lead_def)
  qed
  ultimately show ?thesis by (simp add: follows_def)
qed

lemma step_follows:
  assumes "contact_step db db'" "contact_ok db"
  shows "follows db db'"
proof -
  consider (same) "cd_actions db' = cd_actions db \<and> cd_verdicts db' = cd_verdicts db"
    | (one) "\<exists>a b g. evolves a b g db db' \<and> hop_ok (leads_of db a) a b g"
    | (more) "\<exists>news leads. cd_actions db' = cd_actions db @ news \<and> cd_verdicts db' = cd_verdicts db @ leads"
    using step_change [OF assms] unfolding good_change_def by blast
  then show ?thesis
  proof cases
    case same
    then show ?thesis using follows_refl [of db] by (simp add: follows_def)
  next
    case one
    then show ?thesis using evolves_follows [OF assms(2)] by blast
  next
    case more
    then show ?thesis by (auto simp: follows_def same_action_def same_lead_def)
  qed
qed

lemma run_follows: "contact_step\<^sup>*\<^sup>* db db' \<Longrightarrow> contact_ok db \<Longrightarrow> follows db db'"
proof (induction rule: rtranclp_induct)
  case (step y z)
  then show ?case using follows_trans step_follows run_keeps_ok by blast
qed (rule follows_refl)

definition OVER :: "action_status list" where
  "OVER = [A_claimed, A_settled, A_failed, A_expired]"

lemma over_stays_over: "status_hop\<^sup>*\<^sup>* s t \<Longrightarrow> s \<in> set OVER \<Longrightarrow> t \<in> set OVER"
  by (induction rule: rtranclp_induct) (auto simp: OVER_def status_hop_def)

lemma over_later:
  assumes "contact_step\<^sup>*\<^sup>* db db'" "contact_ok db" "a \<in> set (cd_actions db)" "ac_status a \<in> set OVER"
  obtains b where "action_of db' (ac_id a) = Some b" "ac_status b \<in> set OVER"
proof -
  obtain b where b: "b \<in> set (cd_actions db')" "same_action a b" "status_hop\<^sup>*\<^sup>* (ac_status a) (ac_status b)"
    using run_follows [OF assms(1,2)] assms(3) unfolding follows_def by blast
  have "action_of db' (ac_id b) = Some b" by (rule action_of_unique [OF run_keeps_ok [OF assms(1,2)] b(1)])
  then show ?thesis using that over_stays_over [OF b(3) assms(4)] b(2) by (simp add: same_action_def)
qed

subsection \<open>What a claim buys\<close>

lemma bought_rows:
  assumes "claim_skip_trace_rows info lock_held fresh later now action payloads db = Inr (won, rep, db')"
    and "inj fresh" "\<forall>q \<in> set (pending db). p_id q \<notin> range fresh"
  obtains ps where "pending db' = pending db @ map (new_row fresh now action) ps" "won = map pl_result ps" "distinct won"
    "set ps \<subseteq> set payloads" "\<forall>p \<in> set ps. joins_hold db (pl_user p) action p"
proof (rule claim_closed [OF assms])
  assume "won = []" "db' = db"
  then show thesis by (intro that [of "[]"]) simp_all
next
  fix uid acc kept held ps ps'
  assume b: "buyable db uid now (first_by_result (filter payload_is_writable payloads)) = Some (acc, kept, held)"
    and ps: "ps = filter (insertable db uid action) (sort_key pl_result kept)"
      "ps' = filter (\<lambda>p. advanced uid (later (results db)) (pl_result p)) ps"
    and cl: "won = map pl_result ps'"
    and db': "db' = db\<lparr>pending := pending db @ map (new_row fresh now action) ps',
              results := snd (advance_results uid (map pl_result ps) (later (results db)))\<rparr>"
  have "distinct (map pl_result kept)" by (rule buyable_props(2) [OF b first_by_result_props(2)])
  then have d: "distinct won" by (auto simp: cl ps distinct_map intro: inj_on_subset)
  have "set kept \<subseteq> set (filter payload_is_writable payloads)"
    using buyable_props(1) [OF b first_by_result_props(2)] first_by_result_props(1) by (rule subset_trans)
  then have sub: "set ps' \<subseteq> set payloads" by (auto simp: ps)
  have "\<forall>p \<in> set ps'. joins_hold db (pl_user p) action p"
    by (auto simp: ps insertable_def) (auto simp: joins_hold_def split: option.splits)
  then show thesis using d sub by (intro that [of ps']) (simp_all add: db' cl)
qed

definition add_credit :: "payload \<Rightarrow> int option \<Rightarrow> int option" where
  "add_credit p acc = (case (acc, credits_for (pl_trace_type p)) of (Some a, Some c) \<Rightarrow> Some (a + c) | _ \<Rightarrow> None)"

lemma fold_add_credit_None [simp]: "fold add_credit ps None = None"
  by (induction ps) (simp_all add: add_credit_def)

lemma fold_add_credit: "fold add_credit ps (Some s) = Some t \<Longrightarrow> t = s + sum_list (map cost ps)"
proof (induction ps arbitrary: s)
  case (Cons p ps)
  then obtain c where c: "credits_for (pl_trace_type p) = Some c" by (cases "credits_for (pl_trace_type p)") (simp_all add: add_credit_def [of p])
  then have "fold add_credit ps (Some (s + c)) = Some t" using Cons.prems by (simp add: add_credit_def [of p])
  from Cons.IH [OF this] show ?case using c by (simp add: cost_def opt_or_def)
qed simp

lemma credits_sum_cost: "credits_sum ps = Some t \<Longrightarrow> t = sum_list (map cost ps)"
  using fold_add_credit [of ps 0 t] by (simp add: credits_sum_def add_credit_def [abs_def])

lemma same_payloads:
  assumes "distinct (map pl_result ps)" "distinct (map pl_result qs)" "set ps \<subseteq> set qs" "set (map pl_result qs) \<subseteq> set (map pl_result ps)"
  shows "mset ps = mset qs"
proof -
  have "card (set qs) \<le> card (set ps)"
    using card_mono [OF _ assms(4)] distinct_card [OF assms(1)] distinct_card [OF assms(2)] assms(1,2)
    by (simp add: distinct_card distinct_map)
  then have "set ps = set qs" using card_seteq [OF _ assms(3)] by simp
  then show ?thesis using set_eq_iff_mset_eq_distinct [of ps qs] assms(1,2) by (simp add: distinct_map)
qed


lemma image_filtered: "X \<subseteq> f ` A \<Longrightarrow> (\<And>v. v \<in> A \<Longrightarrow> P v \<longleftrightarrow> f v \<in> X) \<Longrightarrow> X = f ` {v \<in> A. P v}"
  by auto

lemma buy_leads_buys:
  assumes ok: "contact_ok db" and a: "a \<in> set (cd_actions db)" and gates: "gates_pass w a token db"
    and run: "buy_leads w a token db = Inr (outcome, db')"
    and ids: "inj (cw_fresh w)" "\<forall>q \<in> set (pending (sk (cd_tables db))). p_id q \<notin> range (cw_fresh w)"
  obtains ps newly reused spent b where
    "pending (sk (cd_tables db')) = pending (sk (cd_tables db)) @ map (new_row (cw_fresh w) (cw_now w) (Some (ac_id a))) ps"
    "outcome = Claimed_leads newly reused spent (length (leads_of db a))" "length ps = newly" "spent = sum_list (map cost ps)"
    "distinct (map pl_result ps)" "\<forall>p \<in> set ps. actions (sk (cd_tables db)) (ac_id a) = Some (pl_user p, pl_job p)"
    "action_of db' (ac_id a) = Some b" "ac_status b = A_claimed"
    "set (map pl_result ps) = v_result ` {v \<in> set (leads_of db' b). v_state v = V_newly_queued}"
proof -
  have st: "ac_status a = A_running" and n0: "int (length (quoted_rows w a db)) = ac_quoted_count a"
    using gates by (simp_all add: gates_pass_def)
  obtain vs reasons t2 won report tables to_claim spent db1 where
    cl: "claim_skip_trace_rows (cw_index w) (\<lambda>j. j = ac_job a) (cw_fresh w) (cw_later w) (cw_now w) (Some (ac_id a)) to_claim (sk t2) =
       Inr (won, report, tables)"
    and t2: "pending (sk t2) = pending (sk (cd_tables db)) \<and> actions (sk t2) = actions (sk (cd_tables db))"
    and n: "length vs = length (quoted_rows w a db)"
    and sv: "set_verdicts (ac_id a) (ac_user a) V_quoted vs reasons (with_tables (\<lambda>_. t2\<lparr> sk := tables \<rparr>) db) = Some db1"
    and mv: "move_action (cw_now w) (ac_id a) A_running A_claimed None (Some token) None (claim_counts vs spent) db1 = Some (True, db')"
    and spent: "credits_sum (filter (\<lambda>p. pl_result p \<in> set won) to_claim) = Some spent"
    and out: "outcome = Claimed_leads (length (filter (\<lambda>v. snd v = V_newly_queued) vs)) (length (filter (\<lambda>v. snd v = V_reused) vs)) spent
       (length (quoted_rows w a db))"
    and newly: "filter (\<lambda>v. snd v = V_newly_queued) vs = map (\<lambda>p. (pl_result p, V_newly_queued)) (filter (\<lambda>p. pl_result p \<in> set won) to_claim)"
    by (rule buy_leads_shape [OF run])
  have len: "int (length vs) = ac_quoted_count a" using n n0 by simp
  note good = claim_is_good [OF ok a st len sv mv]
  let ?b = "moved_row (cw_now w) A_claimed None None (claim_counts vs spent) a"
  let ?bought = "filter (\<lambda>p. pl_result p \<in> set won) to_claim"
  obtain ps where ps: "pending tables = pending (sk t2) @ map (new_row (cw_fresh w) (cw_now w) (Some (ac_id a))) ps" "won = map pl_result ps"
    "distinct won" "set ps \<subseteq> set to_claim" "\<forall>p \<in> set ps. joins_hold (sk t2) (pl_user p) (Some (ac_id a)) p"
    by (rule bought_rows [OF cl ids(1)]) (use ids(2) t2 in simp)
  have "map fst (filter (\<lambda>v. snd v = V_newly_queued) vs) = map pl_result ?bought" unfolding newly by (simp add: comp_def)
  then have dist: "distinct (map pl_result ?bought)" using distinct_map_filter [OF good(2)] by metis
  have "set (map pl_result ?bought) \<subseteq> set (map pl_result ps)" by (auto simp: ps(2))
  then have perm: "mset ps = mset ?bought"
    using ps(2-4) dist by (intro same_payloads) auto
  have count: "length (filter (\<lambda>v. snd v = V_newly_queued) vs) = length ps"
    unfolding newly length_map using perm by (metis size_mset)
  have sum: "spent = sum_list (map cost ps)"
    using credits_sum_cost [OF spent] perm by (metis mset_map sum_mset_sum_list)
  have ev: "evolves a ?b (redecided V_quoted vs) db db'" by (rule good(4))
  have b: "?b \<in> set (cd_actions db')" using ev unfolding evolves_def by force
  have id: "ac_id ?b = ac_id a" using ev by (simp add: evolves_def same_action_def)
  have "action_of db' (ac_id a) = Some ?b"
    using action_of_unique [OF good_change_keeps_ok [OF ok good(1)] b] id by simp
  moreover have "set (map pl_result ps) = v_result ` {v \<in> set (leads_of db' ?b). v_state v = V_newly_queued}"
  proof -
    have key: "redecided V_quoted vs v = V_newly_queued \<longleftrightarrow> v_result v \<in> set (map pl_result ps)" if v: "v \<in> set (leads_of db a)" for v
    proof -
      have quoted: "v_state v = V_quoted" "map_of vs (v_result v) \<noteq> None" using good(6) v by (auto simp: list_all_iff)
      have "redecided V_quoted vs v = V_newly_queued \<longleftrightarrow> (v_result v, V_newly_queued) \<in> set vs"
        unfolding map_of_eq_Some_iff [OF good(2), symmetric] using quoted
        by (cases "map_of vs (v_result v)") (simp_all add: redecided_def opt_or_def)
      also have "\<dots> \<longleftrightarrow> (v_result v, V_newly_queued) \<in> set (filter (\<lambda>v. snd v = V_newly_queued) vs)" by simp
      also have "\<dots> \<longleftrightarrow> v_result v \<in> set (map pl_result ?bought)" unfolding newly by auto
      also have "\<dots> \<longleftrightarrow> v_result v \<in> set (map pl_result ps)" using mset_eq_setD [OF perm] by simp
      finally show ?thesis .
    qed
    have "set (map pl_result ps) = fst ` set (filter (\<lambda>v. snd v = V_newly_queued) vs)"
      unfolding newly using mset_eq_setD [OF perm] by (auto simp: image_image)
    then have "set (map pl_result ps) \<subseteq> v_result ` set (leads_of db a)" using good(3) by auto
    then have "set (map pl_result ps) = v_result ` {v \<in> set (leads_of db a). redecided V_quoted vs v = V_newly_queued}"
      by (rule image_filtered) (rule key)
    also have "\<dots> = v_result ` {v \<in> set (leads_of db' ?b). v_state v = V_newly_queued}"
      unfolding leads_of_evolved [OF ev] by (force simp: image_iff)
    finally show ?thesis .
  qed
  moreover have "length (leads_of db a) = length (quoted_rows w a db)"
    using consistent_action [OF ok a] n0 by (simp add: action_ok_def)
  moreover have "\<forall>p \<in> set ps. actions (sk (cd_tables db)) (ac_id a) = Some (pl_user p, pl_job p)"
    using ps(5) t2 by (auto simp: joins_hold_def)
  ultimately show ?thesis
    using ps t2 good(5) count sum out by (intro that [of ps "length ps" "length (filter (\<lambda>v. snd v = V_reused) vs)" spent ?b]) (auto simp: moved_row_def)
qed

lemma move_keeps_tables: "move_action now aid frm to reason fence tok counts db = Some (hit, db') \<Longrightarrow> cd_tables db' = cd_tables db"
  unfolding move_action_def log_event_def update_action_def by (auto split: if_splits)

lemma fail_keeps_tables: "fail_action now a token why db = Some db' \<Longrightarrow> cd_tables db' = cd_tables db"
  unfolding fail_action_def
  by (auto split: option.splits bool.splits prod.splits dest: move_keeps_tables) (metis move_keeps_tables abandon_quoted_effect(2))

subsection \<open>The settlement\<close>

definition lead_decision :: "datetime \<Rightarrow> contact_db \<Rightarrow> action_row \<Rightarrow> string \<Rightarrow> lead_verdict option" where
  "lead_decision now db a r = (case lead_outcome now db (ac_id a) (ac_user a) r of Verdict v \<Rightarrow> Some v | _ \<Rightarrow> None)"

lemma decision_is_terminal: "lead_decision now db a r = Some v \<Longrightarrow> v \<in> set TERMINAL_ANSWERS"
  unfolding lead_decision_def lead_outcome_def
  by (auto simp: TERMINAL_ANSWERS_def split: option.splits if_splits lead_outcome.splits)

lemma decided_alt: "decided now db a = concat (map (\<lambda>r. case lead_decision now db a r of Some v \<Rightarrow> [(r, v)] | None \<Rightarrow> []) (newly_queued_leads db a))"
  unfolding decided_def lead_decision_def
  by (rule arg_cong [where f = concat], rule map_cong [OF refl]) (simp split: lead_outcome.splits)

lemma map_of_decided:
  "map_of (decided now db a) r = (if r \<in> set (newly_queued_leads db a) then lead_decision now db a r else None)"
proof -
  have "map_of (concat (map (\<lambda>r. case f r of Some v \<Rightarrow> [(r, v)] | None \<Rightarrow> []) rs)) r = (if r \<in> set rs then f r else None)"
    for f :: "string \<Rightarrow> lead_verdict option" and rs
    by (induction rs) (auto split: option.splits)
  then show ?thesis unfolding decided_alt .
qed

lemma length_decided: "length (decided now db a) = length (filter (\<lambda>r. lead_decision now db a r \<noteq> None) (newly_queued_leads db a))"
proof -
  have "length (concat (map (\<lambda>r. case f r of Some v \<Rightarrow> [(r, v)] | None \<Rightarrow> []) rs)) = length (filter (\<lambda>r. f r \<noteq> None) rs)"
    for f :: "string \<Rightarrow> lead_verdict option" and rs
    by (induction rs) (auto split: option.splits)
  then show ?thesis unfolding decided_alt .
qed

lemma newly_queued_leads_alt: "newly_queued_leads db a = map v_result (filter (\<lambda>v. v_state v = V_newly_queued) (leads_of db a))"
  by (simp add: newly_queued_leads_def leads_of_def conj_ac)

lemma after_verdicts_total: "after_verdicts now (ac_id a) db a \<noteq> None"
proof -
  have "filter (verdict_hits (ac_id a) (ac_user a) V_newly_queued (decided now db a)) (cd_verdicts db) =
      filter (\<lambda>v. lead_decision now db a (v_result v) \<noteq> None) (filter (\<lambda>v. v_state v = V_newly_queued) (leads_of db a))"
    unfolding leads_of_def filter_filter
    by (rule filter_cong [OF refl]) (auto simp: verdict_hits_def map_of_decided newly_queued_leads_def)
  then have "length (filter (verdict_hits (ac_id a) (ac_user a) V_newly_queued (decided now db a)) (cd_verdicts db)) = length (decided now db a)"
    by (simp add: length_decided newly_queued_leads_alt filter_map comp_def)
  moreover have "\<not> list_ex (\<lambda>(r, to). to \<notin> set (VERDICT_TRANSITIONS V_newly_queued)) (decided now db a)"
    by (auto simp: list_ex_iff decided_alt split: option.splits dest: decision_is_terminal decision_is_terminal [OF sym])
  ultimately show ?thesis by (simp add: after_verdicts_def set_verdicts_def del: VERDICT_TRANSITIONS.simps)
qed

lemma settle_total: "contact_ok db \<Longrightarrow> settle_visit now aid db \<noteq> None"
proof (cases "\<exists>a. action_of db aid = Some a \<and> ac_status a = A_claimed")
  case False
  then show ?thesis by (auto simp: settle_visit_def split: option.splits)
next
  case True
  then obtain a where a: "action_of db aid = Some a" "ac_status a = A_claimed" by blast
  have id: "ac_id a = aid" using action_of_mem [OF a(1)] by simp
  obtain db1 where "after_verdicts now aid db a = Some db1" using after_verdicts_total [of now a db] id by auto
  then show ?thesis using a
    by (auto simp: settle_visit_def after_verdicts_def Let_def move_action_def flag_action_def FLAGGABLE_def split: if_splits option.splits prod.splits)
qed

text \<open>A visit in one equation: which leads it decides, and the row it leaves.\<close>

lemma settle_result:
  assumes ok: "contact_ok db" and a: "action_of db aid = Some a" "ac_status a = A_claimed"
    and run: "settle_visit now aid db = Some db'"
  obtains b where "action_of db' aid = Some b" "same_action a b" "cd_tables db' = cd_tables db"
    "leads_of db' b = map (\<lambda>v. v\<lparr> v_state := if v_state v = V_newly_queued then opt_or (lead_decision now db a (v_result v)) V_newly_queued
       else v_state v \<rparr>) (leads_of db a)"
    "ac_billable b = count_of BILLABLE_VERDICTS (states_of db' b)"
    "ac_status b = (if list_all (\<lambda>r. lead_decision now db a r \<noteq> None) (newly_queued_leads db a) then A_settled else A_claimed)"
    "ac_status b = A_claimed \<longrightarrow> ac_reason b = map_option flag_text (find (\<lambda>_. True) (blocked_by now db a))"
proof -
  have mem: "a \<in> set (cd_actions db)" and id: "ac_id a = aid" using action_of_mem [OF a(1)] by simp_all
  obtain db1 where db1: "after_verdicts now aid db a = Some db1" "cd_verdicts db' = cd_verdicts db1" "cd_tables db' = cd_tables db1"
    "cd_actions db' = map (\<lambda>x. if ac_id x = ac_id a then settled_row now db db1 a else x) (cd_actions db1)"
    by (rule settle_visit_effect [OF ok a run])
  define g where "g = redecided V_newly_queued (decided now db a)"
  note ev = after_verdicts_evolve [OF ok mem a(2) db1(1) [folded id], folded g_def]
  let ?b = "settled_row now db db1 a"
  have same: "same_action a ?b" by (simp add: settled_row_def same_action_def moved_row_def Let_def)
  have ev': "evolves a ?b g db db'" by (rule evolves_then [OF ev(1) same db1(4,2)])
  have ok': "contact_ok db'" by (rule good_change_keeps_ok [OF ok settle_is_good [OF ok run]])
  have bm: "?b \<in> set (cd_actions db')" using ev' unfolding evolves_def by force
  have all: "length (decided now db a) = length (newly_queued_leads db a) \<longleftrightarrow>
      list_all (\<lambda>r. lead_decision now db a r \<noteq> None) (newly_queued_leads db a)"
    unfolding length_decided list_all_iff using full_filter by (metis (mono_tags, lifting) filter_True)
  show ?thesis
  proof (rule that [of ?b])
    show "action_of db' aid = Some ?b" using action_of_unique [OF ok' bm] same id by (simp add: same_action_def)
    show "leads_of db' ?b = map (\<lambda>v. v\<lparr> v_state := if v_state v = V_newly_queued then opt_or (lead_decision now db a (v_result v)) V_newly_queued
       else v_state v \<rparr>) (leads_of db a)"
      unfolding leads_of_evolved [OF ev'] g_def
      by (rule map_cong [OF refl]) (auto simp: redecided_def map_of_decided newly_queued_mem)
    have "ac_billable ?b = int (billable_leads db1 a)" by (simp add: settled_row_def moved_row_def Let_def)
    then show "ac_billable ?b = count_of BILLABLE_VERDICTS (states_of db' ?b)"
      using billable_leads_states leads_of_evolved_self [OF ev(1)] leads_of_evolved_self [OF ev'] by simp
    show "ac_status ?b = (if list_all (\<lambda>r. lead_decision now db a r \<noteq> None) (newly_queued_leads db a) then A_settled else A_claimed)"
      using a(2) unfolding all [symmetric] by (simp add: settled_row_def moved_row_def)
    show "ac_status ?b = A_claimed \<longrightarrow> ac_reason ?b = map_option flag_text (find (\<lambda>_. True) (blocked_by now db a))"
      by (simp add: settled_row_def moved_row_def Let_def split: if_splits)
    show "cd_tables db' = cd_tables db" using db1(3) ev(4) by simp
  qed (rule same)
qed

end
