(* ===== verification/ContactLookups.thy ===== *)
theory ContactLookups
  imports ContactSteps
begin

text \<open>
  The contact-lookup actions end to end: the consistency of the tables, one purchase per action, what a claim buys, what
  a settlement states, and the lead that never settles. Each property is witnessed on one concrete run.
\<close>

subsection \<open>A run\<close>

definition contact_tables :: dispatch_db where
  "contact_tables =
     \<lparr> sk = claim_db\<lparr> users := [''u1'' \<mapsto> sample_user], pending := [],
              results := (\<lambda>i. if i = ''r1'' \<or> i = ''r2'' then Some (sample_result\<lparr> r_skip_trace_status := ''not_attempted'' \<rparr>) else None) \<rparr>,
       answers = Map.empty, djobs = [sample_job\<lparr> j_status := DONE \<rparr>],
       dleads = (\<lambda>i. if i = ''r1'' \<or> i = ''r2'' then Some (sample_lead i ''LEE, ANN'') else None) \<rparr>"

definition contact_start :: contact_db where
  "contact_start = \<lparr> cd_tables = contact_tables, cd_actions = [], cd_verdicts = [], cd_events = [] \<rparr>"

definition contact_world :: claim_world where
  "contact_world =
     \<lparr> cw_now = DateTime 2026 3 2 60000000, cw_enabled = True, cw_pierce = False, cw_lock = True, cw_index = Some sample_index,
       cw_fresh = sample_fresh, cw_later = id, cw_created = (\<lambda>_. DateTime 2026 3 1 0), cw_days = 90, cw_sha = id,
       cw_build = (\<lambda>l. if ld_id l = ''r1'' then Some (sample_payload ''r1'') else None) \<rparr>"

definition contact_confirmed :: contact_db where
  "contact_confirmed = snd (confirm_contact_lookups (DateTime 2026 3 2 0) ''a1'' ''u1'' ''j1'' ''q1'' [''r1'', ''r2''] False contact_start)"

definition contact_running :: contact_db where
  "contact_running = (case start_action (DateTime 2026 3 2 1) ''a1'' ''t1'' contact_confirmed of Some (_, db) \<Rightarrow> db | None \<Rightarrow> contact_start)"

definition contact_claimed :: contact_db where
  "contact_claimed = (case claim_action contact_world ''a1'' ''t1'' contact_running of Inr (_, db) \<Rightarrow> db | Inl _ \<Rightarrow> contact_start)"

lemma contact_confirmed_run: "\<exists>r. confirm_contact_lookups (DateTime 2026 3 2 0) ''a1'' ''u1'' ''j1'' ''q1'' [''r1'', ''r2''] False contact_start = (r, contact_confirmed)"
  unfolding contact_confirmed_def by (metis prod.collapse)

lemma contact_running_run: "start_action (DateTime 2026 3 2 1) ''a1'' ''t1'' contact_confirmed = Some (True, contact_running)"
proof -
  have "map_option fst (start_action (DateTime 2026 3 2 1) ''a1'' ''t1'' contact_confirmed) = Some True" by code_simp
  then show ?thesis unfolding contact_running_def by (auto split: option.splits)
qed

lemma contact_claimed_run: "claim_action contact_world ''a1'' ''t1'' contact_running = Inr (Claimed_leads 1 0 2 2, contact_claimed)"
proof -
  have "(case claim_action contact_world ''a1'' ''t1'' contact_running of Inr (r, db) \<Rightarrow> Some r | Inl _ \<Rightarrow> None) = Some (Claimed_leads 1 0 2 2)"
    by code_simp
  then show ?thesis unfolding contact_claimed_def by (auto split: sum.splits)
qed

lemma contact_steps: "contact_step\<^sup>*\<^sup>* contact_start contact_running" "contact_step\<^sup>*\<^sup>* contact_start contact_claimed"
proof -
  have "contact_step contact_start contact_confirmed"
    using contact_confirmed_run contact_step.confirmed by (auto simp: contact_start_def)
  then show run: "contact_step\<^sup>*\<^sup>* contact_start contact_running"
    using contact_step.started [OF contact_running_run] by (blast intro: rtranclp.intros)
  show "contact_step\<^sup>*\<^sup>* contact_start contact_claimed"
    using run contact_step.claimed [OF contact_claimed_run] by (blast intro: rtranclp.intros)
qed

lemma contact_start_empty: "no_actions contact_start"
  by (simp add: no_actions_def contact_start_def)

lemmas contact_sample_ok = run_keeps_ok [OF contact_steps(1) no_actions_ok [OF contact_start_empty]]
  run_keeps_ok [OF contact_steps(2) no_actions_ok [OF contact_start_empty]]

subsection \<open>Properties\<close>

text \<open>
  C8: Over any interleaving of confirmations, workers, reconciler passes and other transactions the action tables stay
  consistent: an action and a quote are unique, a lease is held exactly while running, an action waiting or running has
  only quoted leads, one that ended without a purchase only abandoned ones, a claimed one no quoted lead and the counts
  of its verdicts, and a settled one no open lead and the billable count its verdicts state.
\<close>

theorem contact_actions_consistent:
  assumes "contact_step\<^sup>*\<^sup>* db0 db" "no_actions db0"
  shows "contact_ok db \<and>
    (\<forall>a \<in> set (cd_actions db). int (length (leads_of db a)) = ac_quoted_count a \<and> (ac_lease a \<noteq> None) = (ac_status a = A_running) \<and>
       phase_ok (ac_status a) (states_of db a) \<and> counts_ok (states_of db a) a)"
  using run_keeps_ok [OF assms(1) no_actions_ok [OF assms(2)]]
  by (simp add: contact_ok_def action_ok_def) (simp add: states_of_def)

theorem contact_actions_consistent_witness:
  "contact_ok contact_claimed \<and> map ac_status (cd_actions contact_claimed) = [A_claimed] \<and>
   map v_state (cd_verdicts contact_claimed) = [V_newly_queued, V_not_traceable]"
proof -
  have "map ac_status (cd_actions contact_claimed) = [A_claimed] \<and>
      map v_state (cd_verdicts contact_claimed) = [V_newly_queued, V_not_traceable]" by code_simp
  then show ?thesis using contact_actions_consistent [OF contact_steps(2) contact_start_empty] by simp
qed

text \<open>
  C9: An action buys at most once: once it is claimed, settled, failed or expired, whatever runs in between, a delivery of
  its task does nothing at all and a claim under any lease token is fenced.
\<close>

theorem lookups_bought_once:
  assumes "contact_step\<^sup>*\<^sup>* db0 db1" "no_actions db0" "a \<in> set (cd_actions db1)" "ac_status a \<in> set OVER" "contact_step\<^sup>*\<^sup>* db1 db2"
  shows "claim_action w (ac_id a) token db2 = Inr (Fenced, db2) \<and> run_action now new meanwhile w (ac_id a) db2 = (None, db2)"
proof -
  have ok: "contact_ok db1" by (rule run_keeps_ok [OF assms(1) no_actions_ok [OF assms(2)]])
  obtain b where b: "action_of db2 (ac_id a) = Some b" "ac_status b \<in> set OVER"
    by (rule over_later [OF assms(5) ok assms(3,4)])
  have ok2: "contact_ok db2" by (rule run_keeps_ok [OF assms(5) ok])
  have mem: "b \<in> set (cd_actions db2)" "ac_id b = ac_id a" using action_of_mem [OF b(1)] by simp_all
  have st: "ac_status b \<noteq> A_running" "ac_status b \<noteq> A_dispatching" using b(2) by (auto simp: OVER_def)
  have none: "\<not> list_ex (move_hits now (ac_id a) A_dispatching A_running None) (cd_actions db2)"
    using actions_by_id [OF ok2 mem(1)] mem(2) st(2) by (auto simp: list_ex_iff move_hits_def)
  have "start_action now (ac_id a) new db2 = Some (False, db2)"
    using none by (simp add: start_action_def move_action_def)
  then show ?thesis using b(1) st(1) by (simp add: claim_action_def run_action_def)
qed

theorem lookups_bought_once_witness:
  "\<exists>a. a \<in> set (cd_actions contact_claimed) \<and> ac_status a = A_claimed \<and>
     claim_action contact_world (ac_id a) ''t1'' contact_claimed = Inr (Fenced, contact_claimed)"
proof -
  have "map ac_status (cd_actions contact_claimed) = [A_claimed]" by code_simp
  then obtain a where a: "a \<in> set (cd_actions contact_claimed)" "ac_status a = A_claimed" by (cases "cd_actions contact_claimed") auto
  from lookups_bought_once [OF contact_steps(2) contact_start_empty a(1) _ rtranclp.rtrancl_refl] a show ?thesis
    by (auto simp: OVER_def)
qed

text \<open>
  C10: The claiming transaction buys exactly what it records: unless it ends claimed it leaves every other table alone, and
  when it does every gate held, its new queue rows belong to the action's account and run, are one per lead with the verdict
  newly queued, and their number and price are what the action is charged with.
\<close>

theorem claim_buys_what_it_records:
  assumes "contact_ok db" "claim_action w aid token db = Inr (outcome, db')"
    "inj (cw_fresh w)" "\<forall>q \<in> set (pending (sk (cd_tables db))). p_id q \<notin> range (cw_fresh w)"
  shows "case outcome of
      Claimed_leads newly reused spent quoted \<Rightarrow>
        (\<exists>a b ps. action_of db aid = Some a \<and> gates_pass w a token db \<and> action_of db' aid = Some b \<and> ac_status b = A_claimed \<and>
           pending (sk (cd_tables db')) = pending (sk (cd_tables db)) @ map (new_row (cw_fresh w) (cw_now w) (Some aid)) ps \<and>
           length ps = newly \<and> sum_list (map cost ps) = spent \<and> quoted = length (leads_of db a) \<and> distinct (map pl_result ps) \<and>
           (\<forall>p \<in> set ps. actions (sk (cd_tables db)) aid = Some (pl_user p, pl_job p)) \<and>
           set (map pl_result ps) = v_result ` {v \<in> set (leads_of db' b). v_state v = V_newly_queued})
    | _ \<Rightarrow> cd_tables db' = cd_tables db"
  using assms(2)
proof (cases rule: claim_action_cases)
  case (2 why)
  then show ?thesis using move_keeps_tables by (auto simp: wait_action_def)
next
  case (3 a why)
  then show ?thesis using fail_keeps_tables by simp
next
  case (4 a)
  have a: "a \<in> set (cd_actions db)" "ac_id a = aid" using action_of_mem [OF 4(1)] by simp_all
  show ?thesis
    by (rule buy_leads_buys [OF assms(1) a(1) 4(2,3) assms(3,4)]) (use 4(1,2) a(2) in auto)
qed simp

theorem claim_buys_what_it_records_witness:
  "\<exists>p. pending (sk (cd_tables contact_claimed)) = [new_row sample_fresh (DateTime 2026 3 2 60000000) (Some ''a1'') p] \<and> cost p = 2"
proof -
  have none: "pending (sk (cd_tables contact_running)) = []" by code_simp
  from claim_buys_what_it_records [OF contact_sample_ok(1) contact_claimed_run] none sample_fresh_inj show ?thesis
    by (auto simp: contact_world_def length_Suc_conv)
qed

text \<open>
  The lookup comes back: the provider's transactions leave the row completed and the lead a hit. A dispatcher tick that
  answers the queued row from another account's lookup leaves it \<^verbatim>\<open>reused\<close> instead.
\<close>

definition answered_by :: "pending_status \<Rightarrow> contact_db" where
  "answered_by s = contact_claimed\<lparr> cd_tables :=
     update_results (\<lambda>i r. i = ''r1'') (\<lambda>r. r\<lparr> r_skip_trace_status := ''hit'' \<rparr>)
       (update_pending (\<lambda>p. True) (\<lambda>p. p\<lparr> p_status := s \<rparr>) (cd_tables contact_claimed)) \<rparr>"

lemma answered_by_ok: "contact_ok (answered_by s)"
  unfolding answered_by_def by (simp add: contact_sample_ok(2))

text \<open>
  C11: A settlement never bills and states what billing did: the visit cannot fail, changes no other table, moves exactly the
  open leads whose queue row, result and recorded billing decision name a verdict, counts the billable ones anew, and settles
  the action exactly when no lead is left open, else keeps it claimed under the first flag in reporting order.
\<close>

theorem settlement_states_what_billing_did:
  assumes "contact_ok db" "action_of db aid = Some a" "ac_status a = A_claimed"
  shows "\<exists>db' b. settle_visit now aid db = Some db' \<and> action_of db' aid = Some b \<and> cd_tables db' = cd_tables db \<and>
    leads_of db' b = map (\<lambda>v. v\<lparr> v_state := if v_state v = V_newly_queued then opt_or (lead_decision now db a (v_result v)) V_newly_queued
       else v_state v \<rparr>) (leads_of db a) \<and>
    ac_billable b = count_of BILLABLE_VERDICTS (states_of db' b) \<and>
    ac_status b = (if list_all (\<lambda>r. lead_decision now db a r \<noteq> None) (newly_queued_leads db a) then A_settled else A_claimed) \<and>
    (ac_status b = A_claimed \<longrightarrow> ac_reason b = map_option flag_text (find (\<lambda>_. True) (blocked_by now db a)))"
proof -
  obtain db' where run: "settle_visit now aid db = Some db'" using settle_total [OF assms(1), of now aid] by auto
  show ?thesis
    by (rule settle_result [OF assms run]) (use run in blast)
qed

theorem settlement_states_what_billing_did_witness:
  "\<exists>db' b. settle_visit (DateTime 2026 3 4 0) ''a1'' (answered_by P_completed) = Some db' \<and> action_of db' ''a1'' = Some b \<and>
     ac_status b = A_settled \<and> ac_billable b = 1"
proof -
  have "map_option ac_status (action_of (answered_by P_completed) ''a1'') = Some A_claimed" by code_simp
  then obtain a where a: "action_of (answered_by P_completed) ''a1'' = Some a" "ac_status a = A_claimed" by auto
  have "(case settle_visit (DateTime 2026 3 4 0) ''a1'' (answered_by P_completed) of None \<Rightarrow> None
      | Some db' \<Rightarrow> map_option (\<lambda>b. (ac_status b, ac_billable b)) (action_of db' ''a1'')) = Some (A_settled, 1)" by code_simp
  then show ?thesis
    using settlement_states_what_billing_did [OF answered_by_ok a, of "DateTime 2026 3 4 0"] by (auto split: option.splits)
qed

text \<open>
  C12: A lead whose queue row the dispatcher answered from a known answer (status \<^verbatim>\<open>reused\<close>) is never decided and never
  flagged: every visit leaves it open and its action claimed, without a flag when nothing else blocks it, so the action never
  settles and is selected again by the group of unflagged actions with nothing active.
\<close>

theorem reused_lead_never_settles:
  assumes "contact_ok db" "action_of db aid = Some a" "ac_status a = A_claimed" "r \<in> set (newly_queued_leads db a)"
    "current_row db aid (ac_user a) r = Some p" "p_status p = P_reused" "settle_visit now aid db = Some db'"
  shows "\<exists>b. action_of db' aid = Some b \<and> ac_status b = A_claimed \<and> r \<in> set (newly_queued_leads db' b) \<and>
    (blocked_by now db a = [] \<longrightarrow> ac_reason b = None)"
proof -
  have id: "ac_id a = aid" using action_of_mem [OF assms(2)] by simp
  have none: "lead_decision now db a r = None"
    using assms(5,6) id by (simp add: lead_decision_def lead_outcome_def)
  obtain b where b: "action_of db' aid = Some b" "same_action a b" "cd_tables db' = cd_tables db"
    "leads_of db' b = map (\<lambda>v. v\<lparr> v_state := if v_state v = V_newly_queued then opt_or (lead_decision now db a (v_result v)) V_newly_queued
       else v_state v \<rparr>) (leads_of db a)"
    "ac_billable b = count_of BILLABLE_VERDICTS (states_of db' b)"
    "ac_status b = (if list_all (\<lambda>r. lead_decision now db a r \<noteq> None) (newly_queued_leads db a) then A_settled else A_claimed)"
    "ac_status b = A_claimed \<longrightarrow> ac_reason b = map_option flag_text (find (\<lambda>_. True) (blocked_by now db a))"
    by (rule settle_result [OF assms(1-3,7)])
  have "ac_status b = A_claimed" using b(6) none assms(4) by (auto simp: list_all_iff)
  moreover have "r \<in> set (newly_queued_leads db' b)"
    using assms(4) none unfolding newly_queued_mem b(4) by (force simp: opt_or_def)
  ultimately show ?thesis using b(1,7) by auto
qed

theorem reused_lead_never_settles_witness:
  "\<exists>db' b. settle_visit (DateTime 2026 3 4 0) ''a1'' (answered_by P_reused) = Some db' \<and> action_of db' ''a1'' = Some b \<and>
     ac_status b = A_claimed \<and> ac_reason b = None"
proof -
  let ?db = "answered_by P_reused"
  have "map_option ac_status (action_of ?db ''a1'') = Some A_claimed" by code_simp
  then obtain a where a: "action_of ?db ''a1'' = Some a" "ac_status a = A_claimed" by auto
  have the: "the (action_of ?db ''a1'') = a" using a(1) by simp
  have new: "newly_queued_leads ?db (the (action_of ?db ''a1'')) = [''r1'']" by code_simp
  have free: "blocked_by (DateTime 2026 3 4 0) ?db (the (action_of ?db ''a1'')) = []" by code_simp
  have "map_option p_status (current_row ?db ''a1'' (ac_user (the (action_of ?db ''a1''))) ''r1'') = Some P_reused" by code_simp
  then obtain p where p: "current_row ?db ''a1'' (ac_user a) ''r1'' = Some p" "p_status p = P_reused" unfolding the by auto
  obtain db' where run: "settle_visit (DateTime 2026 3 4 0) ''a1'' (answered_by P_reused) = Some db'"
    using settle_total [OF answered_by_ok, of "DateTime 2026 3 4 0" "''a1''" P_reused] by blast
  show ?thesis using reused_lead_never_settles [OF answered_by_ok a _ p run] new free run unfolding the by auto
qed

end
