(* ===== verification/Spec2Isabelle.thy ===== *)
theory Spec2Isabelle
  imports QuotaPolicy Entitlements SseLeases SkipTraceUsage SkipTraceClaim SkipTraceCapacity PauseState
    Dedup Finalize BillingBeats DispatchTick MeterOutbox ContactLookups
begin

text \<open>
  A verification of the core of BridgeLeads, a service that scrapes county records into leads, bills the
  leads it delivers against a monthly record quota, and sells contact lookups (skip traces) of them. The
  code under verification is the Python of \<^verbatim>\<open>src/src\<close>; a path below is relative to it.

  \<^bold>\<open>The program.\<close> A customer's scraper runs as a job. A worker claims the job (an attempt), scrapes and
  saves rows, collapses rows of one property, enriches them, takes over claims of runs that delivered
  nothing, reserves quota for what is deliverable, caps the run to the grant, exports, and finally bills and
  marks the job done in one transaction. A watchdog recovers silent attempts, customers cancel, sweeps give
  back what crashed runs left reserved. Lookups are claimed into a queue, dispatched under spending caps,
  and metered to Stripe. PostgreSQL and Redis hold all state; each function here is one transaction or one
  script, and an interleaving is a sequence of them.

  \<^bold>\<open>Theories.\<close>
  \<^item> \<open>Prelude\<close>: Python's string and optional-value operations, sorting and list lemmas. \<open>Calendar\<close>: UTC
    datetimes, a linear order, days and instants, month arithmetic.
  \<^item> \<open>QuotaWindow\<close> (\<^verbatim>\<open>api/quota_window.py\<close>, migration 088): the \<^verbatim>\<open>users\<close> row, the monthly boundary grid, rolling
    a window, and the SQL twins of each. The locale \<open>boundary_grid\<close> states what the grid search needs of
    the boundaries, and is interpreted on \<open>add_months\<close>.
  \<^item> \<open>QuotaPolicy\<close> (\<^verbatim>\<open>api/quota.py\<close>): what the enqueue gate and the usage page show.
  \<^item> \<open>Plans\<close> (\<^verbatim>\<open>config\<close>) and \<open>Entitlements\<close> (\<^verbatim>\<open>api/entitlements.py\<close>): plan tables, violations, the choice of
    counties and the reconciliation after a plan change.
  \<^item> \<open>SseLeases\<close> (\<^verbatim>\<open>api/sse_leases.py\<close>): live-stream leases over the locale \<open>redis_zset\<close>, the documented
    behaviour of a Redis sorted set, interpreted on finite maps.
  \<^item> \<open>SkipTables\<close>, \<open>SkipTraceUsage\<close>, \<open>SkipTraceClaim\<close>, \<open>SkipTraceCapacity\<close>, \<open>PauseState\<close>
    (\<^verbatim>\<open>api/billing/skip_trace_usage.py\<close>, \<^verbatim>\<open>workers/skip_trace_claim.py\<close>, \<^verbatim>\<open>workers/skip_trace_capacity.py\<close>,
    \<^verbatim>\<open>utils/skip_trace_pause_state.py\<close>, parts of \<^verbatim>\<open>workers/skip_trace_dispatcher.py\<close>): the lookup tables, the
    overage counter and the Stripe gate, the claim transaction, the caps with their fair allocation and
    resume times, and the published pause view.
  \<^item> \<open>Jobs\<close> (\<^verbatim>\<open>tasks_helpers/status.py\<close>, \<^verbatim>\<open>scheduler_helpers/health.py\<close>): the \<^verbatim>\<open>jobs\<close> row and every guarded
    write to it, as the events of a transition system.
  \<^item> \<open>QuotaLedger\<close> (\<^verbatim>\<open>workers/tasks.py\<close>, \<^verbatim>\<open>tasks_helpers/finalize.py\<close> and \<^verbatim>\<open>status.py\<close>): reserve, settle,
    release and sweep, and the meter without reservations that they refine.
  \<^item> \<open>PropertyIdentity\<close> (\<^verbatim>\<open>workers/property_identity.py\<close>), \<open>Leads\<close> (\<^verbatim>\<open>api/lead_actionability.py\<close>,
    \<^verbatim>\<open>api/results_category.py\<close>, \<^verbatim>\<open>api/tax_filters.py\<close>, \<^verbatim>\<open>utils/lead_signals.py\<close>,
    \<^verbatim>\<open>tasks_helpers/plan_cap.py\<close>): identity keys, the row of \<^verbatim>\<open>results\<close>, what counts as a lead, and the cap.
  \<^item> \<open>RunBreakdown\<close> (\<^verbatim>\<open>api/run_breakdown.py\<close>): the partition of a run's rows and the frozen counts.
  \<^item> \<open>Dedup\<close> (\<^verbatim>\<open>tasks_helpers/dedup.py\<close>): who is billed for a property, within a run and across runs.
  \<^item> \<open>Finalize\<close> (\<^verbatim>\<open>tasks_helpers/finalize.py\<close>): the billing transaction and every way out of it; it joins
    \<open>Jobs\<close>, \<open>QuotaLedger\<close>, \<open>Leads\<close> and \<open>RunBreakdown\<close>.
  \<^item> \<open>BillingLifecycle\<close> (\<^verbatim>\<open>api/billing_entitlement.py\<close>), \<open>BillingWebhook\<close> (\<^verbatim>\<open>api/routes/billing.py\<close>),
    \<open>BillingBeats\<close> (\<^verbatim>\<open>scheduler_helpers/billing.py\<close>): the subscription state machine, the webhook route after its
    signature check with its event ledger and five handlers, and the hourly beats.
  \<^item> \<open>LookupSubject\<close> (\<^verbatim>\<open>scrapers/enrichment/skip_trace.py\<close>): cache keys and the contacts picked from an answer.
    \<open>SubmitOutcome\<close>, \<open>DispatchPass\<close>, \<open>DispatchSubmit\<close>, \<open>Reconcile\<close>, \<open>DispatchTick\<close>
    (\<^verbatim>\<open>workers/skip_trace_dispatcher.py\<close>): how a failed POST is read, the claim of a batch, the submission with its
    partial resubmit and bookkeeping, the reconciler, and the whole tick, a run of
    the steps its invariant, one lookup per subject, is proved for (lemma \<open>tick_steps\<close>).
    \<open>ProviderIngest\<close> (\<^verbatim>\<open>workers/tracerfy_ingest.py\<close>): the result file of a batch, applied once.
    \<open>MeterOutbox\<close> (\<^verbatim>\<open>scheduler_helpers/meter.py\<close>, \<^verbatim>\<open>scripts/settle_skip_trace_meter_rows.py\<close>): the usage events and
    an operator's decisions on them.
  \<^item> \<open>ContactActions\<close> (\<^verbatim>\<open>workers/contact_lookup_action.py\<close>, \<^verbatim>\<open>scheduler_helpers/contact_lookups.py\<close>): the action
    tables, the one writer of statuses and of verdicts, the confirmation and the reconciler.
    \<open>ContactPlanner\<close> (\<^verbatim>\<open>api/contact_lookup_planner.py\<close>): which leads a quote names. \<open>ContactClaim\<close>: the worker's two
    transactions. \<open>ContactSteps\<close>: their invariant and step relation. \<open>ContactLookups\<close>: the properties on a run.

  \<^bold>\<open>How state is represented.\<close> A table is a list of records (a map where only the key matters); an UPDATE is
  \<open>update_where\<close>, which returns the row count its caller tests. An exception, a missing row and an early
  return are values of a sum or option type. Clocks, random draws, SHA-256, collation, the JSON parser,
  Stripe and Redis are arguments. A read that is not under a lock is an argument too, so it may be stale. In
  \<open>Finalize\<close> and \<open>BillingBeats\<close> an environment argument is whatever other transactions commit between two
  statements, in \<open>SkipTraceClaim\<close> what they do to \<^verbatim>\<open>results\<close> between the INSERT and the UPDATE. An ingest task is two
  steps, its unlocked check with the download and its transaction, so that tasks of one queue overlap.

  \<^bold>\<open>What is proved.\<close> Windows: a roll covers its instant and is never repeated; SQL and
  Python agree. Ledger: reservations refine a meter that has none, take an account past its limit only by what a
  run bills without a live grant, and are all given back. Attempts: tokens are unique, a superseded attempt
  writes nothing, a terminal job stays as it is, a job is attempted at most four times. Leads: one billing per
  property in a run, for its best row, claims move only from runs that delivered nothing, the cap delivers the
  first leads of its order, every row is counted once. Finalization: billed and done together or not at all, at
  most once whatever other attempts do, and a capped run bills exactly its grant. Lookups: overage is billed
  once, only under an active paid subscription; a lead is queued at most once, a blocked account queues nothing,
  a trial stays within its allowance; no cap is passed; allocation is fair; what a customer reads about a pause
  is true. Subscriptions: a webhook raises only what is paid and applies each event once, a conversion opens one
  fresh window, a plan change reaches its target without taking quota from the live window, the beats spare
  payers and release who stopped paying. Provider: no two lookups out are for one subject, a batch is ingested
  once and settles each of its rows, contacts change only where the answer is certain, and the reconciler acts
  only on proof. Metering: every event at Stripe carries the units and time of one outbox row, once. Actions:
  the tables stay consistent, an action buys at most once and exactly what it records, and a settlement states
  what billing did; a lead answered from a known answer is never settled (a defect, with its witness).

  \<^bold>\<open>Bounds and fuel.\<close> The grid search needs no fuel (its measures are the months left); the recursive index
  scan of \<open>SkipTraceCapacity\<close> runs on a list it shortens; a pass refills at most \<^verbatim>\<open>REFILL_MAX_ROUNDS\<close> times and
  the recursion counts those rounds, as the loop of the source does. Integers are Python's, so \<open>int\<close>; Redis numbers are
  compared as the padded strings the script compares. Text is ASCII.

  \<^bold>\<open>Not modelled.\<close> The scrapers, GIS and assessor enrichment (their input is third-party HTML); the HTTP routes
  other than the webhook, the cancel and the confirmation's transaction, schemas, authentication and
  middleware; the parsing of party names and addresses into a lookup payload (a parameter, every lemma holds for
  any payload builder); HTTP itself (the provider's replies, its queue list and its files are arguments); mail, webhooks, dialers and file exports; property-membership upserts; log lines, notifications,
  alerts and metrics, which carry no state a theorem here speaks of. Lock waits are not modelled: a lock is
  the boundary of a transaction.
\<close>

end
